(* ===== verification/Prelude.thy ===== *)
theory Prelude
  imports Main "HOL-Library.Word" "HOL-Library.State_Monad" "HOL-Library.Multiset"
begin

text \<open>
  Shared vocabulary of the socketpp development.

  \<^item> machine types (\<open>byte\<close>, \<open>u16\<close>, \<open>u32\<close>, \<open>u64\<close>) and C integers as \<open>int\<close> with the
    truncating casts written out;
  \<^item> byte-level memory: little-endian encoding of host integers, byte swapping, and bounded
    writes into a fixed array (an out-of-bounds write is the value \<open>None\<close>);
  \<^item> the operating system: every system call is an event of a trace, and its answer is
    given by an arbitrary function \<open>kernel\<close> of the trace so far. All theorems hold for
    every kernel, so no behaviour of the operating system is assumed;
  \<^item> descriptor accounting over a trace (\<open>live_fds\<close>), the resource measure used by every
    factory function of the library;
  \<^item> a generic invariant principle for step relations, as a locale.
\<close>

section \<open>Rule collections\<close>

named_theorems mem_simps \<open>length and access facts of byte memory\<close>
named_theorems io_simps \<open>evaluation of the system-call monad\<close>
named_theorems live_simps \<open>descriptor accounting\<close>
named_theorems wp_intros \<open>weakest preconditions over the open descriptors\<close>
named_theorems yields_intros \<open>rules for what a computation returns\<close>
named_theorems neutral_intros \<open>computations that open and close no descriptor\<close>
named_theorems dispatch_simps \<open>dispatcher bookkeeping\<close>

section \<open>Machine types\<close>

type_synonym byte = "8 word"
type_synonym u16 = "16 word"
type_synonym u32 = "32 word"
type_synonym u64 = "64 word"
type_synonym socket_t = int

datatype platform = Linux | MacOS | Windows

text \<open>Conversion of a wider integer to the 32-bit \<open>int\<close> of C++ (two's complement truncation).\<close>

definition to_int32 :: "int \<Rightarrow> int" where
  "to_int32 x = sint (word_of_int x :: 32 word)"

lemma to_int32_id:
  assumes "- (2 ^ 31) \<le> x" and "x < 2 ^ 31"
  shows "to_int32 x = x"
  using assms by (simp add: to_int32_def sint_word_ariths signed_of_int signed_take_bit_int_eq_self)

section \<open>Little-endian byte encoding\<close>

primrec le_bytes :: "nat \<Rightarrow> nat \<Rightarrow> byte list" where
  "le_bytes 0 n = []"
| "le_bytes (Suc k) n = word_of_nat n # le_bytes k (n div 256)"

primrec le_val :: "byte list \<Rightarrow> nat" where
  "le_val [] = 0"
| "le_val (b # bs) = unat b + 256 * le_val bs"

lemma length_le_bytes [simp]: "length (le_bytes k n) = k"
  by (induction k arbitrary: n) auto

lemma le_val_le_bytes: "le_val (le_bytes k n) = n mod 256 ^ k"
proof (induction k arbitrary: n)
  case 0
  then show ?case by simp
next
  case (Suc k)
  have "le_val (le_bytes (Suc k) n) = n mod 256 + 256 * (n div 256 mod 256 ^ k)"
    using Suc.IH by (simp add: unat_of_nat)
  also have "\<dots> = n mod (256 * 256 ^ k)"
    by (simp add: mod_mult2_eq)
  finally show ?case by simp
qed

lemma le_val_less: "le_val bs < 256 ^ length bs"
proof (induction bs)
  case Nil
  then show ?case by simp
next
  case (Cons b bs)
  have "unat b < 2 ^ LENGTH(8)" by (rule unsigned_less)
  with Cons show ?case by simp
qed

lemma le_bytes_le_val: "length bs = k \<Longrightarrow> le_bytes k (le_val bs) = bs"
proof (induction bs arbitrary: k)
  case Nil
  then show ?case by simp
next
  case (Cons b bs)
  then obtain j where k: "k = Suc j" and j: "length bs = j" by (cases k) auto
  have "unat b < 2 ^ LENGTH(8)" by (rule unsigned_less)
  then have ub: "unat b < 256" by simp
  have "(word_of_nat (unat b + 256 * le_val bs) :: byte) = b"
  proof -
    have "unat (word_of_nat (unat b + 256 * le_val bs) :: byte) = unat b"
      using ub by (simp only: unat_of_nat) simp
    then show ?thesis by (simp only: word_unat_eq_iff)
  qed
  moreover have "(unat b + 256 * le_val bs) div 256 = le_val bs"
    using ub by simp
  ultimately show ?case
    using Cons.IH [OF j] by (simp add: k)
qed

text \<open>Byte swapping of the \<open>htons\<close>/\<open>htonl\<close> family on a little-endian host.\<close>

definition htons :: "u16 \<Rightarrow> u16" where
  "htons x = word_of_nat (le_val (rev (le_bytes 2 (unat x))))"

definition htonl :: "u32 \<Rightarrow> u32" where
  "htonl x = word_of_nat (le_val (rev (le_bytes 4 (unat x))))"

abbreviation ntohs :: "u16 \<Rightarrow> u16" where "ntohs \<equiv> htons"
abbreviation ntohl :: "u32 \<Rightarrow> u32" where "ntohl \<equiv> htonl"

lemma unat_htons: "unat (htons x) = le_val (rev (le_bytes 2 (unat x)))"
proof -
  have "le_val (rev (le_bytes 2 (unat x))) < 256 ^ length (rev (le_bytes 2 (unat x)))"
    by (rule le_val_less)
  then have "le_val (rev (le_bytes 2 (unat x))) < 2 ^ LENGTH(16)" by simp
  then show ?thesis unfolding htons_def unat_of_nat by simp
qed

lemma unat_htonl: "unat (htonl x) = le_val (rev (le_bytes 4 (unat x)))"
proof -
  have "le_val (rev (le_bytes 4 (unat x))) < 256 ^ length (rev (le_bytes 4 (unat x)))"
    by (rule le_val_less)
  then have "le_val (rev (le_bytes 4 (unat x))) < 2 ^ LENGTH(32)" by simp
  then show ?thesis unfolding htonl_def unat_of_nat by simp
qed

lemma le_bytes_htons: "le_bytes 2 (unat (htons x)) = rev (le_bytes 2 (unat x))"
  by (simp only: unat_htons) (rule le_bytes_le_val, simp)

lemma le_bytes_htonl: "le_bytes 4 (unat (htonl x)) = rev (le_bytes 4 (unat x))"
  by (simp only: unat_htonl) (rule le_bytes_le_val, simp)

lemma htons_htons [simp]: "htons (htons x) = x"
proof -
  have "unat (htons (htons x)) = le_val (le_bytes 2 (unat x))"
    by (simp only: unat_htons [of "htons x"] le_bytes_htons rev_rev_ident)
  also have "\<dots> = unat x"
  proof -
    have "unat x < 2 ^ LENGTH(16)" by (rule unsigned_less)
    then show ?thesis by (simp add: le_val_le_bytes)
  qed
  finally show ?thesis by (simp only: word_unat_eq_iff)
qed

lemma htonl_htonl [simp]: "htonl (htonl x) = x"
proof -
  have "unat (htonl (htonl x)) = le_val (le_bytes 4 (unat x))"
    by (simp only: unat_htonl [of "htonl x"] le_bytes_htonl rev_rev_ident)
  also have "\<dots> = unat x"
  proof -
    have "unat x < 2 ^ LENGTH(32)" by (rule unsigned_less)
    then show ?thesis by (simp add: le_val_le_bytes)
  qed
  finally show ?thesis by (simp only: word_unat_eq_iff)
qed

lemma htons_inj [simp]: "htons x = htons y \<longleftrightarrow> x = y"
  by (metis htons_htons)


section \<open>Byte memory\<close>

text \<open>
  \<open>mem_write dst off src\<close> is \<open>memcpy(dst + off, src, n)\<close> with \<open>n = length src\<close>; it is
  \<open>None\<close> when the write leaves the destination array (undefined behaviour in C++).
  \<open>mem_read\<close> is the corresponding read. \<open>mem_put\<close> is the write of a field whose offset
  and width are constants inside the array.
\<close>

definition mem_put :: "byte list \<Rightarrow> nat \<Rightarrow> byte list \<Rightarrow> byte list" where
  "mem_put dst off src = take off dst @ src @ drop (off + length src) dst"

definition mem_write :: "byte list \<Rightarrow> nat \<Rightarrow> byte list \<Rightarrow> byte list option" where
  "mem_write dst off src =
     (if off + length src \<le> length dst then Some (mem_put dst off src) else None)"

definition mem_get :: "byte list \<Rightarrow> nat \<Rightarrow> nat \<Rightarrow> byte list" where
  "mem_get m off n = take n (drop off m)"

lemma length_mem_put [mem_simps]:
  "off + length src \<le> length dst \<Longrightarrow> length (mem_put dst off src) = length dst"
  by (simp add: mem_put_def)

lemma length_mem_get [mem_simps]: "off + n \<le> length m \<Longrightarrow> length (mem_get m off n) = n"
  by (simp add: mem_get_def)

lemma mem_get_put_same [mem_simps]:
  "off + length src \<le> length dst \<Longrightarrow> n = length src \<Longrightarrow> mem_get (mem_put dst off src) off n = src"
  by (simp add: mem_put_def mem_get_def)

lemma mem_get_put_before [mem_simps]:
  "o1 + n \<le> off \<Longrightarrow> off + length src \<le> length dst \<Longrightarrow>
   mem_get (mem_put dst off src) o1 n = mem_get dst o1 n"
  by (auto simp: mem_put_def mem_get_def drop_take min_def take_append)

lemma mem_get_put_after [mem_simps]:
  "off + length src \<le> o1 \<Longrightarrow> off + length src \<le> length dst \<Longrightarrow>
   mem_get (mem_put dst off src) o1 n = mem_get dst o1 n"
  by (simp add: mem_put_def mem_get_def drop_append min_def)

text \<open>Typed loads and stores of host integers.\<close>

definition load16 :: "byte list \<Rightarrow> nat \<Rightarrow> u16" where
  "load16 m off = word_of_nat (le_val (mem_get m off 2))"

definition load32 :: "byte list \<Rightarrow> nat \<Rightarrow> u32" where
  "load32 m off = word_of_nat (le_val (mem_get m off 4))"

definition store16 :: "byte list \<Rightarrow> nat \<Rightarrow> u16 \<Rightarrow> byte list" where
  "store16 m off x = mem_put m off (le_bytes 2 (unat x))"

definition store32 :: "byte list \<Rightarrow> nat \<Rightarrow> u32 \<Rightarrow> byte list" where
  "store32 m off x = mem_put m off (le_bytes 4 (unat x))"

lemma word16_of_le [simp]: "(word_of_nat (le_val (le_bytes 2 (unat x))) :: u16) = x"
proof -
  have "unat x < 2 ^ LENGTH(16)" by (rule unsigned_less)
  then have "unat x mod 256 ^ 2 = unat x" by simp
  then show ?thesis by (simp only: le_val_le_bytes word_unat_eq_iff) simp
qed

lemma word32_of_le [simp]: "(word_of_nat (le_val (le_bytes 4 (unat x))) :: u32) = x"
proof -
  have "unat x < 2 ^ LENGTH(32)" by (rule unsigned_less)
  then have "unat x mod 256 ^ 4 = unat x" by simp
  then show ?thesis by (simp only: le_val_le_bytes word_unat_eq_iff) simp
qed

lemma load16_store16 [mem_simps]:
  "off + 2 \<le> length m \<Longrightarrow> load16 (store16 m off x) off = x"
  by (simp add: load16_def store16_def mem_get_put_same)

lemma load32_store32 [mem_simps]:
  "off + 4 \<le> length m \<Longrightarrow> load32 (store32 m off x) off = x"
  by (simp add: load32_def store32_def mem_get_put_same)

lemma length_store16 [mem_simps]: "off + 2 \<le> length m \<Longrightarrow> length (store16 m off x) = length m"
  by (simp add: store16_def length_mem_put)

lemma length_store32 [mem_simps]: "off + 4 \<le> length m \<Longrightarrow> length (store32 m off x) = length m"
  by (simp add: store32_def length_mem_put)

lemma load16_inj:
  assumes "load16 m off = load16 m' off" "off + 2 \<le> length m" "off + 2 \<le> length m'"
  shows "mem_get m off 2 = mem_get m' off 2"
proof -
  have l: "length (mem_get m off 2) = 2" "length (mem_get m' off 2) = 2"
    using assms by (simp_all add: length_mem_get)
  have "le_val (mem_get m off 2) < 2 ^ LENGTH(16)" "le_val (mem_get m' off 2) < 2 ^ LENGTH(16)"
    using le_val_less [of "mem_get m off 2"] le_val_less [of "mem_get m' off 2"] l by simp_all
  then have "le_val (mem_get m off 2) = le_val (mem_get m' off 2)"
    using assms(1) unfolding load16_def by (metis of_nat_inverse)
  then show ?thesis using l by (metis le_bytes_le_val)
qed


section \<open>The operating system\<close>

text \<open>
  Level and name of a socket option, symbolic: the numeric values belong to the system
  headers and no code of the library depends on them.
\<close>

datatype sol_opt =
    SO_REUSEADDR | SO_REUSEPORT | SO_EXCLUSIVEADDRUSE | SO_RCVBUF | SO_SNDBUF | SO_KEEPALIVE
  | SO_LINGER | SO_BROADCAST | SO_ERROR | SO_NOSIGPIPE | SO_ACCEPTCONN | SO_TYPE

datatype tcp_opt =
    TCP_NODELAY | TCP_CORK | TCP_NOPUSH | TCP_NOTSENT_LOWAT | TCP_USER_TIMEOUT | TCP_FASTOPEN
  | TCP_DEFER_ACCEPT | TCP_KEEPIDLE | TCP_KEEPALIVE | TCP_KEEPINTVL | TCP_KEEPCNT

datatype ip_opt =
    IP_TOS | IP_ADD_MEMBERSHIP | IP_DROP_MEMBERSHIP | IP_MULTICAST_TTL | IP_MULTICAST_LOOP
  | IP_MULTICAST_IF

datatype ip6_opt =
    IPV6_V6ONLY | IPV6_JOIN_GROUP | IPV6_LEAVE_GROUP | IPV6_MULTICAST_HOPS
  | IPV6_MULTICAST_LOOP | IPV6_MULTICAST_IF

datatype sockopt = SOL_SOCKET sol_opt | IPPROTO_TCP tcp_opt | IPPROTO_IP ip_opt | IPPROTO_IPV6 ip6_opt

datatype epoll_op = EPOLL_CTL_ADD | EPOLL_CTL_MOD | EPOLL_CTL_DEL

datatype kfilter = EVFILT_READ | EVFILT_WRITE | EVFILT_TIMER | EVFILT_USER

record kchange =
  kc_ident :: int
  kc_filter :: kfilter
  kc_flags :: u16
  kc_fflags :: u32
  kc_data :: int

text \<open>
  The system calls the library makes, with the arguments that matter to it: multiplexer calls,
  data transfer, socket control, the calls that create and release socket descriptors, and the
  completion ports and thread-pool timers of Windows, where the address of an \<open>OVERLAPPED\<close> is a number
  and the allocator is asked as the system is (\<open>Allocate\<close>).
  \<open>Call_close_deregister\<close> is the invocation of the user's close callback.
\<close>

datatype mux_call =
    Epoll_create
  | Epoll_ctl int epoll_op int u32
  | Epoll_wait int nat int
  | Eventfd
  | Pipe
  | Timerfd_create
  | Timerfd_settime int int int int int
  | Kqueue
  | Kevent int "kchange list"
  | Kevent_wait int nat "(int \<times> int) option"
  | Iocp_post int int

datatype data_call =
    Send int "byte list" int
  | Recv int nat int
  | Sendmsg int "byte list list" "byte list" nat int
  | Recvmsg int "nat list" nat int
  | Sendto int "byte list" int "byte list" nat
  | Recvfrom int nat int nat
  | Sendmmsg int "(byte list \<times> byte list \<times> nat) list" int
  | Recvmmsg int "nat list" int
  | Read int nat
  | Write int "byte list"

datatype ctl_call =
    Shutdown int int
  | Bind int "byte list" nat
  | Listen int int
  | Connect int "byte list" nat
  | Set_handle_information int
  | Fcntl_getfl int
  | Fcntl_setfl int int
  | Fcntl_setfd int
  | Ioctl_fionbio int bool
  | Setsockopt int sockopt "byte list"
  | Getsockopt int sockopt
  | Wsaioctl_keepalive int int int int
  | Getsockname int nat
  | Getpeername int nat

datatype win_call =
    Create_port
  | Associate int int u64
  | Post_packet int u64 u64
  | Dequeue int nat u32
  | Close_handle int
  | Cancel_io int
  | Recv_zero int u64
  | Send_zero int u64
  | Recv_overlapped int u64 nat
  | Overlapped_result int u64
  | Poll_sockets "int list"
  | Create_timer
  | Set_timer int "(u64 \<times> u32) option"
  | Wait_timer int
  | Close_timer int
  | Allocate

datatype syscall =
    Sys_socket int int int
  | Sys_accept int int
  | Sys_wsa_accept int
  | Sys_close int
  | Sys_closesocket int
  | Sys_ctl ctl_call
  | Sys_data data_call
  | Sys_mux mux_call
  | Sys_win win_call
  | Call_close_deregister int

text \<open>
  The answer to a system call: its return value, the error number it sets (if it sets one),
  and what it writes into the caller's buffers.
\<close>

record sysret =
  sr_rc :: int
  sr_err :: "int option"
  sr_val :: int
  sr_val2 :: int
  sr_data :: "byte list"
  sr_addr :: "byte list"
  sr_addrlen :: nat
  sr_msgs :: "(byte list \<times> byte list \<times> nat) list"
  sr_events :: "(int \<times> u32) list"
  sr_kevents :: "(int \<times> kfilter \<times> u16) list"
  sr_completions :: "(u64 \<times> u64 \<times> u32) list"

definition sys_ok :: sysret where
  "sys_ok = \<lparr>sr_rc = 0, sr_err = None, sr_val = 0, sr_val2 = 0, sr_data = [], sr_addr = [],
    sr_addrlen = 0, sr_msgs = [], sr_events = [], sr_kevents = [],
    sr_completions = []\<rparr>"

definition sys_fail :: "int \<Rightarrow> sysret" where
  "sys_fail e = sys_ok\<lparr>sr_rc := -1, sr_err := Some e\<rparr>"

type_synonym sys_trace = "(syscall \<times> sysret) list"
type_synonym kernel = "sys_trace \<Rightarrow> syscall \<Rightarrow> sysret"

record world =
  trace :: sys_trace
  errno :: int

type_synonym 'a io = "(world, 'a) state"

definition sys :: "kernel \<Rightarrow> syscall \<Rightarrow> sysret io" where
  "sys K c = State (\<lambda>w. let r = K (trace w) c in
     (r, w\<lparr>trace := trace w @ [(c, r)],
           errno := (case sr_err r of None \<Rightarrow> errno w | Some e \<Rightarrow> e)\<rparr>))"

text \<open>A system in which every call answers 0, and the state before any call, for examples.\<close>

definition ok_kernel :: kernel where
  "ok_kernel tr c = sys_ok"

definition start_world :: world where
  "start_world = \<lparr>trace = [], errno = 0\<rparr>"

definition get_errno :: "int io" where
  "get_errno = State (\<lambda>w. (errno w, w))"

lemma run_sys [io_simps]:
  "run_state (sys K c) w =
     (K (trace w) c, w\<lparr>trace := trace w @ [(c, K (trace w) c)],
        errno := (case sr_err (K (trace w) c) of None \<Rightarrow> errno w | Some e \<Rightarrow> e)\<rparr>)"
  by (simp add: sys_def Let_def)

lemma run_get_errno [io_simps]: "run_state get_errno w = (errno w, w)"
  by (simp add: get_errno_def)

lemma run_if [io_simps]:
  "run_state (if b then m else n) w = (if b then run_state m w else run_state n w)"
  by simp

abbreviation final_world :: "'a io \<Rightarrow> world \<Rightarrow> world" where
  "final_world m w \<equiv> snd (run_state m w)"

abbreviation outcome :: "'a io \<Rightarrow> world \<Rightarrow> 'a" where
  "outcome m w \<equiv> fst (run_state m w)"

section \<open>Descriptor accounting\<close>

text \<open>
  The multiset of open descriptors after a trace. A descriptor enters when a creating call
  returns it (\<open>socket\<close> and the Windows \<open>accept\<close> answer \<open>-1\<close> on failure, \<open>pipe\<close> a number other
  than 0, a completion port and a timer of Windows 0, the other calls a negative number) and leaves
  when it is passed to \<open>close\<close>, \<open>closesocket\<close>, \<open>CloseHandle\<close> or \<open>CloseThreadpoolTimer\<close>, whatever these
  calls answer.
\<close>

datatype fd_effect = Creates | Creates_win | Creates_null | Creates_two | Releases int | Neutral

definition fd_effect_of :: "syscall \<Rightarrow> fd_effect" where
  "fd_effect_of c = (case c of
       Sys_socket _ _ _ \<Rightarrow> Creates_win
     | Sys_wsa_accept _ \<Rightarrow> Creates_win
     | Sys_accept _ _ \<Rightarrow> Creates
     | Sys_mux m \<Rightarrow> (case m of
           Epoll_create \<Rightarrow> Creates | Eventfd \<Rightarrow> Creates | Timerfd_create \<Rightarrow> Creates
         | Kqueue \<Rightarrow> Creates | Pipe \<Rightarrow> Creates_two | _ \<Rightarrow> Neutral)
     | Sys_win m \<Rightarrow> (case m of
           Create_port \<Rightarrow> Creates_null | Create_timer \<Rightarrow> Creates_null
         | Close_handle h \<Rightarrow> Releases h | Close_timer h \<Rightarrow> Releases h | _ \<Rightarrow> Neutral)
     | Sys_close f \<Rightarrow> Releases f
     | Sys_closesocket f \<Rightarrow> Releases f
     | _ \<Rightarrow> Neutral)"

fun live_step :: "syscall \<times> sysret \<Rightarrow> int multiset \<Rightarrow> int multiset" where
  "live_step (c, r) M = (case fd_effect_of c of
       Creates \<Rightarrow> (if sr_rc r < 0 then M else add_mset (sr_rc r) M)
     | Creates_win \<Rightarrow> (if sr_rc r = -1 then M else add_mset (sr_rc r) M)
     | Creates_null \<Rightarrow> (if sr_rc r = 0 then M else add_mset (sr_rc r) M)
     | Creates_two \<Rightarrow> (if sr_rc r \<noteq> 0 then M else M + {#sr_val r, sr_val2 r#})
     | Releases f \<Rightarrow> M - {#f#}
     | Neutral \<Rightarrow> M)"

definition live_fds :: "sys_trace \<Rightarrow> int multiset" where
  "live_fds tr = fold live_step tr {#}"

abbreviation live :: "world \<Rightarrow> int multiset" where
  "live w \<equiv> live_fds (trace w)"

lemma live_fds_Nil [simp, live_simps]: "live_fds [] = {#}"
  by (simp add: live_fds_def)

lemma live_fds_snoc [live_simps]: "live_fds (tr @ [e]) = live_step e (live_fds tr)"
  by (simp add: live_fds_def)

lemma live_step_simple [simp]:
  "live_step (Sys_ctl c, r) L = L"
  "live_step (Sys_data d, r) L = L"
  "live_step (Call_close_deregister h, r) L = L"
  "live_step (Sys_close h, r) L = L - {#h#}"
  "live_step (Sys_closesocket h, r) L = L - {#h#}"
  by (simp_all add: fd_effect_of_def)

declare live_step.simps [simp del]

text \<open>
  A trace is clean when every descriptor it closes is open at that moment: no descriptor is
  closed twice, and none that the library does not have.
\<close>

definition clean :: "sys_trace \<Rightarrow> bool" where
  "clean tr \<longleftrightarrow> (\<forall>pre c r post f.
     tr = pre @ (c, r) # post \<longrightarrow> fd_effect_of c = Releases f \<longrightarrow> f \<in># live_fds pre)"

lemma clean_Nil [simp]: "clean []"
  by (simp add: clean_def)

lemma clean_snoc:
  "clean (tr @ [(c, r)]) \<longleftrightarrow> clean tr \<and> (\<forall>f. fd_effect_of c = Releases f \<longrightarrow> f \<in># live_fds tr)"
proof
  assume a: "clean (tr @ [(c, r)])"
  have "clean tr" unfolding clean_def
  proof (intro allI impI)
    fix pre c' r' post f
    assume "tr = pre @ (c', r') # post" "fd_effect_of c' = Releases f"
    with a show "f \<in># live_fds pre" unfolding clean_def by (metis append.assoc append_Cons)
  qed
  with a show "clean tr \<and> (\<forall>f. fd_effect_of c = Releases f \<longrightarrow> f \<in># live_fds tr)"
    by (auto simp: clean_def)
next
  assume a: "clean tr \<and> (\<forall>f. fd_effect_of c = Releases f \<longrightarrow> f \<in># live_fds tr)"
  show "clean (tr @ [(c, r)])" unfolding clean_def
  proof (intro allI impI)
    fix pre c' r' post f
    assume eq: "tr @ [(c, r)] = pre @ (c', r') # post" and eff: "fd_effect_of c' = Releases f"
    show "f \<in># live_fds pre"
    proof (cases post rule: rev_cases)
      case Nil
      with eq eff a show ?thesis by auto
    next
      case (snoc post' z)
      with eq have "tr = pre @ (c', r') # post'" by simp
      with a eff show ?thesis unfolding clean_def by blast
    qed
  qed
qed

text \<open>Computations that neither open nor close a descriptor.\<close>

definition neutral :: "'a io \<Rightarrow> bool" where
  "neutral m \<longleftrightarrow> (\<forall>w. live (final_world m w) = live w \<and> (clean (trace w) \<longrightarrow> clean (trace (final_world m w))))"

lemma neutralD: "neutral m \<Longrightarrow> live (final_world m w) = live w"
  by (simp add: neutral_def)

lemma neutral_run: "neutral m \<Longrightarrow> run_state m w = (x, w') \<Longrightarrow> live w' = live w"
  using neutralD [of m w] by simp

lemma neutral_clean: "neutral m \<Longrightarrow> run_state m w = (x, w') \<Longrightarrow> clean (trace w) \<Longrightarrow> clean (trace w')"
  by (metis neutral_def snd_conv)

lemma neutral_return [neutral_intros]: "neutral (State_Monad.return x)"
  by (simp add: neutral_def)

lemma neutral_bind [neutral_intros]: "neutral m \<Longrightarrow> (\<And>x. neutral (f x)) \<Longrightarrow> neutral (State_Monad.bind m f)"
  by (simp add: neutral_def case_prod_beta)

lemma neutral_sys: "fd_effect_of c = Neutral \<Longrightarrow> neutral (sys K c)"
  by (simp add: neutral_def run_sys live_fds_snoc live_step.simps clean_snoc)

lemma neutral_ctl [neutral_intros]: "neutral (sys K (Sys_ctl c))"
  by (rule neutral_sys) (simp add: fd_effect_of_def)

lemma neutral_data [neutral_intros]: "neutral (sys K (Sys_data c))"
  by (rule neutral_sys) (simp add: fd_effect_of_def)

lemma neutral_deregister [neutral_intros]: "neutral (sys K (Call_close_deregister h))"
  by (rule neutral_sys) (simp add: fd_effect_of_def)

lemma neutral_get_errno [neutral_intros]: "neutral get_errno"
  by (simp add: neutral_def run_get_errno)

lemma neutral_if [neutral_intros]: "neutral m \<Longrightarrow> neutral n \<Longrightarrow> neutral (if b then m else n)"
  by simp

lemma neutral_case_sum [neutral_intros]:
  "(\<And>e. neutral (f e)) \<Longrightarrow> (\<And>v. neutral (g v)) \<Longrightarrow> neutral (case r of Inl e \<Rightarrow> f e | Inr v \<Rightarrow> g v)"
  by (simp split: sum.split)

lemma neutral_case_option [neutral_intros]:
  "neutral f \<Longrightarrow> (\<And>v. neutral (g v)) \<Longrightarrow> neutral (case r of None \<Rightarrow> f | Some v \<Rightarrow> g v)"
  by (simp split: option.split)

lemma neutral_case_prod [neutral_intros]:
  "(\<And>a b. neutral (f a b)) \<Longrightarrow> neutral (case r of (a, b) \<Rightarrow> f a b)"
  by (simp split: prod.split)

lemma neutral_case_platform [neutral_intros]:
  "neutral f \<Longrightarrow> neutral g \<Longrightarrow> neutral h \<Longrightarrow>
   neutral (case p of Linux \<Rightarrow> f | MacOS \<Rightarrow> g | Windows \<Rightarrow> h)"
  by (cases p) simp_all

text \<open>
  Weakest preconditions over the open descriptors: started with the descriptors \<open>L\<close> open, \<open>m\<close>
  closes only open descriptors and ends with a result and descriptors that satisfy \<open>Q\<close>, whatever
  the system answers.
\<close>

definition fd_wp :: "'a io \<Rightarrow> ('a \<Rightarrow> int multiset \<Rightarrow> bool) \<Rightarrow> int multiset \<Rightarrow> bool" where
  "fd_wp m Q L \<longleftrightarrow> (\<forall>w. live w = L \<longrightarrow> clean (trace w) \<longrightarrow>
     Q (outcome m w) (live (final_world m w)) \<and> clean (trace (final_world m w)))"

lemma fd_wpD:
  "fd_wp m Q L \<Longrightarrow> run_state m w = (r, w') \<Longrightarrow> live w = L \<Longrightarrow> clean (trace w) \<Longrightarrow>
   Q r (live w') \<and> clean (trace w')"
  unfolding fd_wp_def by (metis fst_conv snd_conv)

lemma fd_wp_weaken: "fd_wp m Q L \<Longrightarrow> (\<And>x L'. Q x L' \<Longrightarrow> R x L') \<Longrightarrow> fd_wp m R L"
  by (simp add: fd_wp_def)

lemma fd_wp_return [wp_intros]: "Q x L \<Longrightarrow> fd_wp (State_Monad.return x) Q L"
  by (simp add: fd_wp_def)

lemma fd_wp_bind [wp_intros]:
  "fd_wp m (\<lambda>x. fd_wp (f x) Q) L \<Longrightarrow> fd_wp (State_Monad.bind m f) Q L"
  unfolding fd_wp_def by (simp add: case_prod_beta)

lemma fd_wp_then: "fd_wp m P L \<Longrightarrow> (\<And>x L'. P x L' \<Longrightarrow> fd_wp (f x) Q L') \<Longrightarrow> fd_wp (State_Monad.bind m f) Q L"
  by (rule fd_wp_bind) (erule fd_wp_weaken)

lemma fd_wp_neutral: "neutral m \<Longrightarrow> (\<And>x. Q x L) \<Longrightarrow> fd_wp m Q L"
  by (simp add: fd_wp_def neutral_def)

lemma fd_wp_sys [wp_intros]:
  "(\<And>r. Q r (live_step (c, r) L)) \<Longrightarrow> (\<And>f. fd_effect_of c = Releases f \<Longrightarrow> f \<in># L) \<Longrightarrow> fd_wp (sys K c) Q L"
  by (simp add: fd_wp_def run_sys live_fds_snoc clean_snoc)

lemma fd_effect_simple [simp]:
  "fd_effect_of (Sys_ctl c) = Neutral"
  "fd_effect_of (Sys_data d) = Neutral"
  "fd_effect_of (Call_close_deregister h) = Neutral"
  "fd_effect_of (Sys_close h) = Releases h"
  "fd_effect_of (Sys_closesocket h) = Releases h"
  "fd_effect_of (Sys_socket dm ty q) = Creates_win"
  "fd_effect_of (Sys_wsa_accept h) = Creates_win"
  "fd_effect_of (Sys_accept h l) = Creates"
  "fd_effect_of (Sys_mux Epoll_create) = Creates"
  "fd_effect_of (Sys_mux Eventfd) = Creates"
  "fd_effect_of (Sys_mux Timerfd_create) = Creates"
  "fd_effect_of (Sys_mux Kqueue) = Creates"
  "fd_effect_of (Sys_mux Pipe) = Creates_two"
  "fd_effect_of (Sys_mux (Epoll_ctl h op fd ev)) = Neutral"
  "fd_effect_of (Sys_mux (Epoll_wait h n tmo)) = Neutral"
  "fd_effect_of (Sys_mux (Timerfd_settime fd t1 t2 t3 t4)) = Neutral"
  "fd_effect_of (Sys_mux (Kevent h ch)) = Neutral"
  "fd_effect_of (Sys_mux (Kevent_wait h n ts)) = Neutral"
  "fd_effect_of (Sys_mux (Iocp_post h k)) = Neutral"
  "fd_effect_of (Sys_win Create_port) = Creates_null"
  "fd_effect_of (Sys_win Create_timer) = Creates_null"
  "fd_effect_of (Sys_win (Close_handle h)) = Releases h"
  "fd_effect_of (Sys_win (Close_timer h)) = Releases h"
  by (simp_all add: fd_effect_of_def)

lemma neutral_mux [neutral_intros]:
  "neutral (sys K (Sys_mux (Epoll_ctl h op fd ev)))"
  "neutral (sys K (Sys_mux (Epoll_wait h n t)))"
  "neutral (sys K (Sys_mux (Timerfd_settime fd a b c d)))"
  "neutral (sys K (Sys_mux (Kevent h ch)))"
  "neutral (sys K (Sys_mux (Kevent_wait h m ts)))"
  "neutral (sys K (Sys_mux (Iocp_post h k)))"
  by (simp_all add: neutral_sys)

lemma neutral_win [neutral_intros]:
  "neutral (sys K (Sys_win (Associate s h k)))" "neutral (sys K (Sys_win (Post_packet h k ov)))"
  "neutral (sys K (Sys_win (Dequeue h n t)))" "neutral (sys K (Sys_win (Cancel_io s)))"
  "neutral (sys K (Sys_win (Recv_zero s ov)))" "neutral (sys K (Sys_win (Send_zero s ov)))"
  "neutral (sys K (Sys_win (Recv_overlapped s ov n)))" "neutral (sys K (Sys_win (Overlapped_result s ov)))"
  "neutral (sys K (Sys_win (Poll_sockets fds)))" "neutral (sys K (Sys_win (Set_timer h due)))"
  "neutral (sys K (Sys_win (Wait_timer h)))" "neutral (sys K (Sys_win Allocate))"
  by (simp_all add: neutral_sys fd_effect_of_def)

lemma fd_wp_if [wp_intros]:
  "(b \<Longrightarrow> fd_wp m Q L) \<Longrightarrow> (\<not> b \<Longrightarrow> fd_wp n Q L) \<Longrightarrow> fd_wp (if b then m else n) Q L"
  by simp

lemma fd_wp_case_sum [wp_intros]:
  "(\<And>e. r = Inl e \<Longrightarrow> fd_wp (f e) Q L) \<Longrightarrow> (\<And>v. r = Inr v \<Longrightarrow> fd_wp (g v) Q L) \<Longrightarrow>
   fd_wp (case r of Inl e \<Rightarrow> f e | Inr v \<Rightarrow> g v) Q L"
  by (simp split: sum.split)

lemma fd_wp_case_option [wp_intros]:
  "(r = None \<Longrightarrow> fd_wp f Q L) \<Longrightarrow> (\<And>v. r = Some v \<Longrightarrow> fd_wp (g v) Q L) \<Longrightarrow>
   fd_wp (case r of None \<Rightarrow> f | Some v \<Rightarrow> g v) Q L"
  by (simp split: option.split)

lemma fd_wp_case_prod [wp_intros]:
  "(\<And>a b. r = (a, b) \<Longrightarrow> fd_wp (f a b) Q L) \<Longrightarrow> fd_wp (case r of (a, b) \<Rightarrow> f a b) Q L"
  by (simp split: prod.split)

lemma fd_wp_case_platform [wp_intros]:
  "(p = Linux \<Longrightarrow> fd_wp f Q L) \<Longrightarrow> (p = MacOS \<Longrightarrow> fd_wp g Q L) \<Longrightarrow> (p = Windows \<Longrightarrow> fd_wp h Q L) \<Longrightarrow>
   fd_wp (case p of Linux \<Rightarrow> f | MacOS \<Rightarrow> g | Windows \<Rightarrow> h) Q L"
  by (cases p) simp_all

section \<open>Results\<close>

text \<open>What holds of the result of a computation, whatever the state it starts in and the system's answers.\<close>

definition yields :: "'a io \<Rightarrow> ('a \<Rightarrow> bool) \<Rightarrow> bool" where
  "yields m Q \<longleftrightarrow> (\<forall>w. Q (outcome m w))"

lemma yieldsD: "yields m Q \<Longrightarrow> run_state m w = (r, w') \<Longrightarrow> Q r"
  unfolding yields_def by (metis fst_conv)

lemma yields_weaken: "yields m Q \<Longrightarrow> (\<And>x. Q x \<Longrightarrow> R x) \<Longrightarrow> yields m R"
  by (simp add: yields_def)

lemma yields_then: "yields m P \<Longrightarrow> (\<And>x. P x \<Longrightarrow> yields (f x) Q) \<Longrightarrow> yields (State_Monad.bind m f) Q"
  by (simp add: yields_def case_prod_beta)

lemma yields_return [yields_intros]: "Q x \<Longrightarrow> yields (State_Monad.return x) Q"
  by (simp add: yields_def)

lemma yields_bind [yields_intros]: "yields m (\<lambda>x. yields (f x) Q) \<Longrightarrow> yields (State_Monad.bind m f) Q"
  by (simp add: yields_def case_prod_beta)

lemma yields_sys [yields_intros]: "(\<And>r. Q r) \<Longrightarrow> yields (sys K c) Q"
  by (simp add: yields_def)

lemma yields_get_errno [yields_intros]: "(\<And>e. Q e) \<Longrightarrow> yields get_errno Q"
  by (simp add: yields_def)

lemma yields_if [yields_intros]:
  "(b \<Longrightarrow> yields m Q) \<Longrightarrow> (\<not> b \<Longrightarrow> yields n Q) \<Longrightarrow> yields (if b then m else n) Q"
  by simp

lemma yields_case_option [yields_intros]:
  "(r = None \<Longrightarrow> yields f Q) \<Longrightarrow> (\<And>v. r = Some v \<Longrightarrow> yields (g v) Q) \<Longrightarrow>
   yields (case r of None \<Rightarrow> f | Some v \<Rightarrow> g v) Q"
  by (simp split: option.split)

lemma yields_case_sum [yields_intros]:
  "(\<And>e. r = Inl e \<Longrightarrow> yields (f e) Q) \<Longrightarrow> (\<And>v. r = Inr v \<Longrightarrow> yields (g v) Q) \<Longrightarrow>
   yields (case r of Inl e \<Rightarrow> f e | Inr v \<Rightarrow> g v) Q"
  by (simp split: sum.split)

lemma yields_case_prod [yields_intros]:
  "(\<And>a b. r = (a, b) \<Longrightarrow> yields (f a b) Q) \<Longrightarrow> yields (case r of (a, b) \<Rightarrow> f a b) Q"
  by (simp split: prod.split)

section \<open>Lists of objects\<close>

lemma ball_update: "\<forall>x \<in> set xs. P x \<Longrightarrow> P y \<Longrightarrow> \<forall>x \<in> set (xs[i := y]). P x"
  using set_update_subset_insert [of xs i y] by blast

section \<open>Invariants of step relations\<close>

inductive reachable :: "('s \<Rightarrow> bool) \<Rightarrow> ('s \<Rightarrow> 's \<Rightarrow> bool) \<Rightarrow> 's \<Rightarrow> bool"
  for init :: "'s \<Rightarrow> bool" and step :: "'s \<Rightarrow> 's \<Rightarrow> bool" where
  reach_init: "init s \<Longrightarrow> reachable init step s"
| reach_step: "reachable init step s \<Longrightarrow> step s t \<Longrightarrow> reachable init step t"

lemma reachable_steps: "step\<^sup>*\<^sup>* s t \<Longrightarrow> reachable init step s \<Longrightarrow> reachable init step t"
  by (induction rule: rtranclp_induct) (auto intro: reach_step)

locale invariant_system =
  fixes init :: "'s \<Rightarrow> bool"
    and step :: "'s \<Rightarrow> 's \<Rightarrow> bool"
    and inv :: "'s \<Rightarrow> bool"
  assumes inv_init: "init s \<Longrightarrow> inv s"
    and inv_step: "inv s \<Longrightarrow> step s t \<Longrightarrow> inv t"
begin

lemma reachable_inv: "reachable init step s \<Longrightarrow> inv s"
  by (induction rule: reachable.induct) (auto intro: inv_init inv_step)

lemma steps_inv: "step\<^sup>*\<^sup>* s t \<Longrightarrow> inv s \<Longrightarrow> inv t"
  by (induction rule: rtranclp_induct) (auto intro: inv_step)

end

text \<open>
  A concrete system simulates an abstract one through an abstraction function when every concrete
  step from a state of the invariant is an abstract step or leaves the abstract state unchanged.
\<close>

locale simulation = invariant_system init step inv
  for init :: "'s \<Rightarrow> bool" and step :: "'s \<Rightarrow> 's \<Rightarrow> bool" and inv :: "'s \<Rightarrow> bool" +
  fixes ainit :: "'a \<Rightarrow> bool"
    and astep :: "'a \<Rightarrow> 'a \<Rightarrow> bool"
    and abs :: "'s \<Rightarrow> 'a"
  assumes sim_init: "init s \<Longrightarrow> ainit (abs s)"
    and sim_step: "inv s \<Longrightarrow> step s t \<Longrightarrow> abs t = abs s \<or> astep (abs s) (abs t)"
begin

lemma reachable_abs: "reachable init step s \<Longrightarrow> reachable ainit astep (abs s)"
proof (induction rule: reachable.induct)
  case (reach_init s)
  then show ?case by (intro reachable.reach_init sim_init)
next
  case (reach_step s t)
  then show ?case using sim_step [OF reachable_inv] by (metis reachable.reach_step)
qed

end

end
