(* ===== verification/Errors.thy ===== *)
theory Errors
  imports Prelude
begin

text \<open>
  Portable errors: \<open>include/socketpp/platform/error.hpp\<close> and \<open>src/platform/error.cpp\<close>.

  \<open>error_code\<close> is \<open>std::error_code\<close> (a value and a category), \<open>errc\<close> the portable codes,
  \<open>normalize_error\<close> the per-platform switch that maps system codes to them. \<open>result<T>\<close> is
  the sum type \<open>error_code + 'a\<close> everywhere in the development; the class itself, with its raw
  storage and its \<open>has_value_\<close> flag, is the record \<open>result_obj\<close>, and the lemmas below show that
  every constructor and assignment keeps flag and storage in step, so that the class refines
  the sum. \<open>result<void>\<close> is an \<open>error_code\<close> that is a success exactly when its value is 0.
\<close>

section \<open>Error codes\<close>

datatype errc =
    success | would_block | in_progress | connection_reset | connection_refused
  | connection_aborted | not_connected | address_in_use | network_unreachable | timed_out
  | option_not_supported | already_bound | peer_not_found | invalid_state | interrupted
  | fd_limit_reached | missing_scope_id | invalid_argument

definition errc_list :: "errc list" where
  "errc_list =
     [success, would_block, in_progress, connection_reset, connection_refused,
      connection_aborted, not_connected, address_in_use, network_unreachable, timed_out,
      option_not_supported, already_bound, peer_not_found, invalid_state, interrupted,
      fd_limit_reached, missing_scope_id, invalid_argument]"

text \<open>The value of an enumerator is its position.\<close>

primrec index_of :: "'a \<Rightarrow> 'a list \<Rightarrow> nat" where
  "index_of x [] = 0"
| "index_of x (y # ys) = (if x = y then 0 else Suc (index_of x ys))"

definition errc_value :: "errc \<Rightarrow> int" where
  "errc_value e = int (index_of e errc_list)"

datatype category = system_category | generic_category | socketpp_category

record error_code =
  ec_value :: int
  ec_category :: category

text \<open>The default-constructed \<open>std::error_code\<close>.\<close>

definition no_error :: error_code where
  "no_error = \<lparr>ec_value = 0, ec_category = system_category\<rparr>"

definition make_error_code :: "errc \<Rightarrow> error_code" where
  "make_error_code e = \<lparr>ec_value = errc_value e, ec_category = socketpp_category\<rparr>"

text \<open>\<open>error_category_impl::message\<close>; a value outside the enumeration takes the default branch.\<close>

definition message :: "int \<Rightarrow> string" where
  "message ev =
     (if ev = errc_value success then ''success''
      else if ev = errc_value would_block then ''operation would block''
      else if ev = errc_value in_progress then ''operation in progress''
      else if ev = errc_value connection_reset then ''connection reset by peer''
      else if ev = errc_value connection_refused then ''connection refused''
      else if ev = errc_value connection_aborted then ''connection aborted''
      else if ev = errc_value not_connected then ''socket not connected''
      else if ev = errc_value address_in_use then ''address already in use''
      else if ev = errc_value network_unreachable then ''network unreachable''
      else if ev = errc_value timed_out then ''operation timed out''
      else if ev = errc_value option_not_supported then ''option not supported on this platform''
      else if ev = errc_value already_bound then ''socket already bound''
      else if ev = errc_value peer_not_found then ''peer not found''
      else if ev = errc_value invalid_state then ''invalid socket state''
      else if ev = errc_value interrupted then ''operation interrupted''
      else if ev = errc_value fd_limit_reached then ''file descriptor limit reached''
      else if ev = errc_value missing_scope_id then ''link-local address requires a scope id''
      else if ev = errc_value invalid_argument then ''invalid argument''
      else ''unknown socketpp error'')"

section \<open>Normalisation of system errors\<close>

text \<open>
  The system error names of the switch, with their numbers on each platform (Linux and macOS
  \<open>errno\<close> values, Winsock codes). \<open>ENFILE\<close> has no case on Windows.
\<close>

datatype os_error =
    EAGAIN | EINPROGRESS | ECONNRESET | ECONNREFUSED | ECONNABORTED | ENOTCONN | EADDRINUSE
  | ENETUNREACH | ETIMEDOUT | EINTR | EMFILE | ENFILE

fun os_error_value :: "platform \<Rightarrow> os_error \<Rightarrow> int option" where
  "os_error_value Linux e = Some (case e of EAGAIN \<Rightarrow> 11 | EINPROGRESS \<Rightarrow> 115 | ECONNRESET \<Rightarrow> 104
     | ECONNREFUSED \<Rightarrow> 111 | ECONNABORTED \<Rightarrow> 103 | ENOTCONN \<Rightarrow> 107 | EADDRINUSE \<Rightarrow> 98
     | ENETUNREACH \<Rightarrow> 101 | ETIMEDOUT \<Rightarrow> 110 | EINTR \<Rightarrow> 4 | EMFILE \<Rightarrow> 24 | ENFILE \<Rightarrow> 23)"
| "os_error_value MacOS e = Some (case e of EAGAIN \<Rightarrow> 35 | EINPROGRESS \<Rightarrow> 36 | ECONNRESET \<Rightarrow> 54
     | ECONNREFUSED \<Rightarrow> 61 | ECONNABORTED \<Rightarrow> 53 | ENOTCONN \<Rightarrow> 57 | EADDRINUSE \<Rightarrow> 48
     | ENETUNREACH \<Rightarrow> 51 | ETIMEDOUT \<Rightarrow> 60 | EINTR \<Rightarrow> 4 | EMFILE \<Rightarrow> 24 | ENFILE \<Rightarrow> 23)"
| "os_error_value Windows e = (case e of EAGAIN \<Rightarrow> Some 10035 | EINPROGRESS \<Rightarrow> Some 10036
     | ECONNRESET \<Rightarrow> Some 10054 | ECONNREFUSED \<Rightarrow> Some 10061 | ECONNABORTED \<Rightarrow> Some 10053
     | ENOTCONN \<Rightarrow> Some 10057 | EADDRINUSE \<Rightarrow> Some 10048 | ENETUNREACH \<Rightarrow> Some 10051
     | ETIMEDOUT \<Rightarrow> Some 10060 | EINTR \<Rightarrow> Some 10004 | EMFILE \<Rightarrow> Some 10024 | ENFILE \<Rightarrow> None)"

text \<open>The cases of the switch, in source order, and the portable code each returns.\<close>

definition portable_cases :: "(os_error \<times> errc) list" where
  "portable_cases =
     [(EAGAIN, would_block), (EINPROGRESS, in_progress), (ECONNRESET, connection_reset),
      (ECONNREFUSED, connection_refused), (ECONNABORTED, connection_aborted),
      (ENOTCONN, not_connected), (EADDRINUSE, address_in_use),
      (ENETUNREACH, network_unreachable), (ETIMEDOUT, timed_out), (EINTR, interrupted),
      (EMFILE, fd_limit_reached), (ENFILE, fd_limit_reached)]"

definition switch_error :: "platform \<Rightarrow> int \<Rightarrow> errc option" where
  "switch_error p code =
     map_option snd (find (\<lambda>(n, e). os_error_value p n = Some code) portable_cases)"

definition normalize_error :: "platform \<Rightarrow> error_code \<Rightarrow> error_code" where
  "normalize_error p ec =
     (if ec_value ec = 0 then ec
      else if ec_category ec \<noteq> system_category then ec
      else (case switch_error p (ec_value ec) of
              Some e \<Rightarrow> make_error_code e
            | None \<Rightarrow> ec))"

definition last_socket_error :: "error_code io" where
  "last_socket_error = do {
     e \<leftarrow> get_errno;
     State_Monad.return \<lparr>ec_value = e, ec_category = system_category\<rparr>
   }"

text \<open>The idiom \<open>normalize_error(last_socket_error())\<close> of every failing call.\<close>

definition os_failure :: "platform \<Rightarrow> error_code io" where
  "os_failure p = do {
     ec \<leftarrow> last_socket_error;
     State_Monad.return (normalize_error p ec)
   }"

lemma run_last_socket_error [io_simps]:
  "run_state last_socket_error w = (\<lparr>ec_value = errno w, ec_category = system_category\<rparr>, w)"
  by (simp add: last_socket_error_def io_simps)

lemma run_os_failure [io_simps]:
  "run_state (os_failure p) w =
     (normalize_error p \<lparr>ec_value = errno w, ec_category = system_category\<rparr>, w)"
  by (simp add: os_failure_def io_simps)

lemma neutral_last_socket_error [neutral_intros]: "neutral last_socket_error"
  unfolding last_socket_error_def by (intro neutral_intros)

lemma neutral_os_failure [neutral_intros]: "neutral (os_failure p)"
  unfolding os_failure_def by (intro neutral_intros)

lemma errc_value_eq_iff [simp]: "errc_value a = errc_value b \<longleftrightarrow> a = b"
  by (cases a; cases b) (simp_all add: errc_value_def errc_list_def)

lemma make_error_code_eq_iff [simp]: "make_error_code a = make_error_code b \<longleftrightarrow> a = b"
  by (simp add: make_error_code_def)

lemma ec_value_make_error_code [simp]: "ec_value (make_error_code e) = errc_value e"
  by (simp add: make_error_code_def)

lemma ec_category_make_error_code [simp]:
  "ec_category (make_error_code e) = socketpp_category"
  by (simp add: make_error_code_def)

lemma errc_value_zero_iff [simp]: "errc_value e = 0 \<longleftrightarrow> e = success"
  by (cases e) (simp_all add: errc_value_def errc_list_def)

lemma switch_error_of_name:
  assumes "os_error_value p n = Some v"
  shows "switch_error p v = map_of portable_cases n"
  using assms
  by (cases p; cases n) (auto simp: switch_error_def portable_cases_def)

lemma normalize_error_other_category:
  "ec_category ec \<noteq> system_category \<Longrightarrow> normalize_error p ec = ec"
  by (simp add: normalize_error_def)

section \<open>result<T>\<close>

text \<open>
  The class \<open>result<T>\<close>: \<open>ro_slot\<close> is the raw storage, \<open>Some v\<close> while an object of type \<open>T\<close> is
  alive in it. Destroying or reading a dead slot is undefined behaviour and is \<open>None\<close> here.
  A move leaves the source object alive in the moved-from state \<open>mv v\<close>.
\<close>

record 'a result_obj =
  ro_slot :: "'a option"
  ro_error :: error_code
  ro_has_value :: bool

definition result_of_value :: "'a \<Rightarrow> 'a result_obj" where
  "result_of_value v = \<lparr>ro_slot = Some v, ro_error = no_error, ro_has_value = True\<rparr>"

definition result_of_error :: "error_code \<Rightarrow> 'a result_obj" where
  "result_of_error ec = \<lparr>ro_slot = None, ro_error = ec, ro_has_value = False\<rparr>"

definition result_of_errc :: "errc \<Rightarrow> 'a result_obj" where
  "result_of_errc e = \<lparr>ro_slot = None, ro_error = make_error_code e, ro_has_value = False\<rparr>"

text \<open>\<open>destroy()\<close>: ends the lifetime of the value, if there is one.\<close>

definition result_destroy :: "'a result_obj \<Rightarrow> 'a result_obj option" where
  "result_destroy r =
     (if ro_has_value r
      then (case ro_slot r of None \<Rightarrow> None | Some _ \<Rightarrow> Some (r\<lparr>ro_slot := None\<rparr>))
      else Some r)"

definition result_copy :: "'a result_obj \<Rightarrow> 'a result_obj option" where
  "result_copy other =
     (if ro_has_value other
      then (case ro_slot other of
              None \<Rightarrow> None
            | Some v \<Rightarrow> Some \<lparr>ro_slot = Some v, ro_error = ro_error other, ro_has_value = True\<rparr>)
      else Some \<lparr>ro_slot = None, ro_error = ro_error other, ro_has_value = False\<rparr>)"

text \<open>Move construction also yields the source object after the move.\<close>

definition result_move ::
    "('a \<Rightarrow> 'a) \<Rightarrow> 'a result_obj \<Rightarrow> ('a result_obj \<times> 'a result_obj) option" where
  "result_move mv other =
     (if ro_has_value other
      then (case ro_slot other of
              None \<Rightarrow> None
            | Some v \<Rightarrow> Some (\<lparr>ro_slot = Some v, ro_error = ro_error other, ro_has_value = True\<rparr>,
                             other\<lparr>ro_slot := Some (mv v)\<rparr>))
      else Some (\<lparr>ro_slot = None, ro_error = ro_error other, ro_has_value = False\<rparr>, other))"

text \<open>
  The assignment operators; \<open>aliased\<close> is the outcome of the test \<open>this == &other\<close>. Without
  the guard a self-assignment would read the slot it has just destroyed.
\<close>

definition result_copy_assign ::
    "bool \<Rightarrow> 'a result_obj \<Rightarrow> 'a result_obj \<Rightarrow> 'a result_obj option" where
  "result_copy_assign aliased this other =
     (if \<not> aliased
      then (case result_destroy this of
              None \<Rightarrow> None
            | Some _ \<Rightarrow> result_copy other)
      else Some this)"

definition result_move_assign ::
    "('a \<Rightarrow> 'a) \<Rightarrow> bool \<Rightarrow> 'a result_obj \<Rightarrow> 'a result_obj \<Rightarrow> ('a result_obj \<times> 'a result_obj) option" where
  "result_move_assign mv aliased this other =
     (if \<not> aliased
      then (case result_destroy this of
              None \<Rightarrow> None
            | Some _ \<Rightarrow> result_move mv other)
      else Some (this, other))"

text \<open>\<open>value()\<close> aborts the program when there is no value.\<close>

datatype 'a access = Abort | Access 'a

definition result_value :: "'a result_obj \<Rightarrow> 'a access" where
  "result_value r =
     (if \<not> ro_has_value r then Abort
      else (case ro_slot r of None \<Rightarrow> Abort | Some v \<Rightarrow> Access v))"

definition result_error :: "'a result_obj \<Rightarrow> error_code" where
  "result_error r = (if ro_has_value r then no_error else ro_error r)"

definition result_wf :: "'a result_obj \<Rightarrow> bool" where
  "result_wf r \<longleftrightarrow> (ro_has_value r \<longleftrightarrow> ro_slot r \<noteq> None)"

type_synonym 'a result = "error_code + 'a"

definition result_abs :: "'a result_obj \<Rightarrow> 'a result" where
  "result_abs r = (case ro_slot r of None \<Rightarrow> Inl (ro_error r) | Some v \<Rightarrow> Inr v)"

text \<open>\<open>result<void>\<close>: an error code; \<open>operator bool\<close> tests it for 0.\<close>

type_synonym rvoid = error_code

definition void_ok :: rvoid where
  "void_ok = no_error"

definition is_ok :: "rvoid \<Rightarrow> bool" where
  "is_ok r \<longleftrightarrow> ec_value r = 0"

lemma is_ok_void_ok [simp]: "is_ok void_ok"
  by (simp add: is_ok_def void_ok_def no_error_def)

lemma is_ok_make_error_code [simp]: "is_ok (make_error_code e) \<longleftrightarrow> e = success"
  by (simp add: is_ok_def)

lemmas result_defs = result_wf_def result_abs_def result_of_value_def result_of_error_def
  result_of_errc_def result_destroy_def result_copy_def result_move_def
  result_copy_assign_def result_move_assign_def result_value_def result_error_def

section \<open>Properties\<close>

text \<open>
  \<open>normalize_error\<close> gives every system error of the switch the same portable code on every
  platform that has it: the portable code depends on the error's name only.
\<close>

theorem normalize_error_portable:
  assumes "os_error_value p n = Some v"
  shows "\<exists>e. map_of portable_cases n = Some e \<and>
           normalize_error p \<lparr>ec_value = v, ec_category = system_category\<rparr> = make_error_code e"
proof -
  from assms have "v \<noteq> 0" by (cases p; cases n) auto
  moreover from assms have "switch_error p v = map_of portable_cases n"
    by (rule switch_error_of_name)
  moreover obtain e where "map_of portable_cases n = Some e"
    by (cases n) (auto simp: portable_cases_def)
  ultimately show ?thesis by (simp add: normalize_error_def)
qed

theorem normalize_error_portable_witness:
  "os_error_value Windows ECONNREFUSED = Some 10061 \<and>
   (\<exists>e. map_of portable_cases ECONNREFUSED = Some e \<and>
     normalize_error Windows \<lparr>ec_value = 10061, ec_category = system_category\<rparr> = make_error_code e)"
  using normalize_error_portable [of Windows ECONNREFUSED 10061] by simp

text \<open>
  The error code that \<open>normalize_error\<close> returns is stable: normalising again, on any
  platform, changes nothing unless the code is still an unmapped system code; a code of any
  other category is never touched.
\<close>

theorem normalize_error_stable:
  "normalize_error p (normalize_error p ec) = normalize_error p ec \<and>
   (ec_category ec \<noteq> system_category \<longrightarrow> normalize_error q ec = ec)"
  by (auto simp: normalize_error_def split: option.split)

theorem normalize_error_stable_witness:
  "ec_category (make_error_code timed_out) \<noteq> system_category \<and>
   normalize_error MacOS (make_error_code timed_out) = make_error_code timed_out"
  using normalize_error_stable [of Linux "make_error_code timed_out" MacOS] by simp

text \<open>
  \<open>result<T>\<close> refines the sum type. Copying, moving and assigning well-formed results (an
  object to itself included) never destroys or reads a dead slot, keeps the flag and the storage
  in step, and delivers the source's abstract value; a moved-from result is still well-formed;
  \<open>value()\<close> aborts exactly on the error side.
\<close>

theorem result_refines_sum:
  assumes "result_wf this" and "result_wf other" and "aliased \<Longrightarrow> this = other"
  shows "(\<exists>r. result_copy_assign aliased this other = Some r \<and> result_wf r
           \<and> result_abs r = result_abs other) \<and>
         (\<exists>r o'. result_move_assign mv aliased this other = Some (r, o') \<and> result_wf r \<and> result_wf o'
           \<and> result_abs r = result_abs other \<and> ro_has_value o' = ro_has_value other) \<and>
         result_value this = (case result_abs this of Inl _ \<Rightarrow> Abort | Inr v \<Rightarrow> Access v)"
  using assms by (auto simp: result_defs split: option.splits)

theorem result_refines_sum_witness:
  "\<exists>r. result_copy_assign False (result_of_value (7::nat)) (result_of_errc timed_out) = Some r
       \<and> result_wf r \<and> result_abs r = Inl (make_error_code timed_out)"
proof -
  have "result_wf (result_of_value (7::nat))" and "result_wf (result_of_errc timed_out :: nat result_obj)"
    by (simp_all add: result_defs)
  from result_refines_sum [OF this, of False] show ?thesis by (simp add: result_defs)
qed

end
