(* ===== verification/Address.thy ===== *)
theory Address
  imports Errors "HOL-Library.Product_Lexorder" "HOL-Library.List_Lexorder"
begin

unbundle bit_operations_syntax

text \<open>
  Socket addresses at the byte level: \<open>src/net/address.cpp\<close>, \<open>src/net/inet4.cpp\<close>,
  \<open>src/net/inet6.cpp\<close> and their headers.

  The classes keep a \<open>sockaddr\<close> structure in opaque byte storage; the model keeps the same
  bytes and reads and writes the structure's fields at their offsets, so the copies between
  \<open>sock_address\<close>, \<open>inet4_address\<close> and \<open>inet6_address\<close> (all of them \<open>memcpy\<close>) are exact. The
  layout follows the platform: \<open>sa_family\<close> is two bytes on Linux and Windows and one byte at
  offset 1 on macOS. \<open>inet_pton\<close>, \<open>inet_ntop\<close> and \<open>std::hash\<close> on integers are arguments.

  The locale \<open>address_key\<close> is what hash maps and ordered containers need of an address type
  (equality, order and hash agree); it is interpreted for both address classes.
\<close>

section \<open>Layout of the sockaddr structures\<close>

definition AF_INET :: "platform \<Rightarrow> nat" where
  "AF_INET p = 2"

definition AF_INET6 :: "platform \<Rightarrow> nat" where
  "AF_INET6 p = (case p of Linux \<Rightarrow> 10 | MacOS \<Rightarrow> 30 | Windows \<Rightarrow> 23)"

definition set_family :: "platform \<Rightarrow> byte list \<Rightarrow> nat \<Rightarrow> byte list" where
  "set_family p m fam = (case p of
       MacOS \<Rightarrow> mem_put m 1 [word_of_nat fam]
     | _ \<Rightarrow> mem_put m 0 (le_bytes 2 fam))"

definition get_family :: "platform \<Rightarrow> byte list \<Rightarrow> nat" where
  "get_family p m = (case p of
       MacOS \<Rightarrow> le_val (mem_get m 1 1)
     | _ \<Rightarrow> le_val (mem_get m 0 2))"

abbreviation (input) zero_bytes :: "nat \<Rightarrow> byte list" where
  "zero_bytes n \<equiv> replicate n 0"

abbreviation (input) sizeof_sockaddr_in :: nat where "sizeof_sockaddr_in \<equiv> 16"
abbreviation (input) sizeof_sockaddr_in6 :: nat where "sizeof_sockaddr_in6 \<equiv> 28"
abbreviation (input) sizeof_storage :: nat where "sizeof_storage \<equiv> 128"

lemma length_set_family [mem_simps]:
  "2 \<le> length m \<Longrightarrow> length (set_family p m fam) = length m"
  by (cases p) (simp_all add: set_family_def length_mem_put)

lemma get_set_family [mem_simps]:
  "2 \<le> length m \<Longrightarrow> fam < 256 \<Longrightarrow> get_family p (set_family p m fam) = fam"
  by (cases p) (simp_all add: set_family_def get_family_def mem_get_put_same le_val_le_bytes unat_of_nat)

lemma mem_get_set_family [mem_simps]:
  "2 \<le> off \<Longrightarrow> 2 \<le> length m \<Longrightarrow> mem_get (set_family p m fam) off n = mem_get m off n"
  by (cases p) (simp_all add: set_family_def mem_get_put_after)

section \<open>sock_address\<close>

record sock_address =
  sa_storage :: "byte list"
  sa_len :: nat

definition sock_address_default :: sock_address where
  "sock_address_default = \<lparr>sa_storage = zero_bytes sizeof_storage, sa_len = sizeof_storage\<rparr>"

text \<open>
  The constructor from raw memory (\<open>None\<close> for a null pointer): at most the capacity is copied,
  while \<open>len_\<close> keeps the length the caller passed.
\<close>

definition sock_address_of :: "byte list option \<Rightarrow> nat \<Rightarrow> sock_address" where
  "sock_address_of addr len =
     \<lparr>sa_storage =
        (case addr of
           None \<Rightarrow> zero_bytes sizeof_storage
         | Some bs \<Rightarrow>
             if len > 0
             then (let copy_len = (if len < sizeof_storage then len else sizeof_storage)
                   in mem_put (zero_bytes sizeof_storage) 0 (take copy_len bs))
             else zero_bytes sizeof_storage),
      sa_len = len\<rparr>"

definition sa_is_v4 :: "platform \<Rightarrow> sock_address \<Rightarrow> bool" where
  "sa_is_v4 p a \<longleftrightarrow> get_family p (sa_storage a) = AF_INET p"

definition sa_is_v6 :: "platform \<Rightarrow> sock_address \<Rightarrow> bool" where
  "sa_is_v6 p a \<longleftrightarrow> get_family p (sa_storage a) = AF_INET6 p"

datatype address_family = ipv4 | ipv6

definition sa_family :: "platform \<Rightarrow> sock_address \<Rightarrow> address_family" where
  "sa_family p a = (if get_family p (sa_storage a) = AF_INET6 p then ipv6 else ipv4)"

definition sa_set_size :: "nat \<Rightarrow> sock_address \<Rightarrow> sock_address" where
  "sa_set_size len a = a\<lparr>sa_len := len\<rparr>"

text \<open>
  \<open>operator==\<close> and \<open>operator<\<close> compare \<open>len_\<close> bytes of the two 128-byte arrays; with a larger
  \<open>len_\<close> they read past the storage, which is \<open>None\<close>.
\<close>

fun memcmp :: "byte list \<Rightarrow> byte list \<Rightarrow> int" where
  "memcmp (x # xs) (y # ys) = (if x < y then -1 else if y < x then 1 else memcmp xs ys)"
| "memcmp _ _ = 0"

definition sa_eq :: "sock_address \<Rightarrow> sock_address \<Rightarrow> bool option" where
  "sa_eq l r =
     (if sa_len l \<noteq> sa_len r then Some False
      else if sa_len l > sizeof_storage then None
      else Some (memcmp (take (sa_len l) (sa_storage l)) (take (sa_len l) (sa_storage r)) = 0))"

definition sa_less :: "sock_address \<Rightarrow> sock_address \<Rightarrow> bool option" where
  "sa_less l r =
     (if sa_len l \<noteq> sa_len r then Some (sa_len l < sa_len r)
      else if sa_len l > sizeof_storage then None
      else Some (memcmp (take (sa_len l) (sa_storage l)) (take (sa_len l) (sa_storage r)) < 0))"

definition sa_wf :: "sock_address \<Rightarrow> bool" where
  "sa_wf a \<longleftrightarrow> length (sa_storage a) = sizeof_storage \<and> sa_len a \<le> sizeof_storage"

section \<open>inet4_address\<close>

record inet4_address =
  in4_storage :: "byte list"

definition inet4_default :: "platform \<Rightarrow> inet4_address" where
  "inet4_default p = \<lparr>in4_storage = set_family p (zero_bytes 16) (AF_INET p)\<rparr>"

definition inet4_make :: "platform \<Rightarrow> u32 \<Rightarrow> u16 \<Rightarrow> inet4_address" where
  "inet4_make p address prt =
     (let s0 = set_family p (zero_bytes 16) (AF_INET p);
          s1 = store32 s0 4 (htonl address);
          s2 = store16 s1 2 (htons prt)
      in \<lparr>in4_storage = s2\<rparr>)"

text \<open>Sizes of the text buffers: \<open>INET_ADDRSTRLEN\<close> and \<open>INET6_ADDRSTRLEN\<close>.\<close>

definition INET_ADDRSTRLEN :: "platform \<Rightarrow> nat" where
  "INET_ADDRSTRLEN p = (case p of Windows \<Rightarrow> 22 | _ \<Rightarrow> 16)"

definition INET6_ADDRSTRLEN :: "platform \<Rightarrow> nat" where
  "INET6_ADDRSTRLEN p = (case p of Windows \<Rightarrow> 65 | _ \<Rightarrow> 46)"

text \<open>The C string that \<open>inet_pton\<close> reads from the zero-initialised buffer of the given size.\<close>

definition text_buffer :: "nat \<Rightarrow> string \<Rightarrow> string" where
  "text_buffer n ip =
     takeWhile (\<lambda>c. c \<noteq> CHR 0x00)
       (take (if length ip < n - 1 then length ip else n - 1) ip)"

definition std_invalid_argument :: error_code where
  "std_invalid_argument = \<lparr>ec_value = 22, ec_category = generic_category\<rparr>"

definition inet4_parse ::
    "platform \<Rightarrow> (string \<Rightarrow> byte list option) \<Rightarrow> string \<Rightarrow> u16 \<Rightarrow> inet4_address result" where
  "inet4_parse p pton ip prt =
     (let s1 = store16 (in4_storage (inet4_default p)) 2 (htons prt)
      in (case pton (text_buffer (INET_ADDRSTRLEN p) ip) of
            None \<Rightarrow> Inl std_invalid_argument
          | Some b \<Rightarrow> Inr \<lparr>in4_storage = mem_put s1 4 b\<rparr>))"

definition INADDR_ANY :: u32 where "INADDR_ANY = 0"
definition INADDR_LOOPBACK :: u32 where "INADDR_LOOPBACK = 0x7f000001"

definition inet4_any :: "platform \<Rightarrow> u16 \<Rightarrow> inet4_address" where
  "inet4_any p prt = inet4_make p INADDR_ANY prt"

definition inet4_loopback :: "platform \<Rightarrow> u16 \<Rightarrow> inet4_address" where
  "inet4_loopback p prt = inet4_make p INADDR_LOOPBACK prt"

definition inet4_ip :: "inet4_address \<Rightarrow> u32" where
  "inet4_ip a = ntohl (load32 (in4_storage a) 4)"

definition inet4_port :: "inet4_address \<Rightarrow> u16" where
  "inet4_port a = ntohs (load16 (in4_storage a) 2)"

text \<open>\<open>std::to_string\<close> on an unsigned value.\<close>

fun decimal :: "nat \<Rightarrow> string" where
  "decimal n = (if n < 10 then [char_of (48 + n)] else decimal (n div 10) @ [char_of (48 + n mod 10)])"

declare decimal.simps [simp del]

definition inet4_to_string :: "(byte list \<Rightarrow> string) \<Rightarrow> inet4_address \<Rightarrow> string" where
  "inet4_to_string ntop a =
     ntop (mem_get (in4_storage a) 4 4) @ '':'' @ decimal (unat (ntohs (load16 (in4_storage a) 2)))"

definition inet4_to_sock :: "inet4_address \<Rightarrow> sock_address" where
  "inet4_to_sock a = sock_address_of (Some (in4_storage a)) sizeof_sockaddr_in"

text \<open>The inverse copy \<open>memcpy(&addr, sa.data(), sizeof(addr))\<close> of the typed accessors.\<close>

definition inet4_of_sock :: "sock_address \<Rightarrow> inet4_address" where
  "inet4_of_sock sa = \<lparr>in4_storage = mem_get (sa_storage sa) 0 16\<rparr>"

definition inet4_hash :: "(u32 \<Rightarrow> u64) \<Rightarrow> (u16 \<Rightarrow> u64) \<Rightarrow> inet4_address \<Rightarrow> u64" where
  "inet4_hash h32 h16 a = h32 (inet4_ip a) XOR push_bit 1 (h16 (inet4_port a))"

definition inet4_eq :: "inet4_address \<Rightarrow> inet4_address \<Rightarrow> bool" where
  "inet4_eq l r \<longleftrightarrow> inet4_ip l = inet4_ip r \<and> inet4_port l = inet4_port r"

definition inet4_less :: "inet4_address \<Rightarrow> inet4_address \<Rightarrow> bool" where
  "inet4_less l r =
     (if inet4_ip l \<noteq> inet4_ip r then inet4_ip l < inet4_ip r
      else inet4_port l < inet4_port r)"

definition inet4_wf :: "inet4_address \<Rightarrow> bool" where
  "inet4_wf a \<longleftrightarrow> length (in4_storage a) = 16"

section \<open>inet6_address\<close>

record inet6_address =
  in6_storage :: "byte list"

definition inet6_default :: "platform \<Rightarrow> inet6_address" where
  "inet6_default p = \<lparr>in6_storage = set_family p (zero_bytes 28) (AF_INET6 p)\<rparr>"

definition inet6_make :: "platform \<Rightarrow> byte list \<Rightarrow> u16 \<Rightarrow> u32 \<Rightarrow> u32 \<Rightarrow> inet6_address" where
  "inet6_make p addr prt scope flow =
     (let s0 = set_family p (zero_bytes 28) (AF_INET6 p);
          s1 = mem_put s0 8 (take 16 addr);
          s2 = store16 s1 2 (htons prt);
          s3 = store32 s2 24 scope;
          s4 = store32 s3 4 flow
      in \<lparr>in6_storage = s4\<rparr>)"

definition inet6_bytes :: "inet6_address \<Rightarrow> byte list" where
  "inet6_bytes a = mem_get (in6_storage a) 8 16"

definition inet6_port :: "inet6_address \<Rightarrow> u16" where
  "inet6_port a = ntohs (load16 (in6_storage a) 2)"

definition inet6_scope_id :: "inet6_address \<Rightarrow> u32" where
  "inet6_scope_id a = load32 (in6_storage a) 24"

definition inet6_flowinfo :: "inet6_address \<Rightarrow> u32" where
  "inet6_flowinfo a = load32 (in6_storage a) 4"

definition inet6_is_link_local :: "inet6_address \<Rightarrow> bool" where
  "inet6_is_link_local a =
     (let b = inet6_bytes a in b ! 0 = 0xfe \<and> (b ! 1) AND 0xc0 = 0x80)"

definition inet6_parse ::
    "platform \<Rightarrow> (string \<Rightarrow> byte list option) \<Rightarrow> string \<Rightarrow> u16 \<Rightarrow> u32 \<Rightarrow> inet6_address result" where
  "inet6_parse p pton ip prt scope =
     (let s1 = store16 (in6_storage (inet6_default p)) 2 (htons prt);
          s2 = store32 s1 24 scope
      in (case pton (text_buffer (INET6_ADDRSTRLEN p) ip) of
            None \<Rightarrow> Inl std_invalid_argument
          | Some b \<Rightarrow>
              (let a = \<lparr>in6_storage = mem_put s2 8 b\<rparr>
               in if inet6_is_link_local a \<and> scope = 0
                  then Inl (make_error_code missing_scope_id)
                  else Inr a)))"

definition inet6_any :: "platform \<Rightarrow> u16 \<Rightarrow> inet6_address" where
  "inet6_any p prt = inet6_make p (zero_bytes 16) prt 0 0"

definition inet6_loopback :: "platform \<Rightarrow> u16 \<Rightarrow> inet6_address" where
  "inet6_loopback p prt = inet6_make p ((zero_bytes 16)[15 := 1]) prt 0 0"

definition inet6_to_string :: "(byte list \<Rightarrow> string) \<Rightarrow> inet6_address \<Rightarrow> string" where
  "inet6_to_string ntop a =
     ''['' @ ntop (inet6_bytes a)
     @ (if inet6_scope_id a \<noteq> 0 then ''%'' @ decimal (unat (inet6_scope_id a)) else [])
     @ '']:'' @ decimal (unat (ntohs (load16 (in6_storage a) 2)))"

text \<open>The loop over the first ten bytes, then the test of bytes 10 and 11.\<close>

fun all_zero_upto :: "byte list \<Rightarrow> nat \<Rightarrow> bool" where
  "all_zero_upto b 0 = True"
| "all_zero_upto b (Suc n) = (all_zero_upto b n \<and> b ! n = 0)"

definition inet6_is_v4_mapped :: "inet6_address \<Rightarrow> bool" where
  "inet6_is_v4_mapped a =
     (let b = inet6_bytes a in all_zero_upto b 10 \<and> b ! 10 = 0xff \<and> b ! 11 = 0xff)"

definition inet6_to_v4 :: "platform \<Rightarrow> inet6_address \<Rightarrow> inet4_address result" where
  "inet6_to_v4 p a =
     (if \<not> inet6_is_v4_mapped a then Inl (make_error_code invalid_state)
      else Inr (inet4_make p (ntohl (load32 (inet6_bytes a) 12)) (inet6_port a)))"

definition inet6_to_sock :: "inet6_address \<Rightarrow> sock_address" where
  "inet6_to_sock a = sock_address_of (Some (in6_storage a)) sizeof_sockaddr_in6"

definition inet6_of_sock :: "sock_address \<Rightarrow> inet6_address" where
  "inet6_of_sock sa = \<lparr>in6_storage = mem_get (sa_storage sa) 0 28\<rparr>"

definition inet6_hash :: "(u16 \<Rightarrow> u64) \<Rightarrow> (u32 \<Rightarrow> u64) \<Rightarrow> inet6_address \<Rightarrow> u64" where
  "inet6_hash h16 h32 a =
     (let h = fold (\<lambda>b h. h * 131 + ucast b) (inet6_bytes a) 0;
          h' = h XOR push_bit 1 (h16 (inet6_port a))
      in h' XOR push_bit 2 (h32 (inet6_scope_id a)))"

definition inet6_eq :: "inet6_address \<Rightarrow> inet6_address \<Rightarrow> bool" where
  "inet6_eq l r \<longleftrightarrow>
     memcmp (inet6_bytes l) (inet6_bytes r) = 0
     \<and> load16 (in6_storage l) 2 = load16 (in6_storage r) 2
     \<and> load32 (in6_storage l) 24 = load32 (in6_storage r) 24"

definition inet6_less :: "inet6_address \<Rightarrow> inet6_address \<Rightarrow> bool" where
  "inet6_less l r =
     (let cmp = memcmp (inet6_bytes l) (inet6_bytes r)
      in if cmp \<noteq> 0 then cmp < 0
         else if load16 (in6_storage l) 2 \<noteq> load16 (in6_storage r) 2
              then ntohs (load16 (in6_storage l) 2) < ntohs (load16 (in6_storage r) 2)
              else load32 (in6_storage l) 24 < load32 (in6_storage r) 24)"

definition inet6_wf :: "inet6_address \<Rightarrow> bool" where
  "inet6_wf a \<longleftrightarrow> length (in6_storage a) = 28"

section \<open>Field access\<close>

lemmas layout_simps = mem_simps AF_INET_def AF_INET6_def load16_def load32_def store16_def store32_def

lemma inet4_fields [simp]:
  "inet4_ip (inet4_make p address prt) = address"
  "inet4_port (inet4_make p address prt) = prt"
  by (simp_all add: inet4_ip_def inet4_port_def inet4_make_def Let_def layout_simps)

lemma inet4_make_wf [simp]: "inet4_wf (inet4_make p address prt)"
  by (simp add: inet4_wf_def inet4_make_def Let_def layout_simps)

lemma inet6_fields [simp]:
  assumes "length addr = 16"
  shows "inet6_bytes (inet6_make p addr prt scope flow) = addr"
    and "inet6_port (inet6_make p addr prt scope flow) = prt"
    and "inet6_scope_id (inet6_make p addr prt scope flow) = scope"
    and "inet6_flowinfo (inet6_make p addr prt scope flow) = flow"
  using assms
  by (simp_all add: inet6_bytes_def inet6_port_def inet6_scope_id_def inet6_flowinfo_def
      inet6_make_def Let_def layout_simps)

lemma inet6_make_wf [simp]: "length addr = 16 \<Longrightarrow> inet6_wf (inet6_make p addr prt scope flow)"
  by (simp add: inet6_wf_def inet6_make_def Let_def layout_simps)

lemma length_inet6_bytes: "inet6_wf a \<Longrightarrow> length (inet6_bytes a) = 16"
  by (simp add: inet6_wf_def inet6_bytes_def length_mem_get)

lemma mem_get_all: "length m = n \<Longrightarrow> mem_get (mem_put d 0 m) 0 n = m"
  by (simp add: mem_get_def mem_put_def)

lemma sock_address_of_wf: "len \<le> length bs \<Longrightarrow> len \<le> sizeof_storage \<Longrightarrow>
    sa_wf (sock_address_of (Some bs) len)"
  by (simp add: sa_wf_def sock_address_of_def Let_def length_mem_put)

lemma inet4_sock_roundtrip: "inet4_wf a \<Longrightarrow> inet4_of_sock (inet4_to_sock a) = a"
  by (simp add: inet4_of_sock_def inet4_to_sock_def inet4_wf_def sock_address_of_def Let_def
      mem_get_all)

lemma inet6_sock_roundtrip: "inet6_wf a \<Longrightarrow> inet6_of_sock (inet6_to_sock a) = a"
  by (simp add: inet6_of_sock_def inet6_to_sock_def inet6_wf_def sock_address_of_def Let_def
      mem_get_all)

section \<open>Comparison and hashing\<close>

lemma memcmp_zero_iff: "length xs = length ys \<Longrightarrow> memcmp xs ys = 0 \<longleftrightarrow> xs = ys"
  by (induction xs ys rule: memcmp.induct) auto

lemma memcmp_neg_iff: "length xs = length ys \<Longrightarrow> memcmp xs ys < 0 \<longleftrightarrow> xs < ys"
  by (induction xs ys rule: memcmp.induct) auto

locale address_key =
  fixes wf :: "'a \<Rightarrow> bool"
    and eq :: "'a \<Rightarrow> 'a \<Rightarrow> bool"
    and lt :: "'a \<Rightarrow> 'a \<Rightarrow> bool"
    and hash :: "'a \<Rightarrow> u64"
    and key :: "'a \<Rightarrow> 'k::linorder"
  assumes eq_key: "wf a \<Longrightarrow> wf b \<Longrightarrow> eq a b \<longleftrightarrow> key a = key b"
    and lt_key: "wf a \<Longrightarrow> wf b \<Longrightarrow> lt a b \<longleftrightarrow> key a < key b"
    and hash_key: "wf a \<Longrightarrow> wf b \<Longrightarrow> key a = key b \<Longrightarrow> hash a = hash b"
begin

lemma eq_refl: "wf a \<Longrightarrow> eq a a"
  by (simp add: eq_key)

lemma eq_sym: "wf a \<Longrightarrow> wf b \<Longrightarrow> eq a b \<Longrightarrow> eq b a"
  by (simp add: eq_key)

lemma eq_trans: "wf a \<Longrightarrow> wf b \<Longrightarrow> wf c \<Longrightarrow> eq a b \<Longrightarrow> eq b c \<Longrightarrow> eq a c"
  by (simp add: eq_key)

lemma eq_hash: "wf a \<Longrightarrow> wf b \<Longrightarrow> eq a b \<Longrightarrow> hash a = hash b"
  by (rule hash_key) (simp_all add: eq_key)

lemma lt_trans: "wf a \<Longrightarrow> wf b \<Longrightarrow> wf c \<Longrightarrow> lt a b \<Longrightarrow> lt b c \<Longrightarrow> lt a c"
  by (simp add: lt_key)

lemma trichotomy:
  "wf a \<Longrightarrow> wf b \<Longrightarrow>
   (lt a b \<and> \<not> eq a b \<and> \<not> lt b a) \<or> (\<not> lt a b \<and> eq a b \<and> \<not> lt b a) \<or> (\<not> lt a b \<and> \<not> eq a b \<and> lt b a)"
  by (auto simp: lt_key eq_key)

lemma incomparable_iff_eq: "wf a \<Longrightarrow> wf b \<Longrightarrow> \<not> lt a b \<and> \<not> lt b a \<longleftrightarrow> eq a b"
  by (auto simp: eq_key lt_key)

lemma lt_irrefl: "wf a \<Longrightarrow> \<not> lt a a"
  by (simp add: lt_key)

end

definition inet4_key :: "inet4_address \<Rightarrow> u32 \<times> u16" where
  "inet4_key a = (inet4_ip a, inet4_port a)"

definition inet6_key :: "inet6_address \<Rightarrow> byte list \<times> u16 \<times> u32" where
  "inet6_key a = (inet6_bytes a, inet6_port a, inet6_scope_id a)"

interpretation a4: address_key inet4_wf inet4_eq inet4_less "inet4_hash h32 h16" inet4_key
  by unfold_locales
    (auto simp: inet4_eq_def inet4_less_def inet4_key_def inet4_hash_def)

lemma inet6_eq_key:
  assumes "inet6_wf a" and "inet6_wf b"
  shows "inet6_eq a b \<longleftrightarrow> inet6_key a = inet6_key b"
  using assms memcmp_zero_iff [of "inet6_bytes a" "inet6_bytes b"]
  by (simp add: inet6_eq_def inet6_key_def length_inet6_bytes inet6_port_def inet6_scope_id_def)

lemma inet6_less_key:
  assumes "inet6_wf a" and "inet6_wf b"
  shows "inet6_less a b \<longleftrightarrow> inet6_key a < inet6_key b"
  using assms memcmp_zero_iff [of "inet6_bytes a" "inet6_bytes b"]
    memcmp_neg_iff [of "inet6_bytes a" "inet6_bytes b"]
  by (auto simp: inet6_less_def inet6_key_def Let_def length_inet6_bytes inet6_port_def
      inet6_scope_id_def order.order_iff_strict)

interpretation a6: address_key inet6_wf inet6_eq inet6_less "inet6_hash h16 h32" inet6_key
  by unfold_locales (auto simp: inet6_eq_key inet6_less_key inet6_hash_def inet6_key_def Let_def)

section \<open>Parsing\<close>

lemma text_buffer_short:
  assumes "length s < n" and "CHR 0x00 \<notin> set s"
  shows "text_buffer n s = s"
proof -
  have "takeWhile (\<lambda>c. c \<noteq> CHR 0x00) s = s"
    using assms(2) by (auto simp: takeWhile_eq_all_conv)
  then show ?thesis using assms(1) by (simp add: text_buffer_def)
qed

lemma text_buffer_truncates: "length s = n - 1 \<Longrightarrow> text_buffer n (s @ t) = text_buffer n s"
  by (simp add: text_buffer_def)

lemma inet4_parse_fields:
  assumes "pton (text_buffer (INET_ADDRSTRLEN p) s) = Some b" and "length b = 4"
  shows "\<exists>a. inet4_parse p pton s prt = Inr a \<and> inet4_wf a \<and> mem_get (in4_storage a) 4 4 = b
           \<and> inet4_port a = prt"
  using assms
  by (simp add: inet4_parse_def inet4_default_def inet4_port_def inet4_wf_def Let_def layout_simps)

lemma inet6_parse_fields:
  assumes "pton (text_buffer (INET6_ADDRSTRLEN p) s) = Some b" and "length b = 16"
    and "inet6_parse p pton s prt scope = Inr a"
  shows "inet6_wf a \<and> inet6_bytes a = b \<and> inet6_port a = prt \<and> inet6_scope_id a = scope
         \<and> (inet6_is_link_local a \<longrightarrow> scope \<noteq> 0)"
  using assms
  by (auto simp: inet6_parse_def inet6_default_def inet6_port_def inet6_wf_def inet6_bytes_def
      inet6_scope_id_def Let_def layout_simps split: if_splits)

lemma inet4_ip_of_bytes:
  assumes "inet4_wf a" "inet4_wf b" "mem_get (in4_storage a) 4 4 = mem_get (in4_storage b) 4 4"
  shows "inet4_ip a = inet4_ip b"
  using assms by (simp add: inet4_ip_def load32_def)

lemma all_zero_upto_iff: "n \<le> length b \<Longrightarrow> all_zero_upto b n \<longleftrightarrow> take n b = replicate n 0"
  by (induction n) (auto simp: take_Suc_conv_app_nth replicate_append_same [symmetric])

lemma v4_mapped_prefix:
  assumes "length addr = 16"
  shows "inet6_is_v4_mapped (inet6_make p addr prt scope flow)
    \<longleftrightarrow> take 12 addr = replicate 10 0 @ [0xff, 0xff]"
proof -
  have "take 12 addr = take 10 addr @ [addr ! 10, addr ! 11]"
    using assms take_Suc_conv_app_nth [of 10 addr] take_Suc_conv_app_nth [of 11 addr] by simp
  then show ?thesis
    using assms by (simp add: inet6_is_v4_mapped_def Let_def all_zero_upto_iff)
qed

lemma htonl_of_le:
  assumes "length b = 4"
  shows "htonl (word_of_nat (le_val b)) = word_of_nat (le_val (rev b))"
proof -
  have "le_val b < 2 ^ LENGTH(32)" using le_val_less [of b] assms by simp
  then have "unat (word_of_nat (le_val b) :: u32) = le_val b" by (simp add: unat_of_nat)
  then show ?thesis using assms by (simp add: htonl_def le_bytes_le_val)
qed

lemma embedded_v4:
  "length addr = 16 \<Longrightarrow> ntohl (load32 addr 12) = word_of_nat (le_val (rev (drop 12 addr)))"
  by (simp add: load32_def mem_get_def htonl_of_le)

text \<open>
  A printer with two letters per byte and its parser, as an instance of the pair
  \<open>inet_ntop\<close>/\<open>inet_pton\<close>.
\<close>

definition hex_ntop :: "byte list \<Rightarrow> string" where
  "hex_ntop b = concat (map (\<lambda>x. [char_of (65 + unat x div 16), char_of (65 + unat x mod 16)]) b)"

fun hex_pton :: "string \<Rightarrow> byte list option" where
  "hex_pton [] = Some []"
| "hex_pton [x] = None"
| "hex_pton (x # y # s) =
     map_option ((#) (word_of_nat (16 * (of_char x - 65) + (of_char y - 65)))) (hex_pton s)"

lemma of_char_letter: "n < 16 \<Longrightarrow> of_char (char_of (65 + n :: nat)) = 65 + n"
  by simp

lemma unat_nibbles: "unat (x :: byte) div 16 < 16" "unat x mod 16 < 16"
proof -
  have "unat x < 2 ^ LENGTH(8)" by (rule unsigned_less)
  then show "unat x div 16 < 16" "unat x mod 16 < 16" by simp_all
qed

lemma hex_pton_ntop: "hex_pton (hex_ntop b) = Some b"
  by (induction b) (simp_all only: hex_ntop_def list.map concat.simps append.simps hex_pton.simps
      of_char_letter unat_nibbles option.map diff_add_inverse mult_div_mod_eq, simp)

lemma length_hex_ntop: "length (hex_ntop b) = 2 * length b"
  by (induction b) (simp_all add: hex_ntop_def)

lemma letter_no_nul: "n < 16 \<Longrightarrow> CHR 0x00 \<noteq> char_of (65 + n :: nat)"
proof
  assume "n < 16" and "CHR 0x00 = char_of (65 + n)"
  then have "of_char (CHR 0x00) = 65 + n" using of_char_letter [of n] by metis
  then show False by simp
qed

lemma hex_ntop_no_nul: "CHR 0x00 \<notin> set (hex_ntop b)"
  using letter_no_nul unat_nibbles by (auto simp only: hex_ntop_def set_concat set_map list.set UN_iff
      image_iff insert_iff empty_iff)

section \<open>Properties\<close>

text \<open>
  C37: an IPv4 address built from an address and a port gives both back, in host order, on
  every platform; converting it to a \<open>sock_address\<close> keeps its family and its bytes, and the
  typed accessors' copy back is the identity.
\<close>

theorem inet4_roundtrip:
  "inet4_ip (inet4_make p address prt) = address \<and>
   inet4_port (inet4_make p address prt) = prt \<and>
   sa_is_v4 p (inet4_to_sock (inet4_make p address prt)) \<and>
   sa_family p (inet4_to_sock (inet4_make p address prt)) = ipv4 \<and>
   sa_wf (inet4_to_sock (inet4_make p address prt)) \<and>
   inet4_of_sock (inet4_to_sock (inet4_make p address prt)) = inet4_make p address prt"
proof -
  let ?a = "inet4_make p address prt"
  have wf: "length (in4_storage ?a) = 16" using inet4_make_wf by (simp add: inet4_wf_def)
  have fam: "get_family p (in4_storage ?a) = 2"
    by (cases p) (simp_all add: inet4_make_def Let_def layout_simps get_family_def set_family_def
        le_val_le_bytes)
  have "get_family p (sa_storage (inet4_to_sock ?a)) = get_family p (in4_storage ?a)"
    using wf by (cases p) (simp_all add: inet4_to_sock_def sock_address_of_def Let_def
        get_family_def mem_get_def mem_put_def)
  with fam have fam': "get_family p (sa_storage (inet4_to_sock ?a)) = 2" by simp
  have "sa_wf (inet4_to_sock ?a)" using wf by (simp add: inet4_to_sock_def sock_address_of_wf)
  moreover have "sa_is_v4 p (inet4_to_sock ?a)" "sa_family p (inet4_to_sock ?a) = ipv4"
    using fam' by (cases p; simp add: sa_is_v4_def sa_family_def AF_INET_def AF_INET6_def)+
  ultimately show ?thesis
    using inet4_sock_roundtrip [OF inet4_make_wf, of p address prt] by simp
qed

text \<open>
  An IPv6 address keeps its sixteen bytes, port, scope and flow label, and survives the
  conversion to \<open>sock_address\<close> and back; \<open>any\<close> and \<open>loopback\<close> are the addresses \<open>::\<close> and
  \<open>::1\<close>.
\<close>

theorem inet6_roundtrip:
  assumes "length addr = 16"
  shows "inet6_bytes (inet6_make p addr prt scope flow) = addr \<and>
    inet6_port (inet6_make p addr prt scope flow) = prt \<and>
    inet6_scope_id (inet6_make p addr prt scope flow) = scope \<and>
    inet6_flowinfo (inet6_make p addr prt scope flow) = flow \<and>
    inet6_of_sock (inet6_to_sock (inet6_make p addr prt scope flow))
      = inet6_make p addr prt scope flow \<and>
    inet6_bytes (inet6_any p prt) = replicate 16 0 \<and>
    inet6_bytes (inet6_loopback p prt) = replicate 15 0 @ [1]"
  using assms
  by (simp add: inet6_sock_roundtrip inet6_any_def inet6_loopback_def eval_nat_numeral)

theorem inet6_roundtrip_witness:
  "inet6_port (inet6_make MacOS (replicate 16 0xab) 8080 7 0) = 8080 \<and>
   inet6_scope_id (inet6_make MacOS (replicate 16 0xab) 8080 7 0) = 7"
  using inet6_roundtrip [of "replicate 16 0xab" MacOS 8080 7 0] by simp

text \<open>
  Equality, order and hash of \<open>inet4_address\<close> agree, for every hash of the integer fields:
  \<open>==\<close> is an equivalence, equal addresses have equal hashes, and \<open><\<close> is a strict order whose
  incomparable pairs are exactly the equal ones. The hash maps keyed by peer address
  (\<open>claimed_peers\<close>, \<open>peers_\<close>) rely on this.
\<close>

theorem inet4_container_ready:
  assumes "inet4_wf a" and "inet4_wf b" and "inet4_wf c"
  shows "inet4_eq a a \<and> (inet4_eq a b \<longrightarrow> inet4_eq b a) \<and>
    (inet4_eq a b \<and> inet4_eq b c \<longrightarrow> inet4_eq a c) \<and>
    (inet4_eq a b \<longrightarrow> inet4_hash h32 h16 a = inet4_hash h32 h16 b) \<and>
    (inet4_less a b \<and> inet4_less b c \<longrightarrow> inet4_less a c) \<and>
    (\<not> inet4_less a b \<and> \<not> inet4_less b a \<longleftrightarrow> inet4_eq a b)"
  using assms
  by (blast intro: a4.eq_refl a4.eq_sym a4.eq_trans a4.eq_hash a4.lt_trans
      dest: a4.incomparable_iff_eq [THEN iffD1] a4.incomparable_iff_eq [THEN iffD2])

theorem inet4_container_ready_witness:
  "inet4_eq (inet4_loopback Linux 80) (inet4_loopback Linux 80) \<and>
   \<not> inet4_eq (inet4_loopback Linux 80) (inet4_loopback Linux 81) \<and>
   (\<not> inet4_less (inet4_loopback Linux 80) (inet4_loopback Linux 80))"
proof -
  have wf: "inet4_wf (inet4_loopback Linux q)" for q by (simp add: inet4_loopback_def)
  show ?thesis
    using inet4_container_ready [OF wf [of 80] wf [of 80] wf [of 81]]
    by (auto simp: inet4_loopback_def inet4_eq_def)
qed

text \<open>
  The same for \<open>inet6_address\<close>, whose \<open>==\<close> and \<open><\<close> compare the bytes with \<open>memcmp\<close>, the
  port and the scope, and ignore the flow label.
\<close>

theorem inet6_container_ready:
  assumes "inet6_wf a" and "inet6_wf b" and "inet6_wf c"
  shows "inet6_eq a a \<and> (inet6_eq a b \<longrightarrow> inet6_eq b a) \<and>
    (inet6_eq a b \<and> inet6_eq b c \<longrightarrow> inet6_eq a c) \<and>
    (inet6_eq a b \<longrightarrow> inet6_hash h16 h32 a = inet6_hash h16 h32 b) \<and>
    (inet6_less a b \<and> inet6_less b c \<longrightarrow> inet6_less a c) \<and>
    (\<not> inet6_less a b \<and> \<not> inet6_less b a \<longleftrightarrow> inet6_eq a b)"
  using assms
  by (blast intro: a6.eq_refl a6.eq_sym a6.eq_trans a6.eq_hash a6.lt_trans
      dest: a6.incomparable_iff_eq [THEN iffD1] a6.incomparable_iff_eq [THEN iffD2])

theorem inet6_container_ready_witness:
  "inet6_eq (inet6_make Linux (replicate 16 1) 80 0 5) (inet6_make Linux (replicate 16 1) 80 0 9) \<and>
   \<not> inet6_less (inet6_make Linux (replicate 16 1) 80 0 5) (inet6_make Linux (replicate 16 1) 80 0 9)"
proof -
  let ?a = "inet6_make Linux (replicate 16 1) 80 0 5"
  let ?b = "inet6_make Linux (replicate 16 1) 80 0 9"
  have wf: "inet6_wf ?a" "inet6_wf ?b" by simp_all
  have "inet6_eq ?a ?b" using wf by (simp add: inet6_eq_key inet6_key_def)
  then show ?thesis using inet6_container_ready [OF wf wf(1)] by blast
qed

text \<open>
  \<open>inet6_address::to_v4\<close> succeeds exactly on the v4-mapped addresses \<open>::ffff:a.b.c.d\<close>, and
  then returns the embedded IPv4 address, read in network byte order, and the port; on every
  other address it reports \<open>invalid_state\<close>.
\<close>

theorem inet6_to_v4_mapped:
  assumes "length addr = 16"
  shows "inet6_to_v4 p (inet6_make p addr prt scope flow) =
    (if take 12 addr = replicate 10 0 @ [0xff, 0xff]
     then Inr (inet4_make p (word_of_nat (le_val (rev (drop 12 addr)))) prt)
     else Inl (make_error_code invalid_state))"
  using assms
  by (simp add: inet6_to_v4_def v4_mapped_prefix embedded_v4)

theorem inet6_to_v4_mapped_witness:
  "inet6_to_v4 Linux (inet6_make Linux [0, 0, 0, 0, 0, 0, 0, 0, 0, 0, 0xff, 0xff, 192, 168, 0, 1] 53 0 0)
     = Inr (inet4_make Linux 0xc0a80001 53)"
proof -
  have "replicate 10 0 = [0, 0, 0, 0, 0, 0, 0, 0, 0, 0 :: byte]" by (simp add: eval_nat_numeral)
  then show ?thesis
    using inet6_to_v4_mapped [of "[0, 0, 0, 0, 0, 0, 0, 0, 0, 0, 0xff, 0xff, 192, 168, 0, 1]" Linux 53 0 0]
    by simp
qed

text \<open>
  Parsing is the inverse of printing. For every \<open>inet_pton\<close>/\<open>inet_ntop\<close> pair that is a
  round trip on four bytes and prints at most \<open>INET_ADDRSTRLEN - 1\<close> characters, none of them
  NUL, parsing the printed address part of any IPv4 address with its port gives an equal address.
\<close>

theorem inet4_parse_print:
  assumes pton_ntop: "\<And>b. length b = 4 \<Longrightarrow> pton (ntop b) = Some b"
    and ntop_fits: "\<And>b. length b = 4 \<Longrightarrow> length (ntop b) < INET_ADDRSTRLEN p"
    and ntop_no_nul: "\<And>b. length b = 4 \<Longrightarrow> CHR 0x00 \<notin> set (ntop b)"
    and wf: "inet4_wf a"
  shows "\<exists>a'. inet4_parse p pton (ntop (mem_get (in4_storage a) 4 4)) (inet4_port a) = Inr a'
           \<and> inet4_eq a' a"
proof -
  let ?b = "mem_get (in4_storage a) 4 4"
  have b: "length ?b = 4" using wf by (simp add: inet4_wf_def length_mem_get)
  have "pton (text_buffer (INET_ADDRSTRLEN p) (ntop ?b)) = Some ?b"
    using b by (simp add: text_buffer_short ntop_fits ntop_no_nul pton_ntop)
  from inet4_parse_fields [where pton = pton and p = p and prt = "inet4_port a", OF this b]
  obtain a'
    where "inet4_parse p pton (ntop ?b) (inet4_port a) = Inr a'" "inet4_wf a'"
      "mem_get (in4_storage a') 4 4 = ?b" "inet4_port a' = inet4_port a" by blast
  moreover from this have "inet4_ip a' = inet4_ip a" by (intro inet4_ip_of_bytes wf)
  ultimately show ?thesis by (simp add: inet4_eq_def)
qed

theorem inet4_parse_print_witness:
  "\<exists>a'. inet4_parse Linux hex_pton (hex_ntop (mem_get (in4_storage (inet4_make Linux 1 80)) 4 4))
      (inet4_port (inet4_make Linux 1 80)) = Inr a' \<and> inet4_eq a' (inet4_make Linux 1 80)"
proof (rule inet4_parse_print [of hex_pton hex_ntop])
  show "length (hex_ntop b) < INET_ADDRSTRLEN Linux" if "length b = 4" for b
    using that by (simp add: length_hex_ntop INET_ADDRSTRLEN_def)
qed (simp_all only: hex_pton_ntop hex_ntop_no_nul inet4_make_wf not_False_eq_True)

text \<open>
  \<open>inet6_address::parse\<close> never returns a link-local address without a scope: when the text
  denotes the sixteen bytes \<open>b\<close>, it fails with \<open>missing_scope_id\<close> exactly when \<open>b\<close> is in
  \<open>fe80::/10\<close> and the scope is 0, and otherwise returns those bytes, the port and the scope.
\<close>

theorem inet6_parse_scope:
  assumes "pton (text_buffer (INET6_ADDRSTRLEN p) s) = Some b" and "length b = 16"
  shows "(if b ! 0 = 0xfe \<and> (b ! 1) AND 0xc0 = 0x80 \<and> scope = 0
          then inet6_parse p pton s prt scope = Inl (make_error_code missing_scope_id)
          else (\<exists>a. inet6_parse p pton s prt scope = Inr a \<and> inet6_bytes a = b
                  \<and> inet6_port a = prt \<and> inet6_scope_id a = scope))"
  using assms
  by (auto simp: inet6_parse_def inet6_default_def inet6_port_def inet6_bytes_def
      inet6_scope_id_def inet6_is_link_local_def Let_def layout_simps)

theorem inet6_parse_scope_witness:
  "inet6_parse Linux (\<lambda>s. if s = ''fe80::1'' then Some ([0xfe, 0x80] @ replicate 13 0 @ [1]) else None)
     ''fe80::1'' 80 0 = Inl (make_error_code missing_scope_id)"
  using inet6_parse_scope [of "\<lambda>s. if s = ''fe80::1'' then Some ([0xfe, 0x80] @ replicate 13 0 @ [1]) else None"
      Linux "''fe80::1''" "[0xfe, 0x80] @ replicate 13 0 @ [1]" 0 80]
  by (simp add: text_buffer_def INET6_ADDRSTRLEN_def)

text \<open>
  \<open>inet4_address::parse\<close> looks at the first \<open>INET_ADDRSTRLEN - 1\<close> characters of the text
  only: whatever follows a text of that length is accepted without being read.
\<close>

theorem inet4_parse_ignores_tail:
  assumes "length s = INET_ADDRSTRLEN p - 1"
  shows "inet4_parse p pton (s @ t) prt = inet4_parse p pton s prt"
  using text_buffer_truncates [OF assms] by (simp add: inet4_parse_def)

theorem inet4_parse_ignores_tail_witness:
  "inet4_parse Linux hex_pton (''255.255.255.255'' @ ''9.example'') 80
     = inet4_parse Linux hex_pton ''255.255.255.255'' 80"
  by (rule inet4_parse_ignores_tail) (simp add: INET_ADDRSTRLEN_def)

end
