(* ===== verification/Small_Vector.thy ===== *)
theory Small_Vector
  imports Prelude "HOL-Library.Monad_Syntax"
begin

text \<open>
  \<open>detail::small_vector<T, N>\<close> of \<open>include/socketpp/socket/options.hpp\<close>: a vector with \<open>N\<close> slots
  of raw inline storage that spills into a heap vector.

  A slot is \<open>Some v\<close> while an object is alive in it. Reading or destroying a dead slot,
  constructing over a live one and leaving the storage are faults, and every operation is
  \<open>None\<close> when it commits one. The locale \<open>seq_container\<close> states what the option builder needs
  of its container; its interpretation shows that no operation of \<open>small_vector\<close> ever faults and
  that the class is a list under its abstraction, which is why \<open>Options\<close> may hold its entries as
  a list.
\<close>

section \<open>Raw storage\<close>

type_synonym 'a slots = "'a option list"

definition slot_get :: "'a slots \<Rightarrow> nat \<Rightarrow> 'a option" where
  "slot_get s i = (if i < length s then s ! i else None)"

definition slot_new :: "'a slots \<Rightarrow> nat \<Rightarrow> 'a \<Rightarrow> 'a slots option" where
  "slot_new s i v = (if i < length s \<and> s ! i = None then Some (s[i := Some v]) else None)"

definition slot_destroy :: "'a slots \<Rightarrow> nat \<Rightarrow> 'a slots option" where
  "slot_destroy s i = (if i < length s \<and> s ! i \<noteq> None then Some (s[i := None]) else None)"

text \<open>The loops over the first \<open>n\<close> slots, in ascending order.\<close>

primrec copy_slots :: "nat \<Rightarrow> 'a slots \<Rightarrow> 'a slots \<Rightarrow> 'a slots option" where
  "copy_slots 0 src dst = Some dst"
| "copy_slots (Suc n) src dst = do {
     d \<leftarrow> copy_slots n src dst;
     v \<leftarrow> slot_get src n;
     slot_new d n v
   }"

primrec move_slots :: "nat \<Rightarrow> 'a slots \<Rightarrow> 'a slots \<Rightarrow> ('a slots \<times> 'a slots) option" where
  "move_slots 0 src dst = Some (src, dst)"
| "move_slots (Suc n) src dst = do {
     (s, d) \<leftarrow> move_slots n src dst;
     v \<leftarrow> slot_get s n;
     d' \<leftarrow> slot_new d n v;
     s' \<leftarrow> slot_destroy s n;
     Some (s', d')
   }"

primrec destroy_slots :: "nat \<Rightarrow> 'a slots \<Rightarrow> 'a slots option" where
  "destroy_slots 0 s = Some s"
| "destroy_slots (Suc n) s = do {
     s' \<leftarrow> destroy_slots n s;
     slot_destroy s' n
   }"

primrec spill_slots :: "nat \<Rightarrow> 'a slots \<Rightarrow> 'a list \<Rightarrow> ('a slots \<times> 'a list) option" where
  "spill_slots 0 s h = Some (s, h)"
| "spill_slots (Suc n) s h = do {
     (s', h') \<leftarrow> spill_slots n s h;
     v \<leftarrow> slot_get s' n;
     s'' \<leftarrow> slot_destroy s' n;
     Some (s'', h' @ [v])
   }"

section \<open>The class\<close>

record 'a small_vector =
  sv_storage :: "'a slots"
  sv_heap :: "'a list"
  sv_size :: nat
  sv_on_heap :: bool

definition sv_new :: "nat \<Rightarrow> 'a small_vector" where
  "sv_new N = \<lparr>sv_storage = replicate N None, sv_heap = [], sv_size = 0, sv_on_heap = False\<rparr>"

definition sv_destroy_inline :: "'a small_vector \<Rightarrow> 'a small_vector option" where
  "sv_destroy_inline v =
     (if \<not> sv_on_heap v
      then do { s \<leftarrow> destroy_slots (sv_size v) (sv_storage v); Some (v\<lparr>sv_storage := s\<rparr>) }
      else Some v)"

definition sv_clear :: "'a small_vector \<Rightarrow> 'a small_vector option" where
  "sv_clear v = do {
     v' \<leftarrow> (if sv_on_heap v then Some (v\<lparr>sv_heap := []\<rparr>) else sv_destroy_inline v);
     Some (v'\<lparr>sv_size := 0, sv_on_heap := False\<rparr>)
   }"

definition sv_spill :: "'a small_vector \<Rightarrow> 'a small_vector option" where
  "sv_spill v = do {
     (s, h) \<leftarrow> spill_slots (sv_size v) (sv_storage v) (sv_heap v);
     Some (v\<lparr>sv_storage := s, sv_heap := h, sv_on_heap := True\<rparr>)
   }"

definition sv_push_back :: "nat \<Rightarrow> 'a \<Rightarrow> 'a small_vector \<Rightarrow> 'a small_vector option" where
  "sv_push_back N x v = do {
     v' \<leftarrow> (if \<not> sv_on_heap v \<and> sv_size v < N
            then do { s \<leftarrow> slot_new (sv_storage v) (sv_size v) x; Some (v\<lparr>sv_storage := s\<rparr>) }
            else do {
              u \<leftarrow> (if \<not> sv_on_heap v then sv_spill v else Some v);
              Some (u\<lparr>sv_heap := sv_heap u @ [x]\<rparr>)
            });
     Some (v'\<lparr>sv_size := sv_size v' + 1\<rparr>)
   }"

text \<open>Construction and assignment write into the members of \<open>this\<close>.\<close>

definition sv_copy_into :: "'a small_vector \<Rightarrow> 'a small_vector \<Rightarrow> 'a small_vector option" where
  "sv_copy_into this other =
     (let v = this\<lparr>sv_size := sv_size other, sv_on_heap := sv_on_heap other\<rparr> in
      if sv_on_heap v then Some (v\<lparr>sv_heap := sv_heap other\<rparr>)
      else do {
        s \<leftarrow> copy_slots (sv_size v) (sv_storage other) (sv_storage v);
        Some (v\<lparr>sv_storage := s\<rparr>)
      })"

text \<open>A moved-from \<open>std::vector\<close> is empty.\<close>

definition sv_move_into ::
    "'a small_vector \<Rightarrow> 'a small_vector \<Rightarrow> ('a small_vector \<times> 'a small_vector) option" where
  "sv_move_into this other =
     (let v = this\<lparr>sv_size := sv_size other, sv_on_heap := sv_on_heap other\<rparr> in
      if sv_on_heap v
      then Some (v\<lparr>sv_heap := sv_heap other\<rparr>, other\<lparr>sv_heap := [], sv_size := 0, sv_on_heap := False\<rparr>)
      else do {
        (s, d) \<leftarrow> move_slots (sv_size v) (sv_storage other) (sv_storage v);
        Some (v\<lparr>sv_storage := d\<rparr>, other\<lparr>sv_storage := s, sv_size := 0, sv_on_heap := False\<rparr>)
      })"

definition sv_copy :: "nat \<Rightarrow> 'a small_vector \<Rightarrow> 'a small_vector option" where
  "sv_copy N other = sv_copy_into (sv_new N) other"

definition sv_move :: "nat \<Rightarrow> 'a small_vector \<Rightarrow> ('a small_vector \<times> 'a small_vector) option" where
  "sv_move N other = sv_move_into (sv_new N) other"

text \<open>Assignment between two objects; \<open>this == &o\<close> leaves both alone.\<close>

definition sv_copy_assign ::
    "bool \<Rightarrow> 'a small_vector \<Rightarrow> 'a small_vector \<Rightarrow> 'a small_vector option" where
  "sv_copy_assign aliased this other =
     (if \<not> aliased then do { v \<leftarrow> sv_clear this; sv_copy_into v other } else Some this)"

definition sv_move_assign ::
    "bool \<Rightarrow> 'a small_vector \<Rightarrow> 'a small_vector \<Rightarrow> ('a small_vector \<times> 'a small_vector) option" where
  "sv_move_assign aliased this other =
     (if \<not> aliased then do { v \<leftarrow> sv_clear this; sv_move_into v other } else Some (this, other))"

text \<open>The range \<open>[begin(), end())\<close>: \<open>None\<close> when it contains a dead slot.\<close>

definition sv_range :: "'a small_vector \<Rightarrow> 'a list option" where
  "sv_range v =
     (if sv_on_heap v then (if sv_size v \<le> length (sv_heap v) then Some (take (sv_size v) (sv_heap v)) else None)
      else if sv_size v = 0 then Some []
      else those (map (slot_get (sv_storage v)) [0..<sv_size v]))"

definition sv_abs :: "'a small_vector \<Rightarrow> 'a list" where
  "sv_abs v = (if sv_on_heap v then sv_heap v else map the (take (sv_size v) (sv_storage v)))"

definition sv_wf :: "nat \<Rightarrow> 'a small_vector \<Rightarrow> bool" where
  "sv_wf N v \<longleftrightarrow>
     (if sv_on_heap v
      then sv_storage v = replicate N None \<and> sv_size v = length (sv_heap v)
      else sv_heap v = [] \<and> sv_size v \<le> N \<and>
           sv_storage v = map Some (sv_abs v) @ replicate (N - sv_size v) None \<and>
           sv_size v = length (sv_abs v))"

section \<open>The loops\<close>

abbreviation live_prefix :: "nat \<Rightarrow> 'a list \<Rightarrow> 'a slots" where
  "live_prefix N xs \<equiv> map Some xs @ replicate (N - length xs) None"

lemma slot_get_inline: "i < length xs \<Longrightarrow> length xs \<le> N \<Longrightarrow> slot_get (live_prefix N xs) i = Some (xs ! i)"
  by (simp add: slot_get_def nth_append)

lemma slot_new_inline:
  "length xs < N \<Longrightarrow> slot_new (live_prefix N xs) (length xs) v = Some (live_prefix N (xs @ [v]))"
  by (auto simp: slot_new_def nth_append list_update_append Suc_diff_Suc
      intro!: nth_equalityI simp: nth_Cons' nth_list_update)

text \<open>The first \<open>n\<close> slots dead, the others as they were.\<close>

abbreviation dead_prefix :: "nat \<Rightarrow> 'a slots \<Rightarrow> 'a slots" where
  "dead_prefix n s \<equiv> replicate n None @ drop n s"

lemma slot_destroy_prefix:
  assumes "n < length s" and "s ! n \<noteq> None"
  shows "slot_destroy (dead_prefix n s) n = Some (dead_prefix (Suc n) s)"
proof -
  have "(dead_prefix n s)[n := None] = dead_prefix (Suc n) s"
    using assms(1)
    by (auto simp: list_update_append Cons_nth_drop_Suc [symmetric] replicate_append_same)
  then show ?thesis using assms by (simp add: slot_destroy_def nth_append)
qed

lemma slot_get_prefix: "n < length s \<Longrightarrow> slot_get (dead_prefix n s) n = s ! n"
  by (simp add: slot_get_def nth_append)

lemma copy_slots_inline:
  assumes "n \<le> length xs" and "length xs \<le> N"
  shows "copy_slots n (live_prefix N xs) (replicate N None) = Some (live_prefix N (take n xs))"
  using assms
proof (induction n)
  case (Suc n)
  then show ?case
    using slot_new_inline [of "take n xs" N "xs ! n"]
    by (simp add: slot_get_inline take_Suc_conv_app_nth)
qed simp

lemma move_slots_inline:
  assumes "n \<le> length xs" and "length xs \<le> N"
  shows "move_slots n (live_prefix N xs) (replicate N None)
    = Some (dead_prefix n (live_prefix N xs), live_prefix N (take n xs))"
  using assms
proof (induction n)
  case (Suc n)
  have nth: "live_prefix N xs ! n = Some (xs ! n)" using Suc.prems by (simp add: nth_append)
  have n: "n < length (live_prefix N xs)" using Suc.prems by simp
  have "slot_new (live_prefix N (take n xs)) n (xs ! n) = Some (live_prefix N (take (Suc n) xs))"
    using slot_new_inline [of "take n xs" N "xs ! n"] Suc.prems by (simp add: take_Suc_conv_app_nth)
  moreover have "slot_destroy (dead_prefix n (live_prefix N xs)) n = Some (dead_prefix (Suc n) (live_prefix N xs))"
    using n nth by (intro slot_destroy_prefix) auto
  moreover have "slot_get (dead_prefix n (live_prefix N xs)) n = Some (xs ! n)"
    using n nth by (simp only: slot_get_prefix)
  ultimately show ?case using Suc by simp
qed simp

lemma destroy_slots_inline:
  assumes "n \<le> length xs" and "length xs \<le> N"
  shows "destroy_slots n (live_prefix N xs) = Some (dead_prefix n (live_prefix N xs))"
  using assms
proof (induction n)
  case (Suc n)
  have "slot_destroy (dead_prefix n (live_prefix N xs)) n = Some (dead_prefix (Suc n) (live_prefix N xs))"
    using Suc.prems by (intro slot_destroy_prefix) (auto simp: nth_append)
  then show ?case using Suc by simp
qed simp

lemma spill_slots_inline:
  assumes "n \<le> length xs" and "length xs \<le> N"
  shows "spill_slots n (live_prefix N xs) h = Some (dead_prefix n (live_prefix N xs), h @ take n xs)"
  using assms
proof (induction n)
  case (Suc n)
  have nth: "live_prefix N xs ! n = Some (xs ! n)" using Suc.prems by (simp add: nth_append)
  have n: "n < length (live_prefix N xs)" using Suc.prems by simp
  have "slot_destroy (dead_prefix n (live_prefix N xs)) n = Some (dead_prefix (Suc n) (live_prefix N xs))"
    using n nth by (intro slot_destroy_prefix) auto
  moreover have "slot_get (dead_prefix n (live_prefix N xs)) n = Some (xs ! n)"
    using n nth by (simp only: slot_get_prefix)
  ultimately show ?case using Suc by (simp add: take_Suc_conv_app_nth)
qed simp

lemma dead_prefix_all: "length xs \<le> N \<Longrightarrow> dead_prefix (length xs) (live_prefix N xs) = replicate N None"
  by (simp add: replicate_add [symmetric])

section \<open>Operations on well-formed vectors\<close>

lemma sv_wf_cases [consumes 1, case_names heap inline]:
  assumes "sv_wf N v"
  obtains (heap) xs where "v = \<lparr>sv_storage = replicate N None, sv_heap = xs, sv_size = length xs, sv_on_heap = True\<rparr>"
      "sv_abs v = xs"
  | (inline) xs where "v = \<lparr>sv_storage = live_prefix N xs, sv_heap = [], sv_size = length xs, sv_on_heap = False\<rparr>"
      "sv_abs v = xs" "length xs \<le> N"
proof (cases "sv_on_heap v")
  case True
  then show thesis using assms heap by (cases v) (simp add: sv_wf_def sv_abs_def)
next
  case False
  then show thesis using assms inline [of "sv_abs v"] by (cases v) (simp add: sv_wf_def)
qed

lemma sv_wf_heap [simp]:
  "sv_wf N \<lparr>sv_storage = replicate N None, sv_heap = xs, sv_size = length xs, sv_on_heap = True\<rparr>"
  "sv_abs \<lparr>sv_storage = s, sv_heap = xs, sv_size = n, sv_on_heap = True\<rparr> = xs"
  by (simp_all add: sv_wf_def sv_abs_def)

lemma sv_abs_inline [simp]:
  "sv_abs \<lparr>sv_storage = live_prefix N xs, sv_heap = h, sv_size = length xs, sv_on_heap = False\<rparr> = xs"
  by (simp add: sv_abs_def comp_def)

lemma sv_wf_inline [simp]:
  "length xs \<le> N \<Longrightarrow>
   sv_wf N \<lparr>sv_storage = live_prefix N xs, sv_heap = [], sv_size = length xs, sv_on_heap = False\<rparr>"
  by (simp add: sv_wf_def)

lemma sv_new_wf: "sv_wf N (sv_new N) \<and> sv_abs (sv_new N) = []"
  using sv_wf_inline [of "[]" N] sv_abs_inline [of "[]" N "[]"] by (simp add: sv_new_def)

lemma sv_clear_wf:
  assumes "sv_wf N v"
  shows "sv_clear v = Some (sv_new N)"
  using assms
  by (cases rule: sv_wf_cases)
    (simp_all add: sv_clear_def sv_destroy_inline_def destroy_slots_inline dead_prefix_all sv_new_def
      replicate_add [symmetric])

lemma sv_copy_into_new:
  assumes "sv_wf N other"
  shows "\<exists>v. sv_copy_into (sv_new N) other = Some v \<and> sv_wf N v \<and> sv_abs v = sv_abs other"
  using assms
  by (cases rule: sv_wf_cases)
    (simp_all add: sv_copy_into_def sv_new_def copy_slots_inline)

lemma sv_move_into_new:
  assumes "sv_wf N other"
  shows "\<exists>v o'. sv_move_into (sv_new N) other = Some (v, o') \<and> sv_wf N v \<and> sv_abs v = sv_abs other
           \<and> sv_wf N o' \<and> sv_abs o' = []"
  using assms
proof (cases rule: sv_wf_cases)
  case (heap xs)
  then show ?thesis
    using sv_new_wf [of N] by (simp add: sv_move_into_def sv_new_def)
next
  case (inline xs)
  then show ?thesis
    using sv_new_wf [of N]
    by (simp add: sv_move_into_def sv_new_def move_slots_inline replicate_add [symmetric])
qed

lemma sv_push_back_wf:
  assumes "sv_wf N v"
  shows "\<exists>v'. sv_push_back N x v = Some v' \<and> sv_wf N v' \<and> sv_abs v' = sv_abs v @ [x]"
  using assms
proof (cases rule: sv_wf_cases)
  case (heap xs)
  then show ?thesis by (simp add: sv_push_back_def sv_wf_def sv_abs_def)
next
  case (inline xs)
  show ?thesis
  proof (cases "length xs < N")
    case True
    then show ?thesis
      using inline(1,2) slot_new_inline [OF True, of x] sv_wf_inline [of "xs @ [x]" N]
        sv_abs_inline [of "xs @ [x]" N "[]"]
      by (simp add: sv_push_back_def)
  next
    case False
    then show ?thesis
      using inline spill_slots_inline [of "length xs" xs N "[]"]
      by (simp add: sv_push_back_def sv_spill_def sv_wf_def sv_abs_def replicate_add [symmetric])
  qed
qed

lemma those_map_Some: "(\<And>i. i \<in> set is \<Longrightarrow> f i = Some (g i)) \<Longrightarrow> those (map f is) = Some (map g is)"
  by (induction "is") auto

lemma sv_range_wf:
  assumes "sv_wf N v"
  shows "sv_range v = Some (sv_abs v) \<and> sv_size v = length (sv_abs v)"
  using assms
proof (cases rule: sv_wf_cases)
  case (inline xs)
  have "those (map (slot_get (live_prefix N xs)) [0..<length xs]) = Some (map (\<lambda>i. xs ! i) [0..<length xs])"
    using inline by (intro those_map_Some) (simp add: slot_get_inline)
  then show ?thesis using inline by (simp add: sv_range_def map_nth)
qed (simp_all add: sv_range_def)

section \<open>The interface\<close>

locale seq_container =
  fixes wf :: "'v \<Rightarrow> bool"
    and abs :: "'v \<Rightarrow> 'a list"
    and new :: 'v
    and push :: "'a \<Rightarrow> 'v \<Rightarrow> 'v option"
    and range :: "'v \<Rightarrow> 'a list option"
    and copy_assign :: "'v \<Rightarrow> 'v \<Rightarrow> 'v option"
    and move_assign :: "'v \<Rightarrow> 'v \<Rightarrow> ('v \<times> 'v) option"
  assumes new_law: "wf new \<and> abs new = []"
    and push_law: "wf v \<Longrightarrow> \<exists>v'. push x v = Some v' \<and> wf v' \<and> abs v' = abs v @ [x]"
    and range_law: "wf v \<Longrightarrow> range v = Some (abs v)"
    and copy_law: "wf v \<Longrightarrow> wf u \<Longrightarrow> \<exists>v'. copy_assign v u = Some v' \<and> wf v' \<and> abs v' = abs u"
    and move_law: "wf v \<Longrightarrow> wf u \<Longrightarrow>
      \<exists>v' u'. move_assign v u = Some (v', u') \<and> wf v' \<and> wf u' \<and> abs v' = abs u \<and> abs u' = []"
begin

lemma push_all_law:
  "wf v \<Longrightarrow> \<exists>v'. fold (\<lambda>x r. r \<bind> push x) xs (Some v) = Some v' \<and> wf v' \<and> abs v' = abs v @ xs"
proof (induction xs arbitrary: v)
  case Nil
  then show ?case by simp
next
  case (Cons x xs)
  from push_law [OF Cons.prems, of x] obtain v1
    where "push x v = Some v1" "wf v1" "abs v1 = abs v @ [x]" by blast
  with Cons.IH [of v1] show ?case by simp
qed

lemma build_law: "\<exists>v. fold (\<lambda>x r. r \<bind> push x) xs (Some new) = Some v \<and> wf v \<and> abs v = xs"
  using push_all_law [of new xs] new_law by simp

lemma reuse_moved_from:
  assumes "wf v" and "wf u"
  shows "\<exists>v' u' u''. move_assign v u = Some (v', u') \<and> range v' = Some (abs u)
           \<and> fold (\<lambda>x r. r \<bind> push x) xs (Some u') = Some u'' \<and> range u'' = Some xs"
proof -
  from move_law [OF assms] obtain v' u'
    where m: "move_assign v u = Some (v', u')" "wf v'" "wf u'" "abs v' = abs u" "abs u' = []" by blast
  from push_all_law [OF m(3), of xs] m show ?thesis by (auto simp: range_law)
qed

lemma transfer_law:
  assumes "wf u"
  shows "\<exists>v. fold (\<lambda>x r. r \<bind> push x) xs (Some new) = Some v \<and> range v = Some xs \<and>
    (\<exists>u'. copy_assign u v = Some u' \<and> range u' = Some xs) \<and>
    (\<exists>v' u' u''. move_assign u v = Some (v', u') \<and> range v' = Some xs
       \<and> fold (\<lambda>x r. r \<bind> push x) ys (Some u') = Some u'' \<and> range u'' = Some ys)"
proof -
  from build_law [of xs] obtain v
    where v: "fold (\<lambda>x r. r \<bind> push x) xs (Some new) = Some v" "wf v" "abs v = xs" by blast
  from copy_law [OF assms v(2)] reuse_moved_from [OF assms v(2), of ys] v
  show ?thesis using range_law by (intro exI [of _ v]) auto
qed

end

interpretation sv: seq_container "sv_wf N" sv_abs "sv_new N" "sv_push_back N" sv_range
  "sv_copy_assign False" "sv_move_assign False"
  for N :: nat
proof unfold_locales
  fix v u :: "'b small_vector" and x :: 'b
  show "sv_wf N (sv_new N :: 'b small_vector) \<and> sv_abs (sv_new N :: 'b small_vector) = []"
    by (rule sv_new_wf)
  assume v: "sv_wf N v"
  then show "\<exists>v'. sv_push_back N x v = Some v' \<and> sv_wf N v' \<and> sv_abs v' = sv_abs v @ [x]"
    by (rule sv_push_back_wf)
  from v show "sv_range v = Some (sv_abs v)" by (simp add: sv_range_wf)
  assume u: "sv_wf N u"
  from sv_copy_into_new [OF u]
  show "\<exists>v'. sv_copy_assign False v u = Some v' \<and> sv_wf N v' \<and> sv_abs v' = sv_abs u"
    by (simp add: sv_copy_assign_def sv_clear_wf [OF v])
  from sv_move_into_new [OF u]
  show "\<exists>v' u'. sv_move_assign False v u = Some (v', u') \<and> sv_wf N v' \<and> sv_wf N u' \<and>
    sv_abs v' = sv_abs u \<and> sv_abs u' = []"
    by (auto simp: sv_move_assign_def sv_clear_wf [OF v])
qed

section \<open>Properties\<close>

text \<open>
  C36: \<open>small_vector\<close> is a list, on either side of its inline capacity. From the empty vector,
  pushing any sequence of elements never faults, and iterating gives back that sequence;
  assigning the result to any vector, by copy or by move, gives the same sequence; the
  moved-from vector is empty and can be filled again; the destructor finds every inline object
  alive.
\<close>

theorem small_vector_is_list:
  assumes "sv_wf N u"
  shows "\<exists>v. fold (\<lambda>x r. r \<bind> sv_push_back N x) xs (Some (sv_new N)) = Some v \<and> sv_range v = Some xs \<and>
    (\<exists>u'. sv_copy_assign False u v = Some u' \<and> sv_range u' = Some xs) \<and>
    (\<exists>v' u' u''. sv_move_assign False u v = Some (v', u') \<and> sv_range v' = Some xs
       \<and> fold (\<lambda>x r. r \<bind> sv_push_back N x) ys (Some u') = Some u'' \<and> sv_range u'' = Some ys) \<and>
    sv_destroy_inline u \<noteq> None"
proof -
  have "sv_destroy_inline u \<noteq> None"
    using assms by (cases rule: sv_wf_cases) (simp_all add: sv_destroy_inline_def destroy_slots_inline)
  with sv.transfer_law [OF assms] show ?thesis by blast
qed

theorem small_vector_is_list_witness:
  "\<exists>v. fold (\<lambda>x r. r \<bind> sv_push_back 2 x) [1, 2, 3 :: nat] (Some (sv_new 2)) = Some v
     \<and> sv_range v = Some [1, 2, 3] \<and> sv_on_heap v"
proof -
  have "sv_wf 2 (sv_new 2 :: nat small_vector)" by (simp only: sv_new_wf)
  from small_vector_is_list [OF this, of "[1, 2, 3]" "[]"] obtain v
    where v: "fold (\<lambda>x r. r \<bind> sv_push_back 2 x) [1, 2, 3 :: nat] (Some (sv_new 2)) = Some v"
      "sv_range v = Some [1, 2, 3]" by blast
  moreover from v(1) have "sv_on_heap v"
    by (auto simp: sv_push_back_def sv_new_def slot_new_def sv_spill_def slot_get_def slot_destroy_def
        numeral_2_eq_2)
  ultimately show ?thesis by blast
qed

end
