(* ===== verification/Options.thy ===== *)
theory Options
  imports Address Small_Vector
begin

text \<open>
  Socket options: \<open>include/socketpp/socket/options.hpp\<close>, \<open>src/socket/options.cpp\<close>,
  \<open>include/socketpp/platform/capabilities.hpp\<close> and \<open>buf_profile.hpp\<close>.

  The builder records entries (identifier, raw bytes, availability flag); applying them is a
  loop over a switch that issues one \<open>setsockopt\<close> per entry. \<open>entry_calls\<close> is the reference
  table of the call each entry stands for; the lemmas show that the loop issues exactly these
  calls, in order, stopping at the first failure, and that the pre-bind and the post-bind pass
  together issue each of them once. The entries are a list: \<open>Small_Vector\<close> shows that
  \<open>small_vector\<close> is one.
\<close>

section \<open>Capabilities and buffer profiles\<close>

definition has_reuseport :: "platform \<Rightarrow> bool" where
  "has_reuseport p = (p = Linux \<or> p = MacOS)"

definition has_recvmmsg :: "platform \<Rightarrow> bool" where
  "has_recvmmsg p = (p = Linux)"

definition has_tcp_fastopen :: "platform \<Rightarrow> bool" where
  "has_tcp_fastopen p = (p = Linux \<or> p = MacOS \<or> p = Windows)"

definition has_tcp_notsent_lowat :: "platform \<Rightarrow> bool" where
  "has_tcp_notsent_lowat p = (p = Linux \<or> p = MacOS)"

definition has_tcp_cork :: "platform \<Rightarrow> bool" where
  "has_tcp_cork p = (p = Linux \<or> p = MacOS)"

definition has_kernel_udp_demux :: "platform \<Rightarrow> bool" where
  "has_kernel_udp_demux p = (p = Linux \<or> p = MacOS)"

definition has_tcp_user_timeout :: "platform \<Rightarrow> bool" where
  "has_tcp_user_timeout p = (p = Linux)"

definition has_tcp_defer_accept :: "platform \<Rightarrow> bool" where
  "has_tcp_defer_accept p = (p = Linux)"

lemmas capability_defs = has_reuseport_def has_tcp_fastopen_def has_tcp_notsent_lowat_def
  has_tcp_cork_def has_tcp_user_timeout_def has_tcp_defer_accept_def

record buf_profile =
  send_size :: int
  recv_size :: int

definition buf_profile_localhost :: buf_profile where
  "buf_profile_localhost = \<lparr>send_size = 262144, recv_size = 262144\<rparr>"

definition buf_profile_lan :: buf_profile where
  "buf_profile_lan = \<lparr>send_size = 524288, recv_size = 524288\<rparr>"

definition buf_profile_wan :: buf_profile where
  "buf_profile_wan = \<lparr>send_size = 1048576, recv_size = 1048576\<rparr>"

definition buf_profile_high_bdp :: buf_profile where
  "buf_profile_high_bdp = \<lparr>send_size = 4194304, recv_size = 4194304\<rparr>"

text \<open>\<open>bdp\<close> is the bandwidth-delay product truncated to \<open>int\<close>.\<close>

definition buf_profile_from_bdp :: "int \<Rightarrow> buf_profile" where
  "buf_profile_from_bdp bdp =
     (let size0 = bdp;
          size1 = (if size0 < 4096 then 4096 else size0);
          size2 = (if size1 > 16777216 then 16777216 else size1)
      in \<lparr>send_size = size2, recv_size = size2\<rparr>)"

section \<open>The builder\<close>

datatype socket_option_id =
    reuse_addr | reuse_port | exclusive_addr | recv_buf | send_buf | tcp_nodelay | tcp_cork
  | tcp_notsent_lowat | tcp_user_timeout | tcp_fastopen | tcp_defer_accept | keep_alive
  | keep_alive_idle | keep_alive_interval | keep_alive_count | linger_opt | ipv6_only | ip_tos
  | broadcast | multicast_join | multicast_leave | multicast_ttl | multicast_loop
  | multicast_ttl_v6 | multicast_loop_v6 | multicast_if | multicast_if_v6

record option_entry =
  oe_id :: socket_option_id
  oe_data :: "byte list"
  oe_available :: bool

record socket_options =
  so_entries :: "option_entry list"
  so_has_send_buf :: bool
  so_has_recv_buf :: bool
  so_has_reuse_addr :: bool
  so_has_multicast_join :: bool

definition socket_options_default :: socket_options where
  "socket_options_default = \<lparr>so_entries = [], so_has_send_buf = False, so_has_recv_buf = False,
     so_has_reuse_addr = False, so_has_multicast_join = False\<rparr>"

text \<open>The object representation of a 32-bit \<open>int\<close>.\<close>

definition int_bytes :: "int \<Rightarrow> byte list" where
  "int_bytes v = le_bytes 4 (unat (word_of_int v :: u32))"

definition bool_int :: "bool \<Rightarrow> int" where
  "bool_int b = (if b then 1 else 0)"

definition push_entry :: "option_entry \<Rightarrow> socket_options \<Rightarrow> socket_options" where
  "push_entry e opts = opts\<lparr>so_entries := so_entries opts @ [e]\<rparr>"

definition push_int :: "socket_option_id \<Rightarrow> int \<Rightarrow> bool \<Rightarrow> socket_options \<Rightarrow> socket_options" where
  "push_int oid v available opts =
     push_entry \<lparr>oe_id = oid, oe_data = int_bytes v, oe_available = available\<rparr> opts"

text \<open>
  The bytes \<open>[data(), data() + size())\<close> of an address; reading more than the 128 bytes of storage
  is undefined behaviour (\<open>None\<close>).
\<close>

definition sa_bytes :: "sock_address \<Rightarrow> byte list option" where
  "sa_bytes a = (if sa_len a \<le> length (sa_storage a) then Some (take (sa_len a) (sa_storage a)) else None)"

abbreviation (input) addr_block :: nat where "addr_block \<equiv> 132"

definition push_multicast ::
    "socket_option_id \<Rightarrow> sock_address \<Rightarrow> sock_address \<Rightarrow> socket_options \<Rightarrow> socket_options option" where
  "push_multicast oid grp iface opts =
     (let opts' = (if oid = multicast_join then opts\<lparr>so_has_multicast_join := True\<rparr> else opts);
          d0 = replicate (addr_block * 2) 0
      in do {
        g \<leftarrow> sa_bytes grp;
        d1 \<leftarrow> mem_write d0 0 g;
        d2 \<leftarrow> mem_write d1 128 (le_bytes 4 (sa_len grp));
        i \<leftarrow> sa_bytes iface;
        d3 \<leftarrow> mem_write d2 addr_block i;
        d4 \<leftarrow> mem_write d3 (addr_block + 128) (le_bytes 4 (sa_len iface));
        Some (push_entry \<lparr>oe_id = oid, oe_data = d4, oe_available = True\<rparr> opts')
      })"

text \<open>The public builder calls; durations are counts of the unit the source uses.\<close>

datatype option_call =
    Reuse_addr bool | Reuse_port bool | Exclusive_addr bool | Recv_buf int | Send_buf int
  | Buf_profile buf_profile | Tcp_nodelay bool | Tcp_cork bool | Tcp_notsent_lowat int
  | Tcp_user_timeout int | Tcp_fastopen int | Tcp_defer_accept int | Keep_alive bool
  | Keep_alive_idle int | Keep_alive_interval int | Keep_alive_count int | Linger bool int
  | Ipv6_only bool | Ip_tos int | Broadcast bool | Multicast_join sock_address sock_address
  | Multicast_leave sock_address sock_address | Multicast_ttl int | Multicast_loop bool
  | Multicast_ttl_v6 int | Multicast_loop_v6 bool | Multicast_interface sock_address
  | Multicast_interface_v6 u32

definition add_recv_buf :: "int \<Rightarrow> socket_options \<Rightarrow> socket_options" where
  "add_recv_buf bytes opts = (push_int recv_buf bytes True opts)\<lparr>so_has_recv_buf := True\<rparr>"

definition add_send_buf :: "int \<Rightarrow> socket_options \<Rightarrow> socket_options" where
  "add_send_buf bytes opts = (push_int send_buf bytes True opts)\<lparr>so_has_send_buf := True\<rparr>"

definition add_linger :: "bool \<Rightarrow> int \<Rightarrow> socket_options \<Rightarrow> socket_options" where
  "add_linger enable secs opts =
     push_entry \<lparr>oe_id = linger_opt, oe_data = int_bytes (bool_int enable) @ int_bytes secs,
       oe_available = True\<rparr> opts"

definition add_multicast_interface :: "sock_address \<Rightarrow> socket_options \<Rightarrow> socket_options option" where
  "add_multicast_interface iface opts = do {
     i \<leftarrow> sa_bytes iface;
     d1 \<leftarrow> mem_write (replicate addr_block 0) 0 i;
     d2 \<leftarrow> mem_write d1 128 (le_bytes 4 (sa_len iface));
     Some (push_entry \<lparr>oe_id = multicast_if, oe_data = d2, oe_available = True\<rparr> opts)
   }"

definition add_multicast_interface_v6 :: "u32 \<Rightarrow> socket_options \<Rightarrow> socket_options" where
  "add_multicast_interface_v6 if_index opts =
     push_entry \<lparr>oe_id = multicast_if_v6, oe_data = le_bytes 4 (unat if_index), oe_available = True\<rparr> opts"

definition builder :: "platform \<Rightarrow> option_call \<Rightarrow> socket_options \<Rightarrow> socket_options option" where
  "builder p c opts = (case c of
       Reuse_addr b \<Rightarrow> Some ((push_int reuse_addr (bool_int b) True opts)\<lparr>so_has_reuse_addr := True\<rparr>)
     | Reuse_port b \<Rightarrow> Some (push_int reuse_port (bool_int b) (has_reuseport p) opts)
     | Exclusive_addr b \<Rightarrow> Some (if p = Windows then push_int exclusive_addr (bool_int b) True opts
                                else push_int exclusive_addr 0 False opts)
     | Recv_buf n \<Rightarrow> Some (add_recv_buf n opts)
     | Send_buf n \<Rightarrow> Some (add_send_buf n opts)
     | Buf_profile bp \<Rightarrow> Some (add_recv_buf (recv_size bp) (add_send_buf (send_size bp) opts))
     | Tcp_nodelay b \<Rightarrow> Some (push_int tcp_nodelay (bool_int b) True opts)
     | Tcp_cork b \<Rightarrow> Some (push_int tcp_cork (bool_int b) (has_tcp_cork p) opts)
     | Tcp_notsent_lowat n \<Rightarrow> Some (push_int tcp_notsent_lowat n (has_tcp_notsent_lowat p) opts)
     | Tcp_user_timeout ms \<Rightarrow> Some (push_int tcp_user_timeout (to_int32 ms) (has_tcp_user_timeout p) opts)
     | Tcp_fastopen n \<Rightarrow> Some (push_int tcp_fastopen n (has_tcp_fastopen p) opts)
     | Tcp_defer_accept s \<Rightarrow> Some (push_int tcp_defer_accept (to_int32 s) (has_tcp_defer_accept p) opts)
     | Keep_alive b \<Rightarrow> Some (push_int keep_alive (bool_int b) True opts)
     | Keep_alive_idle s \<Rightarrow> Some (push_int keep_alive_idle (to_int32 s) True opts)
     | Keep_alive_interval s \<Rightarrow> Some (push_int keep_alive_interval (to_int32 s) True opts)
     | Keep_alive_count n \<Rightarrow> Some (if p = Windows then push_int keep_alive_count 0 False opts
                                  else push_int keep_alive_count n True opts)
     | Linger b n \<Rightarrow> Some (add_linger b n opts)
     | Ipv6_only b \<Rightarrow> Some (push_int ipv6_only (bool_int b) True opts)
     | Ip_tos n \<Rightarrow> Some (push_int ip_tos n True opts)
     | Broadcast b \<Rightarrow> Some (push_int broadcast (bool_int b) True opts)
     | Multicast_join g i \<Rightarrow> push_multicast multicast_join g i opts
     | Multicast_leave g i \<Rightarrow> push_multicast multicast_leave g i opts
     | Multicast_ttl n \<Rightarrow> Some (push_int multicast_ttl n True opts)
     | Multicast_loop b \<Rightarrow> Some (push_int multicast_loop (bool_int b) True opts)
     | Multicast_ttl_v6 n \<Rightarrow> Some (push_int multicast_ttl_v6 n True opts)
     | Multicast_loop_v6 b \<Rightarrow> Some (push_int multicast_loop_v6 (bool_int b) True opts)
     | Multicast_interface i \<Rightarrow> add_multicast_interface i opts
     | Multicast_interface_v6 n \<Rightarrow> Some (add_multicast_interface_v6 n opts))"

primrec configure :: "platform \<Rightarrow> option_call list \<Rightarrow> socket_options \<Rightarrow> socket_options option" where
  "configure p [] opts = Some opts"
| "configure p (c # cs) opts = builder p c opts \<bind> configure p cs"

definition has_post_bind_opts :: "socket_options \<Rightarrow> bool" where
  "has_post_bind_opts opts = so_has_multicast_join opts"

section \<open>Applying options\<close>

definition read_int :: "byte list \<Rightarrow> int" where
  "read_int data = (if length data \<ge> 4 then sint (load32 data 0) else 0)"

definition set_bytes_opt :: "kernel \<Rightarrow> platform \<Rightarrow> socket_t \<Rightarrow> sockopt \<Rightarrow> byte list \<Rightarrow> rvoid io" where
  "set_bytes_opt K p h opt data = do {
     r \<leftarrow> sys K (Sys_ctl (Setsockopt h opt data));
     if sr_rc r \<noteq> 0 then os_failure p else State_Monad.return void_ok
   }"

definition set_int_opt :: "kernel \<Rightarrow> platform \<Rightarrow> socket_t \<Rightarrow> sockopt \<Rightarrow> int \<Rightarrow> rvoid io" where
  "set_int_opt K p h opt v = do {
     r \<leftarrow> sys K (Sys_ctl (Setsockopt h opt (int_bytes v)));
     if sr_rc r \<noteq> 0 then os_failure p else State_Monad.return void_ok
   }"

text \<open>\<open>struct linger\<close> has two \<open>int\<close> fields on POSIX and two \<open>u_short\<close> fields on Windows.\<close>

definition linger_bytes :: "platform \<Rightarrow> int \<Rightarrow> int \<Rightarrow> byte list" where
  "linger_bytes p onoff secs =
     (let n = (if p = Windows then 2 else 4)
      in le_bytes n (unat (word_of_int onoff :: u32)) @ le_bytes n (unat (word_of_int secs :: u32)))"

definition linger_vals :: "byte list \<Rightarrow> int \<times> int" where
  "linger_vals data = (if length data \<ge> 8 then (sint (load32 data 0), sint (load32 data 4)) else (0, 0))"

definition apply_linger :: "kernel \<Rightarrow> platform \<Rightarrow> socket_t \<Rightarrow> byte list \<Rightarrow> rvoid io" where
  "apply_linger K p h data =
     (case linger_vals data of (onoff, secs) \<Rightarrow>
        set_bytes_opt K p h (SOL_SOCKET SO_LINGER) (linger_bytes p onoff secs))"

definition apply_multicast ::
    "kernel \<Rightarrow> platform \<Rightarrow> socket_t \<Rightarrow> socket_option_id \<Rightarrow> byte list \<Rightarrow> rvoid io" where
  "apply_multicast K p h oid data =
     (if length data < addr_block * 2 then State_Monad.return (make_error_code invalid_state)
      else
        let join = (oid = multicast_join);
            fam = get_family p data
        in if fam = AF_INET p
           then set_bytes_opt K p h
                  (IPPROTO_IP (if join then IP_ADD_MEMBERSHIP else IP_DROP_MEMBERSHIP))
                  (mem_get data 4 4 @ mem_get data (addr_block + 4) 4)
           else if fam = AF_INET6 p
           then set_bytes_opt K p h
                  (IPPROTO_IPV6 (if join then IPV6_JOIN_GROUP else IPV6_LEAVE_GROUP))
                  (mem_get data 8 16 @ mem_get data (addr_block + 24) 4)
           else State_Monad.return (make_error_code invalid_state))"

definition apply_tcp_defer_accept :: "kernel \<Rightarrow> platform \<Rightarrow> socket_t \<Rightarrow> int \<Rightarrow> rvoid io" where
  "apply_tcp_defer_accept K p h secs =
     (if p = Linux then set_int_opt K p h (IPPROTO_TCP TCP_DEFER_ACCEPT) secs
      else State_Monad.return (make_error_code option_not_supported))"

text \<open>\<open>has_idle\<close> and \<open>idle_sec\<close> are one optional value; \<open>ULONG\<close> is 32 bits.\<close>

definition apply_windows_keepalive ::
    "kernel \<Rightarrow> platform \<Rightarrow> socket_t \<Rightarrow> int option \<Rightarrow> int option \<Rightarrow> rvoid io" where
  "apply_windows_keepalive K p h idle interval = do {
     r \<leftarrow> sys K (Sys_ctl (Wsaioctl_keepalive h 1
            ((case idle of Some s \<Rightarrow> s * 1000 | None \<Rightarrow> 7200000) mod 2 ^ 32)
            ((case interval of Some s \<Rightarrow> s * 1000 | None \<Rightarrow> 1000) mod 2 ^ 32)));
     if sr_rc r \<noteq> 0 then os_failure p else State_Monad.return void_ok
   }"

definition apply_multicast_if :: "kernel \<Rightarrow> platform \<Rightarrow> socket_t \<Rightarrow> byte list \<Rightarrow> rvoid io" where
  "apply_multicast_if K p h data =
     (if length data < addr_block then State_Monad.return (make_error_code invalid_state)
      else set_bytes_opt K p h (IPPROTO_IP IP_MULTICAST_IF) (mem_get data 4 4))"

definition apply_multicast_if_v6 :: "kernel \<Rightarrow> platform \<Rightarrow> socket_t \<Rightarrow> byte list \<Rightarrow> rvoid io" where
  "apply_multicast_if_v6 K p h data =
     (if length data < 4 then State_Monad.return (make_error_code invalid_state)
      else set_int_opt K p h (IPPROTO_IPV6 IPV6_MULTICAST_IF) (sint (load32 data 0)))"

definition is_multicast_entry :: "socket_option_id \<Rightarrow> bool" where
  "is_multicast_entry oid \<longleftrightarrow> oid = multicast_join \<or> oid = multicast_leave"

text \<open>The Windows locals \<open>win_has_idle\<close>/\<open>win_idle_sec\<close> and \<open>win_has_interval\<close>/\<open>win_interval_sec\<close>.\<close>

type_synonym win_keepalive = "int option \<times> int option"

definition keep_idle_case :: "kernel \<Rightarrow> platform \<Rightarrow> socket_t \<Rightarrow> int \<Rightarrow> win_keepalive \<Rightarrow> (rvoid \<times> win_keepalive) io" where
  "keep_idle_case K p h v ka = (case p of
       Linux \<Rightarrow> do { rc \<leftarrow> set_int_opt K p h (IPPROTO_TCP TCP_KEEPIDLE) v; State_Monad.return (rc, ka) }
     | MacOS \<Rightarrow> do { rc \<leftarrow> set_int_opt K p h (IPPROTO_TCP TCP_KEEPALIVE) v; State_Monad.return (rc, ka) }
     | Windows \<Rightarrow> State_Monad.return (void_ok, (Some v, snd ka)))"

definition keep_interval_case :: "kernel \<Rightarrow> platform \<Rightarrow> socket_t \<Rightarrow> int \<Rightarrow> win_keepalive \<Rightarrow> (rvoid \<times> win_keepalive) io" where
  "keep_interval_case K p h v ka =
     (if p = Windows then State_Monad.return (void_ok, (fst ka, Some v))
      else do { rc \<leftarrow> set_int_opt K p h (IPPROTO_TCP TCP_KEEPINTVL) v; State_Monad.return (rc, ka) })"

text \<open>\<open>set_if available opt v\<close>: the \<open>#if\<close> branches that report \<open>option_not_supported\<close> otherwise.\<close>

definition set_if :: "bool \<Rightarrow> kernel \<Rightarrow> platform \<Rightarrow> socket_t \<Rightarrow> sockopt \<Rightarrow> int \<Rightarrow> rvoid io" where
  "set_if available K p h opt v =
     (if available then set_int_opt K p h opt v
      else State_Monad.return (make_error_code option_not_supported))"

definition option_switch :: "kernel \<Rightarrow> platform \<Rightarrow> socket_t \<Rightarrow> option_entry \<Rightarrow> int \<Rightarrow> rvoid io" where
  "option_switch K p h e v = (case oe_id e of
       reuse_addr \<Rightarrow> set_int_opt K p h (SOL_SOCKET SO_REUSEADDR) v
     | reuse_port \<Rightarrow> set_if (p = Linux \<or> p = MacOS) K p h (SOL_SOCKET SO_REUSEPORT) v
     | exclusive_addr \<Rightarrow> set_if (p = Windows) K p h (SOL_SOCKET SO_EXCLUSIVEADDRUSE) v
     | recv_buf \<Rightarrow> set_int_opt K p h (SOL_SOCKET SO_RCVBUF) v
     | send_buf \<Rightarrow> set_int_opt K p h (SOL_SOCKET SO_SNDBUF) v
     | tcp_nodelay \<Rightarrow> set_int_opt K p h (IPPROTO_TCP TCP_NODELAY) v
     | tcp_cork \<Rightarrow> (case p of
           Linux \<Rightarrow> set_int_opt K p h (IPPROTO_TCP TCP_CORK) v
         | MacOS \<Rightarrow> set_int_opt K p h (IPPROTO_TCP TCP_NOPUSH) v
         | Windows \<Rightarrow> State_Monad.return (make_error_code option_not_supported))
     | tcp_notsent_lowat \<Rightarrow> set_if (p = Linux \<or> p = MacOS) K p h (IPPROTO_TCP TCP_NOTSENT_LOWAT) v
     | tcp_user_timeout \<Rightarrow> set_if (p = Linux) K p h (IPPROTO_TCP TCP_USER_TIMEOUT) v
     | tcp_fastopen \<Rightarrow> set_int_opt K p h (IPPROTO_TCP TCP_FASTOPEN) (if p = Windows then 1 else v)
     | tcp_defer_accept \<Rightarrow> apply_tcp_defer_accept K p h v
     | keep_alive \<Rightarrow> set_int_opt K p h (SOL_SOCKET SO_KEEPALIVE) v
     | keep_alive_count \<Rightarrow> set_if (p = Linux \<or> p = MacOS) K p h (IPPROTO_TCP TCP_KEEPCNT) v
     | linger_opt \<Rightarrow> apply_linger K p h (oe_data e)
     | ipv6_only \<Rightarrow> set_int_opt K p h (IPPROTO_IPV6 IPV6_V6ONLY) v
     | ip_tos \<Rightarrow> set_int_opt K p h (IPPROTO_IP IP_TOS) v
     | broadcast \<Rightarrow> set_int_opt K p h (SOL_SOCKET SO_BROADCAST) v
     | multicast_join \<Rightarrow> apply_multicast K p h (oe_id e) (oe_data e)
     | multicast_leave \<Rightarrow> apply_multicast K p h (oe_id e) (oe_data e)
     | multicast_ttl \<Rightarrow> set_int_opt K p h (IPPROTO_IP IP_MULTICAST_TTL) v
     | multicast_loop \<Rightarrow> set_int_opt K p h (IPPROTO_IP IP_MULTICAST_LOOP) v
     | multicast_ttl_v6 \<Rightarrow> set_int_opt K p h (IPPROTO_IPV6 IPV6_MULTICAST_HOPS) v
     | multicast_loop_v6 \<Rightarrow> set_int_opt K p h (IPPROTO_IPV6 IPV6_MULTICAST_LOOP) v
     | multicast_if \<Rightarrow> apply_multicast_if K p h (oe_data e)
     | multicast_if_v6 \<Rightarrow> apply_multicast_if_v6 K p h (oe_data e)
     | _ \<Rightarrow> State_Monad.return void_ok)"

definition apply_entry ::
    "kernel \<Rightarrow> platform \<Rightarrow> socket_t \<Rightarrow> option_entry \<Rightarrow> win_keepalive \<Rightarrow> (rvoid \<times> win_keepalive) io" where
  "apply_entry K p h e ka =
     (let v = read_int (oe_data e) in
      if oe_id e = keep_alive_idle then keep_idle_case K p h v ka
      else if oe_id e = keep_alive_interval then keep_interval_case K p h v ka
      else do { rc \<leftarrow> option_switch K p h e v; State_Monad.return (rc, ka) })"

primrec apply_loop ::
    "kernel \<Rightarrow> platform \<Rightarrow> socket_t \<Rightarrow> bool \<Rightarrow> option_entry list \<Rightarrow> win_keepalive \<Rightarrow> win_keepalive result io" where
  "apply_loop K p h skip [] ka = State_Monad.return (Inr ka)"
| "apply_loop K p h skip (e # es) ka =
     (if skip \<and> is_multicast_entry (oe_id e) then apply_loop K p h skip es ka
      else if \<not> oe_available e then State_Monad.return (Inl (make_error_code option_not_supported))
      else do {
        (rc, ka') \<leftarrow> apply_entry K p h e ka;
        if \<not> is_ok rc then State_Monad.return (Inl rc) else apply_loop K p h skip es ka'
      })"

record apply_result =
  actual_send_buf :: int
  actual_recv_buf :: int

definition query_buf :: "kernel \<Rightarrow> socket_t \<Rightarrow> bool \<Rightarrow> sol_opt \<Rightarrow> int io" where
  "query_buf K h wanted opt =
     (if wanted
      then do {
        r \<leftarrow> sys K (Sys_ctl (Getsockopt h (SOL_SOCKET opt)));
        State_Monad.return (if sr_rc r = 0 then sr_val r else 0)
      }
      else State_Monad.return 0)"

definition apply_entries ::
    "kernel \<Rightarrow> platform \<Rightarrow> socket_t \<Rightarrow> bool \<Rightarrow> socket_options \<Rightarrow> apply_result result io" where
  "apply_entries K p h skip opts = do {
     r \<leftarrow> apply_loop K p h skip (so_entries opts) (None, None);
     (case r of
        Inl ec \<Rightarrow> State_Monad.return (Inl ec)
      | Inr ka \<Rightarrow> do {
          rc \<leftarrow> (if p = Windows \<and> (fst ka \<noteq> None \<or> snd ka \<noteq> None)
                then apply_windows_keepalive K p h (fst ka) (snd ka)
                else State_Monad.return void_ok);
          if \<not> is_ok rc then State_Monad.return (Inl rc)
          else do {
            sb \<leftarrow> query_buf K h (so_has_send_buf opts) SO_SNDBUF;
            rb \<leftarrow> query_buf K h (so_has_recv_buf opts) SO_RCVBUF;
            State_Monad.return (Inr \<lparr>actual_send_buf = sb, actual_recv_buf = rb\<rparr>)
          }
        })
   }"

definition apply_to :: "kernel \<Rightarrow> platform \<Rightarrow> socket_t \<Rightarrow> socket_options \<Rightarrow> apply_result result io" where
  "apply_to K p h opts = apply_entries K p h False opts"

definition apply_pre_bind :: "kernel \<Rightarrow> platform \<Rightarrow> socket_t \<Rightarrow> socket_options \<Rightarrow> apply_result result io" where
  "apply_pre_bind K p h opts = apply_entries K p h True opts"

primrec post_bind_loop :: "kernel \<Rightarrow> platform \<Rightarrow> socket_t \<Rightarrow> option_entry list \<Rightarrow> rvoid io" where
  "post_bind_loop K p h [] = State_Monad.return void_ok"
| "post_bind_loop K p h (e # es) =
     (if \<not> is_multicast_entry (oe_id e) then post_bind_loop K p h es
      else if \<not> oe_available e then State_Monad.return (make_error_code option_not_supported)
      else do {
        rc \<leftarrow> apply_multicast K p h (oe_id e) (oe_data e);
        if \<not> is_ok rc then State_Monad.return rc else post_bind_loop K p h es
      })"

definition apply_post_bind :: "kernel \<Rightarrow> platform \<Rightarrow> socket_t \<Rightarrow> socket_options \<Rightarrow> rvoid io" where
  "apply_post_bind K p h opts = post_bind_loop K p h (so_entries opts)"

primrec leave_loop :: "kernel \<Rightarrow> platform \<Rightarrow> socket_t \<Rightarrow> option_entry list \<Rightarrow> rvoid io" where
  "leave_loop K p h [] = State_Monad.return void_ok"
| "leave_loop K p h (e # es) =
     (if oe_id e \<noteq> multicast_join then leave_loop K p h es
      else do {
        rc \<leftarrow> apply_multicast K p h multicast_leave (oe_data e);
        if \<not> is_ok rc then State_Monad.return rc else leave_loop K p h es
      })"

definition leave_all_multicast :: "kernel \<Rightarrow> platform \<Rightarrow> socket_t \<Rightarrow> socket_options \<Rightarrow> rvoid io" where
  "leave_all_multicast K p h opts = leave_loop K p h (so_entries opts)"

section \<open>Reference table\<close>

text \<open>The option each identifier stands for; \<open>None\<close> where the platform has none.\<close>

definition option_target :: "platform \<Rightarrow> socket_option_id \<Rightarrow> sockopt option" where
  "option_target p oid =
     map_of [(reuse_addr, SOL_SOCKET SO_REUSEADDR), (recv_buf, SOL_SOCKET SO_RCVBUF),
       (send_buf, SOL_SOCKET SO_SNDBUF), (tcp_nodelay, IPPROTO_TCP TCP_NODELAY),
       (tcp_fastopen, IPPROTO_TCP TCP_FASTOPEN), (keep_alive, SOL_SOCKET SO_KEEPALIVE),
       (linger_opt, SOL_SOCKET SO_LINGER), (ipv6_only, IPPROTO_IPV6 IPV6_V6ONLY),
       (ip_tos, IPPROTO_IP IP_TOS), (broadcast, SOL_SOCKET SO_BROADCAST),
       (multicast_ttl, IPPROTO_IP IP_MULTICAST_TTL), (multicast_loop, IPPROTO_IP IP_MULTICAST_LOOP),
       (multicast_ttl_v6, IPPROTO_IPV6 IPV6_MULTICAST_HOPS),
       (multicast_loop_v6, IPPROTO_IPV6 IPV6_MULTICAST_LOOP),
       (multicast_if, IPPROTO_IP IP_MULTICAST_IF), (multicast_if_v6, IPPROTO_IPV6 IPV6_MULTICAST_IF)] oid"

definition platform_target :: "platform \<Rightarrow> socket_option_id \<Rightarrow> sockopt option" where
  "platform_target p oid = (case p of
       Linux \<Rightarrow> map_of [(reuse_port, SOL_SOCKET SO_REUSEPORT), (tcp_cork, IPPROTO_TCP TCP_CORK),
         (tcp_notsent_lowat, IPPROTO_TCP TCP_NOTSENT_LOWAT), (tcp_user_timeout, IPPROTO_TCP TCP_USER_TIMEOUT),
         (tcp_defer_accept, IPPROTO_TCP TCP_DEFER_ACCEPT), (keep_alive_idle, IPPROTO_TCP TCP_KEEPIDLE),
         (keep_alive_interval, IPPROTO_TCP TCP_KEEPINTVL), (keep_alive_count, IPPROTO_TCP TCP_KEEPCNT)] oid
     | MacOS \<Rightarrow> map_of [(reuse_port, SOL_SOCKET SO_REUSEPORT), (tcp_cork, IPPROTO_TCP TCP_NOPUSH),
         (tcp_notsent_lowat, IPPROTO_TCP TCP_NOTSENT_LOWAT), (keep_alive_idle, IPPROTO_TCP TCP_KEEPALIVE),
         (keep_alive_interval, IPPROTO_TCP TCP_KEEPINTVL), (keep_alive_count, IPPROTO_TCP TCP_KEEPCNT)] oid
     | Windows \<Rightarrow> map_of [(exclusive_addr, SOL_SOCKET SO_EXCLUSIVEADDRUSE)] oid)"

text \<open>The membership request of a multicast entry, by the family of its group address.\<close>

definition membership_request :: "platform \<Rightarrow> bool \<Rightarrow> byte list \<Rightarrow> (sockopt \<times> byte list) option" where
  "membership_request p join data =
     (if length data < addr_block * 2 then None
      else if get_family p data = AF_INET p
      then Some (IPPROTO_IP (if join then IP_ADD_MEMBERSHIP else IP_DROP_MEMBERSHIP),
                 mem_get data 4 4 @ mem_get data (addr_block + 4) 4)
      else if get_family p data = AF_INET6 p
      then Some (IPPROTO_IPV6 (if join then IPV6_JOIN_GROUP else IPV6_LEAVE_GROUP),
                 mem_get data 8 16 @ mem_get data (addr_block + 24) 4)
      else None)"

definition entry_value :: "platform \<Rightarrow> option_entry \<Rightarrow> byte list" where
  "entry_value p e =
     (if oe_id e = linger_opt
      then linger_bytes p (fst (linger_vals (oe_data e))) (snd (linger_vals (oe_data e)))
      else if oe_id e = multicast_if then mem_get (oe_data e) 4 4
      else if oe_id e = multicast_if_v6 then int_bytes (sint (load32 (oe_data e) 0))
      else if oe_id e = tcp_fastopen \<and> p = Windows then int_bytes 1
      else int_bytes (read_int (oe_data e)))"

definition entry_calls :: "platform \<Rightarrow> socket_t \<Rightarrow> option_entry \<Rightarrow> (int \<times> sockopt \<times> byte list) list" where
  "entry_calls p h e =
     (if is_multicast_entry (oe_id e)
      then (case membership_request p (oe_id e = multicast_join) (oe_data e) of
              None \<Rightarrow> [] | Some (opt, d) \<Rightarrow> [(h, opt, d)])
      else (case option_target p (oe_id e) of
              Some opt \<Rightarrow> [(h, opt, entry_value p e)]
            | None \<Rightarrow> (case platform_target p (oe_id e) of
                        Some opt \<Rightarrow> [(h, opt, entry_value p e)]
                      | None \<Rightarrow> [])))"

text \<open>The \<open>setsockopt\<close> calls of a trace.\<close>

definition setopt_of :: "syscall \<times> sysret \<Rightarrow> (int \<times> sockopt \<times> byte list) option" where
  "setopt_of ev = (case fst ev of
       Sys_ctl c \<Rightarrow> (case c of Setsockopt h opt d \<Rightarrow> Some (h, opt, d) | _ \<Rightarrow> None)
     | _ \<Rightarrow> None)"

definition setopts :: "world \<Rightarrow> (int \<times> sockopt \<times> byte list) list" where
  "setopts w = List.map_filter setopt_of (trace w)"

section \<open>What the loops issue\<close>

lemma setopts_snoc:
  "trace w' = trace w @ [ev] \<Longrightarrow>
   setopts w' = setopts w @ (case setopt_of ev of None \<Rightarrow> [] | Some x \<Rightarrow> [x])"
  by (simp add: setopts_def map_filter_def split: option.split)

lemma neutral_set_bytes_opt [neutral_intros]: "neutral (set_bytes_opt K p h opt d)"
  unfolding set_bytes_opt_def by (intro neutral_intros)

lemma set_int_opt_bytes: "set_int_opt K p h opt v = set_bytes_opt K p h opt (int_bytes v)"
  by (simp add: set_int_opt_def set_bytes_opt_def)

lemma run_set_bytes_opt:
  assumes "run_state (set_bytes_opt K p h opt d) w = (rc, w')"
  shows "setopts w' = setopts w @ [(h, opt, d)] \<and> rc \<noteq> make_error_code option_not_supported"
proof -
  have "normalize_error p \<lparr>ec_value = e, ec_category = system_category\<rparr> \<noteq> make_error_code option_not_supported" for e
    by (auto simp: normalize_error_def switch_error_def portable_cases_def make_error_code_def errc_value_def
        errc_list_def no_error_def split: option.splits if_splits)
  moreover have "void_ok \<noteq> make_error_code option_not_supported"
    by (simp add: void_ok_def no_error_def make_error_code_def)
  ultimately show ?thesis
    using assms
    by (auto simp: set_bytes_opt_def io_simps setopts_def map_filter_def setopt_of_def split: if_splits)
qed

text \<open>
  \<open>issues m xs\<close>: the computation issues exactly the calls \<open>xs\<close>, or none and then it fails.
\<close>

definition issues :: "rvoid io \<Rightarrow> (int \<times> sockopt \<times> byte list) list \<Rightarrow> bool" where
  "issues m xs \<longleftrightarrow> (\<forall>w rc w'. run_state m w = (rc, w') \<longrightarrow>
     setopts w' = setopts w @ xs \<or> (setopts w' = setopts w \<and> \<not> is_ok rc))"

lemma issues_set [intro]: "issues (set_bytes_opt K p h opt d) [(h, opt, d)]"
  by (auto simp: issues_def dest: run_set_bytes_opt)

lemma issues_fail [intro]: "e \<noteq> success \<Longrightarrow> issues (State_Monad.return (make_error_code e)) xs"
  by (simp add: issues_def)

lemma issues_none [intro]: "issues (State_Monad.return rc) []"
  by (simp add: issues_def)

lemma apply_multicast_issues:
  "issues (apply_multicast K p h oid d)
     (case membership_request p (oid = multicast_join) d of None \<Rightarrow> [] | Some (opt, x) \<Rightarrow> [(h, opt, x)])"
  by (auto simp: apply_multicast_def membership_request_def Let_def)

lemma option_switch_issues:
  assumes "oe_id e \<noteq> keep_alive_idle" and "oe_id e \<noteq> keep_alive_interval"
  shows "issues (option_switch K p h e (read_int (oe_data e))) (entry_calls p h e)"
  using assms apply_multicast_issues [of K p h "oe_id e" "oe_data e"]
  by (cases "oe_id e"; cases p)
    (auto simp: option_switch_def entry_calls_def is_multicast_entry_def option_target_def
      platform_target_def entry_value_def set_int_opt_bytes set_if_def apply_tcp_defer_accept_def
      apply_linger_def apply_multicast_if_def apply_multicast_if_v6_def split: prod.split)

lemma apply_entry_issues:
  assumes "run_state (apply_entry K p h e ka) w = ((rc, ka'), w')"
  shows "setopts w' = setopts w @ entry_calls p h e \<or> (setopts w' = setopts w \<and> \<not> is_ok rc)"
proof (cases "oe_id e = keep_alive_idle \<or> oe_id e = keep_alive_interval")
  case True
  then show ?thesis
    using assms
    by (cases p)
      (auto simp: apply_entry_def keep_idle_case_def keep_interval_case_def set_int_opt_bytes Let_def
        entry_calls_def is_multicast_entry_def option_target_def platform_target_def entry_value_def
        split: prod.splits dest!: run_set_bytes_opt)
next
  case False
  with option_switch_issues [of e K p h] assms show ?thesis
    by (auto simp: apply_entry_def Let_def issues_def split: prod.splits)
qed

abbreviation selected :: "bool \<Rightarrow> option_entry \<Rightarrow> bool" where
  "selected skip e \<equiv> \<not> (skip \<and> is_multicast_entry (oe_id e))"

lemma apply_loop_issues:
  assumes "run_state (apply_loop K p h skip es ka) w = (r, w')"
  shows "\<exists>k. setopts w' = setopts w @ concat (map (entry_calls p h) (take k (filter (selected skip) es)))
           \<and> (\<forall>ka'. r = Inr ka' \<longrightarrow> k = length (filter (selected skip) es))"
  using assms
proof (induction es arbitrary: ka w)
  case Nil
  then show ?case by auto
next
  case (Cons e es)
  show ?case
  proof (cases "selected skip e \<and> oe_available e")
    case False
    then show ?thesis using Cons by (cases "selected skip e") (auto intro: exI [of _ 0])
  next
    case True
    obtain rc ka1 w1 where e: "run_state (apply_entry K p h e ka) w = ((rc, ka1), w1)"
      by (metis surj_pair)
    note c = apply_entry_issues [OF e]
    show ?thesis
    proof (cases "is_ok rc")
      case True
      with \<open>selected skip e \<and> oe_available e\<close> e Cons.prems
      have "run_state (apply_loop K p h skip es ka1) w1 = (r, w')" by auto
      from Cons.IH [OF this] obtain k where
        "setopts w' = setopts w1 @ concat (map (entry_calls p h) (take k (filter (selected skip) es)))"
        "\<forall>ka'. r = Inr ka' \<longrightarrow> k = length (filter (selected skip) es)" by blast
      then show ?thesis using c True \<open>selected skip e \<and> oe_available e\<close>
        by (intro exI [of _ "Suc k"]) auto
    next
      case False
      with \<open>selected skip e \<and> oe_available e\<close> e Cons.prems have "r = Inl rc" "w' = w1" by auto
      then show ?thesis using c \<open>selected skip e \<and> oe_available e\<close>
        by (auto intro: exI [of _ 0] exI [of _ 1])
    qed
  qed
qed

lemma setopts_ctl:
  "(\<And>h opt d. c \<noteq> Setsockopt h opt d) \<Longrightarrow> run_state (sys K (Sys_ctl c)) w = (r, w') \<Longrightarrow> setopts w' = setopts w"
  by (cases c) (auto simp: run_sys setopts_def map_filter_def setopt_of_def)

lemma setopts_query_buf:
  "run_state (query_buf K h b opt) w = (r, w') \<Longrightarrow> setopts w' = setopts w"
  by (auto simp: query_buf_def dest: setopts_ctl [rotated] split: if_splits prod.splits)

lemma setopts_windows_keepalive:
  "run_state (apply_windows_keepalive K p h i j) w = (r, w') \<Longrightarrow> setopts w' = setopts w"
  by (auto simp: apply_windows_keepalive_def run_os_failure dest: setopts_ctl [rotated]
      split: if_splits prod.splits)

lemma apply_entries_issues:
  assumes "run_state (apply_entries K p h skip opts) w = (r, w')"
  shows "\<exists>k. setopts w' = setopts w @
             concat (map (entry_calls p h) (take k (filter (selected skip) (so_entries opts))))
           \<and> (\<forall>ar. r = Inr ar \<longrightarrow> k = length (filter (selected skip) (so_entries opts)))"
proof -
  obtain l w1 where l: "run_state (apply_loop K p h skip (so_entries opts) (None, None)) w = (l, w1)"
    by (metis surj_pair)
  have "setopts w' = setopts w1 \<and> (\<forall>ar. r = Inr ar \<longrightarrow> (\<exists>ka. l = Inr ka))"
    using assms l
    by (auto simp: apply_entries_def split: sum.splits if_splits prod.splits
        dest!: setopts_query_buf setopts_windows_keepalive)
  with apply_loop_issues [OF l] show ?thesis by metis
qed

lemma post_bind_issues:
  "run_state (post_bind_loop K p h es) w = (rc, w') \<Longrightarrow> is_ok rc \<Longrightarrow>
   setopts w' = setopts w @ concat (map (entry_calls p h) (filter (is_multicast_entry \<circ> oe_id) es))"
proof (induction es arbitrary: w)
  case Nil
  then show ?case by simp
next
  case (Cons e es)
  show ?case
  proof (cases "is_multicast_entry (oe_id e) \<and> oe_available e")
    case False
    then show ?thesis using Cons by (auto split: if_splits)
  next
    case True
    obtain rc1 w1 where m: "run_state (apply_multicast K p h (oe_id e) (oe_data e)) w = (rc1, w1)"
      by (metis surj_pair)
    with Cons.prems True have ok: "is_ok rc1" by (auto split: if_splits)
    with m Cons.prems True have "run_state (post_bind_loop K p h es) w1 = (rc, w')" by auto
    from Cons.IH [OF this Cons.prems(2)] ok True m
    show ?thesis using apply_multicast_issues [of K p h "oe_id e" "oe_data e"]
      by (auto simp: issues_def entry_calls_def)
  qed
qed

definition leave_calls :: "platform \<Rightarrow> socket_t \<Rightarrow> option_entry \<Rightarrow> (int \<times> sockopt \<times> byte list) list" where
  "leave_calls p h e = entry_calls p h (e\<lparr>oe_id := multicast_leave\<rparr>)"

lemma leave_issues:
  "run_state (leave_loop K p h es) w = (rc, w') \<Longrightarrow> is_ok rc \<Longrightarrow>
   setopts w' = setopts w @ concat (map (leave_calls p h) (filter (\<lambda>e. oe_id e = multicast_join) es))"
proof (induction es arbitrary: w)
  case Nil
  then show ?case by simp
next
  case (Cons e es)
  show ?case
  proof (cases "oe_id e = multicast_join")
    case False
    then show ?thesis using Cons by (auto split: if_splits)
  next
    case True
    obtain rc1 w1 where m: "run_state (apply_multicast K p h multicast_leave (oe_data e)) w = (rc1, w1)"
      by (metis surj_pair)
    with Cons.prems True have ok: "is_ok rc1" by (auto split: if_splits)
    with m Cons.prems True have "run_state (leave_loop K p h es) w1 = (rc, w')" by auto
    from Cons.IH [OF this Cons.prems(2)] ok True m
    show ?thesis using apply_multicast_issues [of K p h multicast_leave "oe_data e"]
      by (auto simp: issues_def entry_calls_def leave_calls_def is_multicast_entry_def)
  qed
qed

section \<open>The builder's invariant\<close>

text \<open>What the availability flag of an entry must be: whether the switch supports it.\<close>

definition supported :: "platform \<Rightarrow> socket_option_id \<Rightarrow> bool" where
  "supported p oid \<longleftrightarrow> is_multicast_entry oid \<or> option_target p oid \<noteq> None \<or> platform_target p oid \<noteq> None
     \<or> (p = Windows \<and> (oid = keep_alive_idle \<or> oid = keep_alive_interval))"

definition options_inv :: "platform \<Rightarrow> socket_options \<Rightarrow> bool" where
  "options_inv p opts \<longleftrightarrow>
     (\<forall>e \<in> set (so_entries opts). oe_available e = supported p (oe_id e)) \<and>
     so_has_send_buf opts = (send_buf \<in> oe_id ` set (so_entries opts)) \<and>
     so_has_recv_buf opts = (recv_buf \<in> oe_id ` set (so_entries opts)) \<and>
     so_has_reuse_addr opts = (reuse_addr \<in> oe_id ` set (so_entries opts)) \<and>
     so_has_multicast_join opts = (multicast_join \<in> oe_id ` set (so_entries opts))"

lemma supported_iff:
  "supported p oid \<longleftrightarrow>
     (if oid \<in> {reuse_port, tcp_cork, tcp_notsent_lowat, keep_alive_count} then p \<noteq> Windows
      else if oid \<in> {tcp_user_timeout, tcp_defer_accept} then p = Linux
      else if oid = exclusive_addr then p = Windows
      else True)"
  by (cases oid; cases p)
    (simp_all add: supported_def option_target_def platform_target_def is_multicast_entry_def)

lemma push_entry_inv:
  "options_inv p opts \<Longrightarrow> oe_available e = supported p (oe_id e) \<Longrightarrow>
   oe_id e \<notin> {send_buf, recv_buf, reuse_addr, multicast_join} \<Longrightarrow> options_inv p (push_entry e opts)"
  by (auto simp: options_inv_def push_entry_def)

lemma push_int_inv:
  "options_inv p opts \<Longrightarrow> available = supported p oid \<Longrightarrow>
   oid \<notin> {send_buf, recv_buf, reuse_addr, multicast_join} \<Longrightarrow> options_inv p (push_int oid v available opts)"
  by (simp add: push_int_def push_entry_inv)

lemma buf_inv:
  "options_inv p opts \<Longrightarrow> options_inv p (add_recv_buf n opts)"
  "options_inv p opts \<Longrightarrow> options_inv p (add_send_buf n opts)"
  "options_inv p opts \<Longrightarrow> options_inv p ((push_int reuse_addr v True opts)\<lparr>so_has_reuse_addr := True\<rparr>)"
  by (auto simp: options_inv_def add_recv_buf_def add_send_buf_def push_int_def push_entry_def supported_iff)

lemma push_multicastD:
  "push_multicast oid g i opts = Some opts' \<Longrightarrow>
   \<exists>d. opts' = push_entry \<lparr>oe_id = oid, oe_data = d, oe_available = True\<rparr>
          (if oid = multicast_join then opts\<lparr>so_has_multicast_join := True\<rparr> else opts)"
  unfolding push_multicast_def Let_def bind_eq_Some_conv by blast

lemma push_join_inv:
  "options_inv p opts \<Longrightarrow>
   options_inv p (push_entry \<lparr>oe_id = multicast_join, oe_data = d, oe_available = True\<rparr>
     (opts\<lparr>so_has_multicast_join := True\<rparr>))"
  by (simp add: options_inv_def push_entry_def supported_def is_multicast_entry_def)

lemma push_leave_inv:
  "options_inv p opts \<Longrightarrow>
   options_inv p (push_entry \<lparr>oe_id = multicast_leave, oe_data = d, oe_available = True\<rparr> opts)"
  by (rule push_entry_inv) (simp_all add: supported_def is_multicast_entry_def)

lemma multicast_inv:
  assumes "options_inv p opts"
  shows "pred_option (options_inv p) (push_multicast multicast_join g i opts)"
    and "pred_option (options_inv p) (push_multicast multicast_leave g i opts)"
    and "pred_option (options_inv p) (add_multicast_interface i opts)"
proof -
  show "pred_option (options_inv p) (push_multicast multicast_join g i opts)"
    using push_multicastD [of multicast_join g i opts] push_join_inv [OF assms]
    by (cases "push_multicast multicast_join g i opts") auto
  show "pred_option (options_inv p) (push_multicast multicast_leave g i opts)"
    using push_multicastD [of multicast_leave g i opts] push_leave_inv [OF assms]
    by (cases "push_multicast multicast_leave g i opts") auto
  have "options_inv p (push_entry \<lparr>oe_id = multicast_if, oe_data = d, oe_available = True\<rparr> opts)" for d
    using assms by (rule push_entry_inv) (simp_all add: supported_iff)
  then show "pred_option (options_inv p) (add_multicast_interface i opts)"
    by (cases "add_multicast_interface i opts")
      (auto simp: add_multicast_interface_def bind_eq_Some_conv)
qed

lemma capability_iff:
  "has_reuseport p \<longleftrightarrow> p \<noteq> Windows" "has_tcp_fastopen p" "has_tcp_notsent_lowat p \<longleftrightarrow> p \<noteq> Windows"
  "has_tcp_cork p \<longleftrightarrow> p \<noteq> Windows" "has_tcp_user_timeout p \<longleftrightarrow> p = Linux"
  "has_tcp_defer_accept p \<longleftrightarrow> p = Linux"
  by (cases p; simp add: capability_defs)+

lemma builder_inv:
  assumes "options_inv p opts"
  shows "pred_option (options_inv p) (builder p c opts)"
  using assms
  by (cases c) (auto simp: builder_def push_int_inv push_entry_inv buf_inv multicast_inv supported_iff
      capability_iff add_linger_def add_multicast_interface_v6_def)

lemma configure_inv: "options_inv p opts \<Longrightarrow> configure p cs opts = Some opts' \<Longrightarrow> options_inv p opts'"
proof (induction cs arbitrary: opts)
  case (Cons c cs)
  then obtain o1 where "builder p c opts = Some o1" "configure p cs o1 = Some opts'"
    by (auto simp: bind_eq_Some_conv)
  with Cons builder_inv [of p opts c] show ?case by simp
qed simp

lemma default_inv: "options_inv p socket_options_default"
  by (simp add: options_inv_def socket_options_default_def)


lemma option_switch_unsupported:
  assumes "oe_id e \<noteq> keep_alive_idle" and "oe_id e \<noteq> keep_alive_interval"
    and "run_state (option_switch K p h e v) w = (rc, w')"
  shows "rc = make_error_code option_not_supported \<longleftrightarrow> \<not> supported p (oe_id e)"
  using assms
  by (cases "oe_id e"; cases p)
    (auto simp: option_switch_def supported_iff set_int_opt_bytes set_if_def apply_tcp_defer_accept_def
      apply_linger_def apply_multicast_if_def apply_multicast_if_v6_def apply_multicast_def Let_def
      dest: run_set_bytes_opt split: prod.splits if_splits)

lemma apply_entry_unsupported:
  assumes "run_state (apply_entry K p h e ka) w = ((rc, ka'), w')"
  shows "rc = make_error_code option_not_supported \<longleftrightarrow> \<not> supported p (oe_id e)"
proof (cases "oe_id e = keep_alive_idle \<or> oe_id e = keep_alive_interval")
  case True
  have "void_ok \<noteq> make_error_code option_not_supported"
    by (simp add: void_ok_def no_error_def make_error_code_def)
  with True show ?thesis
    using assms
    by (cases p)
      (auto simp: apply_entry_def keep_idle_case_def keep_interval_case_def set_int_opt_bytes Let_def
        supported_iff split: prod.splits dest: run_set_bytes_opt)
next
  case False
  with assms option_switch_unsupported [of e K p h "read_int (oe_data e)" w] show ?thesis
    by (auto simp: apply_entry_def Let_def split: prod.splits)
qed

lemma read_int_bytes: "- (2 ^ 31) \<le> v \<Longrightarrow> v < 2 ^ 31 \<Longrightarrow> read_int (int_bytes v @ rest) = v"
  using to_int32_id [of v]
  by (simp add: read_int_def int_bytes_def load32_def mem_get_def to_int32_def)

lemma neutral_apply_multicast [neutral_intros]: "neutral (apply_multicast K p h oid d)"
  unfolding apply_multicast_def Let_def by (intro neutral_intros)

lemma neutral_option_switch: "neutral (option_switch K p h e v)"
  by (cases "oe_id e")
    (auto simp: option_switch_def set_if_def set_int_opt_bytes apply_tcp_defer_accept_def apply_linger_def
      apply_multicast_if_def apply_multicast_if_v6_def intro!: neutral_intros split: prod.split)

lemma neutral_apply_entry [neutral_intros]: "neutral (apply_entry K p h e ka)"
  unfolding apply_entry_def Let_def keep_idle_case_def keep_interval_case_def set_int_opt_bytes
  by (intro neutral_intros neutral_option_switch)

lemma neutral_apply_loop [neutral_intros]: "neutral (apply_loop K p h skip es ka)"
  by (induction es arbitrary: ka) (auto intro!: neutral_intros split: prod.split)

lemma neutral_query_buf [neutral_intros]: "neutral (query_buf K h b opt)"
  unfolding query_buf_def by (intro neutral_intros)

lemma neutral_windows_keepalive [neutral_intros]: "neutral (apply_windows_keepalive K p h i j)"
  unfolding apply_windows_keepalive_def by (intro neutral_intros)

lemma neutral_apply_entries [neutral_intros]: "neutral (apply_entries K p h skip opts)"
  unfolding apply_entries_def by (intro neutral_intros)

lemma neutral_apply_to [neutral_intros]:
  "neutral (apply_to K p h opts)" "neutral (apply_pre_bind K p h opts)"
  unfolding apply_to_def apply_pre_bind_def by (intro neutral_intros)+

lemma neutral_post_bind_loop [neutral_intros]: "neutral (post_bind_loop K p h es)"
  by (induction es) (auto intro!: neutral_intros)

lemma neutral_post_bind [neutral_intros]: "neutral (apply_post_bind K p h opts)"
  unfolding apply_post_bind_def by (intro neutral_intros)

lemma neutral_leave_loop: "neutral (leave_loop K p h es)"
  by (induction es) (auto intro!: neutral_intros)

lemma neutral_leave_all [neutral_intros]: "neutral (leave_all_multicast K p h opts)"
  unfolding leave_all_multicast_def by (rule neutral_leave_loop)

section \<open>Properties\<close>

text \<open>
  Applying options issues, in order, exactly the \<open>setsockopt\<close> call that the reference table
  gives for each selected entry, and stops at the first entry that fails: what is issued is
  always a prefix of the table's calls, and all of them when the result is a success.
\<close>

theorem apply_entries_in_order:
  assumes "run_state (apply_entries K p h skip opts) w = (r, w')"
  shows "\<exists>k. setopts w' = setopts w @
             concat (map (entry_calls p h) (take k (filter (selected skip) (so_entries opts))))
           \<and> (\<forall>ar. r = Inr ar \<longrightarrow> k = length (filter (selected skip) (so_entries opts)))"
  using assms by (rule apply_entries_issues)

theorem apply_entries_in_order_witness:
  "setopts (final_world (apply_entries ok_kernel Windows 5 False
       (push_int tcp_fastopen 9 True (push_int recv_buf 4096 True socket_options_default))) start_world)
   = [(5, SOL_SOCKET SO_RCVBUF, int_bytes 4096), (5, IPPROTO_TCP TCP_FASTOPEN, int_bytes 1)]"
proof -
  let ?o = "push_int tcp_fastopen 9 True (push_int recv_buf 4096 True socket_options_default)"
  obtain r w' where r: "run_state (apply_entries ok_kernel Windows 5 False ?o) start_world = (r, w')"
    by (metis surj_pair)
  have "r = Inr \<lparr>actual_send_buf = 0, actual_recv_buf = 0\<rparr>"
    using r by (simp add: apply_entries_def push_int_def push_entry_def socket_options_default_def
        apply_entry_def option_switch_def Let_def set_int_opt_def io_simps ok_kernel_def sys_ok_def query_buf_def)
  with apply_entries_in_order [OF r] show ?thesis
    using r by (simp add: push_int_def push_entry_def socket_options_default_def entry_calls_def
        is_multicast_entry_def option_target_def entry_value_def read_int_bytes [where rest = "[]", simplified]
        setopts_def start_world_def map_filter_def)
qed

text \<open>
  The pre-bind pass followed by the post-bind pass issues each entry's call exactly once:
  first all entries that are not multicast memberships, then the memberships, each in the order
  in which they were configured.
\<close>

theorem bind_passes_partition:
  assumes "run_state (apply_pre_bind K p h opts) w = (Inr ar, w1)"
    and "run_state (apply_post_bind K p h opts) w1 = (rc, w2)" and "is_ok rc"
  shows "setopts w2 = setopts w
           @ concat (map (entry_calls p h) (filter (\<lambda>e. \<not> is_multicast_entry (oe_id e)) (so_entries opts)))
           @ concat (map (entry_calls p h) (filter (\<lambda>e. is_multicast_entry (oe_id e)) (so_entries opts)))
         \<and> live w2 = live w"
proof -
  have "setopts w1 = setopts w
      @ concat (map (entry_calls p h) (filter (\<lambda>e. \<not> is_multicast_entry (oe_id e)) (so_entries opts)))"
    using apply_entries_issues [of K p h True opts w "Inr ar" w1] assms(1) by (auto simp: apply_pre_bind_def)
  moreover have "setopts w2 = setopts w1
      @ concat (map (entry_calls p h) (filter (\<lambda>e. is_multicast_entry (oe_id e)) (so_entries opts)))"
    using post_bind_issues [of K p h "so_entries opts" w1 rc w2] assms(2,3)
    by (simp add: apply_post_bind_def comp_def)
  moreover have "live w2 = live w"
    using neutral_run [OF neutral_apply_to(2) assms(1)] neutral_run [OF neutral_post_bind assms(2)] by simp
  ultimately show ?thesis by simp
qed

theorem bind_passes_partition_witness:
  "setopts (final_world (apply_post_bind ok_kernel Linux 5 (push_int ip_tos 8 True socket_options_default))
     (final_world (apply_pre_bind ok_kernel Linux 5 (push_int ip_tos 8 True socket_options_default)) start_world))
   = [(5, IPPROTO_IP IP_TOS, int_bytes 8)]"
proof -
  let ?o = "push_int ip_tos 8 True socket_options_default"
  let ?w1 = "final_world (apply_pre_bind ok_kernel Linux 5 ?o) start_world"
  note ev = push_int_def push_entry_def socket_options_default_def apply_entry_def option_switch_def
    set_int_opt_def io_simps ok_kernel_def sys_ok_def query_buf_def is_multicast_entry_def
  have 1: "run_state (apply_pre_bind ok_kernel Linux 5 ?o) start_world =
      (Inr \<lparr>actual_send_buf = 0, actual_recv_buf = 0\<rparr>, ?w1)"
    by (simp add: apply_pre_bind_def apply_entries_def ev)
  have 2: "run_state (apply_post_bind ok_kernel Linux 5 ?o) ?w1 =
      (void_ok, final_world (apply_post_bind ok_kernel Linux 5 ?o) ?w1)"
    by (simp add: apply_post_bind_def ev)
  from bind_passes_partition [OF 1 2] show ?thesis
    by (simp add: push_int_def push_entry_def socket_options_default_def is_multicast_entry_def entry_calls_def
        option_target_def entry_value_def read_int_bytes [where rest = "[]", simplified] setopts_def
        start_world_def map_filter_def)
qed

text \<open>
  The builder's availability flags, which come from the capability constants, agree with the
  platform branches of the switch: for options built by any sequence of builder calls, an entry is
  marked available exactly when applying it does not answer \<open>option_not_supported\<close>; and the
  \<open>has_...\<close> flags tell exactly which entries are present.
\<close>

theorem availability_agrees:
  assumes "configure p cs socket_options_default = Some opts" and "e \<in> set (so_entries opts)"
    and "run_state (apply_entry K p h e ka) w = ((rc, ka'), w')"
  shows "(oe_available e \<longleftrightarrow> rc \<noteq> make_error_code option_not_supported)
     \<and> (so_has_send_buf opts \<longleftrightarrow> send_buf \<in> oe_id ` set (so_entries opts))
     \<and> (so_has_recv_buf opts \<longleftrightarrow> recv_buf \<in> oe_id ` set (so_entries opts))
     \<and> (so_has_reuse_addr opts \<longleftrightarrow> reuse_addr \<in> oe_id ` set (so_entries opts))
     \<and> (has_post_bind_opts opts \<longleftrightarrow> multicast_join \<in> oe_id ` set (so_entries opts))"
  using configure_inv [OF default_inv assms(1)] assms(2) apply_entry_unsupported [OF assms(3)]
  by (simp add: options_inv_def has_post_bind_opts_def)

theorem availability_agrees_witness:
  "fst (outcome (apply_entry ok_kernel Windows 5
       \<lparr>oe_id = tcp_cork, oe_data = int_bytes 1, oe_available = False\<rparr> (None, None)) start_world)
     = make_error_code option_not_supported"
proof -
  let ?e = "\<lparr>oe_id = tcp_cork, oe_data = int_bytes 1, oe_available = False\<rparr>"
  have 1: "configure Windows [Tcp_cork True] socket_options_default
      = Some (push_entry ?e socket_options_default)"
    by (simp add: builder_def push_int_def bool_int_def has_tcp_cork_def)
  have 2: "?e \<in> set (so_entries (push_entry ?e socket_options_default))"
    by (simp add: push_entry_def)
  obtain rc ka' w' where 3: "run_state (apply_entry ok_kernel Windows 5 ?e (None, None)) start_world = ((rc, ka'), w')"
    by (metis surj_pair)
  from availability_agrees [OF 1 2 3] 3 show ?thesis by simp
qed

text \<open>
  Option values survive the round trip through the entry's raw bytes for every 32-bit
  \<open>int\<close>, the two values of a linger entry included.
\<close>

theorem option_value_roundtrip:
  assumes "- (2 ^ 31) \<le> v" and "v < 2 ^ 31"
  shows "read_int (int_bytes v) = v \<and>
    linger_vals (oe_data (last (so_entries (add_linger b v opts)))) = (bool_int b, v)"
proof -
  have b: "- (2 ^ 31) \<le> bool_int b" "bool_int b < 2 ^ 31" by (simp_all add: bool_int_def)
  have "sint (word_of_int x :: u32) = x" if "- (2 ^ 31) \<le> x" "x < 2 ^ 31" for x
    using to_int32_id [OF that] by (simp add: to_int32_def)
  with b assms show ?thesis
    using read_int_bytes [OF assms, of "[]"]
    by (simp add: linger_vals_def add_linger_def push_entry_def int_bytes_def load32_def mem_get_def)
qed

theorem option_value_roundtrip_witness:
  "read_int (int_bytes (- 5)) = - 5 \<and>
   linger_vals (oe_data (last (so_entries (add_linger True (- 5) socket_options_default)))) = (1, - 5)"
  using option_value_roundtrip [of "- 5" True socket_options_default] by (simp add: bool_int_def)

text \<open>
  \<open>leave_all_multicast\<close> undoes the joins: when it succeeds it has issued, for every join
  entry in order, the leave request with the same group and interface bytes and nothing else.
\<close>

theorem leave_all_mirrors_joins:
  assumes "run_state (leave_all_multicast K p h opts) w = (rc, w')" and "is_ok rc"
  shows "setopts w' = setopts w @ concat (map (\<lambda>e.
           case membership_request p True (oe_data e) of
             None \<Rightarrow> []
           | Some (opt, req) \<Rightarrow>
               [(h, if opt = IPPROTO_IP IP_ADD_MEMBERSHIP then IPPROTO_IP IP_DROP_MEMBERSHIP
                    else IPPROTO_IPV6 IPV6_LEAVE_GROUP, req)])
           (filter (\<lambda>e. oe_id e = multicast_join) (so_entries opts)))"
proof -
  have "leave_calls p h e = (case membership_request p True (oe_data e) of
             None \<Rightarrow> []
           | Some (opt, req) \<Rightarrow>
               [(h, if opt = IPPROTO_IP IP_ADD_MEMBERSHIP then IPPROTO_IP IP_DROP_MEMBERSHIP
                    else IPPROTO_IPV6 IPV6_LEAVE_GROUP, req)])" for e
    by (simp add: leave_calls_def entry_calls_def is_multicast_entry_def membership_request_def)
  then have "leave_calls p h = (\<lambda>e. case membership_request p True (oe_data e) of
             None \<Rightarrow> []
           | Some (opt, req) \<Rightarrow>
               [(h, if opt = IPPROTO_IP IP_ADD_MEMBERSHIP then IPPROTO_IP IP_DROP_MEMBERSHIP
                    else IPPROTO_IPV6 IPV6_LEAVE_GROUP, req)])" by (rule ext)
  with leave_issues [of K p h "so_entries opts" w rc w'] assms show ?thesis
    by (simp only: leave_all_multicast_def)
qed

theorem leave_all_mirrors_joins_witness:
  "setopts (final_world (leave_all_multicast ok_kernel Linux 7
     (push_entry \<lparr>oe_id = multicast_join, oe_data = [2, 0, 0, 0, 224, 0, 0, 1] @ replicate 256 0,
        oe_available = True\<rparr> socket_options_default)) start_world)
   = [(7, IPPROTO_IP IP_DROP_MEMBERSHIP, [224, 0, 0, 1, 0, 0, 0, 0])]"
proof -
  let ?e = "\<lparr>oe_id = multicast_join, oe_data = [2, 0, 0, 0, 224, 0, 0, 1] @ replicate 256 0, oe_available = True\<rparr>"
  let ?o = "push_entry ?e socket_options_default"
  let ?w = "final_world (leave_all_multicast ok_kernel Linux 7 ?o) start_world"
  have "run_state (leave_all_multicast ok_kernel Linux 7 ?o) start_world = (void_ok, ?w)"
    by (simp add: leave_all_multicast_def push_entry_def socket_options_default_def apply_multicast_def
        get_family_def mem_get_def AF_INET_def set_bytes_opt_def io_simps ok_kernel_def sys_ok_def Let_def)
  from leave_all_mirrors_joins [OF this] show ?thesis
    by (simp add: push_entry_def socket_options_default_def membership_request_def get_family_def mem_get_def
        AF_INET_def setopts_def start_world_def map_filter_def) (simp add: eval_nat_numeral)
qed

end
