(* ===== verification/Socket.thy ===== *)
theory Socket
  imports Options
begin

text \<open>
  \<open>class socket\<close>: \<open>include/socketpp/socket/socket.hpp\<close> and \<open>src/socket/socket.cpp\<close>.

  A socket object owns at most one descriptor. The locale \<open>owning_factory\<close> states the contract of
  every function of the library that returns such an object (a failure leaves the set of open
  descriptors as it was, a success adds exactly what the result owns) and proves once how such a
  function composes with steps that may fail. \<open>socket_pool\<close> is the system of all socket objects
  of a program under creation, closing, moves and \<open>release\<close>; its invariant is that the open
  descriptors are exactly the owned and the released ones.
\<close>

section \<open>Data\<close>

datatype socket_type = stream | dgram
datatype shutdown_mode = shutdown_read | shutdown_write | shutdown_both

definition invalid_socket :: socket_t where
  "invalid_socket = -1"

text \<open>
  \<open>dispatcher_\<close> is a pointer (here a number naming the dispatcher); \<open>on_close_deregister_\<close> is
  present or empty, and its invocation is an event of the trace.
\<close>

record socket =
  s_handle :: socket_t
  s_dispatcher :: "nat option"
  s_dereg :: bool

definition socket_of :: "socket_t \<Rightarrow> socket" where
  "socket_of h = \<lparr>s_handle = h, s_dispatcher = None, s_dereg = False\<rparr>"

definition socket_default :: socket where
  "socket_default = socket_of invalid_socket"

definition is_open :: "socket \<Rightarrow> bool" where
  "is_open s \<longleftrightarrow> s_handle s \<noteq> invalid_socket"

definition set_dispatcher :: "nat option \<Rightarrow> socket \<Rightarrow> socket" where
  "set_dispatcher d s = s\<lparr>s_dispatcher := d\<rparr>"

definition set_close_callback :: "bool \<Rightarrow> socket \<Rightarrow> socket" where
  "set_close_callback present s = s\<lparr>s_dereg := present\<rparr>"

definition to_af :: "platform \<Rightarrow> address_family \<Rightarrow> int" where
  "to_af p af = int (if af = ipv6 then AF_INET6 p else AF_INET p)"

definition to_socktype :: "socket_type \<Rightarrow> int" where
  "to_socktype t = (if t = dgram then 2 else 1)"

text \<open>\<open>SHUT_RD\<close>/\<open>SD_RECEIVE\<close> are 0, \<open>SHUT_WR\<close>/\<open>SD_SEND\<close> 1, \<open>SHUT_RDWR\<close>/\<open>SD_BOTH\<close> 2.\<close>

definition to_shutdown :: "shutdown_mode \<Rightarrow> int" where
  "to_shutdown how = (case how of shutdown_read \<Rightarrow> 0 | shutdown_write \<Rightarrow> 1 | shutdown_both \<Rightarrow> 2)"

definition SOCK_FLAGS :: int where "SOCK_FLAGS = 0x80000 + 0x800"

definition O_NONBLOCK :: "platform \<Rightarrow> int" where
  "O_NONBLOCK p = (if p = MacOS then 4 else 0x800)"

section \<open>Operations\<close>

definition set_non_blocking :: "kernel \<Rightarrow> platform \<Rightarrow> socket \<Rightarrow> bool \<Rightarrow> rvoid io" where
  "set_non_blocking K p s enable =
     (if s_handle s = invalid_socket then State_Monad.return (make_error_code invalid_state)
      else if p = Windows
      then do {
        r \<leftarrow> sys K (Sys_ctl (Ioctl_fionbio (s_handle s) enable));
        if sr_rc r = -1 then os_failure p else State_Monad.return void_ok
      }
      else do {
        r \<leftarrow> sys K (Sys_ctl (Fcntl_getfl (s_handle s)));
        if sr_rc r = -1 then os_failure p
        else do {
          r' \<leftarrow> sys K (Sys_ctl (Fcntl_setfl (s_handle s)
                 (if enable then sr_rc r OR O_NONBLOCK p else sr_rc r AND NOT (O_NONBLOCK p))));
          if sr_rc r' = -1 then os_failure p else State_Monad.return void_ok
        }
      })"

definition close_call :: "platform \<Rightarrow> socket_t \<Rightarrow> syscall" where
  "close_call p fd = (if p = Windows then Sys_closesocket fd else Sys_close fd)"

text \<open>\<open>close()\<close>: the object after the call and the result.\<close>

definition socket_close :: "kernel \<Rightarrow> platform \<Rightarrow> socket \<Rightarrow> (rvoid \<times> socket) io" where
  "socket_close K p s =
     (if s_handle s = invalid_socket then State_Monad.return (void_ok, s)
      else do {
        _ \<leftarrow> (if s_dereg s then do { _ \<leftarrow> sys K (Call_close_deregister (s_handle s)); State_Monad.return () }
             else State_Monad.return ());
        r \<leftarrow> sys K (close_call p (s_handle s));
        ec \<leftarrow> (if sr_rc r = -1 then os_failure p else State_Monad.return void_ok);
        State_Monad.return (ec, socket_default)
      })"

text \<open>The destructor.\<close>

definition socket_drop :: "kernel \<Rightarrow> platform \<Rightarrow> socket \<Rightarrow> unit io" where
  "socket_drop K p s = do { _ \<leftarrow> socket_close K p s; State_Monad.return () }"

text \<open>\<open>release()\<close>: the handle, without closing it.\<close>

definition socket_release :: "kernel \<Rightarrow> socket \<Rightarrow> (socket_t \<times> socket) io" where
  "socket_release K s = do {
     _ \<leftarrow> (if s_dereg s then do { _ \<leftarrow> sys K (Call_close_deregister (s_handle s)); State_Monad.return () }
          else State_Monad.return ());
     State_Monad.return (s_handle s, socket_default)
   }"

definition socket_move :: "socket \<Rightarrow> socket \<times> socket" where
  "socket_move other = (other, socket_default)"

definition socket_move_assign ::
    "kernel \<Rightarrow> platform \<Rightarrow> bool \<Rightarrow> socket \<Rightarrow> socket \<Rightarrow> (socket \<times> socket) io" where
  "socket_move_assign K p aliased this other =
     (if \<not> aliased
      then do { _ \<leftarrow> socket_close K p this; State_Monad.return (socket_move other) }
      else State_Monad.return (this, other))"

text \<open>Close the new socket and hand on the error that was reported first.\<close>

definition close_and_fail :: "kernel \<Rightarrow> platform \<Rightarrow> socket \<Rightarrow> error_code \<Rightarrow> 'a result io" where
  "close_and_fail K p s ec = do { _ \<leftarrow> socket_close K p s; State_Monad.return (Inl ec) }"

definition socket_create ::
    "kernel \<Rightarrow> platform \<Rightarrow> address_family \<Rightarrow> socket_type \<Rightarrow> int \<Rightarrow> socket result io" where
  "socket_create K p af t protocol = do {
     r \<leftarrow> sys K (Sys_socket (to_af p af)
            (if p = Linux then to_socktype t OR SOCK_FLAGS else to_socktype t) protocol);
     if sr_rc r = invalid_socket
     then do { ec \<leftarrow> os_failure p; State_Monad.return (Inl ec) }
     else (let s = socket_of (sr_rc r) in
       (case p of
          Linux \<Rightarrow> State_Monad.return (Inr s)
        | Windows \<Rightarrow> do {
            nb \<leftarrow> set_non_blocking K p s True;
            if \<not> is_ok nb then close_and_fail K p s nb else State_Monad.return (Inr s)
          }
        | MacOS \<Rightarrow> do {
            rc \<leftarrow> sys K (Sys_ctl (Fcntl_setfd (s_handle s)));
            if sr_rc rc = -1
            then do { ec \<leftarrow> os_failure p; close_and_fail K p s ec }
            else do {
              nb \<leftarrow> set_non_blocking K p s True;
              if \<not> is_ok nb then close_and_fail K p s nb
              else do {
                so \<leftarrow> sys K (Sys_ctl (Setsockopt (s_handle s) (SOL_SOCKET SO_NOSIGPIPE) (int_bytes 1)));
                if sr_rc so = -1
                then do { ec \<leftarrow> os_failure p; close_and_fail K p s ec }
                else State_Monad.return (Inr s)
              }
            }
          }))
   }"

definition socket_shutdown :: "kernel \<Rightarrow> platform \<Rightarrow> socket \<Rightarrow> shutdown_mode \<Rightarrow> rvoid io" where
  "socket_shutdown K p s how =
     (if s_handle s = invalid_socket then State_Monad.return (make_error_code invalid_state)
      else do {
        r \<leftarrow> sys K (Sys_ctl (Shutdown (s_handle s) (to_shutdown how)));
        if sr_rc r \<noteq> 0 then os_failure p else State_Monad.return void_ok
      })"

definition socket_bind :: "kernel \<Rightarrow> platform \<Rightarrow> socket \<Rightarrow> sock_address \<Rightarrow> rvoid io" where
  "socket_bind K p s addr =
     (if s_handle s = invalid_socket then State_Monad.return (make_error_code invalid_state)
      else do {
        r \<leftarrow> sys K (Sys_ctl (Bind (s_handle s) (sa_storage addr) (sa_len addr)));
        if sr_rc r \<noteq> 0 then os_failure p else State_Monad.return void_ok
      })"

text \<open>What the system wrote into a default-constructed address, with the length it reported.\<close>

definition received_address :: "sysret \<Rightarrow> sock_address" where
  "received_address r = sa_set_size (sr_addrlen r)
     (sock_address_default\<lparr>sa_storage :=
        mem_put (sa_storage sock_address_default) 0 (take sizeof_storage (sr_addr r))\<rparr>)"

definition socket_local_address :: "kernel \<Rightarrow> platform \<Rightarrow> socket \<Rightarrow> sock_address result io" where
  "socket_local_address K p s =
     (if s_handle s = invalid_socket then State_Monad.return (Inl (make_error_code invalid_state))
      else do {
        r \<leftarrow> sys K (Sys_ctl (Getsockname (s_handle s) sizeof_storage));
        if sr_rc r \<noteq> 0 then do { ec \<leftarrow> os_failure p; State_Monad.return (Inl ec) }
        else State_Monad.return (Inr (received_address r))
      })"

definition socket_peer_address :: "kernel \<Rightarrow> platform \<Rightarrow> socket \<Rightarrow> sock_address result io" where
  "socket_peer_address K p s =
     (if s_handle s = invalid_socket then State_Monad.return (Inl (make_error_code invalid_state))
      else do {
        r \<leftarrow> sys K (Sys_ctl (Getpeername (s_handle s) sizeof_storage));
        if sr_rc r \<noteq> 0 then do { ec \<leftarrow> os_failure p; State_Monad.return (Inl ec) }
        else State_Monad.return (Inr (received_address r))
      })"

definition socket_apply :: "kernel \<Rightarrow> platform \<Rightarrow> socket \<Rightarrow> socket_options \<Rightarrow> rvoid io" where
  "socket_apply K p s opts =
     (if s_handle s = invalid_socket then State_Monad.return (make_error_code invalid_state)
      else do {
        r \<leftarrow> apply_to K p (s_handle s) opts;
        (case r of Inl ec \<Rightarrow> State_Monad.return ec | Inr _ \<Rightarrow> State_Monad.return void_ok)
      })"

section \<open>Ownership\<close>

definition owned :: "socket \<Rightarrow> int multiset" where
  "owned s = (if s_handle s = invalid_socket then {#} else {#s_handle s#})"

lemma owned_default [simp]: "owned socket_default = {#}"
  by (simp add: owned_def socket_default_def socket_of_def)

lemma neutral_set_non_blocking [neutral_intros]: "neutral (set_non_blocking K p s b)"
  unfolding set_non_blocking_def by (intro neutral_intros)

lemma neutral_socket_bind [neutral_intros]: "neutral (socket_bind K p s a)"
  unfolding socket_bind_def by (intro neutral_intros)

lemma neutral_socket_shutdown [neutral_intros]: "neutral (socket_shutdown K p s how)"
  unfolding socket_shutdown_def by (intro neutral_intros)

lemma neutral_socket_apply [neutral_intros]: "neutral (socket_apply K p s opts)"
  unfolding socket_apply_def by (intro neutral_intros)

lemma neutral_addresses [neutral_intros]:
  "neutral (socket_local_address K p s)" "neutral (socket_peer_address K p s)"
  unfolding socket_local_address_def socket_peer_address_def by (intro neutral_intros)+

lemma live_close_call: "live_step (close_call p fd, r) M = M - {#fd#}"
  by (simp add: close_call_def)

lemma releases_close_call [simp]: "fd_effect_of (close_call p h) = Releases h"
  by (simp add: close_call_def)

lemma wp_socket_close [wp_intros]:
  assumes "\<And>ec s'. s_handle s' = invalid_socket \<Longrightarrow> owned s' = {#} \<Longrightarrow>
    (s_handle s \<noteq> invalid_socket \<Longrightarrow> s' = socket_default) \<Longrightarrow> Q (ec, s') (L - owned s)"
    and "owned s \<subseteq># L"
  shows "fd_wp (socket_close K p s) Q L"
proof (cases "s_handle s = invalid_socket")
  case True
  then show ?thesis using assms(1) [of s void_ok]
    by (auto simp: socket_close_def owned_def intro!: fd_wp_return)
next
  case False
  then have "owned s = {#s_handle s#}" by (simp add: owned_def)
  with False assms(1) [of socket_default] assms(2) show ?thesis
    by (auto simp: socket_close_def live_close_call socket_default_def socket_of_def invalid_socket_def
        owned_def intro!: wp_intros fd_wp_neutral [OF neutral_os_failure] fd_wp_neutral [OF neutral_deregister])
qed

text \<open>
  \<open>acquires m own\<close>: a failure leaves the open descriptors as they were and a success adds what
  the result owns.
\<close>

definition acquires :: "('e + 'a) io \<Rightarrow> ('a \<Rightarrow> int multiset) \<Rightarrow> bool" where
  "acquires m own \<longleftrightarrow> (\<forall>L. fd_wp m (\<lambda>r L'. L' = L + (case r of Inl _ \<Rightarrow> {#} | Inr v \<Rightarrow> own v)) L)"

lemma acquiresI:
  "(\<And>L. fd_wp m (\<lambda>r L'. L' = L + (case r of Inl _ \<Rightarrow> {#} | Inr v \<Rightarrow> own v)) L) \<Longrightarrow> acquires m own"
  by (simp add: acquires_def)

lemma acquires_run:
  "acquires m own \<Longrightarrow> run_state m w = (r, w') \<Longrightarrow> clean (trace w) \<Longrightarrow>
   live w' = live w + (case r of Inl _ \<Rightarrow> {#} | Inr v \<Rightarrow> own v) \<and> clean (trace w')"
  using fd_wpD [of m "\<lambda>r L'. L' = live w + (case r of Inl _ \<Rightarrow> {#} | Inr v \<Rightarrow> own v)" "live w" w r w']
  by (simp add: acquires_def)

lemma wp_acquires:
  assumes "acquires m own" and "\<And>e. Q (Inl e) L" and "\<And>v. Q (Inr v) (L + own v)"
  shows "fd_wp m Q L"
  by (rule fd_wp_weaken [OF assms(1) [unfolded acquires_def, rule_format]])
    (auto simp: assms(2,3) split: sum.splits)

locale owning_factory =
  fixes create :: "('e + 's) io"
    and dispose :: "'s \<Rightarrow> 'x io"
    and own :: "'s \<Rightarrow> int multiset"
  assumes create_law: "acquires create own"
    and dispose_law: "(\<And>x. Q x (L - own s)) \<Longrightarrow> own s \<subseteq># L \<Longrightarrow> fd_wp (dispose s) Q L"
begin

text \<open>Creating and disposing leaves no descriptor behind.\<close>

lemma create_dispose:
  "fd_wp (do {
     r \<leftarrow> create;
     (case r of Inl e \<Rightarrow> State_Monad.return ()
      | Inr s \<Rightarrow> do { _ \<leftarrow> dispose s; State_Monad.return () }) }) (\<lambda>_ L'. L' = L) L"
  by (rule fd_wp_bind, rule wp_acquires [OF create_law])
    (auto intro!: wp_intros dispose_law)

text \<open>
  Create an object, configure it by a step that opens and closes nothing, dispose of it when the
  step fails: again a function with the contract.
\<close>

lemma guarded_acquires:
  assumes "\<And>s. neutral (config s)" and "\<And>s x. own' (fin s x) = own s"
  shows "acquires (do {
      r \<leftarrow> create;
      (case r of
         Inl e \<Rightarrow> State_Monad.return (Inl e)
       | Inr s \<Rightarrow> do {
           c \<leftarrow> config s;
           (case c of
              Inl e \<Rightarrow> do { _ \<leftarrow> dispose s; State_Monad.return (Inl e) }
            | Inr x \<Rightarrow> State_Monad.return (Inr (fin s x)))
         })
    }) own'"
  by (rule acquiresI, rule fd_wp_bind, rule wp_acquires [OF create_law])
    (auto simp: assms(2) intro!: wp_intros dispose_law fd_wp_neutral [OF assms(1)])

end

lemma wp_close_and_fail [wp_intros]: "Q (Inl ec) (L - owned s) \<Longrightarrow> owned s \<subseteq># L \<Longrightarrow> fd_wp (close_and_fail K p s ec) Q L"
  unfolding close_and_fail_def by (auto intro!: wp_intros)

lemma wp_socket_drop [wp_intros]: "Q () (L - owned s) \<Longrightarrow> owned s \<subseteq># L \<Longrightarrow> fd_wp (socket_drop K p s) Q L"
  unfolding socket_drop_def by (auto intro!: wp_intros)

lemma live_step_socket:
  "live_step (Sys_socket d t q, r) L = (if sr_rc r = invalid_socket then L else L + owned (socket_of (sr_rc r)))"
  by (simp add: live_step.simps fd_effect_of_def invalid_socket_def owned_def socket_of_def)

lemma socket_create_acquires: "acquires (socket_create K p af t q) owned"
  unfolding socket_create_def Let_def
  by (rule acquiresI)
    (auto simp: live_step_socket intro!: wp_intros fd_wp_neutral [OF neutral_os_failure]
      fd_wp_neutral [OF neutral_set_non_blocking])

interpretation sock: owning_factory "socket_create K p af t q" "socket_close K p" owned
  by unfold_locales (auto intro: socket_create_acquires wp_socket_close)

interpretation sock_raii: owning_factory "socket_create K p af t q" "socket_drop K p" owned
  by unfold_locales (auto intro: socket_create_acquires wp_socket_drop)

section \<open>All socket objects of a program\<close>

text \<open>
  The objects alive in a program, the operating system, and the descriptors handed to the user by
  \<open>release()\<close>. A step is one call of the class on one of the objects (or the destruction of one).
\<close>

record socket_pool =
  sp_world :: world
  sp_objects :: "socket list"
  sp_released :: "int multiset"

datatype socket_use =
    Use_bind sock_address | Use_shutdown shutdown_mode | Use_non_blocking bool
  | Use_local_address | Use_peer_address | Use_apply socket_options

definition use_socket :: "kernel \<Rightarrow> platform \<Rightarrow> socket \<Rightarrow> socket_use \<Rightarrow> unit io" where
  "use_socket K p s u = (case u of
       Use_bind a \<Rightarrow> do { _ \<leftarrow> socket_bind K p s a; State_Monad.return () }
     | Use_shutdown h \<Rightarrow> do { _ \<leftarrow> socket_shutdown K p s h; State_Monad.return () }
     | Use_non_blocking b \<Rightarrow> do { _ \<leftarrow> set_non_blocking K p s b; State_Monad.return () }
     | Use_local_address \<Rightarrow> do { _ \<leftarrow> socket_local_address K p s; State_Monad.return () }
     | Use_peer_address \<Rightarrow> do { _ \<leftarrow> socket_peer_address K p s; State_Monad.return () }
     | Use_apply opts \<Rightarrow> do { _ \<leftarrow> socket_apply K p s opts; State_Monad.return () })"

inductive pool_step :: "kernel \<Rightarrow> platform \<Rightarrow> socket_pool \<Rightarrow> socket_pool \<Rightarrow> bool" for K p where
  pool_create: "run_state (socket_create K p af t q) (sp_world P) = (Inr s, w') \<Longrightarrow>
    pool_step K p P (P\<lparr>sp_world := w', sp_objects := sp_objects P @ [s]\<rparr>)"
| pool_create_failed: "run_state (socket_create K p af t q) (sp_world P) = (Inl ec, w') \<Longrightarrow>
    pool_step K p P (P\<lparr>sp_world := w'\<rparr>)"
| pool_use: "i < length (sp_objects P) \<Longrightarrow>
    pool_step K p P (P\<lparr>sp_world := final_world (use_socket K p (sp_objects P ! i) u) (sp_world P)\<rparr>)"
| pool_callback: "i < length (sp_objects P) \<Longrightarrow>
    pool_step K p P (P\<lparr>sp_objects := (sp_objects P)
      [i := set_dispatcher d (set_close_callback b (sp_objects P ! i))]\<rparr>)"
| pool_close: "i < length (sp_objects P) \<Longrightarrow>
    run_state (socket_close K p (sp_objects P ! i)) (sp_world P) = ((ec, s'), w') \<Longrightarrow>
    pool_step K p P (P\<lparr>sp_world := w', sp_objects := (sp_objects P)[i := s']\<rparr>)"
| pool_destroy: "i < length (sp_objects P) \<Longrightarrow>
    run_state (socket_drop K p (sp_objects P ! i)) (sp_world P) = ((), w') \<Longrightarrow>
    pool_step K p P (P\<lparr>sp_world := w', sp_objects := take i (sp_objects P) @ drop (Suc i) (sp_objects P)\<rparr>)"
| pool_move_assign: "i < length (sp_objects P) \<Longrightarrow> j < length (sp_objects P) \<Longrightarrow>
    run_state (socket_move_assign K p (i = j) (sp_objects P ! i) (sp_objects P ! j)) (sp_world P)
      = ((a, b), w') \<Longrightarrow>
    pool_step K p P (P\<lparr>sp_world := w', sp_objects := (sp_objects P)[j := b, i := a]\<rparr>)"
| pool_release: "i < length (sp_objects P) \<Longrightarrow>
    run_state (socket_release K (sp_objects P ! i)) (sp_world P) = ((h, s'), w') \<Longrightarrow>
    pool_step K p P (P\<lparr>sp_world := w', sp_objects := (sp_objects P)[i := s'],
      sp_released := sp_released P + (if h = invalid_socket then {#} else {#h#})\<rparr>)"

definition pool_init :: "socket_pool \<Rightarrow> bool" where
  "pool_init P \<longleftrightarrow> trace (sp_world P) = [] \<and> sp_objects P = [] \<and> sp_released P = {#}"

definition total_owned :: "socket list \<Rightarrow> int multiset" where
  "total_owned ss = sum_list (map owned ss)"

definition pool_inv :: "socket_pool \<Rightarrow> bool" where
  "pool_inv P \<longleftrightarrow> live (sp_world P) = total_owned (sp_objects P) + sp_released P
     \<and> clean (trace (sp_world P))"

definition total_others :: "nat \<Rightarrow> socket list \<Rightarrow> int multiset" where
  "total_others i ss = total_owned (take i ss @ drop (Suc i) ss)"

lemma total_owned_split: "i < length ss \<Longrightarrow> total_owned ss = owned (ss ! i) + total_others i ss"
proof -
  assume i: "i < length ss"
  then have "total_owned ss = total_owned (take i ss @ ss ! i # drop (Suc i) ss)"
    by (simp add: id_take_nth_drop [symmetric])
  then show ?thesis by (simp add: total_owned_def total_others_def)
qed

lemma total_owned_update: "i < length ss \<Longrightarrow> total_owned (ss[i := s]) = owned s + total_others i ss"
  by (simp add: total_owned_def total_others_def upd_conv_take_nth_drop)

lemma move_assign_total:
  assumes "i < length ss" and "j < length ss" and "i \<noteq> j"
  shows "total_owned (ss[j := socket_default, i := ss ! j]) = total_others i ss"
proof -
  have "total_owned (ss[j := socket_default]) = total_others j ss"
    using assms by (simp add: total_owned_update)
  moreover have "total_owned (ss[j := socket_default]) = owned (ss ! i) + total_others i (ss[j := socket_default])"
    using assms total_owned_split [of i "ss[j := socket_default]"] by simp
  moreover have "owned (ss ! j) + total_others j ss = owned (ss ! i) + total_others i ss"
    using assms total_owned_split [of i ss] total_owned_split [of j ss] by simp
  ultimately have "owned (ss ! i) + (owned (ss ! j) + total_others i (ss[j := socket_default]))
      = owned (ss ! i) + total_others i ss"
    by (metis union_assoc union_commute)
  then show ?thesis using assms by (simp add: total_owned_update)
qed

lemma neutral_use_socket [neutral_intros]: "neutral (use_socket K p s u)"
  by (cases u) (auto simp: use_socket_def intro!: neutral_intros)

lemma neutral_socket_release [neutral_intros]: "neutral (socket_release K s)"
  unfolding socket_release_def by (intro neutral_intros)

lemma socket_close_run:
  assumes "run_state (socket_close K p s) w = ((ec, s'), w')" and "owned s \<subseteq># live w" and "clean (trace w)"
  shows "live w' = live w - owned s \<and> clean (trace w') \<and> owned s' = {#}"
proof -
  have "fd_wp (socket_close K p s) (\<lambda>x L'. L' = live w - owned s \<and> owned (snd x) = {#}) (live w)"
    using assms(2) by (intro wp_socket_close) auto
  from fd_wpD [OF this assms(1) _ assms(3)] show ?thesis by simp
qed

lemma socket_drop_run:
  assumes "run_state (socket_drop K p s) w = ((), w')" and "owned s \<subseteq># live w" and "clean (trace w)"
  shows "live w' = live w - owned s \<and> clean (trace w')"
proof -
  have "fd_wp (socket_drop K p s) (\<lambda>x L'. L' = live w - owned s) (live w)"
    using assms(2) by (intro wp_socket_drop) auto
  from fd_wpD [OF this assms(1) _ assms(3)] show ?thesis by simp
qed

lemma pool_inv_owned:
  "pool_inv P \<Longrightarrow> i < length (sp_objects P) \<Longrightarrow> owned (sp_objects P ! i) \<subseteq># live (sp_world P)"
  by (simp add: pool_inv_def total_owned_split)

lemma owned_callback [simp]: "owned (set_dispatcher d (set_close_callback b s)) = owned s"
  by (simp add: owned_def set_dispatcher_def set_close_callback_def)

lemma pool_inv_split:
  "pool_inv P \<Longrightarrow> i < length (sp_objects P) \<Longrightarrow>
   live (sp_world P) = owned (sp_objects P ! i) + total_others i (sp_objects P) + sp_released P"
  by (simp add: pool_inv_def total_owned_split)

lemma pool_close_inv:
  assumes "pool_inv P" and i: "i < length (sp_objects P)"
    and "run_state (socket_close K p (sp_objects P ! i)) (sp_world P) = ((ec, s'), w')"
  shows "live w' = total_others i (sp_objects P) + sp_released P \<and> clean (trace w') \<and> owned s' = {#}"
  using socket_close_run [OF assms(3) pool_inv_owned [OF assms(1,2)]] pool_inv_split [OF assms(1,2)] assms(1)
  by (simp add: pool_inv_def)

lemma pool_release_inv:
  assumes "pool_inv P" and i: "i < length (sp_objects P)"
    and r: "run_state (socket_release K (sp_objects P ! i)) (sp_world P) = ((h, s'), w')"
  shows "live w' = owned s' + total_others i (sp_objects P)
      + (sp_released P + (if h = invalid_socket then {#} else {#h#})) \<and> clean (trace w')"
proof -
  from r have h: "owned (sp_objects P ! i) = (if h = invalid_socket then {#} else {#h#})" and "owned s' = {#}"
    by (auto simp: socket_release_def owned_def socket_default_def socket_of_def split: prod.splits)
  moreover have "live w' = live (sp_world P)" by (rule neutral_run [OF neutral_socket_release r])
  moreover have "clean (trace w')"
    using neutral_clean [OF neutral_socket_release r] assms(1) by (simp add: pool_inv_def)
  ultimately show ?thesis using pool_inv_split [OF assms(1) i] by simp
qed

lemma pool_move_inv:
  assumes inv: "pool_inv P" and i: "i < length (sp_objects P)" and j: "j < length (sp_objects P)"
    and r: "run_state (socket_move_assign K p (i = j) (sp_objects P ! i) (sp_objects P ! j)) (sp_world P)
      = ((a, b), w')"
  shows "live w' = total_owned ((sp_objects P)[j := b, i := a]) + sp_released P \<and> clean (trace w')"
proof (cases "i = j")
  case True
  with r inv show ?thesis by (auto simp: pool_inv_def socket_move_assign_def)
next
  case False
  then obtain ec s' where c: "run_state (socket_close K p (sp_objects P ! i)) (sp_world P) = ((ec, s'), w')"
    and "a = sp_objects P ! j" "b = socket_default"
    using r by (auto simp: socket_move_assign_def socket_move_def split: prod.splits)
  with pool_close_inv [OF inv i c] move_assign_total [OF i j False] show ?thesis by simp
qed

lemma pool_step_inv: "pool_step K p P P' \<Longrightarrow> pool_inv P \<Longrightarrow> pool_inv P'"
proof (induction rule: pool_step.induct)
  case (pool_create af t q P s w')
  with acquires_run [OF socket_create_acquires pool_create(1)] show ?case
    by (simp add: pool_inv_def total_owned_def)
next
  case (pool_create_failed af t q P ec w')
  with acquires_run [OF socket_create_acquires pool_create_failed(1)] show ?case
    by (simp add: pool_inv_def)
next
  case (pool_use i P u)
  with neutral_use_socket [of K p "sp_objects P ! i" u] show ?case
    by (simp add: pool_inv_def neutral_def)
next
  case (pool_callback i P d b)
  with pool_inv_split [OF pool_callback(2,1)] show ?case
    by (simp add: pool_inv_def total_owned_update)
next
  case (pool_close i P ec s' w')
  with pool_close_inv [OF pool_close(3,1,2)] show ?case
    by (simp add: pool_inv_def total_owned_update)
next
  case (pool_destroy i P w')
  from socket_drop_run [OF pool_destroy(2) pool_inv_owned [OF pool_destroy(3,1)]] pool_destroy(3)
    pool_inv_split [OF pool_destroy(3,1)]
  show ?case by (simp add: pool_inv_def total_others_def [symmetric])
next
  case (pool_move_assign i P j a b w')
  from pool_move_inv [OF pool_move_assign(4,1,2,3)] show ?case by (simp add: pool_inv_def)
next
  case (pool_release i P h s' w')
  from pool_release_inv [OF pool_release(3,1,2)] show ?case
    using pool_release(1) by (simp add: pool_inv_def total_owned_update)
qed

lemma pool_init_inv: "pool_init P \<Longrightarrow> pool_inv P"
  by (simp add: pool_init_def pool_inv_def total_owned_def)

interpretation pool: invariant_system pool_init "pool_step K p" pool_inv
  by unfold_locales (rule pool_init_inv pool_step_inv; assumption)+

section \<open>Properties\<close>

text \<open>
  C26: in every state a program can reach by creating, using, closing, moving, destroying and
  releasing socket objects, the open descriptors are exactly those owned by the objects and those
  handed out by \<open>release()\<close>, each once, and no descriptor was ever closed that was not open:
  the class neither leaks nor closes twice, whatever the operating system answers.
\<close>

theorem sockets_never_leak:
  assumes "reachable pool_init (pool_step K p) P"
  shows "live (sp_world P) = total_owned (sp_objects P) + sp_released P \<and> clean (trace (sp_world P))"
  using pool.reachable_inv [OF assms] by (simp add: pool_inv_def)

theorem sockets_never_leak_witness:
  "\<exists>P :: socket_pool. sp_objects P = [socket_of 0] \<and> live (sp_world P) = {#0#}"
proof -
  let ?P = "\<lparr>sp_world = start_world, sp_objects = [], sp_released = {#}\<rparr>"
  let ?w = "final_world (socket_create ok_kernel Linux ipv4 stream 0) start_world"
  let ?Q = "?P\<lparr>sp_world := ?w, sp_objects := sp_objects ?P @ [socket_of 0]\<rparr>"
  have "run_state (socket_create ok_kernel Linux ipv4 stream 0) (sp_world ?P) = (Inr (socket_of 0), ?w)"
    by (simp add: socket_create_def io_simps ok_kernel_def sys_ok_def invalid_socket_def)
  then have "pool_step ok_kernel Linux ?P ?Q" by (rule pool_create)
  moreover have "pool_init ?P" by (simp add: pool_init_def start_world_def)
  ultimately have "reachable pool_init (pool_step ok_kernel Linux) ?Q"
    by (blast intro: reachable.intros)
  from sockets_never_leak [OF this] have "sp_objects ?Q = [socket_of 0] \<and> live (sp_world ?Q) = {#0#}"
    by (simp add: total_owned_def owned_def socket_of_def invalid_socket_def)
  then show ?thesis by blast
qed

text \<open>
  \<open>close()\<close> on an open socket runs the deregistration callback first, if there is one, then
  closes the descriptor once, and leaves an empty object; closing again (as the destructor does)
  succeeds without any system call.
\<close>

theorem socket_close_once:
  assumes "run_state (socket_close K p s) w = ((ec, s'), w')"
  shows "(is_open s \<longrightarrow> (\<exists>r r'. trace w' = trace w
            @ (if s_dereg s then [(Call_close_deregister (s_handle s), r')] else [])
            @ [(close_call p (s_handle s), r)]) \<and> s' = socket_default) \<and>
         \<not> is_open s' \<and>
         run_state (socket_close K p s') w' = ((void_ok, s'), w')"
  using assms
  by (auto simp: socket_close_def is_open_def io_simps socket_default_def socket_of_def split: if_splits)

theorem socket_close_once_witness:
  "\<exists>r. trace (final_world (socket_close ok_kernel Linux (socket_of 5)) start_world) = [(Sys_close 5, r)]"
proof -
  obtain ec s' w' where r: "run_state (socket_close ok_kernel Linux (socket_of 5)) start_world = ((ec, s'), w')"
    by (metis surj_pair)
  from socket_close_once [OF r] r show ?thesis
    by (simp add: is_open_def socket_of_def invalid_socket_def close_call_def start_world_def)
qed

text \<open>
  \<open>socket::create\<close> is all or nothing on every platform: an error leaves the open descriptors
  unchanged even when a later configuration step failed, and a success adds exactly the handle of
  the returned object; creating and closing leaves nothing behind.
\<close>

theorem socket_create_all_or_nothing:
  assumes "clean (trace w)" and "run_state (socket_create K p af t q) w = (r, w')"
  shows "(case r of
            Inl ec \<Rightarrow> live w' = live w
          | Inr s \<Rightarrow> is_open s \<and> live w' = live w + {#s_handle s#}
              \<and> live (final_world (socket_close K p s) w') = live w)"
proof (cases r)
  case (Inl ec)
  with acquires_run [OF socket_create_acquires assms(2,1)] show ?thesis by simp
next
  case (Inr s)
  have live: "live w' = live w + owned s" "clean (trace w')"
    using acquires_run [OF socket_create_acquires assms(2,1)] Inr by simp_all
  have "s_handle s \<noteq> invalid_socket"
    using assms(2) Inr
    by (cases p) (auto simp: socket_create_def socket_of_def close_and_fail_def Let_def
        split: prod.splits if_splits)
  moreover obtain ec s' w2 where "run_state (socket_close K p s) w' = ((ec, s'), w2)" by (metis surj_pair)
  ultimately show ?thesis
    using socket_close_run [of K p s w' ec s' w2] live Inr by (simp add: is_open_def owned_def)
qed

theorem socket_create_all_or_nothing_witness:
  "live (final_world (socket_create ok_kernel Linux ipv4 stream 0) start_world) = {#0#}"
proof -
  have "run_state (socket_create ok_kernel Linux ipv4 stream 0) start_world
      = (Inr (socket_of 0), final_world (socket_create ok_kernel Linux ipv4 stream 0) start_world)"
    by (simp add: socket_create_def io_simps ok_kernel_def sys_ok_def invalid_socket_def)
  from socket_create_all_or_nothing [OF _ this] show ?thesis
    by (simp add: start_world_def socket_of_def)
qed

end
