(* ===== verification/Tcp.thy ===== *)
theory Tcp
  imports Socket
begin

text \<open>
  TCP sockets: \<open>src/socket/tcp.cpp\<close>, \<open>tcp_listener.cpp\<close> and \<open>tcp_connector.cpp\<close> with their headers.

  \<open>writev\<close>, \<open>WSASend\<close>, \<open>readv\<close> and \<open>WSARecv\<close> appear in the trace as \<open>Sendmsg\<close>/\<open>Recvmsg\<close> without an
  address; the count of bytes is the return value on POSIX and the out-parameter on Windows. The
  send and receive spin locks serialise calls on one socket and have no effect on a single call.
  The lemmas show that every way of obtaining a connected or listening socket satisfies the
  ownership contract of \<open>Socket\<close>, also on the paths where a later configuration step fails.
\<close>

section \<open>Data transfer\<close>

definition INT_MAX :: nat where "INT_MAX = 2147483647"
definition ULONG_MAX :: nat where "ULONG_MAX = 4294967295"
definition MSG_NOSIGNAL :: int where "MSG_NOSIGNAL = 0x4000"

definition tcp_send :: "kernel \<Rightarrow> platform \<Rightarrow> socket \<Rightarrow> byte list \<Rightarrow> int \<Rightarrow> nat result io" where
  "tcp_send K p s data flags =
     (if \<not> is_open s then State_Monad.return (Inl (make_error_code invalid_state))
      else do {
        r \<leftarrow> sys K (Sys_data (case p of
               Linux \<Rightarrow> Send (s_handle s) data (flags OR MSG_NOSIGNAL)
             | MacOS \<Rightarrow> Send (s_handle s) data flags
             | Windows \<Rightarrow> Send (s_handle s) (take (min (length data) INT_MAX) data) flags));
        if sr_rc r < 0 then do { ec \<leftarrow> os_failure p; State_Monad.return (Inl ec) }
        else State_Monad.return (Inr (nat (sr_rc r)))
      })"

text \<open>\<open>recv\<close>: the count, and what was written into the caller's buffer of \<open>len\<close> bytes.\<close>

definition tcp_recv :: "kernel \<Rightarrow> platform \<Rightarrow> socket \<Rightarrow> nat \<Rightarrow> int \<Rightarrow> (nat \<times> byte list) result io" where
  "tcp_recv K p s len flags =
     (if \<not> is_open s then State_Monad.return (Inl (make_error_code invalid_state))
      else (let len' = (if p = Windows then min len INT_MAX else len) in do {
        r \<leftarrow> sys K (Sys_data (Recv (s_handle s) len' flags));
        if sr_rc r < 0 then do { ec \<leftarrow> os_failure p; State_Monad.return (Inl ec) }
        else State_Monad.return (Inr (nat (sr_rc r), take len' (sr_data r)))
      }))"

definition tcp_send_iov :: "kernel \<Rightarrow> platform \<Rightarrow> socket \<Rightarrow> byte list list \<Rightarrow> nat result io" where
  "tcp_send_iov K p s bufs =
     (if \<not> is_open s then State_Monad.return (Inl (make_error_code invalid_state))
      else (case p of
        Windows \<Rightarrow> do {
          r \<leftarrow> sys K (Sys_data (Sendmsg (s_handle s) (map (\<lambda>b. take (min (length b) ULONG_MAX) b) bufs) [] 0 0));
          if sr_rc r = -1 then do { ec \<leftarrow> os_failure p; State_Monad.return (Inl ec) }
          else State_Monad.return (Inr (nat (sr_val r)))
        }
      | Linux \<Rightarrow> do {
          r \<leftarrow> sys K (Sys_data (Sendmsg (s_handle s) bufs [] 0 MSG_NOSIGNAL));
          if sr_rc r < 0 then do { ec \<leftarrow> os_failure p; State_Monad.return (Inl ec) }
          else State_Monad.return (Inr (nat (sr_rc r)))
        }
      | MacOS \<Rightarrow> do {
          r \<leftarrow> sys K (Sys_data (Sendmsg (s_handle s) bufs [] 0 0));
          if sr_rc r < 0 then do { ec \<leftarrow> os_failure p; State_Monad.return (Inl ec) }
          else State_Monad.return (Inr (nat (sr_rc r)))
        }))"

definition tcp_recv_iov :: "kernel \<Rightarrow> platform \<Rightarrow> socket \<Rightarrow> nat list \<Rightarrow> (nat \<times> byte list) result io" where
  "tcp_recv_iov K p s lens =
     (if \<not> is_open s then State_Monad.return (Inl (make_error_code invalid_state))
      else if p = Windows
      then (let lens' = map (\<lambda>n. min n ULONG_MAX) lens in do {
        r \<leftarrow> sys K (Sys_data (Recvmsg (s_handle s) lens' 0 0));
        if sr_rc r = -1 then do { ec \<leftarrow> os_failure p; State_Monad.return (Inl ec) }
        else State_Monad.return (Inr (nat (sr_val r), take (sum_list lens') (sr_data r)))
      })
      else do {
        r \<leftarrow> sys K (Sys_data (Recvmsg (s_handle s) lens 0 0));
        if sr_rc r < 0 then do { ec \<leftarrow> os_failure p; State_Monad.return (Inl ec) }
        else State_Monad.return (Inr (nat (sr_rc r), take (sum_list lens) (sr_data r)))
      })"

definition tcp4_local_addr :: "kernel \<Rightarrow> platform \<Rightarrow> socket \<Rightarrow> inet4_address result io" where
  "tcp4_local_addr K p s = do {
     r \<leftarrow> socket_local_address K p s;
     (case r of Inl ec \<Rightarrow> State_Monad.return (Inl ec) | Inr sa \<Rightarrow> State_Monad.return (Inr (inet4_of_sock sa)))
   }"

definition tcp4_peer_addr :: "kernel \<Rightarrow> platform \<Rightarrow> socket \<Rightarrow> inet4_address result io" where
  "tcp4_peer_addr K p s = do {
     r \<leftarrow> socket_peer_address K p s;
     (case r of Inl ec \<Rightarrow> State_Monad.return (Inl ec) | Inr sa \<Rightarrow> State_Monad.return (Inr (inet4_of_sock sa)))
   }"

definition tcp6_local_addr :: "kernel \<Rightarrow> platform \<Rightarrow> socket \<Rightarrow> inet6_address result io" where
  "tcp6_local_addr K p s = do {
     r \<leftarrow> socket_local_address K p s;
     (case r of Inl ec \<Rightarrow> State_Monad.return (Inl ec) | Inr sa \<Rightarrow> State_Monad.return (Inr (inet6_of_sock sa)))
   }"

definition tcp6_peer_addr :: "kernel \<Rightarrow> platform \<Rightarrow> socket \<Rightarrow> inet6_address result io" where
  "tcp6_peer_addr K p s = do {
     r \<leftarrow> socket_peer_address K p s;
     (case r of Inl ec \<Rightarrow> State_Monad.return (Inl ec) | Inr sa \<Rightarrow> State_Monad.return (Inr (inet6_of_sock sa)))
   }"

section \<open>Listener\<close>

record tcp_listener =
  l_socket :: socket
  l_accepted_opts :: socket_options
  l_accepted_opts_empty :: bool

definition tcp_listener_default :: tcp_listener where
  "tcp_listener_default = \<lparr>l_socket = socket_default, l_accepted_opts = socket_options_default,
     l_accepted_opts_empty = True\<rparr>"

definition set_accepted_options :: "socket_options \<Rightarrow> tcp_listener \<Rightarrow> tcp_listener" where
  "set_accepted_options opts l = l\<lparr>l_accepted_opts := opts, l_accepted_opts_empty := False\<rparr>"

definition listener_stop :: "kernel \<Rightarrow> platform \<Rightarrow> tcp_listener \<Rightarrow> tcp_listener io" where
  "listener_stop K p l = do {
     (_, s) \<leftarrow> socket_close K p (l_socket l);
     State_Monad.return (l\<lparr>l_socket := s\<rparr>)
   }"

text \<open>The failing exits of \<open>open\<close>: close the listening socket, keep the error.\<close>

definition listener_fail :: "kernel \<Rightarrow> platform \<Rightarrow> tcp_listener \<Rightarrow> error_code \<Rightarrow> (rvoid \<times> tcp_listener) io" where
  "listener_fail K p l ec = do {
     (_, s) \<leftarrow> socket_close K p (l_socket l);
     State_Monad.return (ec, l\<lparr>l_socket := s\<rparr>)
   }"

text \<open>The address-reuse policy before the user's options; \<open>Some ec\<close> when it failed.\<close>

definition reuse_policy :: "kernel \<Rightarrow> platform \<Rightarrow> socket_t \<Rightarrow> socket_options \<Rightarrow> error_code option io" where
  "reuse_policy K p h opts =
     (if p = Windows
      then (if so_has_reuse_addr opts then State_Monad.return None
            else do {
              r \<leftarrow> sys K (Sys_ctl (Setsockopt h (SOL_SOCKET SO_EXCLUSIVEADDRUSE) (int_bytes 1)));
              if sr_rc r \<noteq> 0 then do { ec \<leftarrow> os_failure p; State_Monad.return (Some ec) }
              else State_Monad.return None
            })
      else do {
        r \<leftarrow> sys K (Sys_ctl (Setsockopt h (SOL_SOCKET SO_REUSEADDR) (int_bytes 1)));
        if sr_rc r \<noteq> 0 then do { ec \<leftarrow> os_failure p; State_Monad.return (Some ec) }
        else do {
          _ \<leftarrow> sys K (Sys_ctl (Setsockopt h (SOL_SOCKET SO_REUSEPORT) (int_bytes 1)));
          State_Monad.return None
        }
      })"

text \<open>\<open>open\<close> from the point where \<open>socket_\<close> holds the new socket.\<close>

definition listener_configure ::
    "kernel \<Rightarrow> platform \<Rightarrow> tcp_listener \<Rightarrow> sock_address \<Rightarrow> int \<Rightarrow> socket_options \<Rightarrow> (rvoid \<times> tcp_listener) io" where
  "listener_configure K p l addr backlog opts = do {
     pol \<leftarrow> reuse_policy K p (s_handle (l_socket l)) opts;
     (case pol of
        Some ec \<Rightarrow> listener_fail K p l ec
      | None \<Rightarrow> do {
          ar \<leftarrow> apply_to K p (s_handle (l_socket l)) opts;
          (case ar of
             Inl ec \<Rightarrow> listener_fail K p l ec
           | Inr _ \<Rightarrow> do {
               br \<leftarrow> socket_bind K p (l_socket l) addr;
               if \<not> is_ok br then listener_fail K p l br
               else do {
                 lr \<leftarrow> sys K (Sys_ctl (Listen (s_handle (l_socket l)) backlog));
                 if sr_rc lr \<noteq> 0 then do { ec \<leftarrow> os_failure p; listener_fail K p l ec }
                 else State_Monad.return (void_ok, l)
               }
             })
        })
   }"

definition listener_open ::
    "kernel \<Rightarrow> platform \<Rightarrow> tcp_listener \<Rightarrow> address_family \<Rightarrow> sock_address \<Rightarrow> int \<Rightarrow> socket_options
     \<Rightarrow> (rvoid \<times> tcp_listener) io" where
  "listener_open K p l af addr backlog opts = do {
     r \<leftarrow> socket_create K p af stream 0;
     (case r of
        Inl ec \<Rightarrow> State_Monad.return (ec, l)
      | Inr s \<Rightarrow> do {
          (this, _) \<leftarrow> socket_move_assign K p False (l_socket l) s;
          listener_configure K p (l\<lparr>l_socket := this\<rparr>) addr backlog opts
        })
   }"

text \<open>The platform part of \<open>accept_raw\<close>: a configured connection and the peer address.\<close>

definition accept_conn :: "kernel \<Rightarrow> platform \<Rightarrow> socket_t \<Rightarrow> (socket \<times> sock_address) result io" where
  "accept_conn K p h = (case p of
       Linux \<Rightarrow> do {
         r \<leftarrow> sys K (Sys_accept h SOCK_FLAGS);
         if sr_rc r < 0 then do { ec \<leftarrow> os_failure p; State_Monad.return (Inl ec) }
         else State_Monad.return (Inr (socket_of (sr_rc r), received_address r))
       }
     | MacOS \<Rightarrow> do {
         r \<leftarrow> sys K (Sys_accept h 0);
         if sr_rc r < 0 then do { ec \<leftarrow> os_failure p; State_Monad.return (Inl ec) }
         else (let conn = socket_of (sr_rc r) in do {
           fr \<leftarrow> sys K (Sys_ctl (Fcntl_setfd (sr_rc r)));
           if sr_rc fr = -1 then do { ec \<leftarrow> os_failure p; close_and_fail K p conn ec }
           else do {
             nb \<leftarrow> set_non_blocking K p conn True;
             if \<not> is_ok nb then close_and_fail K p conn nb
             else do {
               so \<leftarrow> sys K (Sys_ctl (Setsockopt (sr_rc r) (SOL_SOCKET SO_NOSIGPIPE) (int_bytes 1)));
               if sr_rc so = -1 then do { ec \<leftarrow> os_failure p; close_and_fail K p conn ec }
               else State_Monad.return (Inr (conn, received_address r))
             }
           }
         })
       }
     | Windows \<Rightarrow> do {
         r \<leftarrow> sys K (Sys_wsa_accept h);
         if sr_rc r = invalid_socket then do { ec \<leftarrow> os_failure p; State_Monad.return (Inl ec) }
         else do {
           _ \<leftarrow> sys K (Sys_ctl (Set_handle_information (sr_rc r)));
           nb \<leftarrow> set_non_blocking K p (socket_of (sr_rc r)) True;
           if \<not> is_ok nb then close_and_fail K p (socket_of (sr_rc r)) nb
           else State_Monad.return (Inr (socket_of (sr_rc r), received_address r))
         }
       })"

definition accept_raw_peer :: "kernel \<Rightarrow> platform \<Rightarrow> tcp_listener \<Rightarrow> (socket \<times> sock_address) result io" where
  "accept_raw_peer K p l =
     (if \<not> is_open (l_socket l) then State_Monad.return (Inl (make_error_code invalid_state))
      else do {
        r \<leftarrow> accept_conn K p (s_handle (l_socket l));
        (case r of
           Inl ec \<Rightarrow> State_Monad.return (Inl ec)
         | Inr (conn, peer) \<Rightarrow>
             if \<not> l_accepted_opts_empty l
             then do {
               ar \<leftarrow> apply_to K p (s_handle conn) (l_accepted_opts l);
               (case ar of
                  Inl ec \<Rightarrow> close_and_fail K p conn ec
                | Inr _ \<Rightarrow> State_Monad.return (Inr (conn, peer)))
             }
             else State_Monad.return (Inr (conn, peer)))
      })"

text \<open>The overload without the peer address makes the same calls and drops the address.\<close>

definition accept_raw :: "kernel \<Rightarrow> platform \<Rightarrow> tcp_listener \<Rightarrow> socket result io" where
  "accept_raw K p l = do {
     r \<leftarrow> accept_raw_peer K p l;
     (case r of Inl ec \<Rightarrow> State_Monad.return (Inl ec) | Inr (conn, _) \<Rightarrow> State_Monad.return (Inr conn))
   }"

definition tcp4_listener_open ::
    "kernel \<Rightarrow> platform \<Rightarrow> tcp_listener \<Rightarrow> inet4_address \<Rightarrow> int \<Rightarrow> socket_options \<Rightarrow> (rvoid \<times> tcp_listener) io" where
  "tcp4_listener_open K p l a backlog opts = listener_open K p l ipv4 (inet4_to_sock a) backlog opts"

definition tcp6_listener_open ::
    "kernel \<Rightarrow> platform \<Rightarrow> tcp_listener \<Rightarrow> inet6_address \<Rightarrow> int \<Rightarrow> socket_options \<Rightarrow> (rvoid \<times> tcp_listener) io" where
  "tcp6_listener_open K p l a backlog opts = listener_open K p l ipv6 (inet6_to_sock a) backlog opts"

definition tcp4_accept :: "kernel \<Rightarrow> platform \<Rightarrow> tcp_listener \<Rightarrow> (socket \<times> inet4_address) result io" where
  "tcp4_accept K p l = do {
     r \<leftarrow> accept_raw_peer K p l;
     (case r of
        Inl ec \<Rightarrow> State_Monad.return (Inl ec)
      | Inr (conn, sa) \<Rightarrow> State_Monad.return (Inr (conn, inet4_of_sock sa)))
   }"

definition tcp6_accept :: "kernel \<Rightarrow> platform \<Rightarrow> tcp_listener \<Rightarrow> (socket \<times> inet6_address) result io" where
  "tcp6_accept K p l = do {
     r \<leftarrow> accept_raw_peer K p l;
     (case r of
        Inl ec \<Rightarrow> State_Monad.return (Inl ec)
      | Inr (conn, sa) \<Rightarrow> State_Monad.return (Inr (conn, inet6_of_sock sa)))
   }"

section \<open>Connector\<close>

text \<open>A connection attempt still in progress counts as a success.\<close>

definition connect_impl ::
    "kernel \<Rightarrow> platform \<Rightarrow> address_family \<Rightarrow> sock_address \<Rightarrow> socket_options \<Rightarrow> socket result io" where
  "connect_impl K p af addr opts = do {
     r \<leftarrow> socket_create K p af stream 0;
     (case r of
        Inl ec \<Rightarrow> State_Monad.return (Inl ec)
      | Inr sock \<Rightarrow> do {
          ar \<leftarrow> apply_to K p (s_handle sock) opts;
          (case ar of
             Inl ec \<Rightarrow> close_and_fail K p sock ec
           | Inr _ \<Rightarrow> do {
               rc \<leftarrow> sys K (Sys_ctl (Connect (s_handle sock) (sa_storage addr) (sa_len addr)));
               if sr_rc rc = 0 then State_Monad.return (Inr sock)
               else do {
                 ec \<leftarrow> os_failure p;
                 let ec' = (if ec = make_error_code would_block then make_error_code in_progress else ec);
                 if ec' = make_error_code in_progress then State_Monad.return (Inr sock)
                 else close_and_fail K p sock ec'
               }
             })
        })
   }"

definition tcp4_connect :: "kernel \<Rightarrow> platform \<Rightarrow> inet4_address \<Rightarrow> socket_options \<Rightarrow> socket result io" where
  "tcp4_connect K p a opts = connect_impl K p ipv4 (inet4_to_sock a) opts"

definition tcp6_connect :: "kernel \<Rightarrow> platform \<Rightarrow> inet6_address \<Rightarrow> socket_options \<Rightarrow> socket result io" where
  "tcp6_connect K p a opts = connect_impl K p ipv6 (inet6_to_sock a) opts"

section \<open>Ownership\<close>

lemma received_address_wf: "sr_addrlen r \<le> sizeof_storage \<Longrightarrow> sa_wf (received_address r)"
  by (simp add: received_address_def sa_wf_def sa_set_size_def sock_address_default_def length_mem_put)

lemma neutral_tcp_data [neutral_intros]:
  "neutral (tcp_send K p s d f)" "neutral (tcp_recv K p s n f)"
  "neutral (tcp_send_iov K p s bufs)" "neutral (tcp_recv_iov K p s lens)"
  unfolding tcp_send_def tcp_recv_def tcp_send_iov_def tcp_recv_iov_def Let_def by (intro neutral_intros)+

lemma neutral_reuse_policy [neutral_intros]: "neutral (reuse_policy K p h opts)"
  unfolding reuse_policy_def by (intro neutral_intros)

lemmas neutral_steps = fd_wp_neutral [OF neutral_os_failure] fd_wp_neutral [OF neutral_set_non_blocking]
  fd_wp_neutral [OF neutral_apply_to(1)] fd_wp_neutral [OF neutral_apply_to(2)]
  fd_wp_neutral [OF neutral_socket_bind] fd_wp_neutral [OF neutral_reuse_policy]

lemma live_step_accept:
  "live_step (Sys_accept h fl, r) L = (if sr_rc r < 0 then L else L + owned (socket_of (sr_rc r)))"
  by (simp add: live_step.simps invalid_socket_def owned_def socket_of_def)

lemma live_step_wsa_accept:
  "live_step (Sys_wsa_accept h, r) L = (if sr_rc r = invalid_socket then L else L + owned (socket_of (sr_rc r)))"
  by (simp add: live_step.simps invalid_socket_def owned_def socket_of_def)

lemma accept_conn_acquires: "acquires (accept_conn K p h) (owned \<circ> fst)"
  unfolding accept_conn_def Let_def
  by (rule acquiresI)
    (auto simp: live_step_accept live_step_wsa_accept intro!: wp_intros neutral_steps)

lemma accept_raw_peer_acquires: "acquires (accept_raw_peer K p l) (owned \<circ> fst)"
  unfolding accept_raw_peer_def
  by (rule acquiresI)
    (auto intro!: wp_intros neutral_steps wp_acquires [OF accept_conn_acquires])

lemma accept_raw_acquires: "acquires (accept_raw K p l) owned"
  unfolding accept_raw_def
  by (rule acquiresI)
    (auto intro!: wp_intros neutral_steps wp_acquires [OF accept_raw_peer_acquires])

lemma connect_impl_acquires: "acquires (connect_impl K p af addr opts) owned"
  unfolding connect_impl_def Let_def
  by (rule acquiresI)
    (auto intro!: wp_intros neutral_steps wp_acquires [OF socket_create_acquires])

interpretation accepted: owning_factory "accept_raw K p l" "socket_drop K p" owned
  by unfold_locales (auto intro: accept_raw_acquires wp_socket_drop)

interpretation connected: owning_factory "connect_impl K p af addr opts" "socket_drop K p" owned
  by unfold_locales (auto intro: connect_impl_acquires wp_socket_drop)

abbreviation listener_owned :: "tcp_listener \<Rightarrow> int multiset" where
  "listener_owned l \<equiv> owned (l_socket l)"

lemma wp_listener_fail [wp_intros]:
  "(\<And>l'. listener_owned l' = {#} \<Longrightarrow> Q (ec, l') (L - listener_owned l)) \<Longrightarrow> listener_owned l \<subseteq># L \<Longrightarrow>
   fd_wp (listener_fail K p l ec) Q L"
  unfolding listener_fail_def by (auto intro!: wp_intros neutral_steps)

lemma wp_move_assign:
  "(\<And>a b. a = s \<Longrightarrow> b = socket_default \<Longrightarrow> Q (a, b) (L - owned t)) \<Longrightarrow> owned t \<subseteq># L \<Longrightarrow>
   fd_wp (socket_move_assign K p False t s) Q L"
  unfolding socket_move_assign_def by (auto simp: socket_move_def intro!: wp_intros neutral_steps)

lemma wp_listener_configure:
  "fd_wp (listener_configure K p l addr backlog opts)
     (\<lambda>x L'. L' = L + listener_owned (snd x) \<and> (listener_owned (snd x) = {#} \<or> x = (void_ok, l)))
     (L + listener_owned l)"
  unfolding listener_configure_def by (auto intro!: wp_intros neutral_steps)

lemma wp_listener_open:
  "fd_wp (listener_open K p l af addr backlog opts)
     (\<lambda>x L'. L' = L + listener_owned (snd x)) (L + listener_owned l)"
  unfolding listener_open_def
proof (rule fd_wp_bind, rule wp_acquires [OF socket_create_acquires], goal_cases)
  case (1 ec)
  show ?case by (simp add: fd_wp_return)
next
  case (2 s)
  have "fd_wp (listener_configure K p (l\<lparr>l_socket := s\<rparr>) addr backlog opts)
      (\<lambda>x L'. L' = L + listener_owned (snd x)) (L + owned s)"
    by (rule fd_wp_weaken [OF wp_listener_configure [where l = "l\<lparr>l_socket := s\<rparr>", simplified]]) simp
  then show ?case
    by (simp, intro fd_wp_bind wp_move_assign) (simp_all add: union_commute)
qed

section \<open>Properties\<close>

text \<open>
  C35: connecting is all or nothing: whatever the system answers, a failing \<open>connect\<close> leaves the
  open descriptors as they were, a success (also one still in progress) adds exactly the returned
  socket, no descriptor is closed twice, and destroying the socket restores the initial state.
\<close>

theorem tcp_connect_all_or_nothing:
  assumes "clean (trace w)" and "run_state (connect_impl K p af addr opts) w = (r, w')"
  shows "clean (trace w') \<and> (case r of
      Inl ec \<Rightarrow> live w' = live w
    | Inr s \<Rightarrow> live w' = live w + owned s \<and> live (final_world (socket_drop K p s) w') = live w)"
proof -
  from acquires_run [OF connect_impl_acquires assms(2,1)]
  have *: "live w' = live w + (case r of Inl _ \<Rightarrow> {#} | Inr v \<Rightarrow> owned v)" "clean (trace w')" by auto
  moreover have "live (final_world (socket_drop K p s) w') = live w" if "r = Inr s" for s
    using socket_drop_run [of K p s w' "final_world (socket_drop K p s) w'"] * that by (simp add: prod_eq_iff)
  ultimately show ?thesis by (auto split: sum.splits)
qed

theorem tcp_connect_all_or_nothing_witness:
  "live (final_world (connect_impl (\<lambda>tr c. case c of Sys_ctl (Connect h a n) \<Rightarrow> sys_fail 111 | _ \<Rightarrow> sys_ok)
      Linux ipv4 sock_address_default socket_options_default) start_world) = {#}"
proof -
  let ?K = "\<lambda>tr c. case c of Sys_ctl (Connect h a n) \<Rightarrow> sys_fail 111 | _ \<Rightarrow> sys_ok"
  let ?m = "connect_impl ?K Linux ipv4 sock_address_default socket_options_default"
  have "run_state ?m start_world = (Inl (make_error_code connection_refused), final_world ?m start_world)"
    by (simp add: connect_impl_def socket_create_def apply_to_def apply_entries_def query_buf_def
        socket_options_default_def io_simps sys_ok_def sys_fail_def invalid_socket_def close_and_fail_def
        socket_close_def socket_of_def close_call_def normalize_error_def switch_error_def
        portable_cases_def Let_def)
  from tcp_connect_all_or_nothing [OF _ this] show ?thesis by (simp add: start_world_def)
qed

text \<open>
  Accepting is all or nothing on every platform: the listening socket stays open, a failure
  (of \<open>accept\<close>, of the platform configuration or of the accepted-socket options) leaks nothing,
  and a success adds exactly the returned connection; on a stopped listener no system call is made.
\<close>

theorem tcp_accept_all_or_nothing:
  assumes "clean (trace w)" and "run_state (accept_raw_peer K p l) w = (r, w')"
  shows "clean (trace w') \<and>
    (case r of Inl ec \<Rightarrow> live w' = live w | Inr (s, peer) \<Rightarrow> live w' = live w + owned s) \<and>
    (\<not> is_open (l_socket l) \<longrightarrow> r = Inl (make_error_code invalid_state) \<and> w' = w)"
proof -
  from acquires_run [OF accept_raw_peer_acquires assms(2,1)]
  have "live w' = live w + (case r of Inl _ \<Rightarrow> {#} | Inr v \<Rightarrow> (owned \<circ> fst) v)" "clean (trace w')" by auto
  moreover have "r = Inl (make_error_code invalid_state) \<and> w' = w" if "\<not> is_open (l_socket l)"
    using assms(2) that by (simp add: accept_raw_peer_def)
  ultimately show ?thesis by (auto split: sum.splits)
qed

theorem tcp_accept_all_or_nothing_witness:
  "outcome (accept_raw_peer ok_kernel Linux tcp_listener_default) start_world
     = Inl (make_error_code invalid_state)"
proof -
  obtain r w' where r: "run_state (accept_raw_peer ok_kernel Linux tcp_listener_default) start_world = (r, w')"
    by (metis surj_pair)
  from tcp_accept_all_or_nothing [OF _ r] r show ?thesis
    by (simp add: start_world_def tcp_listener_default_def is_open_def socket_default_def socket_of_def)
qed

text \<open>
  Opening a listener accounts for every descriptor on every path: the socket it held before
  is closed exactly when a new one replaces it, every failing step closes the new one, and on a
  success the listener owns exactly one new descriptor.
\<close>

theorem listener_open_accounts:
  assumes "clean (trace w)" and "live w = L + listener_owned l"
    and "run_state (listener_open K p l af addr backlog opts) w = ((rc, l'), w')"
  shows "live w' = L + listener_owned l' \<and> clean (trace w')"
  using fd_wpD [OF wp_listener_open assms(3,2,1)] by simp

theorem listener_open_accounts_witness:
  "live (final_world (listener_open ok_kernel Linux tcp_listener_default ipv4 sock_address_default 5
     socket_options_default) start_world) = {#0#}"
proof -
  let ?m = "listener_open ok_kernel Linux tcp_listener_default ipv4 sock_address_default 5 socket_options_default"
  obtain rc l' w' where r: "run_state ?m start_world = ((rc, l'), w')" by (metis surj_pair)
  have "s_handle (l_socket l') = 0"
    using r by (auto simp: listener_open_def listener_configure_def socket_create_def apply_to_def
        apply_entries_def query_buf_def socket_options_default_def io_simps ok_kernel_def sys_ok_def
        invalid_socket_def socket_move_assign_def socket_move_def socket_close_def socket_of_def
        reuse_policy_def socket_bind_def tcp_listener_default_def socket_default_def Let_def
        split: prod.splits)
  with listener_open_accounts [OF _ _ r, of "{#}"] r show ?thesis
    by (simp add: start_world_def tcp_listener_default_def) (simp add: owned_def invalid_socket_def)
qed

text \<open>
  \<open>send\<close> hands the caller's bytes to the system in one call, cut at \<open>INT_MAX\<close> on Windows only
  and never raising \<open>SIGPIPE\<close> on Linux; it returns the system's count, maps a failure through
  \<open>normalize_error\<close>, and makes no call on a closed socket.
\<close>

theorem tcp_send_contract:
  assumes "run_state (tcp_send K p s data flags) w = (r, w')"
  shows "if is_open s
    then (\<exists>fl ret. trace w' = trace w
            @ [(Sys_data (Send (s_handle s) (if p = Windows then take INT_MAX data else data) fl), ret)]
          \<and> (p = Linux \<longrightarrow> fl AND MSG_NOSIGNAL = MSG_NOSIGNAL) \<and> (p \<noteq> Linux \<longrightarrow> fl = flags)
          \<and> r = (if sr_rc ret < 0
                 then Inl (normalize_error p \<lparr>ec_value = errno w', ec_category = system_category\<rparr>)
                 else Inr (nat (sr_rc ret))))
    else r = Inl (make_error_code invalid_state) \<and> w' = w"
proof (cases "is_open s")
  case False
  with assms show ?thesis by (simp add: tcp_send_def)
next
  case True
  have "(flags OR MSG_NOSIGNAL) AND MSG_NOSIGNAL = MSG_NOSIGNAL"
    by (simp add: bit_eq_iff bit_simps) blast
  moreover have "take (min (length data) INT_MAX) data = take INT_MAX data"
    by (simp add: min_def)
  moreover define fl where "fl = (if p = Linux then flags OR MSG_NOSIGNAL else flags)"
  moreover define ret where
    "ret = K (trace w) (Sys_data (Send (s_handle s) (if p = Windows then take INT_MAX data else data) fl))"
  ultimately show ?thesis
    using assms True by (intro if_P [THEN iffD2, OF True] exI [of _ fl] exI [of _ ret], cases p)
      (auto simp: tcp_send_def io_simps split: if_splits)
qed

theorem tcp_send_contract_witness:
  "\<exists>ret. trace (final_world (tcp_send ok_kernel MacOS (socket_of 3) [1, 2] 0) start_world)
     = [(Sys_data (Send 3 [1, 2] 0), ret)]"
proof -
  obtain r w' where r: "run_state (tcp_send ok_kernel MacOS (socket_of 3) [1, 2] 0) start_world = (r, w')"
    by (metis surj_pair)
  from tcp_send_contract [OF r] r show ?thesis
    by (auto simp: is_open_def socket_of_def invalid_socket_def start_world_def)
qed

end
