(* ===== verification/Udp.thy ===== *)
theory Udp
  imports Tcp
begin

text \<open>
  UDP sockets: \<open>src/socket/udp.cpp\<close> and the POSIX socket factory of \<open>src/socket/udp_peer.cpp\<close>.

  Datagram transfer with addresses, scatter/gather transfer and batches. On Windows a socket
  attached to a dispatcher reads from the datagrams that the dispatcher has buffered: \<open>retrieve\<close>
  is that operation (\<open>dispatcher::retrieve_dgram\<close>), an argument of the receiving functions.
  The batch functions use one system call on Linux and a loop elsewhere; the lemmas show that the
  loop hands over the messages one by one, in order, and that its count is exact.
\<close>

section \<open>Opening\<close>

definition udp_fail :: "kernel \<Rightarrow> platform \<Rightarrow> socket \<Rightarrow> error_code \<Rightarrow> (rvoid \<times> socket) io" where
  "udp_fail K p s ec = do { (_, s') \<leftarrow> socket_close K p s; State_Monad.return (ec, s') }"

definition udp_configure ::
    "kernel \<Rightarrow> platform \<Rightarrow> socket \<Rightarrow> sock_address \<Rightarrow> socket_options \<Rightarrow> (rvoid \<times> socket) io" where
  "udp_configure K p s addr opts = do {
     ar \<leftarrow> apply_pre_bind K p (s_handle s) opts;
     (case ar of
        Inl ec \<Rightarrow> udp_fail K p s ec
      | Inr _ \<Rightarrow> do {
          br \<leftarrow> socket_bind K p s addr;
          if \<not> is_ok br then udp_fail K p s br
          else do {
            pr \<leftarrow> apply_post_bind K p (s_handle s) opts;
            if \<not> is_ok pr then udp_fail K p s pr else State_Monad.return (void_ok, s)
          }
        })
   }"

definition udp_open ::
    "kernel \<Rightarrow> platform \<Rightarrow> socket \<Rightarrow> address_family \<Rightarrow> sock_address \<Rightarrow> socket_options \<Rightarrow> (rvoid \<times> socket) io" where
  "udp_open K p this af addr opts = do {
     r \<leftarrow> socket_create K p af dgram 0;
     (case r of
        Inl ec \<Rightarrow> State_Monad.return (ec, this)
      | Inr s \<Rightarrow> do {
          (s1, _) \<leftarrow> socket_move_assign K p False this s;
          udp_configure K p s1 addr opts
        })
   }"

text \<open>\<open>create_connected_udp\<close> of the POSIX peer sockets.\<close>

definition create_connected_udp ::
    "kernel \<Rightarrow> platform \<Rightarrow> address_family \<Rightarrow> sock_address \<Rightarrow> sock_address \<Rightarrow> socket_options \<Rightarrow> socket result io" where
  "create_connected_udp K p af loc peer opts = do {
     r \<leftarrow> socket_create K p af dgram 0;
     (case r of
        Inl ec \<Rightarrow> State_Monad.return (Inl ec)
      | Inr sock \<Rightarrow> do {
          so \<leftarrow> sys K (Sys_ctl (Setsockopt (s_handle sock) (SOL_SOCKET SO_REUSEADDR) (int_bytes 1)));
          if sr_rc so \<noteq> 0 then do { ec \<leftarrow> os_failure p; close_and_fail K p sock ec }
          else do {
            _ \<leftarrow> sys K (Sys_ctl (Setsockopt (s_handle sock) (SOL_SOCKET SO_REUSEPORT) (int_bytes 1)));
            ar \<leftarrow> apply_to K p (s_handle sock) opts;
            (case ar of
               Inl ec \<Rightarrow> close_and_fail K p sock ec
             | Inr _ \<Rightarrow> do {
                 br \<leftarrow> socket_bind K p sock loc;
                 if \<not> is_ok br then close_and_fail K p sock br
                 else do {
                   rc \<leftarrow> sys K (Sys_ctl (Connect (s_handle sock) (sa_storage peer) (sa_len peer)));
                   if sr_rc rc \<noteq> 0 then do { ec \<leftarrow> os_failure p; close_and_fail K p sock ec }
                   else State_Monad.return (Inr sock)
                 }
               })
          }
        })
   }"

section \<open>Single datagrams\<close>

definition send_to_raw ::
    "kernel \<Rightarrow> platform \<Rightarrow> socket \<Rightarrow> byte list \<Rightarrow> sock_address \<Rightarrow> int \<Rightarrow> nat result io" where
  "send_to_raw K p s data dest flags =
     (if \<not> is_open s then State_Monad.return (Inl (make_error_code invalid_state))
      else do {
        r \<leftarrow> sys K (Sys_data (case p of
               Linux \<Rightarrow> Sendto (s_handle s) data (flags OR MSG_NOSIGNAL) (sa_storage dest) (sa_len dest)
             | MacOS \<Rightarrow> Sendto (s_handle s) data flags (sa_storage dest) (sa_len dest)
             | Windows \<Rightarrow> Sendto (s_handle s) (take (min (length data) INT_MAX) data) flags
                 (sa_storage dest) (sa_len dest)));
        if sr_rc r < 0 then do { ec \<leftarrow> os_failure p; State_Monad.return (Inl ec) }
        else State_Monad.return (Inr (nat (sr_rc r)))
      })"

type_synonym dgram_source = "nat \<Rightarrow> socket_t \<Rightarrow> nat \<Rightarrow> (nat \<times> byte list \<times> sock_address) result io"

text \<open>The count, the bytes written into the buffer of \<open>len\<close> bytes and the sender's address.\<close>

definition recv_from_raw ::
    "kernel \<Rightarrow> dgram_source \<Rightarrow> platform \<Rightarrow> socket \<Rightarrow> nat \<Rightarrow> int \<Rightarrow> (nat \<times> byte list \<times> sock_address) result io" where
  "recv_from_raw K retrieve p s len flags =
     (if \<not> is_open s then State_Monad.return (Inl (make_error_code invalid_state))
      else (case (if p = Windows then s_dispatcher s else None) of
        Some d \<Rightarrow> do {
          r \<leftarrow> retrieve d (s_handle s) len;
          (case r of
             Inr x \<Rightarrow> State_Monad.return (Inr x)
           | Inl _ \<Rightarrow> State_Monad.return (Inl (make_error_code would_block)))
        }
      | None \<Rightarrow> (let len' = (if p = Windows then min len INT_MAX else len) in do {
          r \<leftarrow> sys K (Sys_data (Recvfrom (s_handle s) len' flags sizeof_storage));
          if sr_rc r < 0 then do { ec \<leftarrow> os_failure p; State_Monad.return (Inl ec) }
          else State_Monad.return (Inr (nat (sr_rc r), take len' (sr_data r), received_address r))
        })))"

text \<open>\<open>static_cast<ULONG>\<close> of a buffer length.\<close>

definition ulong_cast :: "nat \<Rightarrow> nat" where
  "ulong_cast n = n mod 2 ^ 32"

definition send_to_iov_raw ::
    "kernel \<Rightarrow> platform \<Rightarrow> socket \<Rightarrow> byte list list \<Rightarrow> sock_address \<Rightarrow> int \<Rightarrow> nat result io" where
  "send_to_iov_raw K p s bufs dest flags =
     (if \<not> is_open s then State_Monad.return (Inl (make_error_code invalid_state))
      else (case p of
        Windows \<Rightarrow> do {
          r \<leftarrow> sys K (Sys_data (Sendmsg (s_handle s) (map (\<lambda>b. take (ulong_cast (length b)) b) bufs)
                 (sa_storage dest) (sa_len dest) flags));
          if sr_rc r = -1 then do { ec \<leftarrow> os_failure p; State_Monad.return (Inl ec) }
          else State_Monad.return (Inr (nat (sr_val r)))
        }
      | Linux \<Rightarrow> do {
          r \<leftarrow> sys K (Sys_data (Sendmsg (s_handle s) bufs (sa_storage dest) (sa_len dest) (flags OR MSG_NOSIGNAL)));
          if sr_rc r < 0 then do { ec \<leftarrow> os_failure p; State_Monad.return (Inl ec) }
          else State_Monad.return (Inr (nat (sr_rc r)))
        }
      | MacOS \<Rightarrow> do {
          r \<leftarrow> sys K (Sys_data (Sendmsg (s_handle s) bufs (sa_storage dest) (sa_len dest) flags));
          if sr_rc r < 0 then do { ec \<leftarrow> os_failure p; State_Monad.return (Inl ec) }
          else State_Monad.return (Inr (nat (sr_rc r)))
        }))"

definition recv_from_iov_raw ::
    "kernel \<Rightarrow> platform \<Rightarrow> socket \<Rightarrow> nat list \<Rightarrow> int \<Rightarrow> (nat \<times> byte list \<times> sock_address) result io" where
  "recv_from_iov_raw K p s lens flags =
     (if \<not> is_open s then State_Monad.return (Inl (make_error_code invalid_state))
      else if p = Windows
      then (let lens' = map ulong_cast lens in do {
        r \<leftarrow> sys K (Sys_data (Recvmsg (s_handle s) lens' sizeof_storage flags));
        if sr_rc r = -1 then do { ec \<leftarrow> os_failure p; State_Monad.return (Inl ec) }
        else State_Monad.return (Inr (nat (sr_val r), take (sum_list lens') (sr_data r), received_address r))
      })
      else do {
        r \<leftarrow> sys K (Sys_data (Recvmsg (s_handle s) lens sizeof_storage flags));
        if sr_rc r < 0 then do { ec \<leftarrow> os_failure p; State_Monad.return (Inl ec) }
        else State_Monad.return (Inr (nat (sr_rc r), take (sum_list lens) (sr_data r), received_address r))
      })"

section \<open>Batches\<close>

text \<open>A batch entry: the buffer with its \<open>len\<close> bytes, the address, the transferred count.\<close>

record msg_batch_entry =
  mb_buf :: "byte list"
  mb_addr :: sock_address
  mb_transferred :: nat

text \<open>The \<open>n\<close> first entries take what the multi-message call reported.\<close>

definition batch_received :: "nat \<Rightarrow> (byte list \<times> byte list \<times> nat) list \<Rightarrow> msg_batch_entry list \<Rightarrow> msg_batch_entry list" where
  "batch_received n reported msgs =
     map2 (\<lambda>(d, a, al) m. m\<lparr>mb_buf := mem_put (mb_buf m) 0 (take (length (mb_buf m)) d),
             mb_addr := sa_set_size al ((mb_addr m)\<lparr>sa_storage := mem_put (sa_storage (mb_addr m)) 0 (take sizeof_storage a)\<rparr>),
             mb_transferred := length d\<rparr>) (take n reported) (take n msgs)
     @ drop n msgs"

primrec recv_loop ::
    "kernel \<Rightarrow> dgram_source \<Rightarrow> platform \<Rightarrow> socket \<Rightarrow> msg_batch_entry list \<Rightarrow> nat
     \<Rightarrow> (nat result \<times> msg_batch_entry list) io" where
  "recv_loop K retrieve p s [] i = State_Monad.return (Inr i, [])"
| "recv_loop K retrieve p s (m # ms) i = do {
     r \<leftarrow> recv_from_raw K retrieve p s (length (mb_buf m)) 0;
     (case r of
        Inl ec \<Rightarrow> State_Monad.return (if i = 0 then Inl ec else Inr i, m # ms)
      | Inr (n, d, src) \<Rightarrow> do {
          (res, ms') \<leftarrow> recv_loop K retrieve p s ms (Suc i);
          State_Monad.return (res,
            m\<lparr>mb_buf := mem_put (mb_buf m) 0 d, mb_addr := src, mb_transferred := n\<rparr> # ms')
        })
   }"

definition recv_batch ::
    "kernel \<Rightarrow> dgram_source \<Rightarrow> platform \<Rightarrow> socket \<Rightarrow> msg_batch_entry list
     \<Rightarrow> (nat result \<times> msg_batch_entry list) io" where
  "recv_batch K retrieve p s msgs =
     (if \<not> is_open s then State_Monad.return (Inl (make_error_code invalid_state), msgs)
      else if p = Linux
      then do {
        r \<leftarrow> sys K (Sys_data (Recvmmsg (s_handle s) (map (length \<circ> mb_buf) msgs) 0));
        if sr_rc r < 0 then do { ec \<leftarrow> os_failure p; State_Monad.return (Inl ec, msgs) }
        else State_Monad.return (Inr (nat (sr_rc r)), batch_received (nat (sr_rc r)) (sr_msgs r) msgs)
      }
      else recv_loop K retrieve p s msgs 0)"

primrec send_loop ::
    "kernel \<Rightarrow> platform \<Rightarrow> socket \<Rightarrow> msg_batch_entry list \<Rightarrow> nat \<Rightarrow> (nat result \<times> msg_batch_entry list) io" where
  "send_loop K p s [] i = State_Monad.return (Inr i, [])"
| "send_loop K p s (m # ms) i = do {
     r \<leftarrow> send_to_raw K p s (mb_buf m) (mb_addr m) 0;
     (case r of
        Inl ec \<Rightarrow> State_Monad.return (if i = 0 then Inl ec else Inr i, m # ms)
      | Inr n \<Rightarrow> do {
          (res, ms') \<leftarrow> send_loop K p s ms (Suc i);
          State_Monad.return (res, m\<lparr>mb_transferred := n\<rparr> # ms')
        })
   }"

definition send_batch ::
    "kernel \<Rightarrow> platform \<Rightarrow> socket \<Rightarrow> msg_batch_entry list \<Rightarrow> (nat result \<times> msg_batch_entry list) io" where
  "send_batch K p s msgs =
     (if \<not> is_open s then State_Monad.return (Inl (make_error_code invalid_state), msgs)
      else if p = Linux
      then do {
        r \<leftarrow> sys K (Sys_data (Sendmmsg (s_handle s)
               (map (\<lambda>m. (mb_buf m, sa_storage (mb_addr m), sa_len (mb_addr m))) msgs) MSG_NOSIGNAL));
        if sr_rc r < 0 then do { ec \<leftarrow> os_failure p; State_Monad.return (Inl ec, msgs) }
        else State_Monad.return (Inr (nat (sr_rc r)),
          map2 (\<lambda>(d, _, _) m. m\<lparr>mb_transferred := length d\<rparr>) (take (nat (sr_rc r)) (sr_msgs r)) (take (nat (sr_rc r)) msgs)
          @ drop (nat (sr_rc r)) msgs)
      }
      else send_loop K p s msgs 0)"

section \<open>Typed wrappers\<close>

definition udp4_open :: "kernel \<Rightarrow> platform \<Rightarrow> socket \<Rightarrow> inet4_address \<Rightarrow> socket_options \<Rightarrow> (rvoid \<times> socket) io" where
  "udp4_open K p s a opts = udp_open K p s ipv4 (inet4_to_sock a) opts"

definition udp4_send_to :: "kernel \<Rightarrow> platform \<Rightarrow> socket \<Rightarrow> byte list \<Rightarrow> inet4_address \<Rightarrow> int \<Rightarrow> nat result io" where
  "udp4_send_to K p s data dest flags = send_to_raw K p s data (inet4_to_sock dest) flags"

definition udp4_recv_from ::
    "kernel \<Rightarrow> dgram_source \<Rightarrow> platform \<Rightarrow> socket \<Rightarrow> nat \<Rightarrow> int \<Rightarrow> (nat \<times> byte list \<times> inet4_address) result io" where
  "udp4_recv_from K retrieve p s len flags = do {
     r \<leftarrow> recv_from_raw K retrieve p s len flags;
     (case r of
        Inl ec \<Rightarrow> State_Monad.return (Inl ec)
      | Inr (n, d, sa) \<Rightarrow> State_Monad.return (Inr (n, d, inet4_of_sock sa)))
   }"

definition udp4_send_to_iov ::
    "kernel \<Rightarrow> platform \<Rightarrow> socket \<Rightarrow> byte list list \<Rightarrow> inet4_address \<Rightarrow> int \<Rightarrow> nat result io" where
  "udp4_send_to_iov K p s bufs dest flags = send_to_iov_raw K p s bufs (inet4_to_sock dest) flags"

definition udp4_recv_from_iov ::
    "kernel \<Rightarrow> platform \<Rightarrow> socket \<Rightarrow> nat list \<Rightarrow> int \<Rightarrow> (nat \<times> byte list \<times> inet4_address) result io" where
  "udp4_recv_from_iov K p s lens flags = do {
     r \<leftarrow> recv_from_iov_raw K p s lens flags;
     (case r of
        Inl ec \<Rightarrow> State_Monad.return (Inl ec)
      | Inr (n, d, sa) \<Rightarrow> State_Monad.return (Inr (n, d, inet4_of_sock sa)))
   }"

definition udp4_local_addr :: "kernel \<Rightarrow> platform \<Rightarrow> socket \<Rightarrow> inet4_address result io" where
  "udp4_local_addr K p s = do {
     r \<leftarrow> socket_local_address K p s;
     (case r of Inl ec \<Rightarrow> State_Monad.return (Inl ec) | Inr sa \<Rightarrow> State_Monad.return (Inr (inet4_of_sock sa)))
   }"

definition udp6_open :: "kernel \<Rightarrow> platform \<Rightarrow> socket \<Rightarrow> inet6_address \<Rightarrow> socket_options \<Rightarrow> (rvoid \<times> socket) io" where
  "udp6_open K p s a opts = udp_open K p s ipv6 (inet6_to_sock a) opts"

definition udp6_send_to :: "kernel \<Rightarrow> platform \<Rightarrow> socket \<Rightarrow> byte list \<Rightarrow> inet6_address \<Rightarrow> int \<Rightarrow> nat result io" where
  "udp6_send_to K p s data dest flags = send_to_raw K p s data (inet6_to_sock dest) flags"

definition udp6_recv_from ::
    "kernel \<Rightarrow> dgram_source \<Rightarrow> platform \<Rightarrow> socket \<Rightarrow> nat \<Rightarrow> int \<Rightarrow> (nat \<times> byte list \<times> inet6_address) result io" where
  "udp6_recv_from K retrieve p s len flags = do {
     r \<leftarrow> recv_from_raw K retrieve p s len flags;
     (case r of
        Inl ec \<Rightarrow> State_Monad.return (Inl ec)
      | Inr (n, d, sa) \<Rightarrow> State_Monad.return (Inr (n, d, inet6_of_sock sa)))
   }"

definition udp6_send_to_iov ::
    "kernel \<Rightarrow> platform \<Rightarrow> socket \<Rightarrow> byte list list \<Rightarrow> inet6_address \<Rightarrow> int \<Rightarrow> nat result io" where
  "udp6_send_to_iov K p s bufs dest flags = send_to_iov_raw K p s bufs (inet6_to_sock dest) flags"

definition udp6_recv_from_iov ::
    "kernel \<Rightarrow> platform \<Rightarrow> socket \<Rightarrow> nat list \<Rightarrow> int \<Rightarrow> (nat \<times> byte list \<times> inet6_address) result io" where
  "udp6_recv_from_iov K p s lens flags = do {
     r \<leftarrow> recv_from_iov_raw K p s lens flags;
     (case r of
        Inl ec \<Rightarrow> State_Monad.return (Inl ec)
      | Inr (n, d, sa) \<Rightarrow> State_Monad.return (Inr (n, d, inet6_of_sock sa)))
   }"

definition udp6_local_addr :: "kernel \<Rightarrow> platform \<Rightarrow> socket \<Rightarrow> inet6_address result io" where
  "udp6_local_addr K p s = do {
     r \<leftarrow> socket_local_address K p s;
     (case r of Inl ec \<Rightarrow> State_Monad.return (Inl ec) | Inr sa \<Rightarrow> State_Monad.return (Inr (inet6_of_sock sa)))
   }"

section \<open>Ownership\<close>

lemma wp_udp_fail [wp_intros]:
  "(\<And>s'. owned s' = {#} \<Longrightarrow> Q (ec, s') (L - owned s)) \<Longrightarrow> owned s \<subseteq># L \<Longrightarrow> fd_wp (udp_fail K p s ec) Q L"
  unfolding udp_fail_def by (auto intro!: wp_intros)

lemma wp_udp_configure:
  "fd_wp (udp_configure K p s addr opts) (\<lambda>x L'. L' = L + owned (snd x)) (L + owned s)"
  unfolding udp_configure_def
  by (auto intro!: wp_intros neutral_steps fd_wp_neutral [OF neutral_post_bind])

lemma wp_udp_open:
  "fd_wp (udp_open K p this af addr opts) (\<lambda>x L'. L' = L + owned (snd x)) (L + owned this)"
  unfolding udp_open_def
proof (rule fd_wp_bind, rule wp_acquires [OF socket_create_acquires], goal_cases)
  case (1 ec)
  show ?case by (simp add: fd_wp_return)
next
  case (2 s)
  show ?case
    by (simp, intro fd_wp_bind wp_move_assign)
      (simp_all add: wp_udp_configure union_commute [of _ "owned this"])
qed

lemma create_connected_udp_acquires: "acquires (create_connected_udp K p af loc peer opts) owned"
  unfolding create_connected_udp_def
  by (rule acquiresI) (auto intro!: wp_intros neutral_steps wp_acquires [OF socket_create_acquires])

interpretation connected_udp: owning_factory "create_connected_udp K p af loc peer opts" "socket_drop K p" owned
  by unfold_locales (auto intro: create_connected_udp_acquires wp_socket_drop)

section \<open>The batch loop\<close>

text \<open>The datagrams that the system has accepted through \<open>sendto\<close>.\<close>

definition accepted_of :: "syscall \<times> sysret \<Rightarrow> (byte list \<times> byte list \<times> nat) option" where
  "accepted_of ev = (case fst ev of
       Sys_data c \<Rightarrow> (case c of Sendto h d f a l \<Rightarrow> if sr_rc (snd ev) < 0 then None else Some (d, a, l) | _ \<Rightarrow> None)
     | _ \<Rightarrow> None)"

definition accepted_dgrams :: "world \<Rightarrow> (byte list \<times> byte list \<times> nat) list" where
  "accepted_dgrams w = List.map_filter accepted_of (trace w)"

definition wire_dgram :: "platform \<Rightarrow> msg_batch_entry \<Rightarrow> byte list \<times> byte list \<times> nat" where
  "wire_dgram p m = (if p = Windows then take INT_MAX (mb_buf m) else mb_buf m,
     sa_storage (mb_addr m), sa_len (mb_addr m))"

lemma send_to_raw_accepts:
  assumes "run_state (send_to_raw K p s (mb_buf m) (mb_addr m) flags) w = (r, w')" and "is_open s"
  shows "accepted_dgrams w' = accepted_dgrams w @ (case r of Inl _ \<Rightarrow> [] | Inr _ \<Rightarrow> [wire_dgram p m])"
proof -
  have "take (min (length (mb_buf m)) INT_MAX) (mb_buf m) = take INT_MAX (mb_buf m)" by (simp add: min_def)
  with assms show ?thesis
    by (cases p) (auto simp: send_to_raw_def io_simps accepted_dgrams_def map_filter_def accepted_of_def
        wire_dgram_def split: if_splits)
qed

lemma send_loop_exact:
  assumes "run_state (send_loop K p s ms i) w = ((res, ms'), w')" and "is_open s"
  shows "\<exists>k \<le> length ms. accepted_dgrams w' = accepted_dgrams w @ map (wire_dgram p) (take k ms)
           \<and> length ms' = length ms \<and> drop k ms' = drop k ms
           \<and> (res = Inr (i + k) \<or> (\<exists>ec. res = Inl ec \<and> i + k = 0 \<and> ms \<noteq> []))"
  using assms(1)
proof (induction ms arbitrary: i w res ms' w')
  case Nil
  then show ?case by simp
next
  case (Cons m ms)
  obtain r w1 where r: "run_state (send_to_raw K p s (mb_buf m) (mb_addr m) 0) w = (r, w1)" by (metis surj_pair)
  note acc = send_to_raw_accepts [OF r assms(2)]
  show ?case
  proof (cases r)
    case (Inl ec)
    with Cons.prems r acc show ?thesis by (intro exI [of _ 0]) (auto split: if_splits)
  next
    case (Inr n)
    obtain res1 ms1 w2 where l: "run_state (send_loop K p s ms (Suc i)) w1 = ((res1, ms1), w2)" by (metis surj_pair)
    with Cons.prems r Inr have eqs: "res = res1" "w' = w2" "ms' = m\<lparr>mb_transferred := n\<rparr> # ms1" by auto
    from Cons.IH [OF l] obtain k where k: "k \<le> length ms"
      "accepted_dgrams w2 = accepted_dgrams w1 @ map (wire_dgram p) (take k ms)"
      "length ms1 = length ms" "drop k ms1 = drop k ms"
      "res1 = Inr (Suc i + k) \<or> (\<exists>ec. res1 = Inl ec \<and> Suc i + k = 0 \<and> ms \<noteq> [])" by blast
    then show ?thesis using acc Inr eqs by (intro exI [of _ "Suc k"]) auto
  qed
qed

section \<open>Properties\<close>

text \<open>
  Opening a UDP socket and creating a connected one account for every descriptor: a failing
  step at any point (options before and after binding, binding, connecting) closes the new socket,
  re-opening closes the socket held before, and nothing is closed twice.
\<close>

theorem udp_open_accounts:
  assumes "clean (trace w)" and "live w = L + owned this"
  shows "(\<forall>rc s' w'. run_state (udp_open K p this af addr opts) w = ((rc, s'), w') \<longrightarrow>
            live w' = L + owned s' \<and> clean (trace w')) \<and>
         (\<forall>r w'. run_state (create_connected_udp K p af loc peer opts) w = (r, w') \<longrightarrow>
            live w' = live w + (case r of Inl _ \<Rightarrow> {#} | Inr s \<Rightarrow> owned s) \<and> clean (trace w'))"
  using fd_wpD [OF wp_udp_open _ assms(2,1), of K p af addr opts]
    acquires_run [OF create_connected_udp_acquires _ assms(1)]
  by fastforce

theorem udp_open_accounts_witness:
  "live (final_world (udp_open ok_kernel Linux socket_default ipv4 sock_address_default socket_options_default)
     start_world) = {#0#}"
proof -
  let ?m = "udp_open ok_kernel Linux socket_default ipv4 sock_address_default socket_options_default"
  obtain rc s' w' where r: "run_state ?m start_world = ((rc, s'), w')" by (metis surj_pair)
  have s': "s' = socket_of 0"
    using r by (auto simp: udp_open_def udp_configure_def socket_create_def apply_pre_bind_def apply_post_bind_def
        apply_entries_def query_buf_def socket_options_default_def io_simps ok_kernel_def sys_ok_def
        invalid_socket_def socket_move_assign_def socket_move_def socket_close_def socket_of_def
        socket_bind_def socket_default_def Let_def split: prod.splits)
  have "clean (trace start_world)" "live start_world = {#} + owned socket_default"
    by (simp_all add: start_world_def)
  from udp_open_accounts [OF this, of ok_kernel Linux ipv4 sock_address_default socket_options_default]
  have "live w' = owned s'" using r by fastforce
  with r s' show ?thesis by (simp add: owned_def socket_of_def invalid_socket_def)
qed

text \<open>
  The batch loop's count is exact. On the platforms without a multi-message call,
  \<open>send_batch\<close> hands over the messages one by one in order and stops at the first failure; when
  it answers \<open>n\<close>, exactly the first \<open>n\<close> datagrams were accepted, with their own destinations,
  and the entries behind them are untouched; it reports an error only when not even the first
  one was accepted.
\<close>

theorem send_batch_exact:
  assumes "run_state (send_batch K p s msgs) w = ((res, msgs'), w')" and "p \<noteq> Linux" and "is_open s"
  shows "\<exists>k \<le> length msgs. accepted_dgrams w' = accepted_dgrams w @ map (wire_dgram p) (take k msgs)
           \<and> drop k msgs' = drop k msgs
           \<and> (res = Inr k \<or> (\<exists>ec. res = Inl ec \<and> k = 0 \<and> msgs \<noteq> []))"
  using send_loop_exact [of K p s msgs 0 w res msgs' w'] assms by (auto simp: send_batch_def)

theorem send_batch_exact_witness:
  "\<exists>k \<le> 1. accepted_dgrams (final_world (send_batch ok_kernel MacOS (socket_of 4)
       [\<lparr>mb_buf = [7], mb_addr = sock_address_default, mb_transferred = 0\<rparr>]) start_world)
     = map (wire_dgram MacOS) (take k [\<lparr>mb_buf = [7], mb_addr = sock_address_default, mb_transferred = 0\<rparr>])"
proof -
  let ?ms = "[\<lparr>mb_buf = [7], mb_addr = sock_address_default, mb_transferred = 0\<rparr>]"
  obtain res ms' w' where r: "run_state (send_batch ok_kernel MacOS (socket_of 4) ?ms) start_world = ((res, ms'), w')"
    by (metis surj_pair)
  from send_batch_exact [OF r] obtain k where "k \<le> length ?ms"
    "accepted_dgrams w' = accepted_dgrams start_world @ map (wire_dgram MacOS) (take k ?ms)"
    by (auto simp: is_open_def socket_of_def invalid_socket_def)
  with r show ?thesis
    by (intro exI [of _ k]) (simp add: accepted_dgrams_def start_world_def map_filter_def)
qed

end
