(* ===== verification/Udp_Peer.thy ===== *)
theory Udp_Peer
  imports Udp
begin

text \<open>
  Connected UDP peer sockets where the kernel demultiplexes datagrams: the POSIX half of
  \<open>src/socket/udp_peer.cpp\<close>. A peer socket is the peer's address and, once created, a socket bound to
  the local address and connected to the peer. The code for IPv4 and for IPv6 differs in the address
  type and in \<open>create\<close> only, so the other operations are stated once for both.
\<close>

section \<open>Operations\<close>

record 'a udp_peer_socket =
  ps_peer :: 'a
  ps_impl :: "socket option"

definition peer_default :: "'a \<Rightarrow> 'a udp_peer_socket" where
  "peer_default a = \<lparr>ps_peer = a, ps_impl = None\<rparr>"

definition peer_of :: "kernel \<Rightarrow> platform \<Rightarrow> 'a \<Rightarrow> socket result \<Rightarrow> 'a udp_peer_socket result io" where
  "peer_of K p peer r =
     (case r of
        Inl ec \<Rightarrow> State_Monad.return (Inl ec)
      | Inr sock \<Rightarrow> do {
          (s, _) \<leftarrow> socket_move_assign K p False socket_default sock;
          State_Monad.return (Inr \<lparr>ps_peer = peer, ps_impl = Some s\<rparr>)
        })"

definition udp4_peer_create ::
    "kernel \<Rightarrow> platform \<Rightarrow> inet4_address \<Rightarrow> inet4_address \<Rightarrow> socket_options \<Rightarrow> inet4_address udp_peer_socket result io" where
  "udp4_peer_create K p loc peer opts = do {
     r \<leftarrow> create_connected_udp K p ipv4 (inet4_to_sock loc) (inet4_to_sock peer) opts;
     peer_of K p peer r
   }"

definition udp6_peer_create ::
    "kernel \<Rightarrow> platform \<Rightarrow> inet6_address \<Rightarrow> inet6_address \<Rightarrow> socket_options \<Rightarrow> inet6_address udp_peer_socket result io" where
  "udp6_peer_create K p loc peer opts = do {
     r \<leftarrow> create_connected_udp K p ipv6 (inet6_to_sock loc) (inet6_to_sock peer) opts;
     peer_of K p peer r
   }"

definition peer_is_open :: "'a udp_peer_socket \<Rightarrow> bool" where
  "peer_is_open ps = (case ps_impl ps of None \<Rightarrow> False | Some s \<Rightarrow> is_open s)"

definition peer_handle :: "'a udp_peer_socket \<Rightarrow> socket_t" where
  "peer_handle ps = (case ps_impl ps of None \<Rightarrow> invalid_socket | Some s \<Rightarrow> s_handle s)"

definition peer_send :: "kernel \<Rightarrow> platform \<Rightarrow> 'a udp_peer_socket \<Rightarrow> byte list \<Rightarrow> int \<Rightarrow> nat result io" where
  "peer_send K p ps data flags =
     (if \<not> peer_is_open ps then State_Monad.return (Inl (make_error_code invalid_state))
      else do {
        r \<leftarrow> sys K (Sys_data (Send (peer_handle ps) data (if p = Linux then flags OR MSG_NOSIGNAL else flags)));
        if sr_rc r < 0 then do { ec \<leftarrow> os_failure p; State_Monad.return (Inl ec) }
        else State_Monad.return (Inr (nat (sr_rc r)))
      })"

text \<open>The count and the bytes written into the buffer of \<open>len\<close> bytes.\<close>

definition peer_recv :: "kernel \<Rightarrow> platform \<Rightarrow> 'a udp_peer_socket \<Rightarrow> nat \<Rightarrow> int \<Rightarrow> (nat \<times> byte list) result io" where
  "peer_recv K p ps len flags =
     (if \<not> peer_is_open ps then State_Monad.return (Inl (make_error_code invalid_state))
      else do {
        r \<leftarrow> sys K (Sys_data (Recv (peer_handle ps) len flags));
        if sr_rc r < 0 then do { ec \<leftarrow> os_failure p; State_Monad.return (Inl ec) }
        else State_Monad.return (Inr (nat (sr_rc r), take len (sr_data r)))
      })"

text \<open>The destructor closes the socket; the move operations take the pointer and leave the address.\<close>

definition peer_drop :: "kernel \<Rightarrow> platform \<Rightarrow> 'a udp_peer_socket \<Rightarrow> unit io" where
  "peer_drop K p ps = (case ps_impl ps of None \<Rightarrow> State_Monad.return () | Some s \<Rightarrow> socket_drop K p s)"

definition peer_move :: "'a udp_peer_socket \<Rightarrow> 'a udp_peer_socket \<times> 'a udp_peer_socket" where
  "peer_move other = (\<lparr>ps_peer = ps_peer other, ps_impl = ps_impl other\<rparr>, other\<lparr>ps_impl := None\<rparr>)"

definition peer_move_assign ::
    "kernel \<Rightarrow> platform \<Rightarrow> bool \<Rightarrow> 'a udp_peer_socket \<Rightarrow> 'a udp_peer_socket
     \<Rightarrow> ('a udp_peer_socket \<times> 'a udp_peer_socket) io" where
  "peer_move_assign K p aliased this other =
     (if aliased then State_Monad.return (this, other)
      else do {
        _ \<leftarrow> peer_drop K p this;
        State_Monad.return (peer_move other)
      })"

section \<open>Ownership\<close>

definition peer_owned :: "'a udp_peer_socket \<Rightarrow> int multiset" where
  "peer_owned ps = (case ps_impl ps of None \<Rightarrow> {#} | Some s \<Rightarrow> owned s)"

lemma peer_owned_default [simp]: "peer_owned (peer_default a) = {#}" "\<not> peer_is_open (peer_default a)"
  by (simp_all add: peer_owned_def peer_default_def peer_is_open_def)

lemma peer_owned_handle: "peer_is_open ps \<Longrightarrow> peer_owned ps = {#peer_handle ps#}"
  by (auto simp: peer_is_open_def peer_owned_def peer_handle_def is_open_def owned_def split: option.splits)

lemma peer_closed_owns: "\<not> peer_is_open ps \<Longrightarrow> peer_owned ps = {#}"
  by (auto simp: peer_is_open_def peer_owned_def is_open_def owned_def split: option.splits)

lemma neutral_peer [neutral_intros]: "neutral (peer_send K p ps data flags)" "neutral (peer_recv K p ps len flags)"
  unfolding peer_send_def peer_recv_def by (intro neutral_intros)+

lemma wp_peer_drop [wp_intros]: "Q () (L - peer_owned ps) \<Longrightarrow> peer_owned ps \<subseteq># L \<Longrightarrow> fd_wp (peer_drop K p ps) Q L"
  unfolding peer_drop_def peer_owned_def by (auto intro!: wp_intros split: option.splits)

lemma wp_peer_move_assign [wp_intros]:
  "Q (peer_move other) (L - peer_owned this) \<Longrightarrow> peer_owned this \<subseteq># L \<Longrightarrow>
   fd_wp (peer_move_assign K p False this other) Q L"
  unfolding peer_move_assign_def by (auto intro!: wp_intros)

lemma peer_move_owned [simp]: "peer_owned (fst (peer_move ps)) = peer_owned ps" "peer_owned (snd (peer_move ps)) = {#}"
  by (simp_all add: peer_move_def peer_owned_def)

lemma wp_peer_of:
  assumes "\<And>ec. r = Inl ec \<Longrightarrow> Q (Inl ec) L" and "\<And>s ps. r = Inr s \<Longrightarrow> peer_owned ps = owned s \<Longrightarrow> Q (Inr ps) L"
  shows "fd_wp (peer_of K p peer r) Q L"
  unfolding peer_of_def by (auto simp: peer_owned_def intro!: wp_intros wp_move_assign assms)

lemma peer_create_acquires:
  "acquires (udp4_peer_create K p loc peer opts) peer_owned"
  "acquires (udp6_peer_create K p loc6 peer6 opts) peer_owned"
  unfolding udp4_peer_create_def udp6_peer_create_def
  by (rule acquiresI, rule fd_wp_bind, rule wp_acquires [OF create_connected_udp_acquires];
      auto intro!: wp_peer_of)+

interpretation udp4_peers: owning_factory "udp4_peer_create K p loc peer opts" "peer_drop K p" peer_owned
  by unfold_locales (auto intro: peer_create_acquires wp_peer_drop)

interpretation udp6_peers: owning_factory "udp6_peer_create K p loc peer opts" "peer_drop K p" peer_owned
  by unfold_locales (auto intro: peer_create_acquires wp_peer_drop)

end
