(* ===== verification/Io_Event.thy ===== *)
theory Io_Event
  imports Prelude
begin

unbundle bit_operations_syntax

text \<open>
  The event masks of \<open>include/socketpp/event/dispatcher.hpp\<close>: the flags of \<open>io_event\<close> as 32-bit
  words, their bitwise operators, and the test \<open>has_event\<close>.
\<close>

type_synonym io_event = u32

definition ev_none :: io_event where "ev_none = 0"
definition ev_readable :: io_event where "ev_readable = push_bit 0 1"
definition ev_writable :: io_event where "ev_writable = push_bit 1 1"
definition ev_error :: io_event where "ev_error = push_bit 2 1"
definition ev_hangup :: io_event where "ev_hangup = push_bit 3 1"
definition ev_peer_shutdown :: io_event where "ev_peer_shutdown = push_bit 4 1"

definition io_or :: "io_event \<Rightarrow> io_event \<Rightarrow> io_event" where "io_or a b = a OR b"
definition io_and :: "io_event \<Rightarrow> io_event \<Rightarrow> io_event" where "io_and a b = a AND b"
definition io_not :: "io_event \<Rightarrow> io_event" where "io_not a = NOT a"

definition has_event :: "io_event \<Rightarrow> io_event \<Rightarrow> bool" where
  "has_event m flag \<longleftrightarrow> io_and m flag \<noteq> ev_none"

lemmas ev_defs = ev_none_def ev_readable_def ev_writable_def ev_error_def ev_hangup_def ev_peer_shutdown_def

lemma has_event_or: "has_event (io_or a b) f \<longleftrightarrow> has_event a f \<or> has_event b f"
  by (simp add: has_event_def io_and_def io_or_def ev_none_def bit.conj_disj_distrib2)
    (metis (no_types, lifting) or_eq_0_iff)

lemma has_event_none [simp]: "\<not> has_event ev_none f"
  by (simp add: has_event_def io_and_def ev_none_def)

lemma has_event_flags [simp]:
  "has_event ev_readable ev_readable" "has_event ev_writable ev_writable" "has_event ev_error ev_error"
  "has_event ev_hangup ev_hangup" "has_event ev_peer_shutdown ev_peer_shutdown"
  "\<not> has_event ev_readable ev_writable" "\<not> has_event ev_writable ev_readable"
  "\<not> has_event ev_readable ev_error" "\<not> has_event ev_error ev_readable"
  "\<not> has_event ev_writable ev_error" "\<not> has_event ev_error ev_writable"
  "\<not> has_event ev_readable ev_hangup" "\<not> has_event ev_hangup ev_readable"
  "\<not> has_event ev_writable ev_hangup" "\<not> has_event ev_hangup ev_writable"
  "\<not> has_event ev_error ev_hangup" "\<not> has_event ev_hangup ev_error"
  "\<not> has_event ev_readable ev_peer_shutdown" "\<not> has_event ev_peer_shutdown ev_readable"
  "\<not> has_event ev_writable ev_peer_shutdown" "\<not> has_event ev_peer_shutdown ev_writable"
  "\<not> has_event ev_error ev_peer_shutdown" "\<not> has_event ev_peer_shutdown ev_error"
  "\<not> has_event ev_hangup ev_peer_shutdown" "\<not> has_event ev_peer_shutdown ev_hangup"
  by (simp_all add: has_event_def io_and_def ev_defs)

end
