(* ===== verification/Thread_Pool.thy ===== *)
theory Thread_Pool
  imports Prelude
begin

text \<open>
  The callback pool: \<open>src/high/thread_pool.cpp\<close>.

  Every critical section under \<open>mutex_\<close> is one operation on the record; a worker is waiting,
  running a task or has left its loop. \<open>pool_step\<close> interleaves submissions, workers and shutdown
  in any order. The condition variable is its predicate: a worker whose wait predicate is false
  has no step, and spurious or missing notifications do not change which steps there are.

  The locale \<open>task_executor\<close> is what the clients of the pool (the serial queues) rely on; it is
  interpreted by the pool's operations.
\<close>

section \<open>State and operations\<close>

datatype 't worker = Waiting | Running 't | Exited

record 't thread_pool =
  tp_workers :: "'t worker list"
  tp_queue :: "'t list"
  tp_stopped :: bool
  tp_max :: nat

definition pool_threads :: "nat \<Rightarrow> nat \<Rightarrow> nat" where
  "pool_threads num_threads hw =
     (if num_threads = 0 then (if hw < 2 then 2 else hw) else num_threads)"

definition thread_pool_new :: "nat \<Rightarrow> nat \<Rightarrow> nat \<Rightarrow> 't thread_pool" where
  "thread_pool_new num_threads max_queue_size hw =
     \<lparr>tp_workers = replicate (pool_threads num_threads hw) Waiting, tp_queue = [], tp_stopped = False,
      tp_max = max_queue_size\<rparr>"

definition tp_submit :: "'t \<Rightarrow> 't thread_pool \<Rightarrow> bool \<times> 't thread_pool" where
  "tp_submit t P =
     (if tp_stopped P then (False, P)
      else if tp_max P > 0 \<and> length (tp_queue P) \<ge> tp_max P then (False, P)
      else (True, P\<lparr>tp_queue := tp_queue P @ [t]\<rparr>))"

text \<open>
  One passage of worker \<open>i\<close> through its critical section: \<open>None\<close> while it waits (or is not at the
  top of its loop); otherwise it leaves, or takes the front task.
\<close>

definition tp_take :: "nat \<Rightarrow> 't thread_pool \<Rightarrow> 't thread_pool option" where
  "tp_take i P =
     (if i < length (tp_workers P) \<and> tp_workers P ! i = Waiting \<and> (tp_stopped P \<or> tp_queue P \<noteq> [])
      then (if tp_stopped P \<and> tp_queue P = []
            then Some (P\<lparr>tp_workers := (tp_workers P)[i := Exited]\<rparr>)
            else Some (P\<lparr>tp_workers := (tp_workers P)[i := Running (hd (tp_queue P))],
                         tp_queue := tl (tp_queue P)\<rparr>))
      else None)"

text \<open>\<open>task()\<close> returns.\<close>

definition tp_done :: "nat \<Rightarrow> 't thread_pool \<Rightarrow> 't thread_pool option" where
  "tp_done i P =
     (if i < length (tp_workers P)
      then (case tp_workers P ! i of
              Running t \<Rightarrow> Some (P\<lparr>tp_workers := (tp_workers P)[i := Waiting]\<rparr>)
            | _ \<Rightarrow> None)
      else None)"

text \<open>The critical section of \<open>shutdown\<close>; \<open>tp_joined\<close> is when its joins have returned.\<close>

definition tp_shutdown :: "'t thread_pool \<Rightarrow> 't thread_pool" where
  "tp_shutdown P = (if tp_stopped P then P else P\<lparr>tp_stopped := True\<rparr>)"

definition tp_joined :: "'t thread_pool \<Rightarrow> bool" where
  "tp_joined P \<longleftrightarrow> (\<forall>x \<in> set (tp_workers P). x = Exited)"

definition tp_size :: "'t thread_pool \<Rightarrow> nat" where
  "tp_size P = length (tp_workers P)"

section \<open>The pool as an executor\<close>

fun task_of :: "'t worker \<Rightarrow> 't list" where
  "task_of (Running t) = [t]"
| "task_of _ = []"

definition active_tasks :: "'t thread_pool \<Rightarrow> 't multiset" where
  "active_tasks P = mset (concat (map task_of (tp_workers P)))"

lemma active_update:
  assumes "i < length (tp_workers P)"
  shows "mset (concat (map task_of ((tp_workers P)[i := x]))) + mset (task_of (tp_workers P ! i))
    = active_tasks P + mset (task_of x)"
proof -
  let ?ws = "tp_workers P" and ?m = "\<lambda>ws. mset (concat (map task_of ws))"
  have "?m ?ws = ?m (take i ?ws @ ?ws ! i # drop (Suc i) ?ws)"
    using assms by (simp add: id_take_nth_drop [symmetric])
  moreover have "?m (?ws[i := x]) = ?m (take i ?ws @ x # drop (Suc i) ?ws)"
    using assms by (simp add: upd_conv_take_nth_drop)
  ultimately show ?thesis by (simp add: active_tasks_def)
qed

locale task_executor =
  fixes submit :: "'t \<Rightarrow> 'p \<Rightarrow> bool \<times> 'p"
    and take_next :: "nat \<Rightarrow> 'p \<Rightarrow> 'p option"
    and finish :: "nat \<Rightarrow> 'p \<Rightarrow> 'p option"
    and queued :: "'p \<Rightarrow> 't list"
    and active :: "'p \<Rightarrow> 't multiset"
    and current :: "nat \<Rightarrow> 'p \<Rightarrow> 't option"
  assumes submit_law: "submit t P = (ok, P') \<Longrightarrow>
      queued P' = queued P @ (if ok then [t] else []) \<and> active P' = active P \<and> current i P' = current i P"
    and take_law: "take_next i P = Some P' \<Longrightarrow> current i P = None \<and>
      (case current i P' of
         None \<Rightarrow> queued P' = queued P \<and> active P' = active P
       | Some t \<Rightarrow> queued P = t # queued P' \<and> active P' = add_mset t (active P))"
    and take_frame: "take_next i P = Some P' \<Longrightarrow> j \<noteq> i \<Longrightarrow> current j P' = current j P"
    and finish_law: "finish i P = Some P' \<Longrightarrow>
      (\<exists>t. current i P = Some t \<and> active P = add_mset t (active P')) \<and> queued P' = queued P \<and> current i P' = None"
    and finish_frame: "finish i P = Some P' \<Longrightarrow> j \<noteq> i \<Longrightarrow> current j P' = current j P"
    and active_current: "current i P = Some t \<Longrightarrow> t \<in># active P"
begin

definition pendings :: "'p \<Rightarrow> 't multiset" where
  "pendings P = mset (queued P) + active P"

lemma pendings_submit: "submit t P = (ok, P') \<Longrightarrow> pendings P' = pendings P + (if ok then {#t#} else {#})"
  using submit_law [of t P ok P'] by (simp add: pendings_def)

lemma pendings_take: "take_next i P = Some P' \<Longrightarrow> pendings P' = pendings P"
  using take_law [of i P P'] by (auto simp: pendings_def split: option.splits)

lemma pendings_finish:
  "finish i P = Some P' \<Longrightarrow> \<exists>t. current i P = Some t \<and> pendings P = add_mset t (pendings P')"
  using finish_law [of i P P'] by (auto simp: pendings_def)

lemma pendings_current: "current i P = Some t \<Longrightarrow> t \<in># pendings P"
  using active_current [of i P t] by (simp add: pendings_def)

end

definition current_task :: "nat \<Rightarrow> 't thread_pool \<Rightarrow> 't option" where
  "current_task i P =
     (if i < length (tp_workers P) then (case tp_workers P ! i of Running t \<Rightarrow> Some t | _ \<Rightarrow> None) else None)"

lemma tp_submit_law:
  "tp_submit t P = (ok, P') \<Longrightarrow> tp_queue P' = tp_queue P @ (if ok then [t] else []) \<and>
   active_tasks P' = active_tasks P \<and> current_task i P' = current_task i P"
  by (auto simp: tp_submit_def active_tasks_def current_task_def split: if_splits)

lemma tp_take_cases:
  assumes "tp_take i P = Some P'"
  obtains (exit) "tp_stopped P" "tp_queue P = []" "i < length (tp_workers P)" "tp_workers P ! i = Waiting"
      "P' = P\<lparr>tp_workers := (tp_workers P)[i := Exited]\<rparr>"
  | (run) t q where "tp_queue P = t # q" "i < length (tp_workers P)" "tp_workers P ! i = Waiting"
      "P' = P\<lparr>tp_workers := (tp_workers P)[i := Running t], tp_queue := q\<rparr>"
  using assms by (cases "tp_queue P") (auto simp: tp_take_def split: if_splits)

lemma tp_done_cases:
  assumes "tp_done i P = Some P'"
  obtains t where "i < length (tp_workers P)" "tp_workers P ! i = Running t"
    "P' = P\<lparr>tp_workers := (tp_workers P)[i := Waiting]\<rparr>"
  using assms by (auto simp: tp_done_def split: if_splits worker.splits)

lemma tp_take_law:
  assumes "tp_take i P = Some P'"
  shows "current_task i P = None \<and> (case current_task i P' of
         None \<Rightarrow> tp_queue P' = tp_queue P \<and> active_tasks P' = active_tasks P
       | Some t \<Rightarrow> tp_queue P = t # tp_queue P' \<and> active_tasks P' = add_mset t (active_tasks P))"
  using assms
proof (cases rule: tp_take_cases)
  case exit
  then show ?thesis using active_update [OF exit(3), of Exited]
    by (simp add: current_task_def) (simp add: active_tasks_def)
next
  case (run t q)
  then show ?thesis using active_update [OF run(2), of "Running t"]
    by (simp add: current_task_def) (simp add: active_tasks_def)
qed

lemma tp_done_law:
  assumes "tp_done i P = Some P'"
  shows "(\<exists>t. current_task i P = Some t \<and> active_tasks P = add_mset t (active_tasks P'))
    \<and> tp_queue P' = tp_queue P \<and> current_task i P' = None"
  using assms
proof (cases rule: tp_done_cases)
  case (1 t)
  then show ?thesis using active_update [OF 1(1), of Waiting]
    by (simp add: current_task_def) (simp add: active_tasks_def)
qed

lemma active_current_task: "current_task i P = Some t \<Longrightarrow> t \<in># active_tasks P"
proof -
  assume "current_task i P = Some t"
  then have "i < length (tp_workers P)" "tp_workers P ! i = Running t"
    by (auto simp: current_task_def split: if_splits worker.splits)
  then have "Running t \<in> set (tp_workers P)" by (metis nth_mem)
  then show ?thesis by (force simp: active_tasks_def)
qed

interpretation tp: task_executor tp_submit tp_take tp_done tp_queue active_tasks current_task
proof unfold_locales
  fix t :: 't and P P' :: "'t thread_pool" and ok i j
  show "tp_submit t P = (ok, P') \<Longrightarrow> tp_queue P' = tp_queue P @ (if ok then [t] else []) \<and>
    active_tasks P' = active_tasks P \<and> current_task i P' = current_task i P" by (rule tp_submit_law)
  show "tp_take i P = Some P' \<Longrightarrow> current_task i P = None \<and> (case current_task i P' of
         None \<Rightarrow> tp_queue P' = tp_queue P \<and> active_tasks P' = active_tasks P
       | Some t \<Rightarrow> tp_queue P = t # tp_queue P' \<and> active_tasks P' = add_mset t (active_tasks P))"
    by (rule tp_take_law)
  show "tp_take i P = Some P' \<Longrightarrow> j \<noteq> i \<Longrightarrow> current_task j P' = current_task j P"
    by (erule tp_take_cases) (simp_all add: current_task_def)
  show "tp_done i P = Some P' \<Longrightarrow> (\<exists>t. current_task i P = Some t \<and> active_tasks P = add_mset t (active_tasks P'))
    \<and> tp_queue P' = tp_queue P \<and> current_task i P' = None" by (rule tp_done_law)
  show "tp_done i P = Some P' \<Longrightarrow> j \<noteq> i \<Longrightarrow> current_task j P' = current_task j P"
    by (erule tp_done_cases) (simp add: current_task_def)
  show "current_task i P = Some t \<Longrightarrow> t \<in># active_tasks P" by (rule active_current_task)
qed

section \<open>Interleavings\<close>

text \<open>The pool with its history: the accepted tasks and the tasks started, each in order.\<close>

record 't pool_run =
  pr_pool :: "'t thread_pool"
  pr_accepted :: "'t list"
  pr_started :: "'t list"

inductive run_step :: "'t pool_run \<Rightarrow> 't pool_run \<Rightarrow> bool" where
  run_submit: "tp_submit t (pr_pool R) = (ok, P') \<Longrightarrow>
    run_step R (R\<lparr>pr_pool := P', pr_accepted := pr_accepted R @ (if ok then [t] else [])\<rparr>)"
| run_take: "tp_take i (pr_pool R) = Some P' \<Longrightarrow>
    run_step R (R\<lparr>pr_pool := P',
      pr_started := pr_started R @ (case current_task i P' of None \<Rightarrow> [] | Some t \<Rightarrow> [t])\<rparr>)"
| run_done: "tp_done i (pr_pool R) = Some P' \<Longrightarrow> run_step R (R\<lparr>pr_pool := P'\<rparr>)"
| run_shutdown: "run_step R (R\<lparr>pr_pool := tp_shutdown (pr_pool R)\<rparr>)"

definition run_init :: "'t pool_run \<Rightarrow> bool" where
  "run_init R \<longleftrightarrow> (\<exists>n m hw. pr_pool R = thread_pool_new n m hw) \<and> pr_accepted R = [] \<and> pr_started R = []"

definition run_inv :: "'t pool_run \<Rightarrow> bool" where
  "run_inv R \<longleftrightarrow> pr_accepted R = pr_started R @ tp_queue (pr_pool R)
     \<and> (tp_max (pr_pool R) > 0 \<longrightarrow> length (tp_queue (pr_pool R)) \<le> tp_max (pr_pool R))
     \<and> active_tasks (pr_pool R) \<subseteq># mset (pr_started R)
     \<and> tp_workers (pr_pool R) \<noteq> []
     \<and> (Exited \<in> set (tp_workers (pr_pool R)) \<longrightarrow> tp_stopped (pr_pool R) \<and> tp_queue (pr_pool R) = [])"

lemma active_new: "active_tasks (thread_pool_new n m hw) = {#}"
proof -
  have "concat (map task_of (replicate k Waiting)) = []" for k by (induction k) auto
  then show ?thesis by (simp add: active_tasks_def thread_pool_new_def)
qed

lemma run_init_inv: "run_init R \<Longrightarrow> run_inv R"
  by (auto simp: run_init_def run_inv_def active_new)
    (auto simp: thread_pool_new_def pool_threads_def split: if_splits)

lemma run_step_inv: "run_step R R' \<Longrightarrow> run_inv R \<Longrightarrow> run_inv R'"
proof (induction rule: run_step.induct)
  case (run_submit t R ok P')
  then show ?case by (auto simp: run_inv_def tp_submit_def active_tasks_def split: if_splits)
next
  case (run_take i R P')
  note law = tp_take_law [OF run_take(1)]
  from run_take(1) show ?case
  proof (cases rule: tp_take_cases)
    case exit
    then have "current_task i P' = None" by (simp add: current_task_def)
    with law run_take(2) exit show ?thesis
      by (auto simp: run_inv_def set_update_subset_insert [THEN subsetD])
  next
    case (run t q)
    then have t: "current_task i P' = Some t" by (simp add: current_task_def)
    have "Exited \<notin> set (tp_workers (pr_pool R))" using run(1) run_take(2) by (auto simp: run_inv_def)
    then have "Exited \<notin> set ((tp_workers (pr_pool R))[i := Running t])"
      by (auto dest: set_update_subset_insert [THEN subsetD])
    with law run_take(2) run t show ?thesis
      by (auto simp: run_inv_def)
  qed
next
  case (run_done i R P')
  obtain t where "active_tasks (pr_pool R) = add_mset t (active_tasks P')" and q: "tp_queue P' = tp_queue (pr_pool R)"
    using tp_done_law [OF run_done(1)] by auto
  then have sub: "active_tasks P' \<subseteq># active_tasks (pr_pool R)" by simp
  from run_done(1) show ?case
  proof (cases rule: tp_done_cases)
    case (1 t)
    then show ?thesis using run_done(2) sub
      by (auto simp: run_inv_def dest: set_update_subset_insert [THEN subsetD] intro: subset_mset.order_trans)
  qed
next
  case (run_shutdown R)
  then show ?case by (simp add: run_inv_def tp_shutdown_def active_tasks_def)
qed

interpretation pool_runs: invariant_system run_init run_step run_inv
  by unfold_locales (rule run_init_inv run_step_inv; assumption)+

section \<open>Shutdown\<close>

text \<open>A step of a worker, and the work left: a bound on the worker steps after \<open>stopped_\<close> is set.\<close>

definition worker_step :: "'t thread_pool \<Rightarrow> 't thread_pool \<Rightarrow> bool" where
  "worker_step P P' \<longleftrightarrow> (\<exists>i. tp_take i P = Some P' \<or> tp_done i P = Some P')"

fun worker_weight :: "'t worker \<Rightarrow> nat" where
  "worker_weight Waiting = 1"
| "worker_weight (Running t) = 2"
| "worker_weight Exited = 0"

definition work_left :: "'t thread_pool \<Rightarrow> nat" where
  "work_left P = 2 * length (tp_queue P) + sum_list (map worker_weight (tp_workers P))"

lemma weight_update:
  "i < length ws \<Longrightarrow>
   sum_list (map worker_weight (ws[i := x])) + worker_weight (ws ! i) = sum_list (map worker_weight ws) + worker_weight x"
proof -
  assume i: "i < length ws"
  have "sum_list (map worker_weight ws) = sum_list (map worker_weight (take i ws @ ws ! i # drop (Suc i) ws))"
    using i by (simp add: id_take_nth_drop [symmetric])
  then show ?thesis using i by (simp add: upd_conv_take_nth_drop)
qed

lemma worker_step_decreases: "worker_step P P' \<Longrightarrow> work_left P' < work_left P"
proof -
  assume "worker_step P P'"
  then consider i where "tp_take i P = Some P'" | i where "tp_done i P = Some P'"
    by (auto simp: worker_step_def)
  then show ?thesis
  proof cases
    case (1 i)
    then show ?thesis
    proof (cases rule: tp_take_cases)
      case exit
      then show ?thesis using weight_update [OF exit(3), of Exited] by (simp add: work_left_def)
    next
      case (run t q)
      then show ?thesis using weight_update [OF run(2), of "Running t"] by (simp add: work_left_def)
    qed
  next
    case (2 i)
    then show ?thesis
    proof (cases rule: tp_done_cases)
      case (1 t)
      then show ?thesis using weight_update [OF 1(1), of Waiting] by (simp add: work_left_def)
    qed
  qed
qed

lemma stopped_progress:
  assumes "tp_stopped P" and "\<not> tp_joined P"
  shows "\<exists>P'. worker_step P P'"
proof -
  from assms(2) obtain i where i: "i < length (tp_workers P)" "tp_workers P ! i \<noteq> Exited"
    by (auto simp: tp_joined_def in_set_conv_nth)
  then show ?thesis using assms(1)
    by (cases "tp_workers P ! i") (auto simp: worker_step_def tp_take_def tp_done_def intro!: exI [of _ i])
qed

lemma worker_step_stopped: "worker_step P P' \<Longrightarrow> tp_stopped P' = tp_stopped P"
  by (auto simp: worker_step_def elim: tp_take_cases tp_done_cases)

text \<open>Every maximal run of the workers of a stopped pool ends with all of them joined.\<close>

lemma stopped_terminates:
  "tp_stopped P \<Longrightarrow> \<exists>P'. worker_step\<^sup>*\<^sup>* P P' \<and> tp_joined P'"
proof (induction "work_left P" arbitrary: P rule: less_induct)
  case less
  show ?case
  proof (cases "tp_joined P")
    case True
    then show ?thesis by blast
  next
    case False
    with stopped_progress [OF less.prems] obtain P1 where s: "worker_step P P1" by blast
    with less.hyps [OF worker_step_decreases [OF s]] less.prems worker_step_stopped [OF s]
    obtain P' where "worker_step\<^sup>*\<^sup>* P1 P'" "tp_joined P'" by blast
    with s show ?thesis by (meson converse_rtranclp_into_rtranclp)
  qed
qed

lemma joined_empty:
  assumes "run_inv R" and "tp_joined (pr_pool R)"
  shows "tp_queue (pr_pool R) = [] \<and> active_tasks (pr_pool R) = {#}"
proof -
  have "tp_workers (pr_pool R) \<noteq> []" using assms(1) by (simp add: run_inv_def)
  then have "Exited \<in> set (tp_workers (pr_pool R))"
    using assms(2) by (cases "tp_workers (pr_pool R)") (auto simp: tp_joined_def)
  moreover have "concat (map task_of ws) = []" if "\<forall>x \<in> set ws. x = Exited" for ws :: "'a worker list"
    using that by (induction ws) auto
  ultimately show ?thesis using assms by (simp add: run_inv_def active_tasks_def tp_joined_def)
qed

section \<open>Properties\<close>

text \<open>
  C29: under every interleaving of submitters, workers and shutdown, tasks start in the order in
  which they were accepted, none is lost, started twice or invented, and the queue never exceeds
  its limit; no worker leaves while a task is queued.
\<close>

theorem pool_fifo:
  assumes "reachable run_init run_step R"
  shows "pr_accepted R = pr_started R @ tp_queue (pr_pool R) \<and>
    (tp_max (pr_pool R) > 0 \<longrightarrow> length (tp_queue (pr_pool R)) \<le> tp_max (pr_pool R)) \<and>
    active_tasks (pr_pool R) \<subseteq># mset (pr_started R) \<and>
    (Exited \<in> set (tp_workers (pr_pool R)) \<longrightarrow> tp_queue (pr_pool R) = [])"
  using pool_runs.reachable_inv [OF assms] by (simp add: run_inv_def)

theorem pool_fifo_witness:
  "\<exists>R :: nat pool_run. pr_accepted R = [7] \<and> tp_queue (pr_pool R) = [7] \<and> pr_started R = []"
proof -
  let ?R = "\<lparr>pr_pool = thread_pool_new 1 1 4, pr_accepted = [], pr_started = []\<rparr> :: nat pool_run"
  let ?P = "(thread_pool_new 1 1 4)\<lparr>tp_queue := [7]\<rparr>"
  let ?S = "?R\<lparr>pr_pool := ?P, pr_accepted := pr_accepted ?R @ (if True then [7] else [])\<rparr>"
  have "tp_submit 7 (pr_pool ?R) = (True, ?P)" by (simp add: tp_submit_def thread_pool_new_def)
  then have "run_step ?R ?S" by (rule run_submit)
  moreover have "run_init ?R" by (auto simp: run_init_def)
  ultimately have "reachable run_init run_step ?S" by (blast intro: reachable.intros)
  from pool_fifo [OF this] have "pr_accepted ?S = [7] \<and> tp_queue (pr_pool ?S) = [7] \<and> pr_started ?S = []" by simp
  then show ?thesis by blast
qed

text \<open>
  C30: \<open>shutdown\<close> drains and ends. Once the pool is stopped no task is accepted, some worker can
  always take a step until all have left, every worker step brings that end nearer, so the joins
  return; and when they have returned, every task ever accepted has been run to completion.
\<close>

theorem pool_shutdown_drains:
  assumes "reachable run_init run_step R" and "tp_stopped (pr_pool R)"
  shows "fst (tp_submit t (pr_pool R)) = False \<and>
    (\<not> tp_joined (pr_pool R) \<longrightarrow> (\<exists>P'. worker_step (pr_pool R) P')) \<and>
    (\<forall>P'. worker_step (pr_pool R) P' \<longrightarrow> work_left P' < work_left (pr_pool R)) \<and>
    (\<exists>P'. worker_step\<^sup>*\<^sup>* (pr_pool R) P' \<and> tp_joined P') \<and>
    (tp_joined (pr_pool R) \<longrightarrow> pr_started R = pr_accepted R \<and> active_tasks (pr_pool R) = {#})"
  using joined_empty [OF pool_runs.reachable_inv [OF assms(1)]] pool_runs.reachable_inv [OF assms(1)]
    stopped_progress [OF assms(2)] stopped_terminates [OF assms(2)] assms(2)
  by (auto simp: tp_submit_def run_inv_def intro: worker_step_decreases)

theorem pool_shutdown_drains_witness:
  "\<exists>P' :: nat thread_pool. worker_step\<^sup>*\<^sup>* (tp_shutdown (thread_pool_new 2 0 4)) P' \<and> tp_joined P'"
proof -
  let ?R = "\<lparr>pr_pool = thread_pool_new 2 0 4, pr_accepted = [], pr_started = []\<rparr> :: nat pool_run"
  have "run_init ?R" by (auto simp: run_init_def)
  then have "reachable run_init run_step (?R\<lparr>pr_pool := tp_shutdown (pr_pool ?R)\<rparr>)"
    by (blast intro: reachable.intros run_shutdown)
  from pool_shutdown_drains [OF this, of 0] show ?thesis
    by (simp add: tp_shutdown_def thread_pool_new_def)
qed

end
