(* ===== verification/Serial_Queue.thy ===== *)
theory Serial_Queue
  imports Thread_Pool
begin

text \<open>
  The serialised callback queue of every connection: \<open>src/high/serial_queue.hpp\<close>.

  One serial queue on top of the callback pool, with any number of submitting threads, pool
  workers, foreign tasks in the pool and a concurrent shutdown. Each critical section under the
  queue's mutex is one step, and so is the end of a callback; \<open>submit\<close> calls the pool while it
  holds the mutex, so both changes are one step. A drain is a pool task; the phase of the worker
  that runs it is where it stands in the loop. What the queue needs of the pool are the laws of
  \<open>task_executor\<close>.
\<close>

section \<open>State and operations\<close>

record 'a serial_state =
  sq_pending :: "'a list"
  sq_draining :: bool

datatype task = Drain | Other nat
datatype 'a phase = At_lock | Calling 'a | Returned

definition sq_new :: "'a serial_state" where
  "sq_new = \<lparr>sq_pending = [], sq_draining = False\<rparr>"

text \<open>\<open>submit\<close>: the queue, the pool, and what the pool answered (ignored by the code).\<close>

definition sq_submit ::
    "'a \<Rightarrow> 'a serial_state \<Rightarrow> task thread_pool \<Rightarrow> 'a serial_state \<times> task thread_pool \<times> bool" where
  "sq_submit fn s P =
     (let s1 = s\<lparr>sq_pending := sq_pending s @ [fn]\<rparr> in
      if \<not> sq_draining s1
      then (let s2 = s1\<lparr>sq_draining := True\<rparr>;
                (ok, P') = tp_submit Drain P
            in (s2, P', ok))
      else (s1, P, True))"

text \<open>The critical section of the drain loop: the popped callback, or \<open>None\<close> when the loop ends.\<close>

definition sq_next :: "'a serial_state \<Rightarrow> 'a option \<times> 'a serial_state" where
  "sq_next s =
     (case sq_pending s of
        [] \<Rightarrow> (None, s\<lparr>sq_draining := False\<rparr>)
      | fn # rest \<Rightarrow> (Some fn, s\<lparr>sq_pending := rest\<rparr>))"

text \<open>
  The whole system, with the history of submitted, started and finished callbacks. \<open>q_rejected\<close>
  records that the pool has refused a drain.
\<close>

record 'a queue_run =
  q_serial :: "'a serial_state"
  q_pool :: "task thread_pool"
  q_phase :: "nat \<Rightarrow> 'a phase"
  q_submitted :: "'a list"
  q_started :: "'a list"
  q_finished :: "'a list"
  q_rejected :: bool

inductive queue_step :: "'a queue_run \<Rightarrow> 'a queue_run \<Rightarrow> bool" where
  q_submit: "sq_submit fn (q_serial S) (q_pool S) = (s', P', ok) \<Longrightarrow>
    queue_step S (S\<lparr>q_serial := s', q_pool := P', q_submitted := q_submitted S @ [fn],
      q_rejected := (q_rejected S \<or> \<not> ok)\<rparr>)"
| q_take: "tp_take i (q_pool S) = Some P' \<Longrightarrow>
    queue_step S (S\<lparr>q_pool := P',
      q_phase := (if current_task i P' = Some Drain then (q_phase S)(i := At_lock) else q_phase S)\<rparr>)"
| q_call: "current_task i (q_pool S) = Some Drain \<Longrightarrow> q_phase S i = At_lock \<Longrightarrow>
    sq_next (q_serial S) = (Some fn, s') \<Longrightarrow>
    queue_step S (S\<lparr>q_serial := s', q_phase := (q_phase S)(i := Calling fn), q_started := q_started S @ [fn]\<rparr>)"
| q_end: "current_task i (q_pool S) = Some Drain \<Longrightarrow> q_phase S i = At_lock \<Longrightarrow>
    sq_next (q_serial S) = (None, s') \<Longrightarrow>
    queue_step S (S\<lparr>q_serial := s', q_phase := (q_phase S)(i := Returned)\<rparr>)"
| q_callback_done: "current_task i (q_pool S) = Some Drain \<Longrightarrow> q_phase S i = Calling fn \<Longrightarrow>
    queue_step S (S\<lparr>q_phase := (q_phase S)(i := At_lock), q_finished := q_finished S @ [fn]\<rparr>)"
| q_return: "current_task i (q_pool S) = Some Drain \<Longrightarrow> q_phase S i = Returned \<Longrightarrow>
    tp_done i (q_pool S) = Some P' \<Longrightarrow> queue_step S (S\<lparr>q_pool := P'\<rparr>)"
| q_other_submit: "tp_submit (Other n) (q_pool S) = (ok, P') \<Longrightarrow> queue_step S (S\<lparr>q_pool := P'\<rparr>)"
| q_other_done: "current_task i (q_pool S) = Some (Other n) \<Longrightarrow> tp_done i (q_pool S) = Some P' \<Longrightarrow>
    queue_step S (S\<lparr>q_pool := P'\<rparr>)"
| q_shutdown: "queue_step S (S\<lparr>q_pool := tp_shutdown (q_pool S)\<rparr>)"

definition queue_init :: "'a queue_run \<Rightarrow> bool" where
  "queue_init S \<longleftrightarrow> q_serial S = sq_new \<and> (\<exists>n m hw. q_pool S = thread_pool_new n m hw)
     \<and> q_submitted S = [] \<and> q_started S = [] \<and> q_finished S = [] \<and> \<not> q_rejected S"

section \<open>Invariant\<close>

text \<open>The workers inside the drain loop.\<close>

definition drainer :: "'a queue_run \<Rightarrow> nat \<Rightarrow> bool" where
  "drainer S i \<longleftrightarrow> current_task i (q_pool S) = Some Drain \<and> q_phase S i \<noteq> Returned"

definition drain_scheduled :: "'a queue_run \<Rightarrow> bool" where
  "drain_scheduled S \<longleftrightarrow> Drain \<in> set (tp_queue (q_pool S)) \<or> (\<exists>i. drainer S i)"

definition single_drain :: "'a queue_run \<Rightarrow> bool" where
  "single_drain S \<longleftrightarrow> count_list (tp_queue (q_pool S)) Drain \<le> 1
     \<and> (\<forall>i. drainer S i \<longrightarrow> Drain \<notin> set (tp_queue (q_pool S)))
     \<and> (\<forall>i j. drainer S i \<longrightarrow> drainer S j \<longrightarrow> i = j)"

definition history_ok :: "'a queue_run \<Rightarrow> bool" where
  "history_ok S \<longleftrightarrow> q_submitted S = q_started S @ sq_pending (q_serial S)
     \<and> (\<forall>i fn. drainer S i \<longrightarrow> q_phase S i = Calling fn \<longrightarrow> q_started S = q_finished S @ [fn])
     \<and> ((\<forall>i fn. drainer S i \<longrightarrow> q_phase S i \<noteq> Calling fn) \<longrightarrow> q_started S = q_finished S)"

definition queue_inv :: "'a queue_run \<Rightarrow> bool" where
  "queue_inv S \<longleftrightarrow> single_drain S \<and> history_ok S
     \<and> (\<not> sq_draining (q_serial S) \<longrightarrow> \<not> drain_scheduled S \<and> sq_pending (q_serial S) = [])
     \<and> (sq_draining (q_serial S) \<and> \<not> q_rejected S \<longrightarrow> drain_scheduled S)"

lemmas queue_defs = queue_inv_def single_drain_def history_ok_def drain_scheduled_def drainer_def

lemma count_list_zero: "count_list xs x = 0 \<longleftrightarrow> x \<notin> set xs"
  by (simp add: count_list_0_iff)

lemma inv_submit:
  assumes "queue_inv S" and "sq_submit fn (q_serial S) (q_pool S) = (s', P', ok)"
  shows "queue_inv (S\<lparr>q_serial := s', q_pool := P', q_submitted := q_submitted S @ [fn],
    q_rejected := (q_rejected S \<or> \<not> ok)\<rparr>)"
proof (cases "sq_draining (q_serial S)")
  case True
  then show ?thesis using assms by (auto simp: sq_submit_def Let_def queue_defs)
next
  case False
  then have sub: "tp_submit Drain (q_pool S) = (ok, P')"
    and s': "s' = (q_serial S)\<lparr>sq_pending := sq_pending (q_serial S) @ [fn], sq_draining := True\<rparr>"
    using assms(2) by (auto simp: sq_submit_def Let_def split: prod.splits)
  note law = tp.submit_law [OF sub]
  from False assms(1) have "\<not> drain_scheduled S" by (simp add: queue_inv_def)
  with law s' assms(1) show ?thesis
    by (simp add: queue_defs count_list_zero) blast
qed

text \<open>A step that leaves the drains and the queue alone keeps the invariant.\<close>

lemma inv_frame:
  assumes "queue_inv S" and "q_serial S' = q_serial S" and "q_submitted S' = q_submitted S"
    and "q_started S' = q_started S" and "q_finished S' = q_finished S" and "q_rejected S' = q_rejected S"
    and "\<And>i. drainer S' i = drainer S i" and "\<And>i. drainer S i \<Longrightarrow> q_phase S' i = q_phase S i"
    and "count_list (tp_queue (q_pool S')) Drain = count_list (tp_queue (q_pool S)) Drain"
  shows "queue_inv S'"
proof -
  have "Drain \<in> set (tp_queue (q_pool S')) \<longleftrightarrow> Drain \<in> set (tp_queue (q_pool S))"
    using assms(9) by (metis count_list_zero)
  then show ?thesis
    using assms(1-9) unfolding queue_inv_def single_drain_def history_ok_def drain_scheduled_def
    by metis
qed

lemma inv_take:
  assumes inv: "queue_inv S" and t: "tp_take i (q_pool S) = Some P'"
  shows "queue_inv (S\<lparr>q_pool := P',
      q_phase := (if current_task i P' = Some Drain then (q_phase S)(i := At_lock) else q_phase S)\<rparr>)"
    (is "queue_inv ?S")
proof (cases "current_task i P' = Some Drain")
  case False
  have "current_task i (q_pool S) = None" using tp.take_law [OF t] by simp
  then have "drainer ?S j = drainer S j" for j
    using tp.take_frame [OF t, of j] False by (cases "j = i") (auto simp: drainer_def)
  moreover have "count_list (tp_queue P') Drain = count_list (tp_queue (q_pool S)) Drain"
    using tp.take_law [OF t] False by (auto split: option.splits)
  ultimately show ?thesis using inv False by (intro inv_frame [OF inv]) auto
next
  case True
  then have q: "tp_queue (q_pool S) = Drain # tp_queue P'" using tp.take_law [OF t] by simp
  have no: "\<not> drainer S j" for j using inv q by (auto simp: queue_inv_def single_drain_def)
  have d: "drainer ?S j \<longleftrightarrow> j = i" for j
    using no [of j] tp.take_frame [OF t, of j] True by (cases "j = i") (auto simp: drainer_def)
  have "Drain \<notin> set (tp_queue P')"
    using inv q by (simp add: queue_inv_def single_drain_def count_list_zero [symmetric])
  moreover have "sq_draining (q_serial S)"
    using inv q by (auto simp: queue_inv_def drain_scheduled_def)
  moreover have "history_ok ?S"
    using inv no d True by (simp add: queue_inv_def history_ok_def)
  ultimately show ?thesis
    using d by (simp add: queue_inv_def single_drain_def drain_scheduled_def count_list_zero)
qed

lemma inv_drainer:
  assumes inv: "queue_inv S" and i: "current_task i (q_pool S) = Some Drain" and ph: "q_phase S i \<noteq> Returned"
  shows "drainer S j \<longleftrightarrow> j = i" and "Drain \<notin> set (tp_queue (q_pool S))" and "sq_draining (q_serial S)"
proof -
  have d: "drainer S i" using i ph by (simp add: drainer_def)
  then show "drainer S j \<longleftrightarrow> j = i" using inv by (auto simp: queue_inv_def single_drain_def)
  show "Drain \<notin> set (tp_queue (q_pool S))" using inv d by (auto simp: queue_inv_def single_drain_def)
  show "sq_draining (q_serial S)" using inv d by (auto simp: queue_inv_def drain_scheduled_def)
qed

text \<open>The single drainer moves to another phase of its loop.\<close>

lemma drainer_phase:
  assumes inv: "queue_inv S" and i: "current_task i (q_pool S) = Some Drain" and ph: "q_phase S i \<noteq> Returned"
    and S': "q_pool S' = q_pool S" "q_phase S' = (q_phase S)(i := x)"
  shows "drainer S' j \<longleftrightarrow> j = i \<and> x \<noteq> Returned"
  using inv_drainer(1) [OF inv i ph, of j] i S' by (auto simp: drainer_def)

lemma inv_call:
  assumes inv: "queue_inv S" and i: "current_task i (q_pool S) = Some Drain" and ph: "q_phase S i = At_lock"
    and n: "sq_next (q_serial S) = (Some fn, s')"
  shows "queue_inv (S\<lparr>q_serial := s', q_phase := (q_phase S)(i := Calling fn), q_started := q_started S @ [fn]\<rparr>)"
    (is "queue_inv ?S")
proof -
  have ph': "q_phase S i \<noteq> Returned" using ph by simp
  note dr = inv_drainer [OF inv i ph']
  have d: "drainer ?S j \<longleftrightarrow> j = i" for j
    using drainer_phase [OF inv i ph', of ?S "Calling fn" j] by simp
  obtain rest where "sq_pending (q_serial S) = fn # rest" "s' = (q_serial S)\<lparr>sq_pending := rest\<rparr>"
    using n by (auto simp: sq_next_def split: list.splits)
  moreover have "q_started S = q_finished S" using inv dr(1) ph by (simp add: queue_inv_def history_ok_def)
  ultimately show ?thesis
    using inv d dr by (simp add: queue_inv_def single_drain_def history_ok_def drain_scheduled_def count_list_zero)
qed

lemma inv_end:
  assumes inv: "queue_inv S" and i: "current_task i (q_pool S) = Some Drain" and ph: "q_phase S i = At_lock"
    and n: "sq_next (q_serial S) = (None, s')"
  shows "queue_inv (S\<lparr>q_serial := s', q_phase := (q_phase S)(i := Returned)\<rparr>)" (is "queue_inv ?S")
proof -
  have ph': "q_phase S i \<noteq> Returned" using ph by simp
  note dr = inv_drainer [OF inv i ph']
  have d: "\<not> drainer ?S j" for j using drainer_phase [OF inv i ph', of ?S Returned j] by simp
  have "sq_pending (q_serial S) = []" "s' = (q_serial S)\<lparr>sq_draining := False\<rparr>"
    using n by (auto simp: sq_next_def split: list.splits)
  moreover have "q_started S = q_finished S" using inv dr(1) ph by (simp add: queue_inv_def history_ok_def)
  ultimately show ?thesis
    using inv d dr by (simp add: queue_inv_def single_drain_def history_ok_def drain_scheduled_def)
qed

lemma inv_callback_done:
  assumes inv: "queue_inv S" and i: "current_task i (q_pool S) = Some Drain" and ph: "q_phase S i = Calling fn"
  shows "queue_inv (S\<lparr>q_phase := (q_phase S)(i := At_lock), q_finished := q_finished S @ [fn]\<rparr>)"
    (is "queue_inv ?S")
proof -
  have ph': "q_phase S i \<noteq> Returned" using ph by simp
  note dr = inv_drainer [OF inv i ph']
  have d: "drainer ?S j \<longleftrightarrow> j = i" for j
    using drainer_phase [OF inv i ph', of ?S At_lock j] by simp
  have "q_started S = q_finished S @ [fn]"
    using inv dr(1) ph by (auto simp: queue_inv_def history_ok_def)
  then show ?thesis
    using inv d dr by (simp add: queue_inv_def single_drain_def history_ok_def drain_scheduled_def count_list_zero)
qed

lemma inv_done:
  assumes inv: "queue_inv S" and d: "tp_done i (q_pool S) = Some P'"
    and ph: "current_task i (q_pool S) = Some Drain \<Longrightarrow> q_phase S i = Returned"
  shows "queue_inv (S\<lparr>q_pool := P'\<rparr>)"
proof -
  have "drainer (S\<lparr>q_pool := P'\<rparr>) j = drainer S j" for j
    using tp.finish_law [OF d] tp.finish_frame [OF d, of j] ph by (cases "j = i") (auto simp: drainer_def)
  moreover have "tp_queue P' = tp_queue (q_pool S)" using tp.finish_law [OF d] by simp
  ultimately show ?thesis by (intro inv_frame [OF inv]) auto
qed

lemma queue_step_inv: "queue_step S S' \<Longrightarrow> queue_inv S \<Longrightarrow> queue_inv S'"
proof (induction rule: queue_step.induct)
  case (q_other_submit n S ok P')
  from tp.submit_law [OF q_other_submit(1)] show ?case
    by (intro inv_frame [OF q_other_submit(2)]) (auto simp: drainer_def)
next
  case (q_shutdown S)
  have "current_task i (tp_shutdown (q_pool S)) = current_task i (q_pool S)"
    "tp_queue (tp_shutdown (q_pool S)) = tp_queue (q_pool S)" for i
    by (simp_all add: tp_shutdown_def current_task_def)
  then show ?case by (intro inv_frame [OF q_shutdown]) (auto simp: drainer_def)
next
  case (q_take i S P')
  then show ?case by (intro inv_take)
qed (auto intro: inv_submit inv_call inv_end inv_callback_done inv_done)

lemma queue_init_inv: "queue_init S \<Longrightarrow> queue_inv S"
proof -
  assume a: "queue_init S"
  then have "current_task i (q_pool S) = None" for i
    by (auto simp: queue_init_def thread_pool_new_def current_task_def)
  with a show ?thesis by (auto simp: queue_init_def queue_defs sq_new_def thread_pool_new_def)
qed

interpretation serial: invariant_system queue_init queue_step queue_inv
  by unfold_locales (rule queue_init_inv queue_step_inv; assumption)+

section \<open>A refused drain\<close>

text \<open>
  The state after the pool has refused a drain: \<open>draining_\<close> is set and no drain exists, so every
  later \<open>submit\<close> only appends.
\<close>

definition wedged :: "'a queue_run \<Rightarrow> bool" where
  "wedged S \<longleftrightarrow> sq_draining (q_serial S) \<and> \<not> drain_scheduled S"

lemma wedged_step: "queue_step S S' \<Longrightarrow> wedged S \<Longrightarrow> wedged S' \<and> q_started S' = q_started S"
proof (induction rule: queue_step.induct)
  case (q_submit fn S s' P' ok)
  then show ?case by (auto simp: wedged_def sq_submit_def Let_def drain_scheduled_def drainer_def)
next
  case (q_take i S P')
  have "current_task i (q_pool S) = None" using tp.take_law [OF q_take(1)] by simp
  moreover have n: "current_task i P' \<noteq> Some Drain" "Drain \<notin> set (tp_queue P')"
    using tp.take_law [OF q_take(1)] q_take(2) by (auto simp: wedged_def drain_scheduled_def split: option.splits)
  ultimately have "\<not> drainer (S\<lparr>q_pool := P'\<rparr>) j" for j
    using tp.take_frame [OF q_take(1), of j] q_take(2)
    by (cases "j = i") (auto simp: wedged_def drain_scheduled_def drainer_def)
  with n q_take(2) show ?case by (simp add: wedged_def drain_scheduled_def)
next
  case (q_return i S P')
  from tp.finish_law [OF q_return(3)] tp.finish_frame [OF q_return(3)] q_return(4) show ?case
    by (auto simp: wedged_def drain_scheduled_def drainer_def) (metis option.distinct(1))
next
  case (q_other_submit n S ok P')
  from tp.submit_law [OF q_other_submit(1)] q_other_submit(2) show ?case
    by (auto simp: wedged_def drain_scheduled_def drainer_def)
next
  case (q_other_done i S n P')
  from tp.finish_law [OF q_other_done(2)] tp.finish_frame [OF q_other_done(2)] q_other_done(3) show ?case
    by (auto simp: wedged_def drain_scheduled_def drainer_def) (metis option.distinct(1))
next
  case (q_shutdown S)
  then show ?case
    by (simp add: wedged_def drain_scheduled_def drainer_def tp_shutdown_def current_task_def)
qed (auto simp: wedged_def drain_scheduled_def drainer_def)

lemma wedged_forever: "queue_step\<^sup>*\<^sup>* S S' \<Longrightarrow> wedged S \<Longrightarrow> wedged S' \<and> q_started S' = q_started S"
  by (induction rule: rtranclp_induct) (auto dest: wedged_step)

section \<open>Properties\<close>

text \<open>
  C3: the serial queue serialises. Under every interleaving, at most one callback of a queue runs
  at a time, callbacks start and finish in the order of their submission, and none is lost,
  duplicated or invented: what was submitted is what finished, then the one running, then what is
  pending.
\<close>

theorem serial_queue_fifo:
  assumes "reachable queue_init queue_step S"
  shows "(\<forall>i j f g. current_task i (q_pool S) = Some Drain \<longrightarrow> current_task j (q_pool S) = Some Drain \<longrightarrow>
            q_phase S i = Calling f \<longrightarrow> q_phase S j = Calling g \<longrightarrow> i = j) \<and>
    (\<exists>cur. length cur \<le> 1 \<and> q_started S = q_finished S @ cur \<and>
           q_submitted S = q_finished S @ cur @ sq_pending (q_serial S))"
proof -
  have inv: "queue_inv S" using assms by (rule serial.reachable_inv)
  have 1: "i = j" if "current_task i (q_pool S) = Some Drain" "current_task j (q_pool S) = Some Drain"
    "q_phase S i = Calling f" "q_phase S j = Calling g" for i j f g
    using inv that by (auto simp: queue_inv_def single_drain_def drainer_def)
  have "\<exists>cur. length cur \<le> 1 \<and> q_started S = q_finished S @ cur"
  proof (cases "\<exists>i fn. drainer S i \<and> q_phase S i = Calling fn")
    case True
    then obtain fn where "q_started S = q_finished S @ [fn]" using inv by (auto simp: queue_inv_def history_ok_def)
    then show ?thesis by (intro exI [of _ "[fn]"]) simp
  next
    case False
    then have "q_started S = q_finished S" using inv by (auto simp: queue_inv_def history_ok_def)
    then show ?thesis by (intro exI [of _ "[]"]) simp
  qed
  moreover have "q_submitted S = q_started S @ sq_pending (q_serial S)"
    using inv by (simp add: queue_inv_def history_ok_def)
  ultimately show ?thesis using 1 by auto
qed

theorem serial_queue_fifo_witness:
  "\<exists>S :: nat queue_run. q_submitted S = [3] \<and> sq_pending (q_serial S) = [3] \<and> q_finished S = []"
proof -
  let ?S = "\<lparr>q_serial = sq_new, q_pool = thread_pool_new 1 0 4, q_phase = \<lambda>_. At_lock, q_submitted = [],
    q_started = [], q_finished = [], q_rejected = False\<rparr> :: nat queue_run"
  obtain s' P' ok where s: "sq_submit 3 (q_serial ?S) (q_pool ?S) = (s', P', ok)" by (metis surj_pair)
  let ?T = "?S\<lparr>q_serial := s', q_pool := P', q_submitted := q_submitted ?S @ [3], q_rejected := (q_rejected ?S \<or> \<not> ok)\<rparr>"
  have "queue_init ?S" by (auto simp: queue_init_def)
  with s have r: "reachable queue_init queue_step ?T" by (blast intro: reachable.intros q_submit)
  have "sq_pending s' = [3]"
    using s by (auto simp: sq_submit_def sq_new_def Let_def split: prod.splits)
  with serial_queue_fifo [OF r] have "q_submitted ?T = [3] \<and> sq_pending (q_serial ?T) = [3] \<and> q_finished ?T = []"
    by simp
  then show ?thesis by blast
qed



text \<open>
  When the pool refuses the drain that \<open>submit\<close> schedules (because the pool is at its queue
  limit or stopped), the queue never runs a callback again: \<open>draining_\<close> stays set with no drain in
  existence, and no callback of the queue starts in any continuation, even after the pool has room.
\<close>

theorem serial_queue_refused_drain:
  assumes "reachable queue_init queue_step S" and "\<not> sq_draining (q_serial S)"
    and "sq_submit fn (q_serial S) (q_pool S) = (s', P', False)"
    and "queue_step\<^sup>*\<^sup>* (S\<lparr>q_serial := s', q_pool := P', q_submitted := q_submitted S @ [fn],
      q_rejected := (q_rejected S \<or> \<not> False)\<rparr>) T"
  shows "q_started T = q_started S \<and> sq_draining (q_serial T) \<and> \<not> drain_scheduled T"
proof -
  let ?S = "S\<lparr>q_serial := s', q_pool := P', q_submitted := q_submitted S @ [fn],
    q_rejected := (q_rejected S \<or> \<not> False)\<rparr>"
  have sub: "tp_submit Drain (q_pool S) = (False, P')" and "sq_draining s'"
    using assms(2,3) by (auto simp: sq_submit_def Let_def split: prod.splits)
  moreover have "\<not> drain_scheduled S"
    using serial.reachable_inv [OF assms(1)] assms(2) by (simp add: queue_inv_def)
  ultimately have "wedged ?S"
    using tp.submit_law [OF sub] by (simp add: wedged_def drain_scheduled_def drainer_def)
  from wedged_forever [OF assms(4) this] show ?thesis by (simp add: wedged_def)
qed

theorem serial_queue_refused_drain_witness:
  "\<exists>T :: nat queue_run. sq_pending (q_serial T) = [3] \<and> \<not> drain_scheduled T"
proof -
  let ?A = "\<lparr>q_serial = sq_new, q_pool = thread_pool_new 1 0 4, q_phase = \<lambda>_. At_lock, q_submitted = [],
    q_started = [], q_finished = [], q_rejected = False\<rparr> :: nat queue_run"
  let ?S = "?A\<lparr>q_pool := tp_shutdown (q_pool ?A)\<rparr>"
  have "queue_init ?A" by (auto simp: queue_init_def)
  then have r: "reachable queue_init queue_step ?S" by (blast intro: reachable.intros q_shutdown)
  have d: "\<not> sq_draining (q_serial ?S)" by (simp add: sq_new_def)
  obtain s' P' where s: "sq_submit 3 (q_serial ?S) (q_pool ?S) = (s', P', False)" and "sq_pending s' = [3]"
    by (auto simp: sq_submit_def sq_new_def Let_def tp_submit_def tp_shutdown_def thread_pool_new_def)
  let ?T = "?S\<lparr>q_serial := s', q_pool := P', q_submitted := q_submitted ?S @ [3], q_rejected := (q_rejected ?S \<or> \<not> False)\<rparr>"
  have "queue_step\<^sup>*\<^sup>* ?T ?T" by simp
  from serial_queue_refused_drain [OF r d s this] have "\<not> drain_scheduled ?T" by blast
  moreover have "sq_pending (q_serial ?T) = [3]" using \<open>sq_pending s' = [3]\<close> by simp
  ultimately show ?thesis by blast
qed

end
