(* ===== verification/Connection.thy ===== *)
theory Connection
  imports Tcp Io_Event
begin

text \<open>
  The TCP connection engine: \<open>src/high/connection_engine.hpp\<close> and the pause/resume extension of
  \<open>src/high/stream_connection_impl.hpp\<close>.

  The event loop thread, the user threads and the callback pool act on one connection. A step of
  \<open>conn_step\<close> is one critical section of \<open>write_mutex_\<close>, one posted task of the loop, one delivered
  I/O event, or one \<open>send\<close> of the drain loop, in any interleaving and for any answers of the
  operating system. \<open>c_interest\<close> is what the dispatcher has registered for the socket (\<open>None\<close> when
  it is not registered); a call of the dispatcher may fail, its result is ignored by the code, and
  \<open>c_io_failed\<close> records that it happened. \<open>c_callbacks\<close> are the callbacks handed to the serial
  queue. The fields \<open>c_accepted\<close>, \<open>c_sent\<close> and \<open>c_received\<close> are history: the bytes accepted from the
  user, the bytes the system has taken, the bytes it has delivered.
\<close>

section \<open>State\<close>

datatype callback = On_data "byte list" | On_close

datatype posted = Start_reading | Register_writable | Initiate_close | Pause | Resume

text \<open>Where the event loop thread is: outside, at the top of the drain loop, or in its send loop.\<close>

datatype loop_pc = Idle | Drain_top | Sending "byte list" nat

record conn =
  c_world :: world
  c_socket :: socket
  c_queue :: "byte list list"
  c_queue_bytes :: u64
  c_max :: u64
  c_registered :: bool
  c_closed :: bool
  c_paused :: bool
  c_on_data :: bool
  c_on_close :: bool
  c_read_size :: nat
  c_posted :: "posted list"
  c_interest :: "io_event option"
  c_io_failed :: bool
  c_callbacks :: "callback list"
  c_pc :: loop_pc
  c_accepted :: "byte list"
  c_sent :: "byte list"
  c_received :: "byte list"

definition conn_new :: "world \<Rightarrow> socket \<Rightarrow> nat \<Rightarrow> u64 \<Rightarrow> bool \<Rightarrow> bool \<Rightarrow> conn" where
  "conn_new w sock read_buf_size max_write_bytes on_data on_close =
     \<lparr>c_world = w, c_socket = sock, c_queue = [], c_queue_bytes = 0, c_max = max_write_bytes,
      c_registered = False, c_closed = False, c_paused = False, c_on_data = on_data, c_on_close = on_close,
      c_read_size = read_buf_size, c_posted = [], c_interest = None, c_io_failed = False,
      c_callbacks = [], c_pc = Idle, c_accepted = [], c_sent = [], c_received = []\<rparr>"

section \<open>Dispatcher calls\<close>

text \<open>
  \<open>ok\<close> is the system's answer; \<open>modify\<close> of a socket that is not registered and \<open>add\<close> of a closed
  one always fail.
\<close>

definition io_modify :: "bool \<Rightarrow> io_event \<Rightarrow> conn \<Rightarrow> conn" where
  "io_modify ok interest S =
     (case c_interest S of
        None \<Rightarrow> S
      | Some _ \<Rightarrow> if ok then S\<lparr>c_interest := Some interest\<rparr> else S\<lparr>c_io_failed := True\<rparr>)"

definition io_add :: "bool \<Rightarrow> io_event \<Rightarrow> conn \<Rightarrow> conn" where
  "io_add ok interest S =
     (if \<not> is_open (c_socket S) then S
      else if ok then S\<lparr>c_interest := Some interest\<rparr> else S\<lparr>c_io_failed := True\<rparr>)"

definition io_remove :: "conn \<Rightarrow> conn" where
  "io_remove S = S\<lparr>c_interest := None\<rparr>"

section \<open>Closing\<close>

definition initiate_close :: "kernel \<Rightarrow> platform \<Rightarrow> conn \<Rightarrow> conn" where
  "initiate_close K p S =
     (if c_closed S then S
      else
        let S1 = io_remove (S\<lparr>c_closed := True\<rparr>);
            ((ec, s'), w') = run_state (socket_close K p (c_socket S1)) (c_world S1);
            S2 = S1\<lparr>c_socket := s', c_world := w'\<rparr>
        in if c_on_close S2 then S2\<lparr>c_callbacks := c_callbacks S2 @ [On_close]\<rparr> else S2)"

definition close_from_user :: "bool \<Rightarrow> conn \<Rightarrow> conn" where
  "close_from_user seen_closed S =
     (if seen_closed then S else S\<lparr>c_posted := c_posted S @ [Initiate_close]\<rparr>)"

section \<open>Writing\<close>

text \<open>
  \<open>enqueue_send\<close>; \<open>seen_closed\<close> is what the unsynchronised load of \<open>closed_\<close> returned. The sum in
  the limit test is the wrapping sum of two \<open>size_t\<close> values.
\<close>

definition enqueue_send :: "bool \<Rightarrow> byte list \<Rightarrow> conn \<Rightarrow> bool \<times> conn" where
  "enqueue_send seen_closed data S =
     (if seen_closed \<or> length data = 0 then (False, S)
      else if c_queue_bytes S + of_nat (length data) > c_max S then (False, S)
      else
        let S1 = S\<lparr>c_queue := c_queue S @ [data], c_queue_bytes := c_queue_bytes S + of_nat (length data)\<rparr>;
            S2 = (if \<not> c_registered S1
                  then S1\<lparr>c_registered := True, c_posted := c_posted S1 @ [Register_writable]\<rparr>
                  else S1)
        in (True, S2))"

definition register_writable :: "bool \<Rightarrow> conn \<Rightarrow> conn" where
  "register_writable ok S =
     (if c_closed S then S else io_modify ok (io_or ev_readable ev_writable) S)"

text \<open>The critical section at the top of \<open>drain_write_queue\<close>.\<close>

definition drain_top :: "bool \<Rightarrow> conn \<Rightarrow> conn" where
  "drain_top ok S =
     (case c_queue S of
        [] \<Rightarrow> (io_modify ok ev_readable (S\<lparr>c_registered := False\<rparr>))\<lparr>c_pc := Idle\<rparr>
      | chunk # rest \<Rightarrow>
          S\<lparr>c_queue := rest, c_queue_bytes := c_queue_bytes S - of_nat (length chunk), c_pc := Sending chunk 0\<rparr>)"

text \<open>One iteration of the inner loop of \<open>drain_write_queue\<close>.\<close>

definition drain_send :: "kernel \<Rightarrow> platform \<Rightarrow> byte list \<Rightarrow> nat \<Rightarrow> conn \<Rightarrow> conn" where
  "drain_send K p chunk sent S =
     (if sent < length chunk
      then
        let (r, w') = run_state (tcp_send K p (c_socket S) (drop sent chunk) 0) (c_world S);
            S1 = S\<lparr>c_world := w'\<rparr>
        in (case r of
              Inl ec \<Rightarrow>
                if ec = make_error_code would_block
                then S1\<lparr>c_queue_bytes := c_queue_bytes S1 + of_nat (length (drop sent chunk)),
                        c_queue := drop sent chunk # c_queue S1, c_pc := Idle\<rparr>
                else (initiate_close K p S1)\<lparr>c_pc := Idle\<rparr>
            | Inr n \<Rightarrow> S1\<lparr>c_pc := Sending chunk (sent + n), c_sent := c_sent S1 @ take n (drop sent chunk)\<rparr>)
      else S\<lparr>c_pc := Drain_top\<rparr>)"

section \<open>Reading\<close>

definition start_reading :: "conn \<Rightarrow> conn" where
  "start_reading S = S\<lparr>c_posted := c_posted S @ [Start_reading]\<rparr>"

definition start_reading_task :: "bool \<Rightarrow> conn \<Rightarrow> conn" where
  "start_reading_task ok S =
     (let interest = (if c_queue S \<noteq> [] then io_or ev_readable ev_writable else ev_readable)
      in io_add ok interest S)"

text \<open>The readable branch of \<open>on_io_event\<close>; \<open>True\<close> when the function goes on.\<close>

definition on_readable :: "kernel \<Rightarrow> platform \<Rightarrow> conn \<Rightarrow> bool \<times> conn" where
  "on_readable K p S =
     (let (r, w') = run_state (tcp_recv K p (c_socket S) (c_read_size S) 0) (c_world S);
          S1 = S\<lparr>c_world := w'\<rparr>
      in (case r of
            Inl ec \<Rightarrow>
              if ec = make_error_code would_block then (False, S1) else (False, initiate_close K p S1)
          | Inr (n, buf) \<Rightarrow>
              if n = 0 then (False, initiate_close K p S1)
              else
                let S2 = S1\<lparr>c_received := c_received S1 @ take n buf\<rparr>
                in (True, if c_on_data S2
                          then S2\<lparr>c_callbacks := c_callbacks S2 @ [On_data (take n buf)]\<rparr> else S2)))"

text \<open>\<open>on_io_event\<close> up to the call of \<open>drain_write_queue\<close>, whose start is the next program point.\<close>

definition on_io_event :: "kernel \<Rightarrow> platform \<Rightarrow> io_event \<Rightarrow> conn \<Rightarrow> conn" where
  "on_io_event K p events S =
     (if c_closed S then S
      else if has_event events ev_error \<or> has_event events ev_hangup then initiate_close K p S
      else
        let (continue, S1) = (if has_event events ev_readable then on_readable K p S else (True, S))
        in if continue \<and> has_event events ev_writable then S1\<lparr>c_pc := Drain_top\<rparr> else S1)"

section \<open>Flow control\<close>

definition pause_from_user :: "bool \<Rightarrow> conn \<Rightarrow> conn" where
  "pause_from_user seen_closed S =
     (if seen_closed then S else S\<lparr>c_paused := True, c_posted := c_posted S @ [Pause]\<rparr>)"

definition pause_task :: "bool \<Rightarrow> conn \<Rightarrow> conn" where
  "pause_task ok S =
     (if c_closed S then S
      else
        let interest = (if c_registered S then ev_writable else ev_none)
        in if interest \<noteq> ev_none then io_modify ok interest S else io_modify ok ev_none S)"

definition resume_from_user :: "bool \<Rightarrow> conn \<Rightarrow> conn" where
  "resume_from_user seen_closed S =
     (if seen_closed then S else S\<lparr>c_paused := False, c_posted := c_posted S @ [Resume]\<rparr>)"

definition resume_task :: "bool \<Rightarrow> conn \<Rightarrow> conn" where
  "resume_task ok S =
     (if c_closed S then S
      else io_modify ok (if c_registered S then io_or ev_readable ev_writable else ev_readable) S)"

definition run_posted :: "kernel \<Rightarrow> platform \<Rightarrow> bool \<Rightarrow> posted \<Rightarrow> conn \<Rightarrow> conn" where
  "run_posted K p ok t S = (case t of
       Start_reading \<Rightarrow> start_reading_task ok S
     | Register_writable \<Rightarrow> register_writable ok S
     | Initiate_close \<Rightarrow> initiate_close K p S
     | Pause \<Rightarrow> pause_task ok S
     | Resume \<Rightarrow> resume_task ok S)"

section \<open>Interleavings\<close>

text \<open>
  A load of \<open>closed_\<close> by a user thread may be out of date: it can return \<open>False\<close> at any time and
  \<open>True\<close> only after the connection was closed. A buffer is an object, of less than \<open>2^62\<close> bytes.
\<close>

inductive conn_step :: "kernel \<Rightarrow> platform \<Rightarrow> conn \<Rightarrow> conn \<Rightarrow> bool" for K p where
  user_send: "(seen \<Longrightarrow> c_closed S) \<Longrightarrow> length data < 2 ^ 62 \<Longrightarrow> enqueue_send seen data S = (ok, S') \<Longrightarrow>
    conn_step K p S (S'\<lparr>c_accepted := c_accepted S' @ (if ok then data else [])\<rparr>)"
| user_close: "(seen \<Longrightarrow> c_closed S) \<Longrightarrow> conn_step K p S (close_from_user seen S)"
| user_start: "conn_step K p S (start_reading S)"
| user_pause: "(seen \<Longrightarrow> c_closed S) \<Longrightarrow> conn_step K p S (pause_from_user seen S)"
| user_resume: "(seen \<Longrightarrow> c_closed S) \<Longrightarrow> conn_step K p S (resume_from_user seen S)"
| loop_task: "c_pc S = Idle \<Longrightarrow> c_posted S = t # ts \<Longrightarrow>
    conn_step K p S (run_posted K p ok t (S\<lparr>c_posted := ts\<rparr>))"
| loop_event: "c_pc S = Idle \<Longrightarrow> c_interest S \<noteq> None \<Longrightarrow> conn_step K p S (on_io_event K p events S)"
| loop_drain_top: "c_pc S = Drain_top \<Longrightarrow> conn_step K p S (drain_top ok S)"
| loop_drain_send: "c_pc S = Sending chunk sent \<Longrightarrow> conn_step K p S (drain_send K p chunk sent S)"

text \<open>
  What the operating system has taken from and delivered to the program, read off the trace of
  system calls.
\<close>

fun wire_of :: "syscall \<times> sysret \<Rightarrow> byte list" where
  "wire_of (Sys_data (Send h d f), r) = (if sr_rc r < 0 then [] else take (nat (sr_rc r)) d)"
| "wire_of _ = []"

fun delivered_of :: "syscall \<times> sysret \<Rightarrow> byte list" where
  "delivered_of (Sys_data (Recv h n f), r) = (if sr_rc r < 0 then [] else take (nat (sr_rc r)) (take n (sr_data r)))"
| "delivered_of _ = []"

definition wire :: "world \<Rightarrow> byte list" where
  "wire w = concat (map wire_of (trace w))"

definition delivered :: "world \<Rightarrow> byte list" where
  "delivered w = concat (map delivered_of (trace w))"

text \<open>A connection starts on a socket that has not transferred data.\<close>

definition conn_init :: "conn \<Rightarrow> bool" where
  "conn_init S \<longleftrightarrow> (\<exists>w sock n m d c. S = conn_new w sock n m d c \<and> unat m < 2 ^ 62
     \<and> wire w = [] \<and> delivered w = [])"

text \<open>\<open>send\<close> never reports more bytes than it was given.\<close>

definition honest_send :: "kernel \<Rightarrow> bool" where
  "honest_send K \<longleftrightarrow> (\<forall>tr h d f. sr_rc (K tr (Sys_data (Send h d f))) \<le> int (length d))"

section \<open>What the operations leave alone\<close>

lemma initiate_close_simps [simp]:
  "c_queue (initiate_close K p S) = c_queue S" "c_queue_bytes (initiate_close K p S) = c_queue_bytes S"
  "c_max (initiate_close K p S) = c_max S" "c_registered (initiate_close K p S) = c_registered S"
  "c_closed (initiate_close K p S)" "c_on_data (initiate_close K p S) = c_on_data S"
  "c_on_close (initiate_close K p S) = c_on_close S" "c_posted (initiate_close K p S) = c_posted S"
  "c_io_failed (initiate_close K p S) = c_io_failed S" "c_pc (initiate_close K p S) = c_pc S"
  "c_accepted (initiate_close K p S) = c_accepted S" "c_sent (initiate_close K p S) = c_sent S"
  "c_received (initiate_close K p S) = c_received S"
  by (auto simp: initiate_close_def io_remove_def Let_def split: prod.splits)

lemma initiate_close_closed: "c_closed S \<Longrightarrow> initiate_close K p S = S"
  by (simp add: initiate_close_def)

lemma initiate_close_open:
  assumes "\<not> c_closed S"
  shows "c_interest (initiate_close K p S) = None" "\<not> is_open (c_socket (initiate_close K p S))"
    "c_callbacks (initiate_close K p S) = c_callbacks S @ (if c_on_close S then [On_close] else [])"
proof -
  obtain ec s' w' where r: "run_state (socket_close K p (c_socket S)) (c_world S) = ((ec, s'), w')"
    by (metis surj_pair)
  have "\<not> is_open s'"
    using r by (auto simp: socket_close_def is_open_def socket_default_def socket_of_def invalid_socket_def
        split: if_splits prod.splits)
  then show "c_interest (initiate_close K p S) = None" "\<not> is_open (c_socket (initiate_close K p S))"
    "c_callbacks (initiate_close K p S) = c_callbacks S @ (if c_on_close S then [On_close] else [])"
    using assms r by (auto simp: initiate_close_def io_remove_def Let_def)
qed

lemma io_simps_conn [simp]:
  "c_queue (io_modify ok e S) = c_queue S" "c_queue_bytes (io_modify ok e S) = c_queue_bytes S"
  "c_max (io_modify ok e S) = c_max S" "c_registered (io_modify ok e S) = c_registered S"
  "c_closed (io_modify ok e S) = c_closed S" "c_on_data (io_modify ok e S) = c_on_data S"
  "c_on_close (io_modify ok e S) = c_on_close S" "c_posted (io_modify ok e S) = c_posted S"
  "c_pc (io_modify ok e S) = c_pc S" "c_accepted (io_modify ok e S) = c_accepted S"
  "c_sent (io_modify ok e S) = c_sent S" "c_received (io_modify ok e S) = c_received S"
  "c_callbacks (io_modify ok e S) = c_callbacks S" "c_socket (io_modify ok e S) = c_socket S"
  "c_queue (io_add ok e S) = c_queue S" "c_queue_bytes (io_add ok e S) = c_queue_bytes S"
  "c_max (io_add ok e S) = c_max S" "c_registered (io_add ok e S) = c_registered S"
  "c_closed (io_add ok e S) = c_closed S" "c_on_data (io_add ok e S) = c_on_data S"
  "c_on_close (io_add ok e S) = c_on_close S" "c_posted (io_add ok e S) = c_posted S"
  "c_pc (io_add ok e S) = c_pc S" "c_accepted (io_add ok e S) = c_accepted S"
  "c_sent (io_add ok e S) = c_sent S" "c_received (io_add ok e S) = c_received S"
  "c_callbacks (io_add ok e S) = c_callbacks S" "c_socket (io_add ok e S) = c_socket S"
  by (auto simp: io_modify_def io_add_def split: option.splits)

lemmas task_defs = run_posted_def start_reading_task_def register_writable_def pause_task_def resume_task_def
lemmas user_defs = close_from_user_def start_reading_def pause_from_user_def resume_from_user_def

section \<open>Invariants\<close>

fun inflight :: "loop_pc \<Rightarrow> byte list" where
  "inflight (Sending chunk sent) = drop sent chunk"
| "inflight _ = []"

definition stream_inv :: "conn \<Rightarrow> bool" where
  "stream_inv S \<longleftrightarrow>
     (if c_closed S then c_pc S = Idle \<and> (\<exists>rest. c_accepted S = c_sent S @ rest)
      else c_accepted S = c_sent S @ inflight (c_pc S) @ concat (c_queue S))"

lemma on_readable_stream:
  assumes "on_readable K p S = (b, S')"
  shows "c_queue S' = c_queue S \<and> c_queue_bytes S' = c_queue_bytes S \<and> c_max S' = c_max S
    \<and> c_registered S' = c_registered S \<and> c_posted S' = c_posted S \<and> c_io_failed S' = c_io_failed S
    \<and> c_pc S' = c_pc S \<and> c_accepted S' = c_accepted S \<and> c_sent S' = c_sent S
    \<and> c_on_data S' = c_on_data S \<and> c_on_close S' = c_on_close S \<and> (b \<longrightarrow> c_closed S' = c_closed S)
    \<and> (c_closed S \<longrightarrow> c_closed S')"
  using assms by (auto simp: on_readable_def Let_def split: prod.splits sum.splits if_splits)

lemma stream_step: "conn_step K p S S' \<Longrightarrow> stream_inv S \<Longrightarrow> stream_inv S'"
proof (induction rule: conn_step.induct)
  case (user_send seen S data ok S')
  then show ?case by (auto simp: stream_inv_def enqueue_send_def Let_def split: if_splits)
next
  case (loop_task S t ts ok)
  then show ?case by (cases t) (auto simp: stream_inv_def task_defs Let_def split: if_splits)
next
  case (loop_event S events)
  then show ?case
    by (auto simp: stream_inv_def on_io_event_def Let_def split: prod.splits if_splits dest!: on_readable_stream)
next
  case (loop_drain_top S ok)
  then show ?case by (cases "c_queue S") (auto simp: stream_inv_def drain_top_def)
next
  case (loop_drain_send S chunk sent)
  have app: "take n (drop sent chunk) @ drop (sent + n) chunk = drop sent chunk" for n
    by (metis append_take_drop_id drop_drop add.commute)
  from loop_drain_send show ?case
    by (auto simp: stream_inv_def drain_send_def app Let_def split: prod.splits sum.splits if_splits)
qed (auto simp: stream_inv_def user_defs)

fun sending :: "loop_pc \<Rightarrow> bool" where
  "sending (Sending chunk sent) = True"
| "sending _ = False"

fun chunk_length :: "loop_pc \<Rightarrow> nat" where
  "chunk_length (Sending chunk sent) = length chunk"
| "chunk_length _ = 0"

definition acct_inv :: "conn \<Rightarrow> bool" where
  "acct_inv S \<longleftrightarrow> sum_list (map length (c_queue S)) = unat (c_queue_bytes S)
     \<and> unat (c_max S) < 2 ^ 62
     \<and> (\<forall>c \<in> set (c_queue S). length c \<le> unat (c_max S))
     \<and> sum_list (map length (tl (c_queue S))) \<le> unat (c_max S)
     \<and> chunk_length (c_pc S) \<le> unat (c_max S)
     \<and> (sending (c_pc S) \<longrightarrow> sum_list (map length (c_queue S)) \<le> unat (c_max S))"

lemma unat_add_small:
  fixes b :: u64
  assumes "unat b + n < 2 ^ 64"
  shows "unat (b + of_nat n) = unat b + n"
proof -
  have "unat (of_nat n :: u64) = n" using assms by (simp add: unat_of_nat)
  then show ?thesis using assms unat_add_lem [of b "of_nat n"] by simp
qed

lemma unat_sub_small:
  fixes b :: u64
  assumes "n \<le> unat b"
  shows "unat (b - of_nat n) = unat b - n"
proof -
  have "unat b < 2 ^ LENGTH(64)" by (rule unsigned_less)
  with assms have "n < 2 ^ 64" by simp
  then have n: "unat (of_nat n :: u64) = n" by (simp add: unat_of_nat)
  then have "(of_nat n :: u64) \<le> b" using assms by (simp add: word_le_nat_alt)
  then show ?thesis using n by (simp add: unat_sub)
qed

lemma acct_bound:
  assumes "acct_inv S"
  shows "unat (c_queue_bytes S) \<le> 2 * unat (c_max S)"
  using assms by (cases "c_queue S") (auto simp: acct_inv_def)

lemma acct_enqueue:
  assumes inv: "acct_inv S" and len: "length data < 2 ^ 62" and e: "enqueue_send seen data S = (ok, S')"
  shows "acct_inv S' \<and> (ok \<longrightarrow> unat (c_queue_bytes S') = unat (c_queue_bytes S) + length data
    \<and> unat (c_queue_bytes S') \<le> unat (c_max S))"
proof -
  have "unat (c_queue_bytes S) + length data < 2 ^ 64"
    using acct_bound [OF inv] len inv by (simp add: acct_inv_def)
  then have sum: "unat (c_queue_bytes S + of_nat (length data)) = unat (c_queue_bytes S) + length data"
    by (rule unat_add_small)
  have "unat (c_queue_bytes S) + length data \<le> unat (c_max S)" if ok
    using e that sum by (auto simp: enqueue_send_def word_less_nat_alt split: if_splits)
  moreover have "sum_list (map length (tl (c_queue S @ [data]))) \<le> sum_list (map length (c_queue S)) + length data"
    by (cases "c_queue S") auto
  ultimately show ?thesis
    using inv e sum by (auto simp: acct_inv_def enqueue_send_def Let_def split: if_splits)
qed

lemma acct_drain_top:
  assumes "acct_inv S" and "c_pc S = Drain_top"
  shows "acct_inv (drain_top ok S)"
proof (cases "c_queue S")
  case Nil
  then show ?thesis using assms by (simp add: acct_inv_def drain_top_def)
next
  case (Cons chunk rest)
  then have "length chunk + sum_list (map length rest) = unat (c_queue_bytes S)"
    using assms(1) by (simp add: acct_inv_def)
  then have "unat (c_queue_bytes S - of_nat (length chunk)) = sum_list (map length rest)"
    using unat_sub_small [of "length chunk" "c_queue_bytes S"] by linarith
  moreover have "sum_list (map length (tl rest)) \<le> sum_list (map length rest)" by (cases rest) auto
  ultimately show ?thesis using assms Cons by (auto simp: acct_inv_def drain_top_def)
qed

lemma acct_push_back:
  assumes "acct_inv S" and "c_pc S = Sending chunk sent"
  shows "acct_inv (S\<lparr>c_queue_bytes := c_queue_bytes S + of_nat (length (drop sent chunk)),
     c_queue := drop sent chunk # c_queue S, c_pc := Idle\<rparr>)"
proof -
  have "unat (c_queue_bytes S) \<le> unat (c_max S)" "length chunk \<le> unat (c_max S)" "unat (c_max S) < 2 ^ 62"
    using assms by (simp_all add: acct_inv_def)
  then have "unat (c_queue_bytes S) + length (drop sent chunk) < 2 ^ 64" by simp
  from unat_add_small [OF this] show ?thesis using assms by (auto simp: acct_inv_def)
qed

lemma acct_cong:
  assumes "c_queue S' = c_queue S" "c_queue_bytes S' = c_queue_bytes S" "c_max S' = c_max S"
    and "c_pc S' = c_pc S \<or> \<not> sending (c_pc S')"
  shows "acct_inv S \<Longrightarrow> acct_inv S'"
  using assms by (cases "c_pc S'") (auto simp: acct_inv_def)

lemma acct_drain_send:
  assumes inv: "acct_inv S" and pc: "c_pc S = Sending chunk sent"
  shows "acct_inv (drain_send K p chunk sent S)"
proof (cases "sent < length chunk")
  case False
  then show ?thesis by (intro acct_cong [OF _ _ _ _ inv]) (simp_all add: drain_send_def)
next
  case True
  obtain r w' where r: "run_state (tcp_send K p (c_socket S) (drop sent chunk) 0) (c_world S) = (r, w')"
    by (metis surj_pair)
  have inv': "acct_inv (S\<lparr>c_world := w'\<rparr>)" by (rule acct_cong [OF _ _ _ _ inv]) simp_all
  show ?thesis
  proof (cases r)
    case (Inl ec)
    then show ?thesis using True r acct_push_back [OF inv', of chunk sent] pc acct_cong [OF _ _ _ _ inv']
      by (cases "ec = make_error_code would_block") (simp_all add: drain_send_def)
  next
    case (Inr n)
    then show ?thesis using True r inv pc by (simp add: drain_send_def acct_inv_def)
  qed
qed

lemma acct_event:
  assumes inv: "acct_inv S" and pc: "c_pc S = Idle"
  shows "acct_inv (on_io_event K p events S)"
proof -
  obtain b S1 where r: "on_readable K p S = (b, S1)" by (metis surj_pair)
  note fr = on_readable_stream [OF r]
  show ?thesis
    by (rule acct_cong [OF _ _ _ _ inv]) (use fr pc r in \<open>auto simp: on_io_event_def\<close>)
qed

lemma acct_step: "conn_step K p S S' \<Longrightarrow> acct_inv S \<Longrightarrow> acct_inv S'"
proof (induction rule: conn_step.induct)
  case (user_send seen S data ok S')
  from acct_enqueue [OF user_send(4,2,3)] have "acct_inv S'" by blast
  then show ?case by (rule acct_cong [rotated 4]) simp_all
next
  case (loop_task S t ts ok)
  show ?case by (rule acct_cong [OF _ _ _ _ loop_task(3)]) (cases t; simp add: task_defs Let_def)+
next
  case (loop_event S events)
  then show ?case by (intro acct_event)
next
  case (loop_drain_top S ok)
  then show ?case by (intro acct_drain_top)
next
  case (loop_drain_send S chunk sent)
  then show ?case by (intro acct_drain_send)
qed (erule acct_cong [rotated 4]; simp add: user_defs)+

text \<open>
  Queued bytes are always looked after: writable interest has been requested and is registered
  or on its way.
\<close>

definition armed :: "conn \<Rightarrow> bool" where
  "armed S \<longleftrightarrow> c_interest S = None \<or> Register_writable \<in> set (c_posted S)
     \<or> (\<exists>e. c_interest S = Some e \<and> has_event e ev_writable)"

definition wake_inv :: "conn \<Rightarrow> bool" where
  "wake_inv S \<longleftrightarrow> (\<not> c_closed S \<longrightarrow>
     (c_queue S \<noteq> [] \<longrightarrow> c_registered S)
     \<and> (c_pc S = Idle \<and> c_registered S \<longrightarrow> c_queue S \<noteq> [])
     \<and> (sending (c_pc S) \<longrightarrow> c_registered S)
     \<and> (c_registered S \<and> \<not> c_io_failed S \<longrightarrow> armed S))"

lemma on_readable_wake:
  assumes "on_readable K p S = (b, S')" and "\<not> c_closed S'"
  shows "c_interest S' = c_interest S"
  using assms by (auto simp: on_readable_def Let_def split: prod.splits sum.splits if_splits)

lemma io_modify_wake:
  "c_interest (io_modify ok e S) = (case c_interest S of None \<Rightarrow> None | Some i \<Rightarrow> Some (if ok then e else i))"
  "c_io_failed (io_modify ok e S) = (c_io_failed S \<or> (c_interest S \<noteq> None \<and> \<not> ok))"
  by (auto simp: io_modify_def split: option.splits)

lemma io_add_wake:
  "c_interest (io_add ok e S) = (if is_open (c_socket S) \<and> ok then Some e else c_interest S)"
  "c_io_failed (io_add ok e S) = (c_io_failed S \<or> (is_open (c_socket S) \<and> \<not> ok))"
  by (auto simp: io_add_def)

lemma armed_modify:
  "has_event e ev_writable \<Longrightarrow> ok \<Longrightarrow> armed (io_modify ok e S)"
  "c_interest S = None \<Longrightarrow> armed (io_modify ok e S)"
  by (auto simp: armed_def io_modify_wake split: option.splits)

lemma wake_modify:
  assumes "wake_inv S" and "c_pc S = Idle" and "c_registered S \<Longrightarrow> has_event e ev_writable"
  shows "wake_inv (io_modify ok e (S\<lparr>c_posted := ts\<rparr>))"
proof (cases "c_interest S")
  case None
  then show ?thesis using assms armed_modify(2) [of "S\<lparr>c_posted := ts\<rparr>" ok e]
    by (auto simp: wake_inv_def io_modify_wake)
next
  case (Some i)
  then show ?thesis using assms armed_modify(1) [of e ok "S\<lparr>c_posted := ts\<rparr>"]
    by (auto simp: wake_inv_def io_modify_wake)
qed

lemma wake_task:
  assumes inv: "wake_inv S" and pc: "c_pc S = Idle" and po: "c_posted S = t # ts"
  shows "wake_inv (run_posted K p ok t (S\<lparr>c_posted := ts\<rparr>))"
proof (cases "c_closed S")
  case True
  then show ?thesis using assms
    by (cases t) (auto simp: wake_inv_def task_defs Let_def initiate_close_closed)
next
  case False
  have none: "ev_writable \<noteq> ev_none" using has_event_flags(2) has_event_none by metis
  show ?thesis
  proof (cases t)
    case Start_reading
    then show ?thesis using assms False
      by (auto simp: wake_inv_def armed_def task_defs Let_def io_add_wake has_event_or)
  next
    case Initiate_close
    then show ?thesis by (simp add: wake_inv_def task_defs)
  next
    case Pause
    then show ?thesis
      using False none wake_modify [OF inv pc, of ev_writable ok ts] wake_modify [OF inv pc, of ev_none ok ts]
      by (auto simp: task_defs Let_def)
  next
    case Register_writable
    then show ?thesis
      using False wake_modify [OF inv pc, of "io_or ev_readable ev_writable" ok ts]
      by (simp add: task_defs has_event_or)
  next
    case Resume
    then show ?thesis
      using False wake_modify [OF inv pc, of "io_or ev_readable ev_writable" ok ts]
        wake_modify [OF inv pc, of ev_readable ok ts]
      by (auto simp: task_defs has_event_or)
  qed
qed

lemma wake_send:
  assumes "wake_inv S" and "enqueue_send seen data S = (ok, S')"
  shows "wake_inv S'"
  using assms by (cases "c_registered S") (auto simp: wake_inv_def armed_def enqueue_send_def Let_def split: if_splits)

lemma wake_event:
  assumes "wake_inv S" and "c_pc S = Idle"
  shows "wake_inv (on_io_event K p events S)"
proof -
  obtain b S1 where r: "on_readable K p S = (b, S1)" by (metis surj_pair)
  have "wake_inv S1"
    using on_readable_stream [OF r] on_readable_wake [OF r] assms by (auto simp: wake_inv_def armed_def)
  moreover have "wake_inv (T\<lparr>c_pc := Drain_top\<rparr>)" if "wake_inv T" for T
    using that by (simp add: wake_inv_def armed_def)
  ultimately show ?thesis
    using assms r by (auto simp: on_io_event_def wake_inv_def [of "initiate_close K p S"])
qed

lemma wake_drain_send:
  assumes inv: "wake_inv S" and pc: "c_pc S = Sending chunk sent"
  shows "wake_inv (drain_send K p chunk sent S)"
proof (cases "sent < length chunk")
  case False
  then show ?thesis using assms by (simp add: drain_send_def wake_inv_def armed_def)
next
  case True
  obtain r w' where r: "run_state (tcp_send K p (c_socket S) (drop sent chunk) 0) (c_world S) = (r, w')"
    by (metis surj_pair)
  show ?thesis
  proof (cases r)
    case (Inl ec)
    then show ?thesis using True r inv pc
      by (cases "ec = make_error_code would_block") (simp_all add: drain_send_def wake_inv_def armed_def)
  next
    case (Inr n)
    then show ?thesis using True r inv pc by (simp add: drain_send_def wake_inv_def armed_def)
  qed
qed

lemma wake_drain_top:
  assumes "wake_inv S" and "c_pc S = Drain_top"
  shows "wake_inv (drain_top ok S)"
proof (cases "c_queue S")
  case Nil
  then show ?thesis using assms by (simp add: wake_inv_def drain_top_def)
next
  case (Cons chunk rest)
  then show ?thesis using assms by (simp add: wake_inv_def armed_def drain_top_def)
qed

text \<open>A posted task never takes the arming away.\<close>

lemma armed_post: "armed S \<Longrightarrow> armed (S\<lparr>c_posted := c_posted S @ [t]\<rparr>)"
  by (auto simp: armed_def)

lemma wake_post:
  assumes "wake_inv S"
  shows "wake_inv (S\<lparr>c_posted := c_posted S @ [t]\<rparr>)"
  using assms armed_post [of S t] by (simp add: wake_inv_def)

lemma wake_paused: "wake_inv (S\<lparr>c_paused := b\<rparr>) = wake_inv S"
  by (simp add: wake_inv_def armed_def)

lemma wake_paused_post:
  assumes "wake_inv S"
  shows "wake_inv (S\<lparr>c_paused := b, c_posted := c_posted S @ [t]\<rparr>)"
proof -
  have "wake_inv (S\<lparr>c_paused := b\<rparr>)" using assms by (simp only: wake_paused)
  from wake_post [OF this, of t] show ?thesis by simp
qed

lemma wake_close_from_user: "wake_inv S \<Longrightarrow> wake_inv (close_from_user seen S)"
  unfolding close_from_user_def by (cases seen) (simp_all only: if_True if_False, rule wake_post)

lemma wake_start_reading: "wake_inv S \<Longrightarrow> wake_inv (start_reading S)"
  unfolding start_reading_def by (rule wake_post)

lemma wake_pause: "wake_inv S \<Longrightarrow> wake_inv (pause_from_user seen S)"
  unfolding pause_from_user_def by (cases seen) (simp_all only: if_True if_False, rule wake_paused_post)

lemma wake_resume: "wake_inv S \<Longrightarrow> wake_inv (resume_from_user seen S)"
  unfolding resume_from_user_def by (cases seen) (simp_all only: if_True if_False, rule wake_paused_post)

lemmas wake_user = wake_close_from_user wake_start_reading wake_pause wake_resume

lemma wake_step: "conn_step K p S S' \<Longrightarrow> wake_inv S \<Longrightarrow> wake_inv S'"
proof (induction rule: conn_step.induct)
  case (user_send seen S data ok S')
  from wake_send [OF user_send(4,3)] have "wake_inv S'" .
  then show ?case by (simp add: wake_inv_def armed_def)
next
  case (loop_task S t ts ok)
  then show ?case by (intro wake_task)
next
  case (loop_event S events)
  then show ?case by (intro wake_event)
next
  case (loop_drain_top S ok)
  then show ?case by (intro wake_drain_top)
next
  case (loop_drain_send S chunk sent)
  then show ?case by (intro wake_drain_send)
qed (erule wake_user)+

text \<open>
  The callbacks handed to the serial queue are the received chunks in order, followed by one
  \<open>on_close\<close> once the connection is closed; a closed connection has no socket and no registration.
\<close>

definition cb_log :: "conn \<Rightarrow> byte list list \<Rightarrow> bool" where
  "cb_log S ds \<longleftrightarrow> c_callbacks S = map On_data ds @ (if c_closed S \<and> c_on_close S then [On_close] else [])
     \<and> concat ds = (if c_on_data S then c_received S else [])"

definition cb_inv :: "conn \<Rightarrow> bool" where
  "cb_inv S \<longleftrightarrow> (\<exists>ds. cb_log S ds) \<and> (c_closed S \<longrightarrow> c_interest S = None \<and> \<not> is_open (c_socket S))
     \<and> (\<not> c_on_data S \<longrightarrow> (\<forall>d. On_data d \<notin> set (c_callbacks S)))"

lemma cb_cong:
  assumes "c_callbacks S' = c_callbacks S" "c_closed S' = c_closed S" "c_on_close S' = c_on_close S"
    "c_on_data S' = c_on_data S" "c_received S' = c_received S"
    and "c_closed S \<Longrightarrow> c_interest S' = c_interest S \<and> c_socket S' = c_socket S"
  shows "cb_inv S \<Longrightarrow> cb_inv S'"
proof -
  have "cb_log S' = cb_log S" using assms by (intro ext) (simp add: cb_log_def)
  then show "cb_inv S \<Longrightarrow> cb_inv S'" using assms by (auto simp: cb_inv_def)
qed

lemma cb_close:
  assumes "cb_inv S"
  shows "cb_inv (initiate_close K p S)"
proof (cases "c_closed S")
  case True
  then show ?thesis using assms by (simp add: initiate_close_closed)
next
  case False
  obtain ds where "cb_log S ds" using assms by (auto simp: cb_inv_def)
  then have "cb_log (initiate_close K p S) ds"
    using False by (simp add: cb_log_def initiate_close_open)
  then show ?thesis using False assms by (auto simp: cb_inv_def initiate_close_open)
qed

lemma cb_world: "cb_inv (S\<lparr>c_world := w\<rparr>) = cb_inv S" "cb_inv (S\<lparr>c_pc := q\<rparr>) = cb_inv S"
  by (simp_all add: cb_inv_def cb_log_def)

lemma cb_data:
  assumes inv: "cb_inv S" and open': "\<not> c_closed S"
  shows "c_on_data S \<Longrightarrow> cb_inv (S\<lparr>c_received := c_received S @ d, c_callbacks := c_callbacks S @ [On_data d]\<rparr>)"
    "\<not> c_on_data S \<Longrightarrow> cb_inv (S\<lparr>c_received := c_received S @ d\<rparr>)"
proof -
  obtain ds where ds: "cb_log S ds" using inv by (auto simp: cb_inv_def)
  then show "cb_inv (S\<lparr>c_received := c_received S @ d\<rparr>)" if "\<not> c_on_data S"
    using that inv by (auto simp: cb_inv_def cb_log_def)
  assume on: "c_on_data S"
  then have "cb_log (S\<lparr>c_received := c_received S @ d, c_callbacks := c_callbacks S @ [On_data d]\<rparr>) (ds @ [d])"
    using ds open' by (simp add: cb_log_def)
  then show "cb_inv (S\<lparr>c_received := c_received S @ d, c_callbacks := c_callbacks S @ [On_data d]\<rparr>)"
    using open' on unfolding cb_inv_def by auto
qed

lemma cb_readable:
  assumes inv: "cb_inv S" and open': "\<not> c_closed S" and r: "on_readable K p S = (b, S')"
  shows "cb_inv S'"
proof -
  obtain r w where t: "run_state (tcp_recv K p (c_socket S) (c_read_size S) 0) (c_world S) = (r, w)"
    by (metis surj_pair)
  have inv': "cb_inv (S\<lparr>c_world := w\<rparr>)" using inv by (simp only: cb_world)
  show ?thesis
  proof (cases r)
    case (Inl ec)
    then show ?thesis using r t inv' cb_close [OF inv']
      by (auto simp: on_readable_def Let_def split: if_splits)
  next
    case (Inr a)
    then show ?thesis using r t cb_close [OF inv'] cb_data [OF inv'] open'
      by (cases a) (auto simp: on_readable_def Let_def split: if_splits)
  qed
qed

lemma cb_event:
  assumes inv: "cb_inv S"
  shows "cb_inv (on_io_event K p events S)"
proof (cases "c_closed S")
  case True
  then show ?thesis using inv by (simp add: on_io_event_def)
next
  case False
  obtain b S1 where r: "on_readable K p S = (b, S1)" by (metis surj_pair)
  with cb_readable [OF inv False r] show ?thesis
    using inv False cb_close [OF inv] by (simp add: on_io_event_def cb_world)
qed

lemma cb_drain_send:
  assumes "cb_inv S"
  shows "cb_inv (drain_send K p chunk sent S)"
proof (cases "sent < length chunk")
  case False
  then show ?thesis using assms by (simp add: drain_send_def cb_world)
next
  case True
  obtain r w where t: "run_state (tcp_send K p (c_socket S) (drop sent chunk) 0) (c_world S) = (r, w)"
    by (metis surj_pair)
  have inv': "cb_inv (S\<lparr>c_world := w\<rparr>)" using assms by (simp only: cb_world)
  show ?thesis
  proof (cases r)
    case (Inl ec)
    show ?thesis
    proof (cases "ec = make_error_code would_block")
      case True
      show ?thesis by (rule cb_cong [OF _ _ _ _ _ _ assms])
        (use True Inl t in \<open>simp_all add: drain_send_def\<close>)
    next
      case f: False
      then show ?thesis using True Inl t cb_close [OF inv'] by (simp add: drain_send_def cb_world)
    qed
  next
    case (Inr n)
    show ?thesis by (rule cb_cong [OF _ _ _ _ _ _ assms]) (use True Inr t in \<open>simp_all add: drain_send_def\<close>)
  qed
qed

lemma cb_task:
  assumes inv: "cb_inv S" and po: "c_posted S = t # ts"
  shows "cb_inv (run_posted K p ok t (S\<lparr>c_posted := ts\<rparr>))"
proof -
  have inv': "cb_inv (S\<lparr>c_posted := ts\<rparr>)" using inv by (rule cb_cong [rotated 6]) simp_all
  have closed: "\<not> is_open (c_socket S)" if "c_closed S" using inv that by (simp add: cb_inv_def)
  show ?thesis
  proof (cases "t = Initiate_close")
    case True
    then show ?thesis using cb_close [OF inv'] by (simp add: run_posted_def)
  next
    case False
    show ?thesis
      by (rule cb_cong [OF _ _ _ _ _ _ inv'])
        (use False closed in \<open>cases t; simp add: task_defs Let_def io_add_wake; fail\<close>)+
  qed
qed

lemma cb_step: "conn_step K p S S' \<Longrightarrow> cb_inv S \<Longrightarrow> cb_inv S'"
proof (induction rule: conn_step.induct)
  case (user_send seen S data ok S')
  have "cb_inv S'" by (rule cb_cong [OF _ _ _ _ _ _ user_send(4)])
    (use user_send(3) in \<open>auto simp: enqueue_send_def Let_def split: if_splits\<close>)
  then show ?case by (rule cb_cong [rotated 6]) simp_all
next
  case (loop_task S t ts ok)
  then show ?case by (intro cb_task)
next
  case (loop_event S events)
  then show ?case by (intro cb_event)
next
  case (loop_drain_top S ok)
  show ?case by (rule cb_cong [OF _ _ _ _ _ _ loop_drain_top(2)])
    (use loop_drain_top in \<open>auto simp: drain_top_def cb_inv_def io_modify_def split: list.splits option.splits\<close>)
next
  case (loop_drain_send S chunk sent)
  then show ?case by (intro cb_drain_send)
qed (erule cb_cong [rotated 6]; simp add: user_defs)+

text \<open>The history fields agree with the trace of system calls.\<close>

definition hist_inv :: "conn \<Rightarrow> bool" where
  "hist_inv S \<longleftrightarrow> wire (c_world S) = c_sent S \<and> delivered (c_world S) = c_received S"

lemma socket_close_history:
  assumes "run_state (socket_close K p s) w = (x, w')"
  shows "wire w' = wire w \<and> delivered w' = delivered w"
  using assms by (auto simp: socket_close_def io_simps close_call_def wire_def delivered_def split: if_splits)

lemma initiate_close_history [simp]:
  "wire (c_world (initiate_close K p S)) = wire (c_world S)"
  "delivered (c_world (initiate_close K p S)) = delivered (c_world S)"
proof -
  obtain x w' where r: "run_state (socket_close K p (c_socket S)) (c_world S) = (x, w')" by (metis surj_pair)
  from socket_close_history [OF r] r
  show "wire (c_world (initiate_close K p S)) = wire (c_world S)"
    "delivered (c_world (initiate_close K p S)) = delivered (c_world S)"
    by (simp_all add: initiate_close_def io_remove_def Let_def split: prod.splits)
qed

lemma tcp_send_history:
  assumes "honest_send K" and "run_state (tcp_send K p s d 0) w = (r, w')"
  shows "delivered w' = delivered w \<and> wire w' = wire w @ (case r of Inl _ \<Rightarrow> [] | Inr n \<Rightarrow> take n d)"
proof -
  have le: "nat (sr_rc (K tr (Sys_data (Send h d f)))) \<le> length d" for tr h d f
    using assms(1) by (simp add: honest_send_def nat_le_iff)
  have "min (nat (sr_rc (K tr (Sys_data (Send h (take m d) f))))) m = nat (sr_rc (K tr (Sys_data (Send h (take m d) f))))"
    for tr h m f using le [of tr h "take m d" f] by simp
  then show ?thesis
    using assms(2) by (auto simp: tcp_send_def io_simps wire_def delivered_def min.commute split: if_splits platform.splits)
qed

lemma tcp_recv_history:
  assumes "run_state (tcp_recv K p s len 0) w = (r, w')"
  shows "wire w' = wire w \<and> delivered w' = delivered w @ (case r of Inl _ \<Rightarrow> [] | Inr (n, b) \<Rightarrow> take n b)"
  using assms by (auto simp: tcp_recv_def io_simps wire_def delivered_def Let_def split: if_splits)

lemma hist_readable:
  assumes "hist_inv S" and "on_readable K p S = (b, S')"
  shows "hist_inv S'"
proof -
  obtain r w where t: "run_state (tcp_recv K p (c_socket S) (c_read_size S) 0) (c_world S) = (r, w)"
    by (metis surj_pair)
  from tcp_recv_history [OF t] t assms show ?thesis
    by (auto simp: hist_inv_def on_readable_def Let_def split: sum.splits prod.splits if_splits)
qed

lemma hist_cong:
  assumes "c_world S' = c_world S" "c_sent S' = c_sent S" "c_received S' = c_received S"
  shows "hist_inv S \<Longrightarrow> hist_inv S'"
  using assms by (simp add: hist_inv_def)

lemma hist_drain_send:
  assumes "honest_send K" and "hist_inv S"
  shows "hist_inv (drain_send K p chunk sent S)"
proof -
  obtain r w where t: "run_state (tcp_send K p (c_socket S) (drop sent chunk) 0) (c_world S) = (r, w)"
    by (metis surj_pair)
  from tcp_send_history [OF assms(1) t] t assms(2) show ?thesis
    by (cases r) (simp_all add: hist_inv_def drain_send_def Let_def)
qed

lemma io_world [simp]: "c_world (io_modify ok e S) = c_world S" "c_world (io_add ok e S) = c_world S"
  by (simp_all add: io_modify_def io_add_def split: option.splits)

lemma hist_task: "hist_inv S \<Longrightarrow> hist_inv (run_posted K p ok t (S\<lparr>c_posted := ts\<rparr>))"
  by (cases t) (simp_all add: hist_inv_def task_defs Let_def)

lemma hist_event:
  assumes "hist_inv S"
  shows "hist_inv (on_io_event K p events S)"
proof -
  obtain b S1 where r: "on_readable K p S = (b, S1)" by (metis surj_pair)
  from hist_readable [OF assms r] assms r show ?thesis by (simp add: on_io_event_def hist_inv_def)
qed

lemma hist_step: "conn_step K p S S' \<Longrightarrow> honest_send K \<Longrightarrow> hist_inv S \<Longrightarrow> hist_inv S'"
proof (induction rule: conn_step.induct)
  case (user_send seen S data ok S')
  show ?case by (rule hist_cong [OF _ _ _ user_send(5)])
    (use user_send(3) in \<open>auto simp: enqueue_send_def Let_def split: if_splits\<close>)
next
  case (loop_task S t ts ok)
  then show ?case by (intro hist_task)
next
  case (loop_event S events)
  then show ?case by (intro hist_event)
next
  case (loop_drain_top S ok)
  then show ?case by (cases "c_queue S") (simp_all add: hist_inv_def drain_top_def)
next
  case (loop_drain_send S chunk sent)
  then show ?case by (intro hist_drain_send)
qed (erule hist_cong [rotated 3]; simp add: user_defs)+

section \<open>Correctness of the connection\<close>

definition conn_inv :: "conn \<Rightarrow> bool" where
  "conn_inv S \<longleftrightarrow> stream_inv S \<and> acct_inv S \<and> wake_inv S \<and> cb_inv S"

lemma conn_init_inv: "conn_init S \<Longrightarrow> conn_inv S \<and> hist_inv S"
  by (auto simp: conn_init_def conn_new_def conn_inv_def stream_inv_def acct_inv_def wake_inv_def armed_def
      cb_inv_def cb_log_def hist_inv_def)

interpretation conn: invariant_system conn_init "conn_step K p" conn_inv for K p
  by unfold_locales
    (auto simp: conn_init_inv conn_inv_def intro: stream_step acct_step wake_step cb_step dest: conn_init_inv)

text \<open>The agreement with the trace needs the contract of \<open>send\<close>.\<close>

lemma conn_hist:
  assumes "honest_send K" and "reachable conn_init (conn_step K p) S"
  shows "hist_inv S"
  using assms(2,1) by (induction rule: reachable.induct) (auto dest: conn_init_inv hist_step)

section \<open>A sample run\<close>

text \<open>
  An operating system that takes every byte and delivers one byte per \<open>recv\<close>, and the run in which
  the user sends two bytes, the connection starts, and one event reads and drains.
\<close>

definition echo_kernel :: kernel where
  "echo_kernel tr c = (case c of
       Sys_data (Send h d f) \<Rightarrow> sys_ok\<lparr>sr_rc := int (length d)\<rparr>
     | Sys_data (Recv h n f) \<Rightarrow> sys_ok\<lparr>sr_rc := 1, sr_data := [7]\<rparr>
     | _ \<Rightarrow> sys_ok)"

lemma honest_echo_kernel: "honest_send echo_kernel"
  by (simp add: honest_send_def echo_kernel_def)

definition sample_start :: "u64 \<Rightarrow> conn" where
  "sample_start m = conn_new start_world (socket_of 3) 16 m True True"

lemma sample_init: "unat m < 2 ^ 62 \<Longrightarrow> conn_init (sample_start m)"
  unfolding conn_init_def sample_start_def
  by (intro exI [of _ start_world] exI [of _ "socket_of 3"] exI [of _ 16] exI [of _ m] exI [of _ True])
    (simp add: start_world_def wire_def delivered_def)

text \<open>One accepted \<open>send\<close> of the user, as a step.\<close>

lemma reach_send:
  assumes "reachable conn_init (conn_step K p) S" and "length d < 2 ^ 62" and "d \<noteq> []"
    and "c_queue_bytes S + of_nat (length d) \<le> c_max S"
  shows "reachable conn_init (conn_step K p)
    ((snd (enqueue_send False d S))\<lparr>c_accepted := c_accepted S @ d\<rparr>)"
proof -
  obtain T where T: "enqueue_send False d S = (True, T)" and "c_accepted T = c_accepted S"
    using assms(3,4) unfolding enqueue_send_def Let_def not_le [symmetric] by (simp split: if_split_asm)
  from conn_step.user_send [OF _ assms(2) T, of K p] reach_step [OF assms(1)] show ?thesis
    using T \<open>c_accepted T = c_accepted S\<close> by auto
qed

lemmas sample_simps = sample_start_def conn_new_def enqueue_send_def start_reading_def task_defs io_add_def
  io_modify_def is_open_def socket_of_def invalid_socket_def Let_def

lemma sample_queued:
  "\<exists>S. reachable conn_init (conn_step K p) S \<and> c_accepted S = [1, 2] \<and> c_queue S = [[1, 2]] \<and> c_pc S = Idle
     \<and> \<not> c_closed S \<and> c_interest S = Some (io_or ev_readable ev_writable) \<and> \<not> c_io_failed S \<and> c_on_data S
     \<and> c_registered S \<and> c_max S = 4 \<and> c_socket S = socket_of 3 \<and> c_world S = start_world \<and> c_read_size S = 16
     \<and> c_callbacks S = [] \<and> c_queue_bytes S = 2 \<and> c_on_close S \<and> c_sent S = [] \<and> c_received S = []"
proof -
  let ?P = "reachable conn_init (conn_step K p)"
  have "?P (sample_start 4)" by (simp add: reach_init sample_init)
  from reach_send [OF this, of "[1, 2]"] obtain A where A: "?P A"
    and dA: "A = (snd (enqueue_send False [1, 2] (sample_start 4)))\<lparr>c_accepted := [1, 2]\<rparr>"
    by (simp add: sample_start_def conn_new_def)
  from A have B: "?P (start_reading A)" by (rule reach_step) (rule conn_step.user_start)
  have pB: "c_pc (start_reading A) = Idle" "c_posted (start_reading A) = [Register_writable, Start_reading]"
    by (simp_all add: dA sample_simps)
  let ?C = "run_posted K p True Register_writable ((start_reading A)\<lparr>c_posted := [Start_reading]\<rparr>)"
  from B have C: "?P ?C" by (rule reach_step) (rule conn_step.loop_task [OF pB])
  have pC: "c_pc ?C = Idle" "c_posted ?C = [Start_reading]" by (simp_all add: dA sample_simps)
  let ?D = "run_posted K p True Start_reading (?C\<lparr>c_posted := []\<rparr>)"
  from C have "?P ?D" by (rule reach_step) (rule conn_step.loop_task [OF pC])
  then show ?thesis by (intro exI [of _ ?D]) (simp add: dA sample_simps)
qed

lemma sample_run:
  "\<exists>S. reachable conn_init (conn_step echo_kernel Linux) S \<and> c_accepted S = [1, 2] \<and> c_queue S = []
     \<and> c_pc S = Sending [1, 2] 2 \<and> \<not> c_closed S \<and> c_callbacks S = [On_data [7]] \<and> c_on_data S
     \<and> wire (c_world S) = [1, 2] \<and> delivered (c_world S) = [7]"
proof -
  let ?P = "reachable conn_init (conn_step echo_kernel Linux)"
  obtain S where S: "?P S" and d: "c_accepted S = [1, 2]" "c_queue S = [[1, 2]]" "c_pc S = Idle" "\<not> c_closed S"
    "c_interest S = Some (io_or ev_readable ev_writable)" "c_on_data S" "c_socket S = socket_of 3"
    "c_world S = start_world" "c_read_size S = 16" "c_callbacks S = []"
    using sample_queued [of echo_kernel Linux] by blast
  let ?E = "on_io_event echo_kernel Linux (io_or ev_readable ev_writable) S"
  from S have E: "?P ?E" by (rule reach_step) (rule conn_step.loop_event; simp add: d)
  have dE: "c_pc ?E = Drain_top" "c_queue ?E = [[1, 2]]" "c_socket ?E = socket_of 3"
    "c_callbacks ?E = [On_data [7]]" "c_accepted ?E = [1, 2]" "\<not> c_closed ?E" "c_on_data ?E"
    "wire (c_world ?E) = []" "delivered (c_world ?E) = [7]"
    using d by (simp_all add: on_io_event_def has_event_or on_readable_def tcp_recv_def io_simps echo_kernel_def
        is_open_def socket_of_def invalid_socket_def sys_ok_def Let_def start_world_def wire_def delivered_def)
  let ?F = "drain_top True ?E"
  from E have F: "?P ?F" by (rule reach_step) (rule conn_step.loop_drain_top; simp add: dE)
  have dF: "c_pc ?F = Sending [1, 2] 0" "c_queue ?F = []" "c_world ?F = c_world ?E" "c_socket ?F = socket_of 3"
    "c_callbacks ?F = [On_data [7]]" "c_accepted ?F = [1, 2]" "\<not> c_closed ?F" "c_on_data ?F"
    using dE by (simp_all add: drain_top_def)
  let ?G = "drain_send echo_kernel Linux [1, 2] 0 ?F"
  from F have "?P ?G" by (rule reach_step) (rule conn_step.loop_drain_send [OF dF(1)])
  moreover have "c_accepted ?G = [1, 2] \<and> c_queue ?G = [] \<and> c_pc ?G = Sending [1, 2] 2 \<and> \<not> c_closed ?G
    \<and> c_callbacks ?G = [On_data [7]] \<and> c_on_data ?G \<and> wire (c_world ?G) = [1, 2] \<and> delivered (c_world ?G) = [7]"
    using dE dF by (simp add: drain_send_def tcp_send_def io_simps echo_kernel_def is_open_def socket_of_def
        invalid_socket_def sys_ok_def Let_def wire_def delivered_def)
  ultimately show ?thesis by blast
qed

text \<open>
  C1: a connection is a reliable byte stream towards the system. While it is open, the bytes
  accepted by \<open>send\<close> are, in order, those the system has taken, those the drain loop holds and
  those in the write queue; whatever happens, what the system has taken is a prefix of what was
  accepted: no byte is lost, repeated or reordered by partial sends, \<open>would_block\<close>, concurrent
  senders or a close.
\<close>

theorem conn_send_stream:
  assumes "honest_send K" and "reachable conn_init (conn_step K p) S"
  shows "(\<not> c_closed S \<longrightarrow> c_accepted S = wire (c_world S) @ inflight (c_pc S) @ concat (c_queue S))
    \<and> (\<exists>rest. c_accepted S = wire (c_world S) @ rest)"
  using conn.reachable_inv [OF assms(2)] conn_hist [OF assms]
  by (cases "c_closed S") (auto simp: conn_inv_def stream_inv_def hist_inv_def)

theorem conn_send_stream_witness:
  "\<exists>S. reachable conn_init (conn_step echo_kernel Linux) S \<and> c_accepted S = [1, 2] \<and>
     c_accepted S = wire (c_world S) @ inflight (c_pc S) @ concat (c_queue S)"
proof -
  obtain S where S: "reachable conn_init (conn_step echo_kernel Linux) S" "c_accepted S = [1, 2]" "\<not> c_closed S"
    using sample_run by blast
  from conn_send_stream [OF honest_echo_kernel S(1)] S show ?thesis by blast
qed

text \<open>
  C2: the callbacks handed to the user are exactly the received stream: the \<open>on_data\<close> chunks, in
  order, concatenate to the bytes the system delivered, \<open>on_close\<close> comes once, last, and only
  when the connection is closed; a closed connection has no open socket and is no longer
  registered with the dispatcher.
\<close>

theorem conn_callbacks:
  assumes "honest_send K" and "reachable conn_init (conn_step K p) S"
  shows "(\<exists>ds. c_callbacks S = map On_data ds @ (if c_closed S \<and> c_on_close S then [On_close] else [])
      \<and> concat ds = (if c_on_data S then delivered (c_world S) else []))
    \<and> (c_closed S \<longrightarrow> c_interest S = None \<and> \<not> is_open (c_socket S))"
  using conn.reachable_inv [OF assms(2)] conn_hist [OF assms]
  by (auto simp: conn_inv_def cb_inv_def cb_log_def hist_inv_def)

theorem conn_callbacks_witness:
  "\<exists>S ds. reachable conn_init (conn_step echo_kernel Linux) S \<and> c_callbacks S = map On_data ds \<and>
     ds \<noteq> [] \<and> concat ds = delivered (c_world S)"
proof -
  obtain S where S: "reachable conn_init (conn_step echo_kernel Linux) S" "c_callbacks S = [On_data [7]]"
    "\<not> c_closed S" "c_on_data S"
    using sample_run by blast
  from conn_callbacks [OF honest_echo_kernel S(1)] S(3,4) obtain ds where
    "c_callbacks S = map On_data ds" "concat ds = delivered (c_world S)" by auto
  with S(1,2) show ?thesis by (intro exI [of _ S] exI [of _ ds]) auto
qed

text \<open>
  C34: \<open>write_queue_bytes_\<close> is exactly the number of queued bytes, with no wrap-around; an accepted
  \<open>send\<close> leaves it at most \<open>max_write_queue_bytes_\<close>, a refused one leaves the connection unchanged,
  and it is never more than twice the limit.
\<close>

theorem conn_queue_accounting:
  assumes "reachable conn_init (conn_step K p) S"
  shows "sum_list (map length (c_queue S)) = unat (c_queue_bytes S)
    \<and> unat (c_queue_bytes S) \<le> 2 * unat (c_max S)
    \<and> (\<forall>seen data ok S'. length data < 2 ^ 62 \<longrightarrow> enqueue_send seen data S = (ok, S') \<longrightarrow>
         (if ok then unat (c_queue_bytes S') = unat (c_queue_bytes S) + length data
                     \<and> unat (c_queue_bytes S') \<le> unat (c_max S)
          else S' = S))"
proof -
  have inv: "acct_inv S" using conn.reachable_inv [OF assms] by (simp add: conn_inv_def)
  have "S' = S" if "enqueue_send seen data S = (False, S')" for seen data S'
    using that by (auto simp: enqueue_send_def Let_def split: if_splits)
  with acct_enqueue [OF inv] have "\<forall>seen data ok S'. length data < 2 ^ 62 \<longrightarrow> enqueue_send seen data S = (ok, S') \<longrightarrow>
         (if ok then unat (c_queue_bytes S') = unat (c_queue_bytes S) + length data
                     \<and> unat (c_queue_bytes S') \<le> unat (c_max S)
          else S' = S)"
    by (metis (full_types))
  moreover have "sum_list (map length (c_queue S)) = unat (c_queue_bytes S)" using inv by (simp add: acct_inv_def)
  ultimately show ?thesis using acct_bound [OF inv] by blast
qed

theorem conn_queue_accounting_witness:
  "\<exists>S. reachable conn_init (conn_step echo_kernel Linux) S \<and> c_queue S = [[1, 2]] \<and> unat (c_queue_bytes S) = 2"
proof -
  obtain S where S: "reachable conn_init (conn_step echo_kernel Linux) S" "c_queue S = [[1, 2]]"
    using sample_queued [of echo_kernel Linux] by blast
  from conn_queue_accounting [OF S(1)] S have "unat (c_queue_bytes S) = 2" by simp
  with S show ?thesis by blast
qed



text \<open>
  Pausing does not survive a write. There is a run, with every call of the dispatcher
  succeeding, that reaches a state at rest (no task posted, the loop idle) in which the connection
  is paused by the user and still registered for readable events, so data keeps being delivered:
  \<open>register_writable\<close> installs readable interest whatever \<open>paused_\<close> is.
\<close>

theorem conn_pause_not_kept:
  "\<exists>S e. reachable conn_init (conn_step K p) S \<and> c_paused S \<and> \<not> c_closed S \<and> \<not> c_io_failed S \<and>
     c_posted S = [] \<and> c_pc S = Idle \<and> c_interest S = Some e \<and> has_event e ev_readable"
proof -
  let ?P = "reachable conn_init (conn_step K p)"
  have "?P (sample_start 4)" by (simp add: reach_init sample_init)
  then have A: "?P (start_reading (sample_start 4))" by (rule reach_step) (rule conn_step.user_start)
  let ?A = "start_reading (sample_start 4)"
  have pA: "c_pc ?A = Idle" "c_posted ?A = [Start_reading]" by (simp_all add: sample_simps)
  let ?B = "run_posted K p True Start_reading (?A\<lparr>c_posted := []\<rparr>)"
  from A have B: "?P ?B" by (rule reach_step) (rule conn_step.loop_task [OF pA])
  let ?C = "pause_from_user False ?B"
  from B have C: "?P ?C" by (rule reach_step) (rule conn_step.user_pause, simp)
  have pC: "c_pc ?C = Idle" "c_posted ?C = [Pause]" by (simp_all add: sample_simps pause_from_user_def)
  let ?D = "run_posted K p True Pause (?C\<lparr>c_posted := []\<rparr>)"
  from C have D: "?P ?D" by (rule reach_step) (rule conn_step.loop_task [OF pC])
  have "c_queue_bytes ?D + of_nat (length [1 :: byte]) \<le> c_max ?D"
    by (simp add: sample_simps pause_from_user_def)
  from reach_send [OF D _ _ this] obtain E where E: "?P E"
    and dE: "E = (snd (enqueue_send False [1] ?D))\<lparr>c_accepted := c_accepted ?D @ [1]\<rparr>" by simp
  have pE: "c_pc E = Idle" "c_posted E = [Register_writable]"
    by (simp_all add: dE sample_simps pause_from_user_def)
  let ?F = "run_posted K p True Register_writable (E\<lparr>c_posted := []\<rparr>)"
  from E have "?P ?F" by (rule reach_step) (rule conn_step.loop_task [OF pE])
  then show ?thesis
    by (intro exI [of _ ?F] exI [of _ "io_or ev_readable ev_writable"])
      (simp add: dE sample_simps pause_from_user_def has_event_or)
qed

text \<open>
  The limit of the write queue is not an upper bound of \<open>write_queue_bytes_\<close>: the remainder of a
  chunk that is put back after \<open>would_block\<close> is added without a test, after \<open>send\<close> has refilled the
  queue.
\<close>

lemma conn_limit_exceeded:
  "\<exists>K S. reachable conn_init (conn_step K Linux) S \<and> unat (c_queue_bytes S) > unat (c_max S)"
proof -
  let ?K = "\<lambda>tr c. case c of Sys_data (Send h d f) \<Rightarrow> sys_fail 11 | _ \<Rightarrow> sys_ok"
  let ?P = "reachable conn_init (conn_step ?K Linux)"
  obtain S where S: "?P S" and d: "c_queue S = [[1, 2]]" "c_pc S = Idle" "\<not> c_closed S" "c_registered S"
    "c_interest S = Some (io_or ev_readable ev_writable)" "c_socket S = socket_of 3"
    "c_world S = start_world" "c_queue_bytes S = 2" "c_max S = 4"
    using sample_queued [of ?K Linux] by blast
  let ?E = "on_io_event ?K Linux ev_writable S"
  from S have E: "?P ?E" by (rule reach_step) (rule conn_step.loop_event; simp add: d)
  have pE: "c_pc ?E = Drain_top" using d by (simp add: on_io_event_def)
  let ?F = "drain_top True ?E"
  from E have F: "?P ?F" by (rule reach_step) (rule conn_step.loop_drain_top [OF pE])
  have dF: "c_queue_bytes ?F = 0" "c_max ?F = 4" "c_pc ?F = Sending [1, 2] 0" "c_socket ?F = socket_of 3"
    "c_registered ?F" "c_queue ?F = []" "c_world ?F = start_world"
    using d by (simp_all add: on_io_event_def drain_top_def)
  have "c_queue_bytes ?F + of_nat (length [3 :: byte, 4, 5, 6]) \<le> c_max ?F" by (simp add: dF)
  from reach_send [OF F _ _ this] obtain G where G: "?P G"
    and dG: "G = (snd (enqueue_send False [3, 4, 5, 6] ?F))\<lparr>c_accepted := c_accepted ?F @ [3, 4, 5, 6]\<rparr>" by auto
  have pG: "c_pc G = Sending [1, 2] 0" "c_queue_bytes G = 4" "c_max G = 4" "c_socket G = socket_of 3"
    "c_world G = start_world"
    by (simp_all add: dG enqueue_send_def dF Let_def)
  let ?H = "drain_send ?K Linux [1, 2] 0 G"
  from G have "?P ?H" by (rule reach_step) (rule conn_step.loop_drain_send [OF pG(1)])
  moreover have "c_queue_bytes ?H = 6 \<and> c_max ?H = 4"
    by (simp add: drain_send_def pG tcp_send_def io_simps is_open_def socket_of_def invalid_socket_def
        sys_fail_def normalize_error_def switch_error_def portable_cases_def Let_def)
  ultimately show ?thesis by (intro exI [of _ ?K] exI [of _ ?H]) simp
qed

end
