(* ===== verification/Waker.thy ===== *)
theory Waker
  imports Socket
begin

text \<open>
  The wake-up channel of a dispatcher: \<open>src/event/waker.hpp\<close>, an eventfd on Linux, a pipe on macOS
  and a completion packet on Windows. The record has the fields of the three platforms; an unused
  one keeps its default. The lemmas show that a waker owns its descriptors and leaks none, whichever
  step of its creation fails, and that draining the pipe returns.
\<close>

record waker =
  wk_efd :: int
  wk_read :: int
  wk_write :: int
  wk_iocp :: int

definition waker_default :: waker where
  "waker_default = \<lparr>wk_efd = -1, wk_read = -1, wk_write = -1, wk_iocp = 0\<rparr>"

definition WAKER_KEY :: int where "WAKER_KEY = 0xFFFFFFFF"

definition F_NONBLOCK :: int where "F_NONBLOCK = 4"

text \<open>The failing exits of the macOS branch: both ends are closed before the error is read.\<close>

definition pipe_fail :: "kernel \<Rightarrow> platform \<Rightarrow> waker \<Rightarrow> waker result io" where
  "pipe_fail K p w = do {
     _ \<leftarrow> sys K (Sys_close (wk_read w));
     _ \<leftarrow> sys K (Sys_close (wk_write w));
     ec \<leftarrow> os_failure p;
     State_Monad.return (Inl ec)
   }"

text \<open>One turn of the loop over the ends of the pipe; \<open>True\<close> when the three calls succeeded.\<close>

definition pipe_flags :: "kernel \<Rightarrow> int \<Rightarrow> bool io" where
  "pipe_flags K fd = do {
     flags \<leftarrow> sys K (Sys_ctl (Fcntl_getfl fd));
     if sr_rc flags < 0 then State_Monad.return False
     else do {
       r \<leftarrow> sys K (Sys_ctl (Fcntl_setfl fd (sr_rc flags OR F_NONBLOCK)));
       if sr_rc r < 0 then State_Monad.return False
       else do {
         r' \<leftarrow> sys K (Sys_ctl (Fcntl_setfd fd));
         State_Monad.return (\<not> sr_rc r' < 0)
       }
     }
   }"

definition waker_create :: "kernel \<Rightarrow> platform \<Rightarrow> waker result io" where
  "waker_create K p = (case p of
       Linux \<Rightarrow> do {
         r \<leftarrow> sys K (Sys_mux Eventfd);
         if sr_rc r < 0 then do { ec \<leftarrow> os_failure p; State_Monad.return (Inl ec) }
         else State_Monad.return (Inr (waker_default\<lparr>wk_efd := sr_rc r\<rparr>))
       }
     | MacOS \<Rightarrow> do {
         r \<leftarrow> sys K (Sys_mux Pipe);
         if sr_rc r \<noteq> 0 then do { ec \<leftarrow> os_failure p; State_Monad.return (Inl ec) }
         else (let w = waker_default\<lparr>wk_read := sr_val r, wk_write := sr_val2 r\<rparr> in do {
           ok0 \<leftarrow> pipe_flags K (wk_read w);
           if \<not> ok0 then pipe_fail K p w
           else do {
             ok1 \<leftarrow> pipe_flags K (wk_write w);
             if \<not> ok1 then pipe_fail K p w else State_Monad.return (Inr w)
           }
         })
       }
     | Windows \<Rightarrow> State_Monad.return (Inr waker_default))"

definition waker_close :: "kernel \<Rightarrow> platform \<Rightarrow> waker \<Rightarrow> waker io" where
  "waker_close K p w = (case p of
       Linux \<Rightarrow>
         (if wk_efd w \<ge> 0
          then do { _ \<leftarrow> sys K (Sys_close (wk_efd w)); State_Monad.return (w\<lparr>wk_efd := -1\<rparr>) }
          else State_Monad.return w)
     | MacOS \<Rightarrow> do {
         w1 \<leftarrow> (if wk_read w \<ge> 0
               then do { _ \<leftarrow> sys K (Sys_close (wk_read w)); State_Monad.return (w\<lparr>wk_read := -1\<rparr>) }
               else State_Monad.return w);
         (if wk_write w1 \<ge> 0
          then do { _ \<leftarrow> sys K (Sys_close (wk_write w1)); State_Monad.return (w1\<lparr>wk_write := -1\<rparr>) }
          else State_Monad.return w1)
       }
     | Windows \<Rightarrow> State_Monad.return (w\<lparr>wk_iocp := 0\<rparr>))"

text \<open>The move constructor: the new object and what is left of \<open>other\<close>.\<close>

definition waker_move :: "platform \<Rightarrow> waker \<Rightarrow> waker \<times> waker" where
  "waker_move p other = (case p of
       Linux \<Rightarrow> (waker_default\<lparr>wk_efd := wk_efd other\<rparr>, other\<lparr>wk_efd := -1\<rparr>)
     | MacOS \<Rightarrow> (waker_default\<lparr>wk_read := wk_read other, wk_write := wk_write other\<rparr>,
         other\<lparr>wk_read := -1, wk_write := -1\<rparr>)
     | Windows \<Rightarrow> (waker_default\<lparr>wk_iocp := wk_iocp other\<rparr>, other\<lparr>wk_iocp := 0\<rparr>))"

definition waker_move_assign :: "kernel \<Rightarrow> platform \<Rightarrow> bool \<Rightarrow> waker \<Rightarrow> waker \<Rightarrow> (waker \<times> waker) io" where
  "waker_move_assign K p aliased this other =
     (if \<not> aliased
      then do {
        t \<leftarrow> waker_close K p this;
        State_Monad.return (case p of
            Linux \<Rightarrow> (t\<lparr>wk_efd := wk_efd other\<rparr>, other\<lparr>wk_efd := -1\<rparr>)
          | MacOS \<Rightarrow> (t\<lparr>wk_read := wk_read other, wk_write := wk_write other\<rparr>,
              other\<lparr>wk_read := -1, wk_write := -1\<rparr>)
          | Windows \<Rightarrow> (t\<lparr>wk_iocp := wk_iocp other\<rparr>, other\<lparr>wk_iocp := 0\<rparr>))
      }
      else State_Monad.return (this, other))"

definition waker_drop :: "kernel \<Rightarrow> platform \<Rightarrow> waker \<Rightarrow> unit io" where
  "waker_drop K p w = do { _ \<leftarrow> waker_close K p w; State_Monad.return () }"

definition waker_wake :: "kernel \<Rightarrow> platform \<Rightarrow> waker \<Rightarrow> unit io" where
  "waker_wake K p w = (case p of
       Linux \<Rightarrow> do { _ \<leftarrow> sys K (Sys_data (Write (wk_efd w) (le_bytes 8 1))); State_Monad.return () }
     | MacOS \<Rightarrow> do { _ \<leftarrow> sys K (Sys_data (Write (wk_write w) [1])); State_Monad.return () }
     | Windows \<Rightarrow>
         (if wk_iocp w \<noteq> 0
          then do { _ \<leftarrow> sys K (Sys_mux (Iocp_post (wk_iocp w) WAKER_KEY)); State_Monad.return () }
          else State_Monad.return ()))"

definition waker_fd :: "platform \<Rightarrow> waker \<Rightarrow> int" where
  "waker_fd p w = (case p of Linux \<Rightarrow> wk_efd w | MacOS \<Rightarrow> wk_read w | Windows \<Rightarrow> invalid_socket)"

definition set_iocp_handle :: "int \<Rightarrow> waker \<Rightarrow> waker" where
  "set_iocp_handle h w = w\<lparr>wk_iocp := h\<rparr>"

text \<open>The loop of \<open>drain\<close> on macOS; \<open>None\<close> is a loop that does not end.\<close>

partial_function (option) pipe_drain :: "kernel \<Rightarrow> int \<Rightarrow> world \<Rightarrow> world option" where
  "pipe_drain K fd w =
     (case run_state (sys K (Sys_data (Read fd 64))) w of
        (r, w') \<Rightarrow> if sr_rc r > 0 then pipe_drain K fd w' else Some w')"

definition eventfd_drain :: "kernel \<Rightarrow> waker \<Rightarrow> unit io" where
  "eventfd_drain K w = do { _ \<leftarrow> sys K (Sys_data (Read (wk_efd w) 8)); State_Monad.return () }"

definition waker_drain :: "kernel \<Rightarrow> platform \<Rightarrow> waker \<Rightarrow> world \<Rightarrow> world option" where
  "waker_drain K p wk w = (case p of
       Linux \<Rightarrow> Some (final_world (eventfd_drain K wk) w)
     | MacOS \<Rightarrow> pipe_drain K (wk_read wk) w
     | Windows \<Rightarrow> Some w)"

section \<open>Ownership\<close>

definition waker_owned :: "platform \<Rightarrow> waker \<Rightarrow> int multiset" where
  "waker_owned p w = (case p of
       Linux \<Rightarrow> (if wk_efd w \<ge> 0 then {#wk_efd w#} else {#})
     | MacOS \<Rightarrow> (if wk_read w \<ge> 0 then {#wk_read w#} else {#}) + (if wk_write w \<ge> 0 then {#wk_write w#} else {#})
     | Windows \<Rightarrow> {#})"

lemma waker_owned_default [simp]: "waker_owned p waker_default = {#}"
  by (simp add: waker_owned_def waker_default_def split: platform.split)

text \<open>The two ends a successful \<open>pipe\<close> returns are descriptors.\<close>

definition pipe_fds_valid :: "kernel \<Rightarrow> bool" where
  "pipe_fds_valid K \<longleftrightarrow> (\<forall>tr. sr_rc (K tr (Sys_mux Pipe)) = 0 \<longrightarrow>
     sr_val (K tr (Sys_mux Pipe)) \<ge> 0 \<and> sr_val2 (K tr (Sys_mux Pipe)) \<ge> 0)"

lemma wp_sys_answer:
  "(\<And>tr. Q (K tr c) (live_step (c, K tr c) L)) \<Longrightarrow> (\<And>f. fd_effect_of c = Releases f \<Longrightarrow> f \<in># L) \<Longrightarrow>
   fd_wp (sys K c) Q L"
  by (simp add: fd_wp_def run_sys live_fds_snoc clean_snoc)

lemma neutral_pipe_flags [neutral_intros]: "neutral (pipe_flags K fd)"
  unfolding pipe_flags_def by (intro neutral_intros)

lemma neutral_eventfd_drain [neutral_intros]: "neutral (eventfd_drain K w)"
  unfolding eventfd_drain_def by (intro neutral_intros)

lemma neutral_waker_wake [neutral_intros]: "neutral (waker_wake K p w)"
  unfolding waker_wake_def by (intro neutral_intros)

lemma wp_pipe_fail [wp_intros]:
  assumes "\<And>ec. Q (Inl ec) (L - {#wk_read w, wk_write w#})" and "{#wk_read w, wk_write w#} \<subseteq># L"
  shows "fd_wp (pipe_fail K p w) Q L"
proof -
  obtain M where L: "L = M + {#wk_read w, wk_write w#}" using assms(2) by (metis subset_mset.diff_add)
  show ?thesis using assms(1) unfolding pipe_fail_def L
    by (auto intro!: wp_intros fd_wp_neutral [OF neutral_os_failure])
qed

lemma waker_create_acquires:
  assumes "p = MacOS \<Longrightarrow> pipe_fds_valid K"
  shows "acquires (waker_create K p) (waker_owned p)"
proof (cases p)
  case MacOS
  have fds: "sr_val (K tr (Sys_mux Pipe)) \<ge> 0" "sr_val2 (K tr (Sys_mux Pipe)) \<ge> 0"
    if "sr_rc (K tr (Sys_mux Pipe)) = 0" for tr
    using assms MacOS that by (simp_all add: pipe_fds_valid_def)
  show ?thesis
    unfolding waker_create_def Let_def MacOS platform.case
    by (rule acquiresI)
      (auto simp: live_step.simps waker_owned_def waker_default_def fds
        intro!: wp_sys_answer fd_wp_bind fd_wp_if fd_wp_return fd_wp_neutral [OF neutral_os_failure] wp_pipe_fail
          fd_wp_neutral [OF neutral_pipe_flags])
qed (auto simp: waker_create_def live_step.simps waker_owned_def waker_default_def
      intro!: acquiresI wp_intros fd_wp_neutral [OF neutral_os_failure])

lemma wp_waker_close [wp_intros]:
  assumes "\<And>w'. waker_owned p w' = {#} \<Longrightarrow> Q w' (L - waker_owned p w)" and "waker_owned p w \<subseteq># L"
  shows "fd_wp (waker_close K p w) Q L"
proof -
  obtain M where L: "L = M + waker_owned p w" using assms(2) by (metis subset_mset.diff_add)
  show ?thesis using assms(1) unfolding waker_close_def L
    by (cases p) (auto simp: waker_owned_def waker_default_def intro!: wp_intros split: if_splits)
qed

lemma wp_waker_drop [wp_intros]:
  "(\<And>x. Q x (L - waker_owned p w)) \<Longrightarrow> waker_owned p w \<subseteq># L \<Longrightarrow> fd_wp (waker_drop K p w) Q L"
  unfolding waker_drop_def by (auto intro!: wp_intros)

interpretation wakers: owning_factory "waker_create K Linux" "waker_drop K Linux" "waker_owned Linux" for K
  by unfold_locales (auto intro: waker_create_acquires wp_waker_drop)

lemma waker_move_owned:
  "waker_owned p (fst (waker_move p w)) = waker_owned p w" "waker_owned p (snd (waker_move p w)) = {#}"
  by (auto simp: waker_move_def waker_owned_def waker_default_def split: platform.split)

text \<open>Draining the pipe returns as soon as the pipe has been empty once.\<close>

lemma pipe_drain_returns:
  assumes "\<And>tr. count_list (map fst tr) (Sys_data (Read fd 64)) \<ge> N \<Longrightarrow> sr_rc (K tr (Sys_data (Read fd 64))) \<le> 0"
  shows "\<exists>w'. pipe_drain K fd w = Some w'"
proof (induction "N - count_list (map fst (trace w)) (Sys_data (Read fd 64))" arbitrary: w rule: less_induct)
  case less
  let ?c = "Sys_data (Read fd 64)"
  show ?case
  proof (cases "sr_rc (K (trace w) ?c) > 0")
    case True
    let ?w = "final_world (sys K ?c) w"
    have n: "count_list (map fst (trace ?w)) ?c = Suc (count_list (map fst (trace w)) ?c)"
      by (simp add: run_sys)
    have "\<not> N \<le> count_list (map fst (trace w)) ?c" using assms [of "trace w"] True by linarith
    then have "N - count_list (map fst (trace ?w)) ?c < N - count_list (map fst (trace w)) ?c" using n by linarith
    from less [OF this] True show ?thesis by (subst pipe_drain.simps) (simp add: run_sys)
  next
    case False
    then show ?thesis by (subst pipe_drain.simps) (simp add: run_sys)
  qed
qed

end
