(* ===== verification/Dispatcher.thy ===== *)
theory Dispatcher
  imports Waker Io_Event
begin

text \<open>
  The interface of \<open>include/socketpp/event/dispatcher.hpp\<close>: what the event loop and the sockets may
  rely on, whichever backend implements it. A dispatcher is a table of socket callbacks and a table
  of timers. The locale \<open>dispatcher_table\<close> states the laws of the five operations on these tables;
  inside it a whole sequence of operations is shown to act on the tables as the reference \<open>table_op\<close>.
  Callbacks are values of an arbitrary type: what running one does is a parameter of \<open>poll\<close>.
\<close>

section \<open>Documented answers\<close>

text \<open>
  The system as the manual pages describe its calls: an answer has the C type \<open>int\<close>, and a negative
  one comes with a positive error number. A kernel that behaves this way is \<open>posix K\<close> for some \<open>K\<close>
  (itself), so a statement about every \<open>posix K\<close> is one about every such kernel.
\<close>

definition posix :: "kernel \<Rightarrow> kernel" where
  "posix K tr c =
     (let r = K tr c; rc = to_int32 (sr_rc r)
      in r\<lparr>sr_rc := rc,
           sr_err := (if rc < 0 then Some (case sr_err r of Some e \<Rightarrow> if e > 0 then e else 1 | None \<Rightarrow> 1)
                      else sr_err r)\<rparr>)"

lemma to_int32_range: "- (2 ^ 31) \<le> to_int32 x" "to_int32 x < 2 ^ 31"
  using sint_ge [of "word_of_int x :: 32 word"] sint_lt [of "word_of_int x :: 32 word"]
  by (simp_all add: to_int32_def)

lemma posix_range: "- (2 ^ 31) \<le> sr_rc (posix K tr c)" "sr_rc (posix K tr c) < 2 ^ 31"
  using to_int32_range by (simp_all add: posix_def Let_def)

lemma posix_errno:
  assumes "sr_rc (posix K tr c) < 0"
  shows "\<exists>e > 0. sr_err (posix K tr c) = Some e"
  using assms by (auto simp: posix_def Let_def split: option.splits)

lemma posix_same:
  assumes "\<And>tr c. - (2 ^ 31) \<le> sr_rc (K tr c) \<and> sr_rc (K tr c) < 2 ^ 31"
    and "\<And>tr c. sr_rc (K tr c) < 0 \<Longrightarrow> \<exists>e > 0. sr_err (K tr c) = Some e"
  shows "posix K = K"
proof (intro ext)
  fix tr c
  show "posix K tr c = K tr c"
    using assms(1) [of tr c] assms(2) [of tr c] by (auto simp: posix_def Let_def to_int32_id)
qed

lemma is_ok_normalize:
  assumes "e \<noteq> 0"
  shows "\<not> is_ok (normalize_error p \<lparr>ec_value = e, ec_category = system_category\<rparr>)"
proof -
  have "x \<noteq> success" if "switch_error p e = Some x" for x
  proof -
    have "x \<in> snd ` set portable_cases"
      using that by (auto simp: switch_error_def find_Some_iff image_iff) (metis nth_mem snd_conv)
    then show ?thesis by (auto simp: portable_cases_def)
  qed
  then show ?thesis using assms by (auto simp: normalize_error_def is_ok_def split: option.splits)
qed

text \<open>The error a failing call leads to is never taken for a success.\<close>

lemma os_failure_posix:
  assumes "sr_rc (posix K tr c) < 0"
  shows "\<not> is_ok (normalize_error p \<lparr>ec_value = (case sr_err (posix K tr c) of None \<Rightarrow> e0 | Some e \<Rightarrow> e),
    ec_category = system_category\<rparr>)"
  using posix_errno [OF assms] by (auto dest: is_ok_normalize [THEN notE, rotated])

section \<open>Operations and their effect on the tables\<close>

type_synonym timer_id = u64

datatype 'cb invocation = Io_call 'cb int io_event | Timer_call 'cb

datatype 'cb disp_op =
    Op_add int io_event 'cb
  | Op_modify int io_event
  | Op_remove int
  | Op_schedule int bool 'cb
  | Op_cancel timer_id

text \<open>What an operation answered: success of \<open>add\<close>, \<open>modify\<close>, \<open>remove\<close>, or the identifier of a timer.\<close>

datatype op_answer = Answer bool | Timer timer_id

record ('k, 'cb) table =
  t_io :: "int \<rightharpoonup> 'cb"
  t_timers :: "'k \<rightharpoonup> 'cb \<times> bool"

fun table_op :: "(timer_id \<Rightarrow> 'k) \<Rightarrow> 'cb disp_op \<Rightarrow> op_answer \<Rightarrow> ('k, 'cb) table \<Rightarrow> ('k, 'cb) table" where
  "table_op key (Op_add fd i cb) (Answer True) T = T\<lparr>t_io := (t_io T)(fd \<mapsto> cb)\<rparr>"
| "table_op key (Op_remove fd) (Answer True) T = T\<lparr>t_io := (t_io T)(fd := None)\<rparr>"
| "table_op key (Op_schedule ms rep cb) (Timer tid) T =
     (if tid = 0 then T else T\<lparr>t_timers := (t_timers T)(key tid \<mapsto> (cb, rep))\<rparr>)"
| "table_op key (Op_cancel tid) _ T = T\<lparr>t_timers := (t_timers T)(key tid := None)\<rparr>"
| "table_op key _ _ T = T"

section \<open>The virtual methods\<close>

record ('d, 'cb) dispatcher =
  d_add :: "int \<Rightarrow> io_event \<Rightarrow> 'cb \<Rightarrow> 'd \<Rightarrow> (rvoid \<times> 'd) io"
  d_modify :: "int \<Rightarrow> io_event \<Rightarrow> 'd \<Rightarrow> (rvoid \<times> 'd) io"
  d_remove :: "int \<Rightarrow> 'd \<Rightarrow> (rvoid \<times> 'd) io"
  d_schedule :: "int \<Rightarrow> bool \<Rightarrow> 'cb \<Rightarrow> 'd \<Rightarrow> (timer_id \<times> 'd) io"
  d_cancel :: "timer_id \<Rightarrow> 'd \<Rightarrow> 'd io"

fun exec_op :: "('d, 'cb) dispatcher \<Rightarrow> 'cb disp_op \<Rightarrow> 'd \<Rightarrow> (op_answer \<times> 'd) io" where
  "exec_op V (Op_add fd i cb) d = do { (r, d') \<leftarrow> d_add V fd i cb d; State_Monad.return (Answer (is_ok r), d') }"
| "exec_op V (Op_modify fd i) d = do { (r, d') \<leftarrow> d_modify V fd i d; State_Monad.return (Answer (is_ok r), d') }"
| "exec_op V (Op_remove fd) d = do { (r, d') \<leftarrow> d_remove V fd d; State_Monad.return (Answer (is_ok r), d') }"
| "exec_op V (Op_schedule ms rep cb) d = do { (t, d') \<leftarrow> d_schedule V ms rep cb d; State_Monad.return (Timer t, d') }"
| "exec_op V (Op_cancel tid) d = do { d' \<leftarrow> d_cancel V tid d; State_Monad.return (Answer True, d') }"

fun exec_ops :: "('d, 'cb) dispatcher \<Rightarrow> 'cb disp_op list \<Rightarrow> 'd \<Rightarrow> (op_answer list \<times> 'd) io" where
  "exec_ops V [] d = State_Monad.return ([], d)"
| "exec_ops V (a # as) d = do {
     (x, d1) \<leftarrow> exec_op V a d;
     (xs, d2) \<leftarrow> exec_ops V as d1;
     State_Monad.return (x # xs, d2)
   }"

text \<open>The tables that a list of operations and their answers leads to.\<close>

definition table_after ::
    "(timer_id \<Rightarrow> 'k) \<Rightarrow> 'cb disp_op list \<Rightarrow> op_answer list \<Rightarrow> ('k, 'cb) table \<Rightarrow> ('k, 'cb) table" where
  "table_after key as xs T = fold (\<lambda>(a, x). table_op key a x) (zip as xs) T"

section \<open>The contract\<close>

text \<open>
  \<open>key\<close> turns a timer identifier into the key of the backend's timer table. A \<open>schedule_timer\<close> that
  answers 0 has, at most, installed a timer under the key of 0.
\<close>

locale dispatcher_table =
  fixes V :: "('d, 'cb) dispatcher"
    and key :: "timer_id \<Rightarrow> 'k"
    and tab :: "'d \<Rightarrow> ('k, 'cb) table"
  assumes add_law: "run_state (d_add V fd i cb d) w = ((r, d'), w') \<Longrightarrow>
      tab d' = table_op key (Op_add fd i cb) (Answer (is_ok r)) (tab d)"
    and modify_law: "run_state (d_modify V fd i d) w = ((r, d'), w') \<Longrightarrow> tab d' = tab d"
    and remove_law: "run_state (d_remove V fd d) w = ((r, d'), w') \<Longrightarrow>
      tab d' = table_op key (Op_remove fd) (Answer (is_ok r)) (tab d)"
    and schedule_law: "run_state (d_schedule V ms rep cb d) w = ((tid, d'), w') \<Longrightarrow> tid \<noteq> 0 \<Longrightarrow>
      tab d' = table_op key (Op_schedule ms rep cb) (Timer tid) (tab d)"
    and schedule_fail_law: "run_state (d_schedule V ms rep cb d) w = ((0, d'), w') \<Longrightarrow>
      tab d' = tab d \<or> tab d' = (tab d)\<lparr>t_timers := (t_timers (tab d))(key 0 \<mapsto> (cb, rep))\<rparr>"
    and cancel_law: "run_state (d_cancel V tid d) w = (d', w') \<Longrightarrow>
      tab d' = table_op key (Op_cancel tid) (Answer True) (tab d)"
begin

lemma exec_op_refines:
  assumes "run_state (exec_op V a d) w = ((x, d'), w')" and "x \<noteq> Timer 0"
  shows "tab d' = table_op key a x (tab d)"
proof (cases a)
  case (Op_add fd i cb)
  then show ?thesis using assms by (auto split: prod.splits dest!: add_law)
next
  case (Op_modify fd i)
  then show ?thesis using assms by (auto split: prod.splits dest!: modify_law)
next
  case (Op_remove fd)
  then show ?thesis using assms by (auto split: prod.splits dest!: remove_law)
next
  case (Op_schedule ms rep cb)
  then show ?thesis using assms by (auto split: prod.splits dest!: schedule_law)
next
  case (Op_cancel tid)
  then show ?thesis using assms by (auto split: prod.splits dest!: cancel_law)
qed

text \<open>A sequence of operations acts on the tables as the reference, answer by answer.\<close>

lemma exec_ops_refines:
  "run_state (exec_ops V as d) w = ((xs, d'), w') \<Longrightarrow> Timer 0 \<notin> set xs \<Longrightarrow>
   length xs = length as \<and> tab d' = table_after key as xs (tab d)"
proof (induction as arbitrary: d w xs)
  case (Cons a as)
  from Cons.prems(1) obtain x d1 w1 ys where 1: "run_state (exec_op V a d) w = ((x, d1), w1)"
    and 2: "run_state (exec_ops V as d1) w1 = ((ys, d'), w')" and xs: "xs = x # ys"
    by (auto split: prod.splits)
  have "tab d1 = table_op key a x (tab d)" using exec_op_refines [OF 1] Cons.prems(2) xs by auto
  moreover have "length ys = length as \<and> tab d' = table_after key as ys (tab d1)"
    using Cons.IH [OF 2] Cons.prems(2) xs by simp
  ultimately show ?case by (simp add: xs table_after_def)
qed (simp add: table_after_def)

end

end
