(* ===== verification/Epoll.thy ===== *)
theory Epoll
  imports Dispatcher "HOL-Library.AList" "HOL-Library.Signed_Division"
begin

text \<open>
  The Linux dispatcher: \<open>src/event/epoll.cpp\<close>.

  The timers are kept as an association list from the timerfd to its entry; the order stands for the
  unspecified order of the \<open>unordered_map\<close>. An entry has the number of the map node it lives in:
  \<open>poll\<close> keeps an iterator and a reference to the node across the timer's callback, and using them
  after the node is gone is undefined behaviour, which is the value \<open>None\<close> here. What a callback does
  to the dispatcher and the system is the parameter \<open>run\<close>. \<open>ep_log\<close> is the history of invocations.
\<close>

section \<open>Flags\<close>

definition EPOLLIN :: u32 where "EPOLLIN = 0x001"
definition EPOLLOUT :: u32 where "EPOLLOUT = 0x004"
definition EPOLLERR :: u32 where "EPOLLERR = 0x008"
definition EPOLLHUP :: u32 where "EPOLLHUP = 0x010"
definition EPOLLRDHUP :: u32 where "EPOLLRDHUP = 0x2000"

lemmas epoll_flag_defs = EPOLLIN_def EPOLLOUT_def EPOLLERR_def EPOLLHUP_def EPOLLRDHUP_def

definition to_epoll_events :: "io_event \<Rightarrow> u32" where
  "to_epoll_events interest =
     (let e0 = EPOLLERR OR EPOLLHUP OR EPOLLRDHUP;
          e1 = (if has_event interest ev_readable then e0 OR EPOLLIN else e0)
      in if has_event interest ev_writable then e1 OR EPOLLOUT else e1)"

definition from_epoll_events :: "u32 \<Rightarrow> io_event" where
  "from_epoll_events events =
     (let r0 = ev_none;
          r1 = (if events AND EPOLLIN \<noteq> 0 then io_or r0 ev_readable else r0);
          r2 = (if events AND EPOLLOUT \<noteq> 0 then io_or r1 ev_writable else r1);
          r3 = (if events AND EPOLLERR \<noteq> 0 then io_or r2 ev_error else r2);
          r4 = (if events AND EPOLLHUP \<noteq> 0 then io_or r3 ev_hangup else r3)
      in if events AND EPOLLRDHUP \<noteq> 0 then io_or r4 ev_peer_shutdown else r4)"

section \<open>State\<close>

record 'cb timer_info =
  ti_id :: timer_id
  ti_callback :: 'cb
  ti_repeating :: bool
  ti_node :: nat

record 'cb epoll =
  ep_fd :: int
  ep_waker :: waker
  ep_callbacks :: "int \<rightharpoonup> 'cb"
  ep_timers :: "(int \<times> 'cb timer_info) list"
  ep_nodes :: nat
  ep_log :: "'cb invocation list"

section \<open>Construction and destruction\<close>

text \<open>An exception is its message. The destructor of \<open>waker_\<close> runs when the constructor throws.\<close>

definition epoll_new :: "kernel \<Rightarrow> (string + 'cb epoll) io" where
  "epoll_new K = do {
     r \<leftarrow> sys K (Sys_mux Epoll_create);
     if sr_rc r < 0 then State_Monad.return (Inl ''socketpp: epoll_create1 failed'')
     else do {
       wr \<leftarrow> waker_create K Linux;
       (case wr of
          Inl _ \<Rightarrow> do {
            _ \<leftarrow> sys K (Sys_close (sr_rc r));
            State_Monad.return (Inl ''socketpp: waker creation failed'')
          }
        | Inr wk \<Rightarrow> do {
            (w1, _) \<leftarrow> waker_move_assign K Linux False waker_default wk;
            c \<leftarrow> sys K (Sys_mux (Epoll_ctl (sr_rc r) EPOLL_CTL_ADD (waker_fd Linux w1) EPOLLIN));
            if sr_rc c < 0 then do {
              _ \<leftarrow> sys K (Sys_close (sr_rc r));
              _ \<leftarrow> waker_drop K Linux w1;
              State_Monad.return (Inl ''socketpp: epoll waker registration failed'')
            }
            else State_Monad.return (Inr \<lparr>ep_fd = sr_rc r, ep_waker = w1, ep_callbacks = Map.empty,
              ep_timers = [], ep_nodes = 0, ep_log = []\<rparr>)
          })
     }
   }"

primrec close_all :: "kernel \<Rightarrow> int list \<Rightarrow> unit io" where
  "close_all K [] = State_Monad.return ()"
| "close_all K (fd # fds) = do { _ \<leftarrow> sys K (Sys_close fd); close_all K fds }"

definition epoll_drop :: "kernel \<Rightarrow> 'cb epoll \<Rightarrow> unit io" where
  "epoll_drop K d = do {
     _ \<leftarrow> close_all K (map fst (ep_timers d));
     _ \<leftarrow> (if ep_fd d \<ge> 0 then do { _ \<leftarrow> sys K (Sys_close (ep_fd d)); State_Monad.return () }
          else State_Monad.return ());
     waker_drop K Linux (ep_waker d)
   }"

section \<open>Sockets\<close>

definition epoll_add :: "kernel \<Rightarrow> int \<Rightarrow> io_event \<Rightarrow> 'cb \<Rightarrow> 'cb epoll \<Rightarrow> (rvoid \<times> 'cb epoll) io" where
  "epoll_add K fd interest cb d = do {
     r \<leftarrow> sys K (Sys_mux (Epoll_ctl (ep_fd d) EPOLL_CTL_ADD fd (to_epoll_events interest)));
     if sr_rc r < 0 then do { ec \<leftarrow> os_failure Linux; State_Monad.return (ec, d) }
     else State_Monad.return (void_ok, d\<lparr>ep_callbacks := (ep_callbacks d)(fd \<mapsto> cb)\<rparr>)
   }"

definition epoll_modify :: "kernel \<Rightarrow> int \<Rightarrow> io_event \<Rightarrow> 'cb epoll \<Rightarrow> (rvoid \<times> 'cb epoll) io" where
  "epoll_modify K fd interest d = do {
     r \<leftarrow> sys K (Sys_mux (Epoll_ctl (ep_fd d) EPOLL_CTL_MOD fd (to_epoll_events interest)));
     if sr_rc r < 0 then do { ec \<leftarrow> os_failure Linux; State_Monad.return (ec, d) }
     else State_Monad.return (void_ok, d)
   }"

definition epoll_remove :: "kernel \<Rightarrow> int \<Rightarrow> 'cb epoll \<Rightarrow> (rvoid \<times> 'cb epoll) io" where
  "epoll_remove K fd d = do {
     r \<leftarrow> sys K (Sys_mux (Epoll_ctl (ep_fd d) EPOLL_CTL_DEL fd 0));
     if sr_rc r < 0 then do { ec \<leftarrow> os_failure Linux; State_Monad.return (ec, d) }
     else State_Monad.return (void_ok, d\<lparr>ep_callbacks := (ep_callbacks d)(fd := None)\<rparr>)
   }"

section \<open>Timers\<close>

definition epoll_schedule :: "kernel \<Rightarrow> int \<Rightarrow> bool \<Rightarrow> 'cb \<Rightarrow> 'cb epoll \<Rightarrow> (timer_id \<times> 'cb epoll) io" where
  "epoll_schedule K timeout repeat cb d = do {
     t \<leftarrow> sys K (Sys_mux Timerfd_create);
     if sr_rc t < 0 then State_Monad.return (0, d)
     else
       (let tfd = sr_rc t; secs = timeout sdiv 1000; nsecs = (timeout smod 1000) * 1000000
        in do {
          s \<leftarrow> sys K (Sys_mux (Timerfd_settime tfd secs nsecs (if repeat then secs else 0) (if repeat then nsecs else 0)));
          if sr_rc s < 0 then do { _ \<leftarrow> sys K (Sys_close tfd); State_Monad.return (0, d) }
          else do {
            c \<leftarrow> sys K (Sys_mux (Epoll_ctl (ep_fd d) EPOLL_CTL_ADD tfd EPOLLIN));
            if sr_rc c < 0 then do { _ \<leftarrow> sys K (Sys_close tfd); State_Monad.return (0, d) }
            else
              (let tid = of_int tfd
               in State_Monad.return (tid,
                    d\<lparr>ep_timers := AList.update tfd \<lparr>ti_id = tid, ti_callback = cb, ti_repeating = repeat,
                        ti_node = ep_nodes d\<rparr> (ep_timers d),
                      ep_nodes := Suc (ep_nodes d)\<rparr>))
          }
        })
   }"

text \<open>Take a timer out: deregister it, close its descriptor, erase the entry.\<close>

definition timer_erase :: "kernel \<Rightarrow> int \<Rightarrow> 'cb epoll \<Rightarrow> 'cb epoll io" where
  "timer_erase K tfd d = do {
     _ \<leftarrow> sys K (Sys_mux (Epoll_ctl (ep_fd d) EPOLL_CTL_DEL tfd 0));
     _ \<leftarrow> sys K (Sys_close tfd);
     State_Monad.return (d\<lparr>ep_timers := AList.delete tfd (ep_timers d)\<rparr>)
   }"

definition timer_key :: "timer_id \<Rightarrow> int" where
  "timer_key tid = to_int32 (uint tid)"

definition epoll_cancel :: "kernel \<Rightarrow> timer_id \<Rightarrow> 'cb epoll \<Rightarrow> 'cb epoll io" where
  "epoll_cancel K tid d =
     (let tfd = timer_key tid
      in case map_of (ep_timers d) tfd of
           None \<Rightarrow> State_Monad.return d
         | Some _ \<Rightarrow> timer_erase K tfd d)"

section \<open>Polling\<close>

type_synonym 'cb runner = "'cb invocation \<Rightarrow> 'cb epoll \<Rightarrow> 'cb epoll io"

definition note_call :: "'cb invocation \<Rightarrow> 'cb epoll \<Rightarrow> 'cb epoll" where
  "note_call i d = d\<lparr>ep_log := ep_log d @ [i]\<rparr>"

text \<open>A timer that fired; the entry is looked up again to see that its node is still there.\<close>

definition timer_fire :: "kernel \<Rightarrow> 'cb runner \<Rightarrow> int \<Rightarrow> 'cb timer_info \<Rightarrow> 'cb epoll \<Rightarrow> 'cb epoll option io" where
  "timer_fire K run fd info d = do {
     _ \<leftarrow> sys K (Sys_data (Read fd 8));
     d1 \<leftarrow> run (Timer_call (ti_callback info)) (note_call (Timer_call (ti_callback info)) d);
     (case map_of (ep_timers d1) fd of
        None \<Rightarrow> State_Monad.return None
      | Some info' \<Rightarrow>
          if ti_node info' \<noteq> ti_node info then State_Monad.return None
          else if \<not> ti_repeating info' then do { d2 \<leftarrow> timer_erase K fd d1; State_Monad.return (Some d2) }
          else State_Monad.return (Some d1))
   }"

definition epoll_event :: "kernel \<Rightarrow> 'cb runner \<Rightarrow> int \<times> u32 \<Rightarrow> 'cb epoll \<Rightarrow> 'cb epoll option io" where
  "epoll_event K run e d =
     (let fd = fst e in
      if fd = waker_fd Linux (ep_waker d)
      then do { _ \<leftarrow> eventfd_drain K (ep_waker d); State_Monad.return (Some d) }
      else (case map_of (ep_timers d) fd of
          Some info \<Rightarrow> timer_fire K run fd info d
        | None \<Rightarrow>
            (let ev = from_epoll_events (snd e)
             in case ep_callbacks d fd of
                  None \<Rightarrow> State_Monad.return (Some d)
                | Some cb \<Rightarrow> do {
                    d' \<leftarrow> run (Io_call cb fd ev) (note_call (Io_call cb fd ev) d);
                    State_Monad.return (Some d')
                  })))"

primrec epoll_events :: "kernel \<Rightarrow> 'cb runner \<Rightarrow> (int \<times> u32) list \<Rightarrow> 'cb epoll \<Rightarrow> 'cb epoll option io" where
  "epoll_events K run [] d = State_Monad.return (Some d)"
| "epoll_events K run (e # es) d = do {
     r \<leftarrow> epoll_event K run e d;
     (case r of None \<Rightarrow> State_Monad.return None | Some d' \<Rightarrow> epoll_events K run es d')
   }"

definition EINTR_errno :: int where "EINTR_errno = 4"

definition epoll_poll :: "kernel \<Rightarrow> 'cb runner \<Rightarrow> int \<Rightarrow> 'cb epoll \<Rightarrow> (int result \<times> 'cb epoll) option io" where
  "epoll_poll K run timeout_ms d = do {
     r \<leftarrow> sys K (Sys_mux (Epoll_wait (ep_fd d) 256 timeout_ms));
     if sr_rc r < 0 then do {
       e \<leftarrow> get_errno;
       if e = EINTR_errno then State_Monad.return (Some (Inr 0, d))
       else do { ec \<leftarrow> os_failure Linux; State_Monad.return (Some (Inl ec, d)) }
     }
     else do {
       x \<leftarrow> epoll_events K run (take (nat (sr_rc r)) (sr_events r)) d;
       State_Monad.return (map_option (\<lambda>d'. (Inr (sr_rc r), d')) x)
     }
   }"

definition epoll_wake :: "kernel \<Rightarrow> 'cb epoll \<Rightarrow> unit io" where
  "epoll_wake K d = waker_wake K Linux (ep_waker d)"

section \<open>Flag translation\<close>

text \<open>What the system reports of the watched flags is what was asked for, and errors always.\<close>

lemma has_event_from_epoll:
  "has_event (from_epoll_events e) ev_readable \<longleftrightarrow> e AND EPOLLIN \<noteq> 0"
  "has_event (from_epoll_events e) ev_writable \<longleftrightarrow> e AND EPOLLOUT \<noteq> 0"
  "has_event (from_epoll_events e) ev_error \<longleftrightarrow> e AND EPOLLERR \<noteq> 0"
  "has_event (from_epoll_events e) ev_hangup \<longleftrightarrow> e AND EPOLLHUP \<noteq> 0"
  "has_event (from_epoll_events e) ev_peer_shutdown \<longleftrightarrow> e AND EPOLLRDHUP \<noteq> 0"
  by (simp_all add: from_epoll_events_def Let_def has_event_or)

lemma to_epoll_has:
  "to_epoll_events i AND EPOLLIN \<noteq> 0 \<longleftrightarrow> has_event i ev_readable"
  "to_epoll_events i AND EPOLLOUT \<noteq> 0 \<longleftrightarrow> has_event i ev_writable"
  "to_epoll_events i AND EPOLLERR \<noteq> 0" "to_epoll_events i AND EPOLLHUP \<noteq> 0"
  "to_epoll_events i AND EPOLLRDHUP \<noteq> 0"
  by (simp_all add: to_epoll_events_def Let_def epoll_flag_defs)

section \<open>The contract of a dispatcher\<close>

definition epoll_methods :: "kernel \<Rightarrow> ('cb epoll, 'cb) dispatcher" where
  "epoll_methods K = \<lparr>d_add = epoll_add K, d_modify = epoll_modify K, d_remove = epoll_remove K,
     d_schedule = epoll_schedule K, d_cancel = epoll_cancel K\<rparr>"

definition epoll_table :: "'cb epoll \<Rightarrow> (int, 'cb) table" where
  "epoll_table d = \<lparr>t_io = ep_callbacks d,
     t_timers = (\<lambda>fd. map_option (\<lambda>i. (ti_callback i, ti_repeating i)) (map_of (ep_timers d) fd))\<rparr>"

lemma timer_key_of_fd:
  assumes "0 \<le> fd" and "fd < 2 ^ 31"
  shows "timer_key (of_int fd) = fd"
proof -
  have "uint (of_int fd :: u64) = fd" using assms by (simp add: uint_word_of_int)
  then show ?thesis using assms by (simp add: timer_key_def to_int32_id)
qed

lemma of_int_fd_zero: "0 \<le> fd \<Longrightarrow> fd < 2 ^ 31 \<Longrightarrow> (of_int fd :: u64) = 0 \<longleftrightarrow> fd = 0"
  using timer_key_of_fd [of fd] timer_key_of_fd [of 0] by auto

lemma map_of_update: "map_of (AList.update k v xs) = (map_of xs)(k \<mapsto> v)"
  by (rule AList.update_conv')

lemma epoll_schedule_table:
  assumes "run_state (epoll_schedule (posix K) ms rep cb d) w = ((tid, d'), w')"
  shows "(tid = 0 \<and> d' = d) \<or> epoll_table d' = (epoll_table d)\<lparr>t_timers := (t_timers (epoll_table d))(timer_key tid \<mapsto> (cb, rep))\<rparr>"
proof -
  let ?t = "sr_rc (posix K (trace w) (Sys_mux Timerfd_create))"
  have k: "timer_key (of_int ?t) = ?t" if "\<not> ?t < 0"
    using that posix_range(2) [of K] by (intro timer_key_of_fd) simp_all
  show ?thesis
    using assms k by (auto simp: epoll_schedule_def io_simps epoll_table_def Let_def map_of_update split: if_splits)
qed

interpretation ep: dispatcher_table "epoll_methods (posix K)" timer_key epoll_table for K
proof unfold_locales
  fix fd i cb and d :: "'a epoll" and w r d' w'
  assume "run_state (d_add (epoll_methods (posix K)) fd i cb d) w = ((r, d'), w')"
  then show "epoll_table d' = table_op timer_key (Op_add fd i cb) (Answer (is_ok r)) (epoll_table d)"
    using os_failure_posix [of K]
    by (auto simp: epoll_methods_def epoll_add_def io_simps epoll_table_def split: if_splits)
next
  fix fd i and d :: "'a epoll" and w r d' w'
  assume "run_state (d_modify (epoll_methods (posix K)) fd i d) w = ((r, d'), w')"
  then show "epoll_table d' = epoll_table d"
    by (auto simp: epoll_methods_def epoll_modify_def io_simps split: if_splits)
next
  fix fd and d :: "'a epoll" and w r d' w'
  assume "run_state (d_remove (epoll_methods (posix K)) fd d) w = ((r, d'), w')"
  then show "epoll_table d' = table_op timer_key (Op_remove fd) (Answer (is_ok r)) (epoll_table d)"
    using os_failure_posix [of K]
    by (auto simp: epoll_methods_def epoll_remove_def io_simps epoll_table_def split: if_splits)
next
  fix ms rep cb and d :: "'a epoll" and w tid d' w'
  assume "run_state (d_schedule (epoll_methods (posix K)) ms rep cb d) w = ((tid, d'), w')" "tid \<noteq> 0"
  then show "epoll_table d' = table_op timer_key (Op_schedule ms rep cb) (Timer tid) (epoll_table d)"
    using epoll_schedule_table [of K ms rep cb d w tid d' w'] by (auto simp: epoll_methods_def)
next
  fix ms rep cb and d :: "'a epoll" and w d' w'
  assume "run_state (d_schedule (epoll_methods (posix K)) ms rep cb d) w = ((0, d'), w')"
  then show "epoll_table d' = epoll_table d \<or>
      epoll_table d' = (epoll_table d)\<lparr>t_timers := (t_timers (epoll_table d))(timer_key 0 \<mapsto> (cb, rep))\<rparr>"
    using epoll_schedule_table [of K ms rep cb d w 0 d' w'] by (auto simp: epoll_methods_def)
next
  fix tid and d :: "'a epoll" and w d' w'
  assume "run_state (d_cancel (epoll_methods (posix K)) tid d) w = (d', w')"
  then show "epoll_table d' = table_op timer_key (Op_cancel tid) (Answer True) (epoll_table d)"
    by (auto simp: epoll_methods_def epoll_cancel_def timer_erase_def io_simps epoll_table_def Let_def
        AList.delete_conv' fun_eq_iff split: option.splits)
qed

section \<open>Ownership\<close>

definition ep_owned :: "'cb epoll \<Rightarrow> int multiset" where
  "ep_owned d = (if ep_fd d \<ge> 0 then {#ep_fd d#} else {#}) + waker_owned Linux (ep_waker d)
     + mset (map fst (ep_timers d))"

definition ep_wf :: "'cb epoll \<Rightarrow> bool" where
  "ep_wf d \<longleftrightarrow> distinct (map fst (ep_timers d))"

lemma wp_close_all [wp_intros]:
  "(\<And>x. Q x (L - mset fds)) \<Longrightarrow> mset fds \<subseteq># L \<Longrightarrow> fd_wp (close_all K fds) Q L"
proof (induction fds arbitrary: L)
  case (Cons fd fds)
  then have "mset fds \<subseteq># L - {#fd#}" "fd \<in># L"
    by (simp_all add: insert_subset_eq_iff)
  then show ?case using Cons by (auto intro!: wp_intros)
qed (auto intro: wp_intros)

lemma epoll_new_acquires: "acquires (epoll_new K :: (string + 'cb epoll) io) ep_owned"
  unfolding epoll_new_def
  by (rule acquiresI)
    (auto simp: live_step.simps ep_owned_def waker_move_assign_def waker_close_def waker_default_def
        waker_owned_def
      intro!: fd_wp_bind fd_wp_sys fd_wp_if fd_wp_return fd_wp_case_sum fd_wp_case_prod
        wp_acquires [OF waker_create_acquires] wp_waker_drop)

lemma wp_epoll_drop:
  assumes "\<And>x. Q x (L - ep_owned d)" and "ep_owned d \<subseteq># L"
  shows "fd_wp (epoll_drop K d) Q L"
proof -
  obtain M where "L = M + ep_owned d" using assms(2) by (metis subset_mset.diff_add)
  then show ?thesis using assms(1) unfolding epoll_drop_def
    by (auto simp: ep_owned_def intro!: fd_wp_bind fd_wp_sys fd_wp_if fd_wp_return wp_close_all wp_waker_drop)
qed

interpretation epolls: owning_factory "epoll_new K" "epoll_drop K" ep_owned for K
  by unfold_locales (auto intro: epoll_new_acquires wp_epoll_drop)

text \<open>A descriptor the system hands out is not open already.\<close>

definition fresh_fds :: "kernel \<Rightarrow> bool" where
  "fresh_fds K \<longleftrightarrow> (\<forall>tr c. fd_effect_of c = Creates \<longrightarrow> sr_rc (K tr c) \<ge> 0 \<longrightarrow> sr_rc (K tr c) \<notin># live_fds tr)"

lemma wp_sys_at:
  "(\<And>tr. live_fds tr = L \<Longrightarrow> Q (K tr c) (live_step (c, K tr c) L)) \<Longrightarrow>
   (\<And>f. fd_effect_of c = Releases f \<Longrightarrow> f \<in># L) \<Longrightarrow> fd_wp (sys K c) Q L"
  by (simp add: fd_wp_def run_sys live_fds_snoc clean_snoc)

text \<open>
  \<open>keeps\<close>: started on a well-formed dispatcher, whose descriptors are open beside others, \<open>m\<close> ends
  with one, and leaves the others alone.
\<close>

definition keeps :: "'a io \<Rightarrow> ('a \<Rightarrow> 'cb epoll) \<Rightarrow> 'cb epoll \<Rightarrow> bool" where
  "keeps m out d \<longleftrightarrow> (\<forall>F. ep_wf d \<longrightarrow>
     fd_wp m (\<lambda>x L'. ep_wf (out x) \<and> L' = F + ep_owned (out x)) (F + ep_owned d))"

lemma keepsI:
  "(\<And>F. ep_wf d \<Longrightarrow> fd_wp m (\<lambda>x L'. ep_wf (out x) \<and> L' = F + ep_owned (out x)) (F + ep_owned d)) \<Longrightarrow>
   keeps m out d"
  by (simp add: keeps_def)

lemma keeps_sockets:
  "keeps (epoll_add K fd i cb d) snd d" "keeps (epoll_modify K fd i d) snd d" "keeps (epoll_remove K fd d) snd d"
  unfolding epoll_add_def epoll_modify_def epoll_remove_def
  by (rule keepsI; auto simp: ep_wf_def ep_owned_def intro!: fd_wp_bind fd_wp_if fd_wp_return
      fd_wp_neutral [OF neutral_mux(1)] fd_wp_neutral [OF neutral_os_failure])+

lemma mset_delete_key:
  "distinct (map fst xs) \<Longrightarrow> k \<in> fst ` set xs \<Longrightarrow>
   mset (map fst xs) = add_mset k (mset (map fst (AList.delete k xs)))"
proof (induction xs)
  case (Cons p xs)
  show ?case
  proof (cases "fst p = k")
    case True
    then have "AList.delete k (p # xs) = xs"
      using Cons.prems(1) AList.delete_id [of k xs] by (cases p) (simp add: AList.delete_eq)
    then show ?thesis using True by simp
  next
    case False
    then have "AList.delete k (p # xs) = p # AList.delete k xs" by (cases p) (auto simp: AList.delete_eq)
    then show ?thesis using Cons False by simp
  qed
qed simp

lemma keeps_timer_erase:
  assumes "tfd \<in> fst ` set (ep_timers d)"
  shows "keeps (timer_erase K tfd d) id d"
proof (rule keepsI)
  fix F
  assume wf: "ep_wf d"
  have "mset (map fst (ep_timers d)) = add_mset tfd (mset (map fst (AList.delete tfd (ep_timers d))))"
    using assms wf by (intro mset_delete_key) (simp_all add: ep_wf_def)
  then show "fd_wp (timer_erase K tfd d) (\<lambda>x L'. ep_wf (id x) \<and> L' = F + ep_owned (id x)) (F + ep_owned d)"
    using wf unfolding timer_erase_def
    by (auto simp: ep_wf_def ep_owned_def AList.distinct_delete
        intro!: fd_wp_bind fd_wp_sys fd_wp_return fd_wp_neutral [OF neutral_mux(1)])
qed

lemma keeps_cancel: "keeps (epoll_cancel K tid d) id d"
proof (cases "map_of (ep_timers d) (timer_key tid)")
  case None
  then show ?thesis by (auto simp: epoll_cancel_def intro!: keepsI fd_wp_return)
next
  case (Some i)
  then have "timer_key tid \<in> fst ` set (ep_timers d)" by (metis map_of_eq_None_iff option.simps(3))
  from keeps_timer_erase [OF this] show ?thesis by (simp add: epoll_cancel_def Some)
qed

lemma mset_update_new:
  "k \<notin> fst ` set xs \<Longrightarrow> image_mset fst (mset (AList.update k v xs)) = add_mset k (image_mset fst (mset xs))"
  by (induction xs) auto

lemma keeps_schedule:
  assumes "fresh_fds K"
  shows "keeps (epoll_schedule K ms rep cb d) snd d"
proof (rule keepsI)
  fix F
  assume wf: "ep_wf d"
  have new: "sr_rc (K tr (Sys_mux Timerfd_create)) \<notin> fst ` set (ep_timers d)"
    if "\<not> sr_rc (K tr (Sys_mux Timerfd_create)) < 0" "live_fds tr = F + ep_owned d" for tr
  proof -
    have "sr_rc (K tr (Sys_mux Timerfd_create)) \<notin># live_fds tr"
      using assms that(1) by (simp add: fresh_fds_def)
    then have "sr_rc (K tr (Sys_mux Timerfd_create)) \<notin># mset (map fst (ep_timers d))"
      by (simp add: that(2) ep_owned_def)
    then show ?thesis by simp
  qed
  show "fd_wp (epoll_schedule K ms rep cb d) (\<lambda>x L'. ep_wf (snd x) \<and> L' = F + ep_owned (snd x)) (F + ep_owned d)"
    unfolding epoll_schedule_def Let_def
    using wf new
    by (auto simp: live_step.simps ep_wf_def ep_owned_def mset_update_new AList.distinct_update
        intro!: fd_wp_bind wp_sys_at [of _ _ K "Sys_mux Timerfd_create"] fd_wp_sys [of _ "Sys_close _"]
          fd_wp_if fd_wp_return fd_wp_neutral [OF neutral_mux(1)] fd_wp_neutral [OF neutral_mux(3)])
qed

lemma keeps_map:
  assumes "keeps m out d" and "\<And>x. h x = State_Monad.return (f x)" and "\<And>x. out' (f x) = out x"
  shows "keeps (State_Monad.bind m h) out' d"
proof (rule keepsI)
  fix F assume "ep_wf d"
  with assms(1) have "fd_wp m (\<lambda>x L'. ep_wf (out x) \<and> L' = F + ep_owned (out x)) (F + ep_owned d)"
    by (simp add: keeps_def)
  then show "fd_wp (State_Monad.bind m h) (\<lambda>x L'. ep_wf (out' x) \<and> L' = F + ep_owned (out' x)) (F + ep_owned d)"
    by (intro fd_wp_bind, elim fd_wp_weaken) (simp add: assms(2,3) fd_wp_return)
qed

lemma epoll_methods_simps [simp]:
  "d_add (epoll_methods K) = epoll_add K" "d_modify (epoll_methods K) = epoll_modify K"
  "d_remove (epoll_methods K) = epoll_remove K" "d_schedule (epoll_methods K) = epoll_schedule K"
  "d_cancel (epoll_methods K) = epoll_cancel K"
  by (simp_all add: epoll_methods_def)

lemma keeps_op:
  assumes "fresh_fds K"
  shows "keeps (exec_op (epoll_methods K) a d) snd d"
proof (cases a)
  case (Op_add fd i cb)
  then show ?thesis
    by (auto split: prod.split
        intro!: keeps_map [OF keeps_sockets(1), where f = "\<lambda>(r, d'). (Answer (is_ok r), d')"])
next
  case (Op_modify fd i)
  then show ?thesis
    by (auto split: prod.split
        intro!: keeps_map [OF keeps_sockets(2), where f = "\<lambda>(r, d'). (Answer (is_ok r), d')"])
next
  case (Op_remove fd)
  then show ?thesis
    by (auto split: prod.split
        intro!: keeps_map [OF keeps_sockets(3), where f = "\<lambda>(r, d'). (Answer (is_ok r), d')"])
next
  case (Op_schedule ms rep cb)
  then show ?thesis
    by (auto split: prod.split
        intro!: keeps_map [OF keeps_schedule [OF assms], where f = "\<lambda>(t, d'). (Timer t, d')"])
next
  case (Op_cancel tid)
  then show ?thesis
    by (auto intro!: keeps_map [OF keeps_cancel, where f = "\<lambda>d'. (Answer True, d')"])
qed

text \<open>
  A callback may do what it likes with the dispatcher and the system, as long as it leaves a
  well-formed dispatcher whose descriptors are open.
\<close>

definition ep_good :: "'cb epoll \<Rightarrow> int multiset \<Rightarrow> bool" where
  "ep_good d L \<longleftrightarrow> ep_wf d \<and> ep_owned d \<subseteq># L"

definition runs_well :: "'cb runner \<Rightarrow> bool" where
  "runs_well run \<longleftrightarrow> (\<forall>i d L. ep_good d L \<longrightarrow> fd_wp (run i d) ep_good L)"

abbreviation opt_good :: "'cb epoll option \<Rightarrow> int multiset \<Rightarrow> bool" where
  "opt_good x L \<equiv> (\<forall>d. x = Some d \<longrightarrow> ep_good d L)"

lemma ep_good_note [simp]: "ep_good (note_call i d) L = ep_good d L"
  by (simp add: ep_good_def note_call_def ep_wf_def ep_owned_def)

lemma keeps_good:
  assumes "keeps m out d" and "ep_good d L"
  shows "fd_wp m (\<lambda>x. ep_good (out x)) L"
proof -
  obtain F where L: "L = F + ep_owned d" using assms(2) unfolding ep_good_def by (metis subset_mset.diff_add)
  have "fd_wp m (\<lambda>x L'. ep_wf (out x) \<and> L' = F + ep_owned (out x)) L"
    using assms by (simp add: keeps_def ep_good_def L)
  then show ?thesis by (rule fd_wp_weaken) (simp add: ep_good_def)
qed

lemma timer_fire_good:
  assumes "runs_well run" and "ep_good d L"
  shows "fd_wp (timer_fire K run fd info d) opt_good L"
  unfolding timer_fire_def
proof (intro fd_wp_bind fd_wp_neutral [OF neutral_data])
  show "fd_wp (run (Timer_call (ti_callback info)) (note_call (Timer_call (ti_callback info)) d))
    (\<lambda>d1. fd_wp (case map_of (ep_timers d1) fd of
        None \<Rightarrow> State_Monad.return None
      | Some info' \<Rightarrow>
          if ti_node info' \<noteq> ti_node info then State_Monad.return None
          else if \<not> ti_repeating info' then do { d2 \<leftarrow> timer_erase K fd d1; State_Monad.return (Some d2) }
          else State_Monad.return (Some d1)) opt_good) L"
  proof (rule fd_wp_weaken)
    show "fd_wp (run (Timer_call (ti_callback info)) (note_call (Timer_call (ti_callback info)) d)) ep_good L"
      using assms by (simp add: runs_well_def)
  next
    fix d1 :: "'a epoll" and L'
    assume good: "ep_good d1 L'"
    have "fd_wp (timer_erase K fd d1) ep_good L'" if "map_of (ep_timers d1) fd = Some i" for i
    proof -
      have "fd \<in> fst ` set (ep_timers d1)" using that by (metis map_of_eq_None_iff option.simps(3))
      from keeps_good [OF keeps_timer_erase [OF this] good] show ?thesis by simp
    qed
    then show "fd_wp (case map_of (ep_timers d1) fd of
        None \<Rightarrow> State_Monad.return None
      | Some info' \<Rightarrow>
          if ti_node info' \<noteq> ti_node info then State_Monad.return None
          else if \<not> ti_repeating info' then do { d2 \<leftarrow> timer_erase K fd d1; State_Monad.return (Some d2) }
          else State_Monad.return (Some d1)) opt_good L'"
      using good by (auto intro!: wp_intros elim!: fd_wp_weaken)
  qed
qed

lemma run_good:
  assumes "runs_well run" and "ep_good d L"
  shows "fd_wp (do { d' \<leftarrow> run i d; State_Monad.return (Some d') }) opt_good L"
proof (rule fd_wp_bind, rule fd_wp_weaken)
  show "fd_wp (run i d) ep_good L" using assms by (simp add: runs_well_def)
qed (simp add: fd_wp_return)

lemma epoll_event_good:
  assumes "runs_well run" and "ep_good d L"
  shows "fd_wp (epoll_event K run e d) opt_good L"
  using assms unfolding epoll_event_def Let_def
  by (auto intro!: fd_wp_if fd_wp_case_option fd_wp_return timer_fire_good run_good
      fd_wp_bind [OF fd_wp_neutral [OF neutral_eventfd_drain]])

lemma epoll_events_good:
  assumes "runs_well run"
  shows "ep_good d L \<Longrightarrow> fd_wp (epoll_events K run es d) opt_good L"
proof (induction es arbitrary: d L)
  case (Cons e es)
  show ?case unfolding epoll_events.simps
    by (rule fd_wp_bind, rule fd_wp_weaken [OF epoll_event_good [OF assms Cons.prems]])
      (auto intro!: wp_intros Cons.IH)
qed (simp add: fd_wp_return)

lemma epoll_poll_good:
  assumes "runs_well run" and "ep_good d L"
  shows "fd_wp (epoll_poll K run t d) (\<lambda>x L'. \<forall>r d'. x = Some (r, d') \<longrightarrow> ep_good d' L') L"
  unfolding epoll_poll_def
  by (auto simp: assms(2) intro!: fd_wp_bind fd_wp_neutral [OF neutral_mux(2)] fd_wp_if fd_wp_return
      fd_wp_neutral [OF neutral_get_errno] fd_wp_neutral [OF neutral_os_failure]
      fd_wp_weaken [OF epoll_events_good [OF assms]])

section \<open>The dispatcher at work\<close>

text \<open>
  The states of a dispatcher and the system: operations, wake-ups and polls of the dispatcher, in
  any order, and steps of other code that leave the dispatcher's descriptors open.
\<close>

inductive ep_step :: "kernel \<Rightarrow> 'cb runner \<Rightarrow> 'cb epoll \<times> world \<Rightarrow> 'cb epoll \<times> world \<Rightarrow> bool" for K run where
  step_op: "run_state (exec_op (epoll_methods K) a d) w = ((x, d'), w') \<Longrightarrow> ep_step K run (d, w) (d', w')"
| step_wake: "run_state (epoll_wake K d) w = (x, w') \<Longrightarrow> ep_step K run (d, w) (d, w')"
| step_poll: "run_state (epoll_poll K run t d) w = (Some (r, d'), w') \<Longrightarrow> ep_step K run (d, w) (d', w')"
| step_other: "ep_owned d \<subseteq># live w' \<Longrightarrow> clean (trace w') \<Longrightarrow> ep_step K run (d, w) (d, w')"

definition ep_init :: "kernel \<Rightarrow> 'cb epoll \<times> world \<Rightarrow> bool" where
  "ep_init K s \<longleftrightarrow> (\<exists>w0. clean (trace w0) \<and> run_state (epoll_new K) w0 = (Inr (fst s), snd s))"

definition ep_inv :: "'cb epoll \<times> world \<Rightarrow> bool" where
  "ep_inv s \<longleftrightarrow> ep_good (fst s) (live (snd s)) \<and> clean (trace (snd s))"

lemma ep_init_inv:
  assumes "ep_init K (d, w)"
  shows "ep_inv (d, w)"
proof -
  obtain w0 where w0: "clean (trace w0)" "run_state (epoll_new K) w0 = (Inr d, w)"
    using assms by (auto simp: ep_init_def)
  from acquires_run [OF epoll_new_acquires w0(2,1)] have "live w = live w0 + ep_owned d" "clean (trace w)" by simp_all
  moreover have "ep_wf d" using w0(2) by (auto simp: epoll_new_def ep_wf_def io_simps split: sum.splits prod.splits if_splits)
  ultimately show ?thesis by (simp add: ep_inv_def ep_good_def)
qed

lemma ep_step_inv:
  assumes "ep_step K run s t" and "fresh_fds K" and "runs_well run" and "ep_inv s"
  shows "ep_inv t"
  using assms
proof (induction rule: ep_step.induct)
  case (step_op a d w x d' w')
  have "fd_wp (exec_op (epoll_methods K) a d) (\<lambda>x. ep_good (snd x)) (live w)"
    by (rule keeps_good [OF keeps_op [OF step_op(2)]]) (use step_op(4) in \<open>simp add: ep_inv_def\<close>)
  from fd_wpD [OF this step_op(1)] step_op(4) show ?case by (simp add: ep_inv_def)
next
  case (step_wake d w x w')
  from neutral_run [OF neutral_waker_wake] neutral_clean [OF neutral_waker_wake] step_wake show ?case
    unfolding epoll_wake_def ep_inv_def by (metis fst_conv snd_conv)
next
  case (step_poll t d w r d' w')
  have "fd_wp (epoll_poll K run t d) (\<lambda>x L'. \<forall>r d'. x = Some (r, d') \<longrightarrow> ep_good d' L') (live w)"
    using step_poll(3,4) by (intro epoll_poll_good) (simp_all add: ep_inv_def)
  from fd_wpD [OF this step_poll(1)] step_poll(4) show ?case by (simp add: ep_inv_def)
next
  case (step_other d w' w)
  then show ?case by (simp add: ep_inv_def ep_good_def)
qed

lemma ep_reachable_inv:
  assumes "fresh_fds K" and "runs_well run" and "reachable (ep_init K) (ep_step K run) s"
  shows "ep_inv s"
  using assms(3)
proof (induction rule: reachable.induct)
  case (reach_init s)
  then show ?case using ep_init_inv [of K "fst s" "snd s"] by simp
next
  case (reach_step s t)
  then show ?case using ep_step_inv assms(1,2) by blast
qed

section \<open>What a poll dispatches\<close>

text \<open>
  The reference: one invocation per reported descriptor, in the order of the report, none for the
  waker and none for a descriptor without a registration.
\<close>

definition event_calls :: "'cb epoll \<Rightarrow> int \<times> u32 \<Rightarrow> 'cb invocation list" where
  "event_calls d e =
     (if fst e = waker_fd Linux (ep_waker d) then []
      else (case map_of (ep_timers d) (fst e) of
          Some info \<Rightarrow> [Timer_call (ti_callback info)]
        | None \<Rightarrow> (case ep_callbacks d (fst e) of
            Some cb \<Rightarrow> [Io_call cb (fst e) (from_epoll_events (snd e))] | None \<Rightarrow> [])))"

text \<open>The one-shot timers among the reported descriptors are gone afterwards.\<close>

definition fired_once :: "'cb epoll \<Rightarrow> int set \<Rightarrow> int \<Rightarrow> bool" where
  "fired_once d fds fd \<longleftrightarrow> fd \<in> fds \<and> fd \<noteq> waker_fd Linux (ep_waker d)
     \<and> (\<exists>i. map_of (ep_timers d) fd = Some i \<and> \<not> ti_repeating i)"

definition timers_left :: "'cb epoll \<Rightarrow> int set \<Rightarrow> int \<rightharpoonup> 'cb timer_info" where
  "timers_left d fds = (\<lambda>fd. if fired_once d fds fd then None else map_of (ep_timers d) fd)"

text \<open>Callbacks that do not touch the dispatcher.\<close>

definition quiet :: "'cb runner \<Rightarrow> bool" where
  "quiet run \<longleftrightarrow> (\<forall>i d w. fst (run_state (run i d) w) = d)"

lemma quietD:
  assumes "quiet run"
  obtains w' where "run_state (run i d) w = (d, w')"
  using assms unfolding quiet_def by (metis prod.exhaust_sel)

lemma epoll_event_quiet:
  assumes "quiet run"
  obtains d' w' where "run_state (epoll_event K run e d) w = (Some d', w')"
    "ep_log d' = ep_log d @ event_calls d e" "ep_callbacks d' = ep_callbacks d" "ep_waker d' = ep_waker d"
    "map_of (ep_timers d') = timers_left d {fst e}"
proof (cases "fst e = waker_fd Linux (ep_waker d)")
  case True
  show ?thesis
    by (rule that [of d "snd (run_state (eventfd_drain K (ep_waker d)) w)"])
      (auto simp: True epoll_event_def event_calls_def timers_left_def fired_once_def split: prod.split)
next
  case nowaker: False
  show ?thesis
  proof (cases "map_of (ep_timers d) (fst e)")
    case None
    show ?thesis
    proof (cases "ep_callbacks d (fst e)")
      case None': None
      show ?thesis
        by (rule that [of d w])
          (use nowaker None None' in \<open>auto simp: epoll_event_def event_calls_def timers_left_def fired_once_def Let_def\<close>)
    next
      case (Some cb)
      let ?i = "Io_call cb (fst e) (from_epoll_events (snd e))"
      obtain w' where r: "run_state (run ?i (note_call ?i d)) w = (note_call ?i d, w')"
        using quietD [OF assms] by blast
      show ?thesis
        by (rule that [of "note_call ?i d" w'])
          (use nowaker None Some r in \<open>auto simp: epoll_event_def event_calls_def timers_left_def fired_once_def Let_def note_call_def\<close>)
    qed
  next
    case (Some info)
    let ?i = "Timer_call (ti_callback info)"
    let ?w = "final_world (sys K (Sys_data (Read (fst e) 8))) w"
    obtain w' where r: "run_state (run ?i (note_call ?i d)) ?w = (note_call ?i d, w')"
      using quietD [OF assms] by blast
    have fire: "run_state (timer_fire K run (fst e) info d) w =
        (if ti_repeating info then (Some (note_call ?i d), w')
         else (Some ((note_call ?i d)\<lparr>ep_timers := AList.delete (fst e) (ep_timers d)\<rparr>),
               final_world (timer_erase K (fst e) (note_call ?i d)) w'))"
      using r Some by (simp add: timer_fire_def run_sys note_call_def timer_erase_def)
    let ?d = "if ti_repeating info then note_call ?i d
      else (note_call ?i d)\<lparr>ep_timers := AList.delete (fst e) (ep_timers d)\<rparr>"
    show ?thesis
      by (rule that [of ?d "snd (run_state (timer_fire K run (fst e) info d) w)"])
        (use nowaker Some fire in \<open>auto simp: epoll_event_def event_calls_def timers_left_def fired_once_def
          Let_def note_call_def AList.delete_conv' fun_eq_iff\<close>)
  qed
qed

lemma epoll_events_quiet:
  assumes "quiet run"
  shows "distinct (map fst es) \<Longrightarrow> \<exists>d' w'. run_state (epoll_events K run es d) w = (Some d', w')
    \<and> ep_log d' = ep_log d @ concat (map (event_calls d) es) \<and> ep_callbacks d' = ep_callbacks d
    \<and> map_of (ep_timers d') = timers_left d (set (map fst es))"
proof (induction es arbitrary: d w)
  case Nil
  show ?case by (auto simp: timers_left_def fired_once_def)
next
  case (Cons e es)
  obtain d1 w1 where 1: "run_state (epoll_event K run e d) w = (Some d1, w1)"
    "ep_log d1 = ep_log d @ event_calls d e" "ep_callbacks d1 = ep_callbacks d" "ep_waker d1 = ep_waker d"
    "map_of (ep_timers d1) = timers_left d {fst e}"
    by (rule epoll_event_quiet [OF assms])
  have "distinct (map fst es)" using Cons.prems by simp
  from Cons.IH [OF this, of d1 w1] obtain d2 w2 where 2: "run_state (epoll_events K run es d1) w1 = (Some d2, w2)"
    "ep_log d2 = ep_log d1 @ concat (map (event_calls d1) es)" "ep_callbacks d2 = ep_callbacks d1"
    "map_of (ep_timers d2) = timers_left d1 (set (map fst es))" by blast
  have "event_calls d1 e' = event_calls d e'" if "e' \<in> set es" for e'
  proof -
    have "fst e' \<noteq> fst e" using that Cons.prems by (auto simp: image_iff)
    then have "map_of (ep_timers d1) (fst e') = map_of (ep_timers d) (fst e')"
      using 1(5) by (simp add: timers_left_def fired_once_def)
    then show ?thesis using 1(3,4) by (simp add: event_calls_def cong: option.case_cong)
  qed
  then have "concat (map (event_calls d1) es) = concat (map (event_calls d) es)" by (metis map_cong)
  moreover have "timers_left d1 (set (map fst es)) = timers_left d (set (map fst (e # es)))"
    using Cons.prems 1(4,5) by (auto simp: timers_left_def fired_once_def fun_eq_iff)
  ultimately show ?case using 1 2 by simp
qed

text \<open>A timer callback that leaves its own entry where it is.\<close>

definition keeps_entry :: "'cb runner \<Rightarrow> bool" where
  "keeps_entry run \<longleftrightarrow> (\<forall>fd info d w. map_of (ep_timers d) fd = Some info \<longrightarrow>
     map_of (ep_timers (fst (run_state (run (Timer_call (ti_callback info)) d) w))) fd = Some info)"

lemma epoll_event_defined:
  assumes "keeps_entry run"
  shows "fst (run_state (epoll_event K run e d) w) \<noteq> None"
proof (cases "map_of (ep_timers d) (fst e)")
  case None
  then show ?thesis by (auto simp: epoll_event_def Let_def split: option.split prod.split)
next
  case (Some info)
  let ?i = "Timer_call (ti_callback info)"
  have "map_of (ep_timers (fst (run_state (run ?i (note_call ?i d)) w'))) (fst e) = Some info" for w'
    using assms Some unfolding keeps_entry_def by (simp add: note_call_def)
  then show ?thesis using Some
    by (auto simp: epoll_event_def timer_fire_def timer_erase_def io_simps Let_def case_prod_beta)
qed

lemma epoll_events_defined:
  assumes "keeps_entry run"
  shows "fst (run_state (epoll_events K run es d) w) \<noteq> None"
proof (induction es arbitrary: d w)
  case (Cons e es)
  obtain d' w' where "run_state (epoll_event K run e d) w = (Some d', w')"
    using epoll_event_defined [OF assms, of K e d w] by (cases "run_state (epoll_event K run e d) w") auto
  then show ?case using Cons.IH [of d' w'] by simp
qed simp

section \<open>Properties\<close>


definition idle_epoll :: "'cb epoll" where
  "idle_epoll = \<lparr>ep_fd = 3, ep_waker = waker_default\<lparr>wk_efd := 4\<rparr>, ep_callbacks = Map.empty, ep_timers = [],
     ep_nodes = 0, ep_log = []\<rparr>"



text \<open>A system that hands out a new number each time.\<close>

definition counting_kernel :: kernel where
  "counting_kernel tr c = sys_ok\<lparr>sr_rc := (if fd_effect_of c = Creates then Max (insert 0 (set_mset (live_fds tr))) + 1 else 0)\<rparr>"

lemma counting_nonneg [simp]:
  "0 \<le> Max (insert 0 (set_mset M)) + (1 :: int)" "\<not> Max (insert 0 (set_mset M)) + (1 :: int) < 0"
proof -
  have "0 \<le> Max (insert 0 (set_mset M))" by (rule Max_ge) simp_all
  then show "0 \<le> Max (insert 0 (set_mset M)) + (1 :: int)" "\<not> Max (insert 0 (set_mset M)) + (1 :: int) < 0"
    by linarith+
qed

lemma counting_fresh: "fresh_fds counting_kernel"
proof -
  have "m + 1 \<notin> A" if "finite A" "m = Max (insert 0 A)" for m :: int and A
    using that Max_ge [of "insert 0 A" "m + 1"] by auto
  from this [of "set_mset (live_fds tr)" for tr] show ?thesis
    by (auto simp: fresh_fds_def counting_kernel_def)
qed




text \<open>
  Firing a timer is memory safe when its callback leaves its own entry in the table: a poll
  never uses a node that is gone, whatever else the callbacks do to the dispatcher.
\<close>

theorem epoll_poll_defined:
  assumes "keeps_entry run"
  shows "fst (run_state (epoll_poll K run t d) w) \<noteq> None"
  using epoll_events_defined [OF assms] by (auto simp: epoll_poll_def io_simps case_prod_beta)

theorem epoll_poll_defined_witness:
  "fst (run_state (epoll_poll ok_kernel (\<lambda>i. State_Monad.return) 0 (idle_epoll :: nat epoll)) start_world) \<noteq> None"
  by (rule epoll_poll_defined) (simp add: keeps_entry_def)

text \<open>
  A timer callback that cancels its own timer is undefined behaviour: \<open>cancel_timer\<close> erases the
  node whose callback is running and whose iterator \<open>poll\<close> uses afterwards.
\<close>

theorem epoll_self_cancel_undefined:
  assumes "map_of (ep_timers d) fd = Some info" and "fd \<noteq> waker_fd Linux (ep_waker d)"
    and "timer_key (ti_id info) = fd"
    and "\<And>d1. run (Timer_call (ti_callback info)) d1 = epoll_cancel K (ti_id info) d1"
  shows "fst (run_state (epoll_event K run (fd, ev) d) w) = None"
  using assms
  by (simp add: epoll_event_def timer_fire_def epoll_cancel_def timer_erase_def note_call_def io_simps
      AList.delete_conv')

theorem epoll_self_cancel_undefined_witness:
  "fst (run_state (epoll_event ok_kernel (\<lambda>i. epoll_cancel ok_kernel 9) (9, EPOLLIN)
     (idle_epoll\<lparr>ep_timers := [(9, \<lparr>ti_id = 9, ti_callback = (1 :: nat), ti_repeating = True, ti_node = 0\<rparr>)]\<rparr>)) start_world) = None"
  by (rule epoll_self_cancel_undefined
        [where info = "\<lparr>ti_id = 9, ti_callback = (1 :: nat), ti_repeating = True, ti_node = 0\<rparr>"])
    (simp_all add: idle_epoll_def waker_fd_def timer_key_def to_int32_def)

end
