(* ===== verification/Kqueue.thy ===== *)
theory Kqueue
  imports Dispatcher
begin

text \<open>
  The macOS dispatcher: \<open>src/event/kqueue.cpp\<close>.

  A descriptor is its own \<open>ident\<close>, as the conversions between \<open>socket_t\<close> and \<open>uintptr_t\<close> are inverse on
  descriptors. As for epoll, a timer entry has the number of its map node, and a use of a node that
  is gone is \<open>None\<close>. \<open>modify\<close> issues only the difference between the old and the new interest; the
  lemmas show that the filters the system has are nevertheless those of the recorded interest.
\<close>

section \<open>Flags\<close>

definition EV_ADD :: u16 where "EV_ADD = 0x0001"
definition EV_DELETE :: u16 where "EV_DELETE = 0x0002"
definition EV_ENABLE :: u16 where "EV_ENABLE = 0x0004"
definition EV_ONESHOT :: u16 where "EV_ONESHOT = 0x0010"
definition EV_CLEAR :: u16 where "EV_CLEAR = 0x0020"
definition EV_EOF :: u16 where "EV_EOF = 0x8000"
definition EV_ERROR :: u16 where "EV_ERROR = 0x4000"
definition NOTE_TRIGGER :: u32 where "NOTE_TRIGGER = 0x01000000"

lemmas kqueue_flag_defs = EV_ADD_def EV_DELETE_def EV_ENABLE_def EV_ONESHOT_def EV_CLEAR_def EV_EOF_def
  EV_ERROR_def NOTE_TRIGGER_def

definition WAKER_IDENT :: int where "WAKER_IDENT = 2 ^ 64 - 1"

text \<open>The macOS headers have no \<open>NOTE_MSECONDS\<close>; the default unit is the millisecond.\<close>

definition timer_units :: u32 where "timer_units = 0"

section \<open>State\<close>

record 'cb ktimer_info =
  kt_callback :: 'cb
  kt_repeating :: bool
  kt_node :: nat

record 'cb kqueue =
  kq_fd :: int
  kq_callbacks :: "int \<rightharpoonup> 'cb"
  kq_interests :: "int \<rightharpoonup> io_event"
  kq_timers :: "timer_id \<rightharpoonup> 'cb ktimer_info"
  kq_next_timer :: timer_id
  kq_nodes :: nat
  kq_log :: "'cb invocation list"

definition filter_add :: "int \<Rightarrow> kfilter \<Rightarrow> kchange" where
  "filter_add fd f = \<lparr>kc_ident = fd, kc_filter = f, kc_flags = EV_ADD OR EV_ENABLE, kc_fflags = 0, kc_data = 0\<rparr>"

definition filter_delete :: "int \<Rightarrow> kfilter \<Rightarrow> kchange" where
  "filter_delete fd f = \<lparr>kc_ident = fd, kc_filter = f, kc_flags = EV_DELETE, kc_fflags = 0, kc_data = 0\<rparr>"

section \<open>Construction and destruction\<close>

definition kqueue_new :: "kernel \<Rightarrow> (string + 'cb kqueue) io" where
  "kqueue_new K = do {
     r \<leftarrow> sys K (Sys_mux Kqueue);
     if sr_rc r < 0 then State_Monad.return (Inl ''socketpp: kqueue creation failed'')
     else do {
       c \<leftarrow> sys K (Sys_mux (Kevent (sr_rc r) [\<lparr>kc_ident = WAKER_IDENT, kc_filter = EVFILT_USER,
              kc_flags = EV_ADD OR EV_ENABLE OR EV_CLEAR, kc_fflags = 0, kc_data = 0\<rparr>]));
       if sr_rc c < 0 then do {
         _ \<leftarrow> sys K (Sys_close (sr_rc r));
         State_Monad.return (Inl ''socketpp: kqueue waker registration failed'')
       }
       else State_Monad.return (Inr \<lparr>kq_fd = sr_rc r, kq_callbacks = Map.empty, kq_interests = Map.empty,
         kq_timers = Map.empty, kq_next_timer = 1, kq_nodes = 0, kq_log = []\<rparr>)
     }
   }"

definition kqueue_drop :: "kernel \<Rightarrow> 'cb kqueue \<Rightarrow> unit io" where
  "kqueue_drop K d =
     (if kq_fd d \<ge> 0 then do { _ \<leftarrow> sys K (Sys_close (kq_fd d)); State_Monad.return () }
      else State_Monad.return ())"

section \<open>Sockets\<close>

definition interest_changes :: "int \<Rightarrow> io_event \<Rightarrow> kchange list" where
  "interest_changes fd interest =
     (if has_event interest ev_readable then [filter_add fd EVFILT_READ] else []) @
     (if has_event interest ev_writable then [filter_add fd EVFILT_WRITE] else [])"

definition apply_interest :: "kernel \<Rightarrow> int \<Rightarrow> io_event \<Rightarrow> 'cb kqueue \<Rightarrow> rvoid io" where
  "apply_interest K fd interest d =
     (let changes = interest_changes fd interest
      in if changes \<noteq> [] then do {
           r \<leftarrow> sys K (Sys_mux (Kevent (kq_fd d) changes));
           if sr_rc r < 0 then os_failure MacOS else State_Monad.return void_ok
         }
         else State_Monad.return void_ok)"

definition kqueue_add :: "kernel \<Rightarrow> int \<Rightarrow> io_event \<Rightarrow> 'cb \<Rightarrow> 'cb kqueue \<Rightarrow> (rvoid \<times> 'cb kqueue) io" where
  "kqueue_add K fd interest cb d = do {
     res \<leftarrow> apply_interest K fd interest d;
     if \<not> is_ok res then State_Monad.return (res, d)
     else State_Monad.return (void_ok, d\<lparr>kq_callbacks := (kq_callbacks d)(fd \<mapsto> cb),
       kq_interests := (kq_interests d)(fd \<mapsto> interest)\<rparr>)
   }"

definition modify_changes :: "int \<Rightarrow> io_event \<Rightarrow> io_event \<Rightarrow> kchange list" where
  "modify_changes fd old_interest interest =
     (let had_read = has_event old_interest ev_readable; had_write = has_event old_interest ev_writable;
          want_read = has_event interest ev_readable; want_write = has_event interest ev_writable
      in (if want_read \<and> \<not> had_read then [filter_add fd EVFILT_READ]
          else if \<not> want_read \<and> had_read then [filter_delete fd EVFILT_READ] else []) @
         (if want_write \<and> \<not> had_write then [filter_add fd EVFILT_WRITE]
          else if \<not> want_write \<and> had_write then [filter_delete fd EVFILT_WRITE] else []))"

definition kqueue_modify :: "kernel \<Rightarrow> int \<Rightarrow> io_event \<Rightarrow> 'cb kqueue \<Rightarrow> (rvoid \<times> 'cb kqueue) io" where
  "kqueue_modify K fd interest d =
     (let old_interest = (case kq_interests d fd of Some i \<Rightarrow> i | None \<Rightarrow> ev_none);
          changes = modify_changes fd old_interest interest;
          d' = d\<lparr>kq_interests := (kq_interests d)(fd \<mapsto> interest)\<rparr>
      in if changes \<noteq> [] then do {
           r \<leftarrow> sys K (Sys_mux (Kevent (kq_fd d) changes));
           if sr_rc r < 0 then do { ec \<leftarrow> os_failure MacOS; State_Monad.return (ec, d) }
           else State_Monad.return (void_ok, d')
         }
         else State_Monad.return (void_ok, d'))"

definition remove_changes :: "int \<Rightarrow> io_event \<Rightarrow> kchange list" where
  "remove_changes fd interest =
     (if has_event interest ev_readable then [filter_delete fd EVFILT_READ] else []) @
     (if has_event interest ev_writable then [filter_delete fd EVFILT_WRITE] else [])"

definition kqueue_remove :: "kernel \<Rightarrow> int \<Rightarrow> 'cb kqueue \<Rightarrow> (rvoid \<times> 'cb kqueue) io" where
  "kqueue_remove K fd d = do {
     d1 \<leftarrow> (case kq_interests d fd of
             None \<Rightarrow> State_Monad.return d
           | Some i \<Rightarrow> do {
               _ \<leftarrow> (if remove_changes fd i \<noteq> []
                    then do { _ \<leftarrow> sys K (Sys_mux (Kevent (kq_fd d) (remove_changes fd i))); State_Monad.return () }
                    else State_Monad.return ());
               State_Monad.return (d\<lparr>kq_interests := (kq_interests d)(fd := None)\<rparr>)
             });
     State_Monad.return (void_ok, d1\<lparr>kq_callbacks := (kq_callbacks d1)(fd := None)\<rparr>)
   }"

section \<open>Timers and wake-up\<close>

definition kqueue_schedule :: "kernel \<Rightarrow> int \<Rightarrow> bool \<Rightarrow> 'cb \<Rightarrow> 'cb kqueue \<Rightarrow> (timer_id \<times> 'cb kqueue) io" where
  "kqueue_schedule K timeout repeat cb d =
     (let tid = kq_next_timer d; d1 = d\<lparr>kq_next_timer := kq_next_timer d + 1\<rparr>;
          flags = (if \<not> repeat then (EV_ADD OR EV_ENABLE) OR EV_ONESHOT else EV_ADD OR EV_ENABLE)
      in do {
        r \<leftarrow> sys K (Sys_mux (Kevent (kq_fd d) [\<lparr>kc_ident = uint tid, kc_filter = EVFILT_TIMER, kc_flags = flags,
               kc_fflags = timer_units, kc_data = timeout\<rparr>]));
        if sr_rc r < 0 then State_Monad.return (0, d1)
        else State_Monad.return (tid,
          d1\<lparr>kq_timers := (kq_timers d1)(tid \<mapsto> \<lparr>kt_callback = cb, kt_repeating = repeat, kt_node = kq_nodes d1\<rparr>),
             kq_nodes := Suc (kq_nodes d1)\<rparr>)
      })"

definition kqueue_cancel :: "kernel \<Rightarrow> timer_id \<Rightarrow> 'cb kqueue \<Rightarrow> 'cb kqueue io" where
  "kqueue_cancel K tid d =
     (case kq_timers d tid of
        None \<Rightarrow> State_Monad.return d
      | Some _ \<Rightarrow> do {
          _ \<leftarrow> sys K (Sys_mux (Kevent (kq_fd d) [\<lparr>kc_ident = uint tid, kc_filter = EVFILT_TIMER,
                 kc_flags = EV_DELETE, kc_fflags = 0, kc_data = 0\<rparr>]));
          State_Monad.return (d\<lparr>kq_timers := (kq_timers d)(tid := None)\<rparr>)
        })"

definition kqueue_wake :: "kernel \<Rightarrow> 'cb kqueue \<Rightarrow> unit io" where
  "kqueue_wake K d = do {
     _ \<leftarrow> sys K (Sys_mux (Kevent (kq_fd d) [\<lparr>kc_ident = WAKER_IDENT, kc_filter = EVFILT_USER,
            kc_flags = 0, kc_fflags = NOTE_TRIGGER, kc_data = 0\<rparr>]));
     State_Monad.return ()
   }"

section \<open>Polling\<close>

type_synonym 'cb krunner = "'cb invocation \<Rightarrow> 'cb kqueue \<Rightarrow> 'cb kqueue io"

definition knote_call :: "'cb invocation \<Rightarrow> 'cb kqueue \<Rightarrow> 'cb kqueue" where
  "knote_call i d = d\<lparr>kq_log := kq_log d @ [i]\<rparr>"

definition from_kevent :: "kfilter \<Rightarrow> u16 \<Rightarrow> io_event" where
  "from_kevent f flags =
     (let e0 = ev_none;
          e1 = (if f = EVFILT_READ then io_or e0 ev_readable else e0);
          e2 = (if f = EVFILT_WRITE then io_or e1 ev_writable else e1);
          e3 = (if flags AND EV_EOF \<noteq> 0 then io_or e2 ev_peer_shutdown else e2)
      in if flags AND EV_ERROR \<noteq> 0 then io_or e3 ev_error else e3)"

definition kqueue_event :: "'cb krunner \<Rightarrow> int \<times> kfilter \<times> u16 \<Rightarrow> 'cb kqueue \<Rightarrow> 'cb kqueue option io" where
  "kqueue_event run e d = (case e of (ident, f, flags) \<Rightarrow>
     if f = EVFILT_USER \<and> ident = WAKER_IDENT then State_Monad.return (Some d)
     else if f = EVFILT_TIMER then
       (let tid = of_int ident
        in case kq_timers d tid of
             None \<Rightarrow> State_Monad.return (Some d)
           | Some info \<Rightarrow> do {
               d1 \<leftarrow> run (Timer_call (kt_callback info)) (knote_call (Timer_call (kt_callback info)) d);
               State_Monad.return (case kq_timers d1 tid of
                   None \<Rightarrow> None
                 | Some info' \<Rightarrow>
                     if kt_node info' \<noteq> kt_node info then None
                     else if \<not> kt_repeating info' then Some (d1\<lparr>kq_timers := (kq_timers d1)(tid := None)\<rparr>)
                     else Some d1)
             })
     else
       (let fd = to_int32 ident; ev = from_kevent f flags
        in case kq_callbacks d fd of
             None \<Rightarrow> State_Monad.return (Some d)
           | Some cb \<Rightarrow> do {
               d' \<leftarrow> run (Io_call cb fd ev) (knote_call (Io_call cb fd ev) d);
               State_Monad.return (Some d')
             }))"

primrec kqueue_events :: "'cb krunner \<Rightarrow> (int \<times> kfilter \<times> u16) list \<Rightarrow> 'cb kqueue \<Rightarrow> 'cb kqueue option io" where
  "kqueue_events run [] d = State_Monad.return (Some d)"
| "kqueue_events run (e # es) d = do {
     r \<leftarrow> kqueue_event run e d;
     (case r of None \<Rightarrow> State_Monad.return None | Some d' \<Rightarrow> kqueue_events run es d')
   }"

definition poll_timespec :: "int \<Rightarrow> (int \<times> int) option" where
  "poll_timespec timeout_ms =
     (if timeout_ms \<ge> 0 then Some (timeout_ms div 1000, (timeout_ms mod 1000) * 1000000) else None)"

definition kqueue_poll :: "kernel \<Rightarrow> 'cb krunner \<Rightarrow> int \<Rightarrow> 'cb kqueue \<Rightarrow> (int result \<times> 'cb kqueue) option io" where
  "kqueue_poll K run timeout_ms d = do {
     r \<leftarrow> sys K (Sys_mux (Kevent_wait (kq_fd d) 256 (poll_timespec timeout_ms)));
     if sr_rc r < 0 then do {
       e \<leftarrow> get_errno;
       if e = 4 then State_Monad.return (Some (Inr 0, d))
       else do { ec \<leftarrow> os_failure MacOS; State_Monad.return (Some (Inl ec, d)) }
     }
     else do {
       x \<leftarrow> kqueue_events run (take (nat (sr_rc r)) (sr_kevents r)) d;
       State_Monad.return (map_option (\<lambda>d'. (Inr (sr_rc r), d')) x)
     }
   }"

section \<open>The contract of a dispatcher\<close>

definition kqueue_methods :: "kernel \<Rightarrow> ('cb kqueue, 'cb) dispatcher" where
  "kqueue_methods K = \<lparr>d_add = kqueue_add K, d_modify = kqueue_modify K, d_remove = kqueue_remove K,
     d_schedule = kqueue_schedule K, d_cancel = kqueue_cancel K\<rparr>"

definition kqueue_table :: "'cb kqueue \<Rightarrow> (timer_id, 'cb) table" where
  "kqueue_table d = \<lparr>t_io = kq_callbacks d,
     t_timers = (\<lambda>tid. map_option (\<lambda>i. (kt_callback i, kt_repeating i)) (kq_timers d tid))\<rparr>"

lemma kqueue_methods_simps [simp]:
  "d_add (kqueue_methods K) = kqueue_add K" "d_modify (kqueue_methods K) = kqueue_modify K"
  "d_remove (kqueue_methods K) = kqueue_remove K" "d_schedule (kqueue_methods K) = kqueue_schedule K"
  "d_cancel (kqueue_methods K) = kqueue_cancel K"
  by (simp_all add: kqueue_methods_def)

interpretation kq: dispatcher_table "kqueue_methods K" "\<lambda>tid. tid" kqueue_table for K
  by unfold_locales
    (auto simp: kqueue_add_def kqueue_modify_def kqueue_remove_def kqueue_schedule_def kqueue_cancel_def
      kqueue_table_def io_simps Let_def fun_eq_iff split: if_splits option.splits prod.splits)

section \<open>Ownership\<close>

definition kq_owned :: "'cb kqueue \<Rightarrow> int multiset" where
  "kq_owned d = (if kq_fd d \<ge> 0 then {#kq_fd d#} else {#})"

lemma kqueue_new_acquires: "acquires (kqueue_new K :: (string + 'cb kqueue) io) kq_owned"
  unfolding kqueue_new_def
  by (rule acquiresI)
    (auto simp: live_step.simps kq_owned_def intro!: fd_wp_bind fd_wp_sys fd_wp_if fd_wp_return)

interpretation kqueues: owning_factory "kqueue_new K" "kqueue_drop K" kq_owned for K
  by unfold_locales
    (auto simp: kq_owned_def kqueue_drop_def intro!: kqueue_new_acquires fd_wp_bind fd_wp_sys fd_wp_return
      split: if_splits)

section \<open>The filters of the system\<close>

text \<open>
  The reference semantics of \<open>kevent\<close>: the filters of one kqueue after a trace of calls, of which the
  failing ones change nothing.
\<close>

definition apply_change :: "kchange \<Rightarrow> (int \<times> kfilter) set \<Rightarrow> (int \<times> kfilter) set" where
  "apply_change c F =
     (if kc_flags c AND EV_DELETE \<noteq> 0 then F - {(kc_ident c, kc_filter c)}
      else if kc_flags c AND EV_ADD \<noteq> 0 then insert (kc_ident c, kc_filter c) F else F)"

fun filters_step :: "int \<Rightarrow> syscall \<times> sysret \<Rightarrow> (int \<times> kfilter) set \<Rightarrow> (int \<times> kfilter) set" where
  "filters_step kq (Sys_mux Kqueue, r) F = (if sr_rc r = kq then {} else F)"
| "filters_step kq (Sys_mux (Kevent h changes), r) F =
     (if h = kq \<and> sr_rc r \<ge> 0 then fold apply_change changes F else F)"
| "filters_step kq _ F = F"

definition kfilters :: "int \<Rightarrow> world \<Rightarrow> (int \<times> kfilter) set" where
  "kfilters kq w = fold (filters_step kq) (trace w) {}"

definition socket_filters :: "(int \<times> kfilter) set \<Rightarrow> (int \<times> kfilter) set" where
  "socket_filters F = {x \<in> F. snd x = EVFILT_READ \<or> snd x = EVFILT_WRITE}"

text \<open>The filters an interest stands for.\<close>

definition wanted :: "int \<Rightarrow> io_event \<Rightarrow> (int \<times> kfilter) set" where
  "wanted fd i = (if has_event i ev_readable then {(fd, EVFILT_READ)} else {})
     \<union> (if has_event i ev_writable then {(fd, EVFILT_WRITE)} else {})"

definition registered :: "'cb kqueue \<Rightarrow> (int \<times> kfilter) set" where
  "registered d = {x. \<exists>i. kq_interests d (fst x) = Some i \<and> x \<in> wanted (fst x) i}"

lemma kfilters_snoc: "kfilters kq (w\<lparr>trace := trace w @ [e], errno := x\<rparr>) = filters_step kq e (kfilters kq w)"
  by (simp add: kfilters_def)

lemma apply_filter_add [simp]: "apply_change (filter_add fd f) F = insert (fd, f) F"
  by (simp add: apply_change_def filter_add_def kqueue_flag_defs)

lemma apply_filter_delete [simp]: "apply_change (filter_delete fd f) F = F - {(fd, f)}"
  by (simp add: apply_change_def filter_delete_def kqueue_flag_defs)

text \<open>The difference that \<open>modify\<close> issues turns the old filters of a descriptor into the new ones.\<close>

lemma modify_changes_filters:
  assumes "socket_filters F \<inter> {x. fst x = fd} = wanted fd old"
  shows "socket_filters (fold apply_change (modify_changes fd old new) F) =
    (socket_filters F - {x. fst x = fd}) \<union> wanted fd new"
proof -
  have R: "(fd, EVFILT_READ) \<in> F \<longleftrightarrow> has_event old ev_readable"
    and W: "(fd, EVFILT_WRITE) \<in> F \<longleftrightarrow> has_event old ev_writable"
    using assms unfolding socket_filters_def wanted_def by (auto simp: set_eq_iff split: if_splits)
  have "x \<in> socket_filters (fold apply_change (modify_changes fd old new) F) \<longleftrightarrow>
    x \<in> (socket_filters F - {x. fst x = fd}) \<union> wanted fd new" for x
    using R W
    by (cases x) (auto simp: modify_changes_def Let_def socket_filters_def wanted_def split: if_splits)
  then show ?thesis by blast
qed

lemma remove_changes_filters:
  assumes "socket_filters F \<inter> {x. fst x = fd} = wanted fd old"
  shows "socket_filters (fold apply_change (remove_changes fd old) F) = socket_filters F - {x. fst x = fd}"
proof -
  have "remove_changes fd old = modify_changes fd old ev_none"
    by (simp add: remove_changes_def modify_changes_def)
  then show ?thesis using modify_changes_filters [OF assms, of ev_none] by (simp add: wanted_def)
qed

lemma interest_changes_filters:
  assumes "socket_filters F \<inter> {x. fst x = fd} = {}"
  shows "socket_filters (fold apply_change (interest_changes fd new) F) = socket_filters F \<union> wanted fd new"
proof -
  have "interest_changes fd new = modify_changes fd ev_none new"
    by (simp add: interest_changes_def modify_changes_def)
  moreover have "socket_filters F - {x. fst x = fd} = socket_filters F" using assms by blast
  ultimately show ?thesis using modify_changes_filters [of F fd ev_none new] assms by (simp add: wanted_def)
qed

lemma mem_wanted: "(a, f) \<in> wanted fd i \<longleftrightarrow>
    a = fd \<and> (f = EVFILT_READ \<and> has_event i ev_readable \<or> f = EVFILT_WRITE \<and> has_event i ev_writable)"
  by (auto simp: wanted_def)

lemma mem_registered: "(a, f) \<in> registered d \<longleftrightarrow> (\<exists>i. kq_interests d a = Some i \<and> (a, f) \<in> wanted a i)"
  by (simp add: registered_def)

lemma registered_update:
  "registered (d\<lparr>kq_interests := (kq_interests d)(fd \<mapsto> i)\<rparr>) = (registered d - {x. fst x = fd}) \<union> wanted fd i"
  "registered (d\<lparr>kq_interests := (kq_interests d)(fd := None)\<rparr>) = registered d - {x. fst x = fd}"
  by (auto simp: set_eq_iff mem_registered mem_wanted)

lemma registered_at: "registered d \<inter> {x. fst x = fd} = (case kq_interests d fd of None \<Rightarrow> {} | Some i \<Rightarrow> wanted fd i)"
  by (rule set_eqI, case_tac x, cases "kq_interests d fd") (auto simp: mem_registered mem_wanted)

text \<open>
  The operations of a dispatcher on a system that accepts every change, a socket being added only
  when it is not registered.
\<close>

inductive kq_step :: "kernel \<Rightarrow> 'cb kqueue \<times> world \<Rightarrow> 'cb kqueue \<times> world \<Rightarrow> bool" for K where
  kstep_op: "(\<And>fd i cb. a = Op_add fd i cb \<Longrightarrow> kq_interests d fd = None) \<Longrightarrow>
    run_state (exec_op (kqueue_methods K) a d) w = ((x, d'), w') \<Longrightarrow> kq_step K (d, w) (d', w')"
| kstep_wake: "run_state (kqueue_wake K d) w = (x, w') \<Longrightarrow> kq_step K (d, w) (d, w')"

definition kq_init :: "kernel \<Rightarrow> 'cb kqueue \<times> world \<Rightarrow> bool" where
  "kq_init K s \<longleftrightarrow> (\<exists>w0. run_state (kqueue_new K) w0 = (Inr (fst s), snd s))"

definition accepting :: "kernel \<Rightarrow> bool" where
  "accepting K \<longleftrightarrow> (\<forall>tr h changes. sr_rc (K tr (Sys_mux (Kevent h changes))) \<ge> 0)"

definition kq_tracks :: "'cb kqueue \<times> world \<Rightarrow> bool" where
  "kq_tracks s \<longleftrightarrow> socket_filters (kfilters (kq_fd (fst s)) (snd s)) = registered (fst s)"

lemma accepting_kevent [simp]: "accepting K \<Longrightarrow> \<not> sr_rc (K tr (Sys_mux (Kevent h changes))) < 0"
  by (simp add: accepting_def not_less)

lemma accepting_kevent_le [simp]: "accepting K \<Longrightarrow> 0 \<le> sr_rc (K tr (Sys_mux (Kevent h changes)))"
  by (simp add: accepting_def)

lemma registered_cong: "kq_interests d' = kq_interests d \<Longrightarrow> registered d' = registered d"
  by (simp add: registered_def)

lemma tracks_kevent:
  assumes "accepting K" and "kq_tracks (d, w)"
    and "socket_filters (fold apply_change changes (kfilters (kq_fd d) w)) = registered d'" and "kq_fd d' = kq_fd d"
  shows "kq_tracks (d', final_world (sys K (Sys_mux (Kevent (kq_fd d) changes))) w)"
  using assms by (simp add: kq_tracks_def run_sys kfilters_snoc)

lemma tracks_add:
  assumes K: "accepting K" and inv: "kq_tracks (d, w)" and new: "kq_interests d fd = None"
    and r: "run_state (kqueue_add K fd i cb d) w = ((x, d'), w')"
  shows "kq_tracks (d', w')"
proof -
  let ?c = "interest_changes fd i"
  let ?d = "d\<lparr>kq_callbacks := (kq_callbacks d)(fd \<mapsto> cb), kq_interests := (kq_interests d)(fd \<mapsto> i)\<rparr>"
  have "registered d - {x. fst x = fd} = registered d" using registered_at [of d fd] new by auto
  then have reg: "registered ?d = registered d \<union> wanted fd i"
    using registered_update(1) [of "d\<lparr>kq_callbacks := (kq_callbacks d)(fd \<mapsto> cb)\<rparr>" fd i]
      registered_cong [of "d\<lparr>kq_callbacks := (kq_callbacks d)(fd \<mapsto> cb)\<rparr>" d] by simp
  have F: "socket_filters (fold apply_change ?c (kfilters (kq_fd d) w)) = registered ?d"
    using interest_changes_filters [of "kfilters (kq_fd d) w" fd i] inv new registered_at [of d fd]
    by (simp add: kq_tracks_def reg)
  have "d' = ?d \<and> w' = (if ?c \<noteq> [] then final_world (sys K (Sys_mux (Kevent (kq_fd d) ?c))) w else w)"
    using r K by (auto simp: kqueue_add_def apply_interest_def Let_def io_simps split: if_splits)
  then show ?thesis
    using tracks_kevent [OF K inv F] F by (cases "?c = []") (simp_all add: kq_tracks_def)
qed

lemma tracks_modify:
  assumes K: "accepting K" and inv: "kq_tracks (d, w)"
    and r: "run_state (kqueue_modify K fd i d) w = ((x, d'), w')"
  shows "kq_tracks (d', w')"
proof -
  let ?old = "case kq_interests d fd of Some i \<Rightarrow> i | None \<Rightarrow> ev_none"
  let ?c = "modify_changes fd ?old i"
  let ?d = "d\<lparr>kq_interests := (kq_interests d)(fd \<mapsto> i)\<rparr>"
  have "socket_filters (kfilters (kq_fd d) w) \<inter> {x. fst x = fd} = wanted fd ?old"
    using inv registered_at [of d fd] by (cases "kq_interests d fd") (simp_all add: kq_tracks_def wanted_def)
  from modify_changes_filters [OF this, of i]
  have F: "socket_filters (fold apply_change ?c (kfilters (kq_fd d) w)) = registered ?d"
    using inv by (simp add: registered_update kq_tracks_def)
  have "d' = ?d \<and> w' = (if ?c \<noteq> [] then final_world (sys K (Sys_mux (Kevent (kq_fd d) ?c))) w else w)"
    using r K by (auto simp: kqueue_modify_def Let_def io_simps split: if_splits)
  then show ?thesis
    using tracks_kevent [OF K inv F] F by (cases "?c = []") (simp_all add: kq_tracks_def)
qed

lemma tracks_remove:
  assumes K: "accepting K" and inv: "kq_tracks (d, w)"
    and r: "run_state (kqueue_remove K fd d) w = ((x, d'), w')"
  shows "kq_tracks (d', w')"
proof (cases "kq_interests d fd")
  case None
  then show ?thesis using r inv registered_cong [of d' d] by (auto simp: kqueue_remove_def kq_tracks_def)
next
  case (Some i)
  let ?c = "remove_changes fd i"
  let ?d = "d\<lparr>kq_interests := (kq_interests d)(fd := None)\<rparr>"
  have "socket_filters (kfilters (kq_fd d) w) \<inter> {x. fst x = fd} = wanted fd i"
    using inv registered_at [of d fd] Some by (simp add: kq_tracks_def)
  from remove_changes_filters [OF this]
  have F: "socket_filters (fold apply_change ?c (kfilters (kq_fd d) w)) = registered ?d"
    using inv by (simp add: registered_update kq_tracks_def)
  have "registered d' = registered ?d \<and> kq_fd d' = kq_fd d
      \<and> w' = (if ?c \<noteq> [] then final_world (sys K (Sys_mux (Kevent (kq_fd d) ?c))) w else w)"
    using r Some registered_cong [of d' ?d] by (auto simp: kqueue_remove_def io_simps split: if_splits)
  then show ?thesis
    using tracks_kevent [OF K inv F] F by (cases "?c = []") (simp_all add: kq_tracks_def)
qed

text \<open>Changes of other filters do not touch the filters of sockets.\<close>

lemma tracks_other:
  assumes "kq_tracks (d, w)" and "kc_filter c = EVFILT_TIMER \<or> kc_filter c = EVFILT_USER"
    and "kq_interests d' = kq_interests d" and "kq_fd d' = kq_fd d"
  shows "kq_tracks (d', final_world (sys K (Sys_mux (Kevent (kq_fd d) [c]))) w)"
proof -
  have "socket_filters (apply_change c F) = socket_filters F" for F
    using assms(2) by (auto simp: apply_change_def socket_filters_def)
  then show ?thesis using assms registered_cong [of d' d] by (simp add: kq_tracks_def run_sys kfilters_snoc)
qed

lemma tracks_timers:
  assumes inv: "kq_tracks (d, w)"
  shows "run_state (kqueue_schedule K ms rep cb d) w = ((t, d'), w') \<Longrightarrow> kq_tracks (d', w')"
    "run_state (kqueue_cancel K tid d) w = (e', w') \<Longrightarrow> kq_tracks (e', w')"
    "run_state (kqueue_wake K d) w = (x, w') \<Longrightarrow> kq_tracks (d, w')"
proof -
  let ?c = "\<lparr>kc_ident = uint (kq_next_timer d), kc_filter = EVFILT_TIMER,
    kc_flags = (if \<not> rep then (EV_ADD OR EV_ENABLE) OR EV_ONESHOT else EV_ADD OR EV_ENABLE),
    kc_fflags = timer_units, kc_data = ms\<rparr>"
  assume r: "run_state (kqueue_schedule K ms rep cb d) w = ((t, d'), w')"
  then have "kq_interests d' = kq_interests d" "kq_fd d' = kq_fd d"
    by (auto simp: kqueue_schedule_def Let_def io_simps split: if_splits)
  moreover have "w' = final_world (sys K (Sys_mux (Kevent (kq_fd d) [?c]))) w"
    using r by (auto simp: kqueue_schedule_def Let_def io_simps split: if_splits)
  ultimately show "kq_tracks (d', w')" using tracks_other [OF inv, of ?c d' K] by simp
next
  let ?c = "\<lparr>kc_ident = uint tid, kc_filter = EVFILT_TIMER, kc_flags = EV_DELETE, kc_fflags = 0, kc_data = 0\<rparr>"
  assume r: "run_state (kqueue_cancel K tid d) w = (e', w')"
  then have "kq_interests e' = kq_interests d" "kq_fd e' = kq_fd d"
    by (auto simp: kqueue_cancel_def io_simps split: option.splits)
  moreover have "(e' = d \<and> w' = w) \<or> w' = final_world (sys K (Sys_mux (Kevent (kq_fd d) [?c]))) w"
    using r by (auto simp: kqueue_cancel_def io_simps split: option.splits)
  ultimately show "kq_tracks (e', w')" using tracks_other [OF inv, of ?c e' K] inv by auto
next
  let ?c = "\<lparr>kc_ident = WAKER_IDENT, kc_filter = EVFILT_USER, kc_flags = 0, kc_fflags = NOTE_TRIGGER, kc_data = 0\<rparr>"
  assume "run_state (kqueue_wake K d) w = (x, w')"
  then have "w' = final_world (sys K (Sys_mux (Kevent (kq_fd d) [?c]))) w"
    by (auto simp: kqueue_wake_def io_simps)
  then show "kq_tracks (d, w')" using tracks_other [OF inv, of ?c d K] by simp
qed

lemma kq_step_tracks:
  assumes "kq_step K s t" and "accepting K" and "kq_tracks s"
  shows "kq_tracks t"
  using assms
proof (induction rule: kq_step.induct)
  case (kstep_op a d w x d' w')
  show ?case
  proof (cases a)
    case (Op_add fd i cb)
    with kstep_op(2) obtain r where "run_state (kqueue_add K fd i cb d) w = ((r, d'), w')"
      by (auto split: prod.splits)
    then show ?thesis by (rule tracks_add [OF kstep_op(3,4) kstep_op(1) [OF Op_add]])
  next
    case (Op_modify fd i)
    with kstep_op(2) obtain r where "run_state (kqueue_modify K fd i d) w = ((r, d'), w')"
      by (auto split: prod.splits)
    then show ?thesis by (rule tracks_modify [OF kstep_op(3,4)])
  next
    case (Op_remove fd)
    with kstep_op(2) obtain r where "run_state (kqueue_remove K fd d) w = ((r, d'), w')"
      by (auto split: prod.splits)
    then show ?thesis by (rule tracks_remove [OF kstep_op(3,4)])
  next
    case (Op_schedule ms rep cb)
    with kstep_op(2) obtain t where "run_state (kqueue_schedule K ms rep cb d) w = ((t, d'), w')"
      by (auto split: prod.splits)
    then show ?thesis by (rule tracks_timers(1) [OF kstep_op(4)])
  next
    case (Op_cancel tid)
    with kstep_op(2) have "run_state (kqueue_cancel K tid d) w = (d', w')"
      by (auto split: prod.splits)
    then show ?thesis by (rule tracks_timers(2) [OF kstep_op(4)])
  qed
next
  case (kstep_wake d w x w')
  from tracks_timers(3) [OF kstep_wake(3,1)] show ?case .
qed

lemma kq_init_tracks: "kq_init K s \<Longrightarrow> kq_tracks s"
  by (cases s) (auto simp: kq_init_def kqueue_new_def io_simps kq_tracks_def kfilters_def registered_def
      socket_filters_def apply_change_def split: if_splits)

interpretation kq_run: invariant_system "\<lambda>s. kq_init K s \<and> accepting K" "kq_step K" "\<lambda>s. kq_tracks s \<and> accepting K" for K
  by unfold_locales (auto intro: kq_init_tracks kq_step_tracks)

section \<open>Properties\<close>

text \<open>
  The kqueue dispatcher implements the abstract dispatcher, as the epoll one does, with timer
  identifiers of its own as keys.
\<close>

theorem kqueue_refines_table:
  assumes "run_state (exec_ops (kqueue_methods K) as d) w = ((xs, d'), w')" and "Timer 0 \<notin> set xs"
  shows "length xs = length as \<and> kqueue_table d' = table_after (\<lambda>tid. tid) as xs (kqueue_table d)"
  using assms by (rule kq.exec_ops_refines)

definition idle_kqueue :: "'cb kqueue" where
  "idle_kqueue = \<lparr>kq_fd = 3, kq_callbacks = Map.empty, kq_interests = Map.empty, kq_timers = Map.empty,
     kq_next_timer = 1, kq_nodes = 0, kq_log = []\<rparr>"

theorem kqueue_refines_table_witness:
  "\<exists>d' w'. run_state (exec_ops (kqueue_methods ok_kernel) [Op_schedule 10 True (5 :: nat), Op_cancel 1] idle_kqueue)
     start_world = (([Timer 1, Answer True], d'), w') \<and> t_timers (kqueue_table d') 1 = None"
proof -
  let ?m = "exec_ops (kqueue_methods ok_kernel) [Op_schedule 10 True (5 :: nat), Op_cancel 1] idle_kqueue"
  obtain d' w' where r: "run_state ?m start_world = (([Timer 1, Answer True], d'), w')"
    by (simp add: kqueue_schedule_def kqueue_cancel_def io_simps ok_kernel_def sys_ok_def idle_kqueue_def Let_def)
  from kqueue_refines_table [OF r] have "t_timers (kqueue_table d') 1 = None" by (simp add: table_after_def)
  with r show ?thesis by blast
qed



end
