(* ===== verification/Iocp.thy ===== *)
theory Iocp
  imports Dispatcher "HOL-Library.AList"
begin

text \<open>
  The Windows dispatcher: \<open>src/event/iocp.cpp\<close>, an emulation of readiness on a completion port.

  A \<open>per_socket_state\<close> lives on the heap. Its number \<open>ss_node\<close> identifies the object; its address and
  that of its array of receive slots come from the allocator, which may use an address again, and give
  the addresses of the \<open>OVERLAPPED\<close> structures that completions are matched by. The offsets of these in
  their objects are those of the 64-bit layout. Where the code goes on with a reference to a state that
  a callback has destroyed, \<open>ip_dangling\<close> is set: from there on the run has no defined behaviour. The order
  of the association lists stands for the unspecified order of the hash maps. What a callback does to
  the dispatcher and the system is the parameter \<open>run\<close>, and \<open>ip_log\<close> is the history of invocations.
\<close>

section \<open>State\<close>

definition WSA_IO_PENDING :: int where "WSA_IO_PENDING = 997"
definition ERROR_INVALID_PARAMETER :: int where "ERROR_INVALID_PARAMETER = 87"
definition WAIT_TIMEOUT :: int where "WAIT_TIMEOUT = 258"
definition INFINITE :: u32 where "INFINITE = 0xFFFFFFFF"
definition SOCK_DGRAM :: int where "SOCK_DGRAM = 2"
definition POLLRDNORM :: u32 where "POLLRDNORM = 0x100"
definition POLLERR :: u32 where "POLLERR = 1"
definition POLLHUP :: u32 where "POLLHUP = 2"

definition TIMER_KEY :: u64 where "TIMER_KEY = NOT 1"

definition DGRAM_RECV_SLOTS :: nat where "DGRAM_RECV_SLOTS = 4"
definition slot_buffer :: nat where "slot_buffer = 65536"

text \<open>Sizes and offsets: \<open>fd\<close>, \<open>callback\<close> and \<open>interest\<close> precede the two \<open>OVERLAPPED\<close>.\<close>

definition read_ov_offset :: u64 where "read_ov_offset = 80"
definition write_ov_offset :: u64 where "write_ov_offset = 112"
definition sizeof_recv_slot :: u64 where "sizeof_recv_slot = 65704"

record recv_slots =
  rs_base :: u64
  rs_pending :: "bool list"

record 'cb per_socket_state =
  ss_node :: nat
  ss_base :: u64
  ss_fd :: int
  ss_callback :: 'cb
  ss_interest :: io_event
  ss_read_pending :: bool
  ss_write_pending :: bool
  ss_listener :: bool
  ss_dgram :: bool
  ss_slots :: "recv_slots option"
  ss_queue :: "(byte list \<times> sock_address) list"
  ss_notified :: bool

record 'cb win_timer =
  wt_id :: timer_id
  wt_callback :: 'cb
  wt_repeating :: bool
  wt_iocp :: int
  wt_handle :: int

text \<open>
  \<open>ip_ids\<close> is how often \<open>next_timer_id_\<close> was incremented, from 1; the counter itself is its residue.
  \<open>ip_firing\<close> is the one-shot timer that \<open>dispatch_timer\<close> holds while its callback runs.
\<close>

record 'cb iocp =
  ip_port :: int
  ip_waker :: waker
  ip_states :: "(int \<times> 'cb per_socket_state) list"
  ip_timers :: "(timer_id \<times> 'cb win_timer) list"
  ip_ids :: nat
  ip_firing :: "int option"
  ip_nodes :: nat
  ip_dangling :: bool
  ip_log :: "'cb invocation list"

type_synonym 'cb iocp_runner = "'cb invocation \<Rightarrow> 'cb iocp \<Rightarrow> 'cb iocp io"

definition read_ov :: "'cb per_socket_state \<Rightarrow> u64" where
  "read_ov s = ss_base s + read_ov_offset"

definition write_ov :: "'cb per_socket_state \<Rightarrow> u64" where
  "write_ov s = ss_base s + write_ov_offset"

definition slot_ov :: "recv_slots \<Rightarrow> nat \<Rightarrow> u64" where
  "slot_ov sl i = rs_base sl + of_nat i * sizeof_recv_slot"

definition iocp_note :: "'cb invocation \<Rightarrow> 'cb iocp \<Rightarrow> 'cb iocp" where
  "iocp_note i d = d\<lparr>ip_log := ip_log d @ [i]\<rparr>"

definition iocp_call :: "'cb iocp_runner \<Rightarrow> 'cb invocation \<Rightarrow> 'cb iocp \<Rightarrow> 'cb iocp io" where
  "iocp_call run i d = run i (iocp_note i d)"

definition put_state :: "int \<Rightarrow> 'cb per_socket_state \<Rightarrow> 'cb iocp \<Rightarrow> 'cb iocp" where
  "put_state fd s d = d\<lparr>ip_states := AList.update fd s (ip_states d)\<rparr>"

text \<open>The object a reference leads to, when it is still there.\<close>

definition deref :: "int \<Rightarrow> nat \<Rightarrow> 'cb iocp \<Rightarrow> 'cb per_socket_state option" where
  "deref fd n d =
     (case map_of (ip_states d) fd of None \<Rightarrow> None | Some s \<Rightarrow> if ss_node s = n then Some s else None)"

definition use_state :: "int \<Rightarrow> nat \<Rightarrow> ('cb per_socket_state \<Rightarrow> 'cb iocp io) \<Rightarrow> 'cb iocp \<Rightarrow> 'cb iocp io" where
  "use_state fd n f d =
     (case deref fd n d of None \<Rightarrow> State_Monad.return (d\<lparr>ip_dangling := True\<rparr>) | Some s \<Rightarrow> f s)"

section \<open>Construction and destruction\<close>

text \<open>An exception is its message.\<close>

definition iocp_new :: "kernel \<Rightarrow> (string + 'cb iocp) io" where
  "iocp_new K = do {
     r \<leftarrow> sys K (Sys_win Create_port);
     if sr_rc r = 0 then State_Monad.return (Inl ''socketpp: CreateIoCompletionPort failed'')
     else do {
       wr \<leftarrow> waker_create K Windows;
       (case wr of
          Inl _ \<Rightarrow> do {
            _ \<leftarrow> sys K (Sys_win (Close_handle (sr_rc r)));
            State_Monad.return (Inl ''socketpp: waker creation failed'')
          }
        | Inr wk \<Rightarrow> do {
            (mine, rest) \<leftarrow> waker_move_assign K Windows False waker_default wk;
            _ \<leftarrow> waker_drop K Windows rest;
            State_Monad.return (Inr \<lparr>ip_port = sr_rc r, ip_waker = set_iocp_handle (sr_rc r) mine, ip_states = [],
              ip_timers = [], ip_ids = 1, ip_firing = None, ip_nodes = 0, ip_dangling = False, ip_log = []\<rparr>)
          })
     }
   }"

primrec cancel_all :: "kernel \<Rightarrow> (int \<times> 'cb per_socket_state) list \<Rightarrow> unit io" where
  "cancel_all K [] = State_Monad.return ()"
| "cancel_all K (e # es) = do {
     _ \<leftarrow> (if ss_listener (snd e) then State_Monad.return sys_ok else sys K (Sys_win (Cancel_io (fst e))));
     cancel_all K es
   }"

text \<open>Disarm a timer, wait for its callbacks, release it.\<close>

definition timer_close :: "kernel \<Rightarrow> int \<Rightarrow> unit io" where
  "timer_close K h = do {
     _ \<leftarrow> sys K (Sys_win (Set_timer h None));
     _ \<leftarrow> sys K (Sys_win (Wait_timer h));
     _ \<leftarrow> sys K (Sys_win (Close_timer h));
     State_Monad.return ()
   }"

primrec timers_close :: "kernel \<Rightarrow> int list \<Rightarrow> unit io" where
  "timers_close K [] = State_Monad.return ()"
| "timers_close K (h # hs) = do { _ \<leftarrow> timer_close K h; timers_close K hs }"

definition iocp_drop :: "kernel \<Rightarrow> 'cb iocp \<Rightarrow> unit io" where
  "iocp_drop K d = do {
     _ \<leftarrow> cancel_all K (ip_states d);
     _ \<leftarrow> timers_close K (map (wt_handle \<circ> snd) (ip_timers d));
     _ \<leftarrow> (if ip_port d \<noteq> 0 then sys K (Sys_win (Close_handle (ip_port d))) else State_Monad.return sys_ok);
     waker_drop K Windows (ip_waker d)
   }"

section \<open>Arming\<close>

text \<open>Start an overlapped operation; its completion will be queued at the port.\<close>

definition overlapped :: "kernel \<Rightarrow> win_call \<Rightarrow> bool io" where
  "overlapped K c = do {
     r \<leftarrow> sys K (Sys_win c);
     err \<leftarrow> get_errno;
     State_Monad.return (sr_rc r \<noteq> -1 \<or> err = WSA_IO_PENDING)
   }"

definition arm_read :: "kernel \<Rightarrow> 'cb iocp_runner \<Rightarrow> int \<Rightarrow> nat \<Rightarrow> 'cb iocp \<Rightarrow> 'cb iocp io" where
  "arm_read K run fd n d = use_state fd n (\<lambda>s.
     if ss_read_pending s \<or> ss_listener s \<or> ss_dgram s then State_Monad.return d
     else do {
       ok \<leftarrow> overlapped K (Recv_zero (ss_fd s) (read_ov s));
       if ok then State_Monad.return (put_state fd (s\<lparr>ss_read_pending := True\<rparr>) d)
       else iocp_call run (Io_call (ss_callback s) (ss_fd s) ev_error) d
     }) d"

definition arm_write :: "kernel \<Rightarrow> 'cb iocp_runner \<Rightarrow> int \<Rightarrow> nat \<Rightarrow> 'cb iocp \<Rightarrow> 'cb iocp io" where
  "arm_write K run fd n d = use_state fd n (\<lambda>s.
     if ss_write_pending s \<or> ss_listener s \<or> ss_dgram s then State_Monad.return d
     else do {
       ok \<leftarrow> overlapped K (Send_zero (ss_fd s) (write_ov s));
       if ok then State_Monad.return (put_state fd (s\<lparr>ss_write_pending := True\<rparr>) d)
       else iocp_call run (Io_call (ss_callback s) (ss_fd s) ev_error) d
     }) d"

text \<open>One slot of a datagram socket; nothing but the state of the socket changes.\<close>

definition set_pending :: "nat \<Rightarrow> bool \<Rightarrow> 'cb per_socket_state \<Rightarrow> 'cb per_socket_state" where
  "set_pending i b s = s\<lparr>ss_slots := map_option (\<lambda>sl. sl\<lparr>rs_pending := (rs_pending sl)[i := b]\<rparr>) (ss_slots s)\<rparr>"

definition arm_recv_from :: "kernel \<Rightarrow> nat \<Rightarrow> 'cb per_socket_state \<Rightarrow> 'cb per_socket_state io" where
  "arm_recv_from K i s =
     (case ss_slots s of
        None \<Rightarrow> State_Monad.return s
      | Some sl \<Rightarrow>
          if rs_pending sl ! i then State_Monad.return s
          else do {
            ok \<leftarrow> overlapped K (Recv_overlapped (ss_fd s) (slot_ov sl i) slot_buffer);
            if ok then State_Monad.return (set_pending i True s) else State_Monad.return s
          })"

primrec arm_slots :: "kernel \<Rightarrow> nat list \<Rightarrow> 'cb per_socket_state \<Rightarrow> 'cb per_socket_state io" where
  "arm_slots K [] s = State_Monad.return s"
| "arm_slots K (i # is) s = do { s' \<leftarrow> arm_recv_from K i s; arm_slots K is s' }"

definition new_slots :: "kernel \<Rightarrow> recv_slots io" where
  "new_slots K = do {
     r \<leftarrow> sys K (Sys_win Allocate);
     State_Monad.return \<lparr>rs_base = of_int (sr_val r), rs_pending = replicate DGRAM_RECV_SLOTS False\<rparr>
   }"

section \<open>Registration\<close>

definition new_state :: "kernel \<Rightarrow> int \<Rightarrow> io_event \<Rightarrow> 'cb \<Rightarrow> nat \<Rightarrow> 'cb per_socket_state io" where
  "new_state K fd interest cb n = do {
     a \<leftarrow> sys K (Sys_win Allocate);
     l \<leftarrow> sys K (Sys_ctl (Getsockopt fd (SOL_SOCKET SO_ACCEPTCONN)));
     let listener = (sr_rc l = 0 \<and> sr_val l \<noteq> 0);
     dgram \<leftarrow> (if listener then State_Monad.return False
       else do {
         t \<leftarrow> sys K (Sys_ctl (Getsockopt fd (SOL_SOCKET SO_TYPE)));
         State_Monad.return (sr_rc t = 0 \<and> sr_val t = SOCK_DGRAM)
       });
     State_Monad.return \<lparr>ss_node = n, ss_base = of_int (sr_val a), ss_fd = fd, ss_callback = cb, ss_interest = interest,
       ss_read_pending = False, ss_write_pending = False, ss_listener = listener, ss_dgram = dgram,
       ss_slots = None, ss_queue = [], ss_notified = False\<rparr>
   }"

text \<open>The error of associating the socket with the port, if it counts as one.\<close>

definition associate :: "kernel \<Rightarrow> 'cb per_socket_state \<Rightarrow> 'cb iocp \<Rightarrow> int option io" where
  "associate K s d =
     (if ss_listener s then State_Monad.return None
      else do {
        h \<leftarrow> sys K (Sys_win (Associate (ss_fd s) (ip_port d) (of_int (ss_fd s))));
        if sr_rc h \<noteq> 0 then State_Monad.return None
        else do {
          err \<leftarrow> get_errno;
          State_Monad.return (if err \<noteq> ERROR_INVALID_PARAMETER then Some err else None)
        }
      })"

text \<open>Insert the state and start the operations its interest asks for.\<close>

definition arm_state :: "kernel \<Rightarrow> 'cb iocp_runner \<Rightarrow> int \<Rightarrow> io_event \<Rightarrow> 'cb per_socket_state \<Rightarrow> 'cb iocp \<Rightarrow> 'cb iocp io" where
  "arm_state K run fd interest s d =
     (if ss_dgram s then
        (if has_event interest ev_readable
         then do {
           sl \<leftarrow> new_slots K;
           s' \<leftarrow> arm_slots K [0..<DGRAM_RECV_SLOTS] (s\<lparr>ss_slots := Some sl\<rparr>);
           State_Monad.return (put_state fd s' d)
         }
         else State_Monad.return (put_state fd s d))
      else if \<not> ss_listener s then do {
        d1 \<leftarrow> (if has_event interest ev_readable then arm_read K run fd (ss_node s) (put_state fd s d)
              else State_Monad.return (put_state fd s d));
        (if has_event interest ev_writable then arm_write K run fd (ss_node s) d1 else State_Monad.return d1)
      }
      else State_Monad.return (put_state fd s d))"

definition iocp_add :: "kernel \<Rightarrow> 'cb iocp_runner \<Rightarrow> int \<Rightarrow> io_event \<Rightarrow> 'cb \<Rightarrow> 'cb iocp \<Rightarrow> (rvoid \<times> 'cb iocp) io" where
  "iocp_add K run fd interest cb d0 = do {
     let d = d0\<lparr>ip_nodes := Suc (ip_nodes d0)\<rparr>;
     s \<leftarrow> new_state K fd interest cb (ip_nodes d0);
     e \<leftarrow> associate K s d;
     (case e of
        Some err \<Rightarrow> State_Monad.return (\<lparr>ec_value = to_int32 err, ec_category = system_category\<rparr>, d)
      | None \<Rightarrow> do { d' \<leftarrow> arm_state K run fd interest s d; State_Monad.return (void_ok, d') })
   }"

definition newly :: "io_event \<Rightarrow> io_event \<Rightarrow> io_event \<Rightarrow> bool" where
  "newly interest old ev \<longleftrightarrow> has_event interest ev \<and> \<not> has_event old ev"

text \<open>Start the operations that a new interest adds to the old one.\<close>

definition arm_added ::
    "kernel \<Rightarrow> 'cb iocp_runner \<Rightarrow> int \<Rightarrow> io_event \<Rightarrow> io_event \<Rightarrow> 'cb per_socket_state \<Rightarrow> 'cb iocp \<Rightarrow> 'cb iocp io" where
  "arm_added K run fd interest old s d =
     (if ss_listener s then State_Monad.return d
      else if ss_dgram s then
        (if newly interest old ev_readable
         then do {
           sl \<leftarrow> (case ss_slots s of None \<Rightarrow> new_slots K | Some sl \<Rightarrow> State_Monad.return sl);
           s' \<leftarrow> arm_slots K [0..<DGRAM_RECV_SLOTS] (s\<lparr>ss_slots := Some sl\<rparr>);
           State_Monad.return (put_state fd s' d)
         }
         else State_Monad.return d)
      else do {
        d1 \<leftarrow> (if newly interest old ev_readable then arm_read K run fd (ss_node s) d else State_Monad.return d);
        (if newly interest old ev_writable then arm_write K run fd (ss_node s) d1 else State_Monad.return d1)
      })"

definition iocp_modify :: "kernel \<Rightarrow> 'cb iocp_runner \<Rightarrow> int \<Rightarrow> io_event \<Rightarrow> 'cb iocp \<Rightarrow> (rvoid \<times> 'cb iocp) io" where
  "iocp_modify K run fd interest d =
     (case map_of (ip_states d) fd of
        None \<Rightarrow> State_Monad.return (make_error_code invalid_state, d)
      | Some s0 \<Rightarrow> do {
          let s = s0\<lparr>ss_interest := interest\<rparr>;
          d' \<leftarrow> arm_added K run fd interest (ss_interest s0) s (put_state fd s d);
          State_Monad.return (void_ok, d')
        })"

definition iocp_remove :: "kernel \<Rightarrow> int \<Rightarrow> 'cb iocp \<Rightarrow> (rvoid \<times> 'cb iocp) io" where
  "iocp_remove K fd d =
     (case map_of (ip_states d) fd of
        None \<Rightarrow> State_Monad.return (void_ok, d)
      | Some s \<Rightarrow> do {
          _ \<leftarrow> (if ss_listener s then State_Monad.return sys_ok else sys K (Sys_win (Cancel_io fd)));
          State_Monad.return (void_ok, d\<lparr>ip_states := AList.delete fd (ip_states d)\<rparr>)
        })"

section \<open>Timers\<close>

text \<open>The due time in units of 100 ns, negative for a relative one, and the period in milliseconds.\<close>

definition due_time :: "int \<Rightarrow> u64" where
  "due_time ms = of_int (- (ms * 10000))"

definition timer_period :: "bool \<Rightarrow> int \<Rightarrow> u32" where
  "timer_period repeat ms = (if repeat then of_int ms else 0)"

definition iocp_schedule :: "kernel \<Rightarrow> int \<Rightarrow> bool \<Rightarrow> 'cb \<Rightarrow> 'cb iocp \<Rightarrow> (timer_id \<times> 'cb iocp) io" where
  "iocp_schedule K ms repeat cb d0 = do {
     let tid = of_nat (ip_ids d0);
     let d = d0\<lparr>ip_ids := Suc (ip_ids d0)\<rparr>;
     t \<leftarrow> sys K (Sys_win Create_timer);
     if sr_rc t = 0 then State_Monad.return (0, d)
     else do {
       _ \<leftarrow> sys K (Sys_win (Set_timer (sr_rc t) (Some (due_time ms, timer_period repeat ms))));
       State_Monad.return (tid, d\<lparr>ip_timers := AList.update tid
         \<lparr>wt_id = tid, wt_callback = cb, wt_repeating = repeat, wt_iocp = ip_port d, wt_handle = sr_rc t\<rparr> (ip_timers d)\<rparr>)
     }
   }"

definition iocp_cancel :: "kernel \<Rightarrow> timer_id \<Rightarrow> 'cb iocp \<Rightarrow> 'cb iocp io" where
  "iocp_cancel K tid d =
     (case map_of (ip_timers d) tid of
        None \<Rightarrow> State_Monad.return d
      | Some info \<Rightarrow> do {
          _ \<leftarrow> timer_close K (wt_handle info);
          State_Monad.return (d\<lparr>ip_timers := AList.delete tid (ip_timers d)\<rparr>)
        })"

text \<open>Runs on a thread of the system's pool.\<close>

definition timer_callback :: "kernel \<Rightarrow> 'cb win_timer \<Rightarrow> unit io" where
  "timer_callback K info =
     (if wt_iocp info \<noteq> 0
      then do { _ \<leftarrow> sys K (Sys_win (Post_packet (wt_iocp info) TIMER_KEY (wt_id info))); State_Monad.return () }
      else State_Monad.return ())"

definition dispatch_timer :: "kernel \<Rightarrow> 'cb iocp_runner \<Rightarrow> timer_id \<Rightarrow> 'cb iocp \<Rightarrow> 'cb iocp io" where
  "dispatch_timer K run tid d =
     (case map_of (ip_timers d) tid of
        None \<Rightarrow> State_Monad.return d
      | Some info \<Rightarrow>
          if wt_repeating info then iocp_call run (Timer_call (wt_callback info)) d
          else do {
            d1 \<leftarrow> iocp_call run (Timer_call (wt_callback info))
                   (d\<lparr>ip_timers := AList.delete tid (ip_timers d), ip_firing := Some (wt_handle info)\<rparr>);
            _ \<leftarrow> timer_close K (wt_handle info);
            State_Monad.return (d1\<lparr>ip_firing := None\<rparr>)
          })"

section \<open>Listeners\<close>

definition has_listeners :: "'cb iocp \<Rightarrow> bool" where
  "has_listeners d = list_ex (\<lambda>e. ss_listener (snd e)) (ip_states d)"

definition polled_listeners :: "'cb iocp \<Rightarrow> int list" where
  "polled_listeners d =
     map (\<lambda>e. ss_fd (snd e)) (filter (\<lambda>e. ss_listener (snd e) \<and> has_event (ss_interest (snd e)) ev_readable) (ip_states d))"

definition revents :: "sysret \<Rightarrow> nat \<Rightarrow> u32" where
  "revents r i = (if i < length (sr_events r) then snd (sr_events r ! i) else 0)"

primrec listener_calls :: "'cb iocp_runner \<Rightarrow> (int \<times> u32) list \<Rightarrow> int \<Rightarrow> 'cb iocp \<Rightarrow> (int \<times> 'cb iocp) io" where
  "listener_calls run [] n d = State_Monad.return (n, d)"
| "listener_calls run (e # es) n d =
     (if snd e AND (POLLRDNORM OR POLLERR OR POLLHUP) = 0 then listener_calls run es n d
      else (case map_of (ip_states d) (fst e) of
          None \<Rightarrow> listener_calls run es n d
        | Some s \<Rightarrow> do {
            d' \<leftarrow> iocp_call run (Io_call (ss_callback s) (fst e)
                    (if snd e AND POLLERR \<noteq> 0 then io_or ev_readable ev_error else ev_readable)) d;
            listener_calls run es (n + 1) d'
          }))"

definition poll_listeners :: "kernel \<Rightarrow> 'cb iocp_runner \<Rightarrow> 'cb iocp \<Rightarrow> (int \<times> 'cb iocp) io" where
  "poll_listeners K run d =
     (let fds = polled_listeners d
      in if fds = [] then State_Monad.return (0, d)
         else do {
           r \<leftarrow> sys K (Sys_win (Poll_sockets fds));
           if sr_rc r \<le> 0 then State_Monad.return (0, d)
           else listener_calls run (zip fds (map (revents r) [0..<length fds])) 0 d
         })"

section \<open>Completions\<close>

text \<open>A completed receive slot: its datagram is buffered, the slot armed again, the notification deferred.\<close>

definition find_slot :: "'cb per_socket_state \<Rightarrow> u64 \<Rightarrow> nat option" where
  "find_slot s ov = (case ss_slots s of None \<Rightarrow> None | Some sl \<Rightarrow> find (\<lambda>i. slot_ov sl i = ov) [0..<DGRAM_RECV_SLOTS])"

definition completed_dgram :: "sysret \<Rightarrow> (byte list \<times> sock_address) list" where
  "completed_dgram r =
     (if sr_rc r \<noteq> 0 \<and> sr_val r > 0
      then [(take (nat (sr_val r)) (sr_data r), received_address (r\<lparr>sr_addr := take (sr_addrlen r) (sr_addr r)\<rparr>))] else [])"

definition dgram_completion ::
    "kernel \<Rightarrow> int \<Rightarrow> 'cb per_socket_state \<Rightarrow> u64 \<Rightarrow> int list \<times> 'cb iocp \<Rightarrow> (int list \<times> 'cb iocp) io" where
  "dgram_completion K fd s ov st = (case st of (ready, d) \<Rightarrow>
     case find_slot s ov of
       None \<Rightarrow> State_Monad.return (ready, d)
     | Some i \<Rightarrow> do {
         r \<leftarrow> sys K (Sys_win (Overlapped_result fd ov));
         let s1 = set_pending i False (s\<lparr>ss_queue := ss_queue s @ completed_dgram r\<rparr>);
         s2 \<leftarrow> (if has_event (ss_interest s1) ev_readable then arm_recv_from K i s1 else State_Monad.return s1);
         State_Monad.return (if ss_notified s2 then (ready, put_state fd s2 d)
           else (ready @ [fd], put_state fd (s2\<lparr>ss_notified := True\<rparr>) d))
       })"

definition stream_event :: "'cb per_socket_state \<Rightarrow> u64 \<Rightarrow> u32 \<Rightarrow> io_event \<times> 'cb per_socket_state" where
  "stream_event s ov bytes =
     (if ov = read_ov s
      then (if bytes = 0 then io_or ev_readable ev_peer_shutdown else ev_readable, s\<lparr>ss_read_pending := False\<rparr>)
      else if ov = write_ov s then (ev_writable, s\<lparr>ss_write_pending := False\<rparr>)
      else (ev_none, s))"

text \<open>After the callback, the state is looked up again and armed; a callback of \<open>arm_read\<close> may remove it.\<close>

definition rearm :: "kernel \<Rightarrow> 'cb iocp_runner \<Rightarrow> int \<Rightarrow> 'cb iocp \<Rightarrow> 'cb iocp io" where
  "rearm K run fd d =
     (case map_of (ip_states d) fd of
        None \<Rightarrow> State_Monad.return d
      | Some s \<Rightarrow> do {
          d1 \<leftarrow> (if has_event (ss_interest s) ev_readable \<and> \<not> ss_read_pending s then arm_read K run fd (ss_node s) d
                else State_Monad.return d);
          use_state fd (ss_node s) (\<lambda>s1.
            if has_event (ss_interest s1) ev_writable \<and> \<not> ss_write_pending s1 then arm_write K run fd (ss_node s) d1
            else State_Monad.return d1) d1
        })"

definition stream_completion ::
    "kernel \<Rightarrow> 'cb iocp_runner \<Rightarrow> int \<Rightarrow> 'cb per_socket_state \<Rightarrow> u64 \<Rightarrow> u32 \<Rightarrow> 'cb iocp \<Rightarrow> 'cb iocp io" where
  "stream_completion K run fd s ov bytes d =
     (case stream_event s ov bytes of (ev, s1) \<Rightarrow> do {
        d1 \<leftarrow> iocp_call run (Io_call (ss_callback s) fd ev) (put_state fd s1 d);
        rearm K run fd d1
      })"

text \<open>
  One entry of the array that the port returned. The pending datagram sockets, the number of callbacks
  and the dispatcher are carried along.
\<close>

type_synonym 'cb polling = "int list \<times> int \<times> 'cb iocp"

definition completion :: "kernel \<Rightarrow> 'cb iocp_runner \<Rightarrow> u64 \<times> u64 \<times> u32 \<Rightarrow> 'cb polling \<Rightarrow> 'cb polling io" where
  "completion K run e st = (case e of (key, ov, bytes) \<Rightarrow> case st of (ready, n, d) \<Rightarrow>
     if key = of_int WAKER_KEY then State_Monad.return (ready, n, d)
     else if key = TIMER_KEY then do { d' \<leftarrow> dispatch_timer K run ov d; State_Monad.return (ready, n + 1, d') }
     else (case map_of (ip_states d) (sint key) of
         None \<Rightarrow> State_Monad.return (ready, n, d)
       | Some s \<Rightarrow>
           if ss_dgram s then do {
             (ready', d') \<leftarrow> dgram_completion K (sint key) s ov (ready, d);
             State_Monad.return (ready', n, d')
           }
           else do {
             d' \<leftarrow> stream_completion K run (sint key) s ov bytes d;
             State_Monad.return (ready, n + 1, d')
           }))"

primrec completions :: "kernel \<Rightarrow> 'cb iocp_runner \<Rightarrow> (u64 \<times> u64 \<times> u32) list \<Rightarrow> 'cb polling \<Rightarrow> 'cb polling io" where
  "completions K run [] st = State_Monad.return st"
| "completions K run (e # es) st = do { st' \<leftarrow> completion K run e st; completions K run es st' }"

text \<open>The second phase: one notification for each datagram socket with completed receives.\<close>

definition notify_one :: "'cb iocp_runner \<Rightarrow> int \<Rightarrow> int \<times> 'cb iocp \<Rightarrow> (int \<times> 'cb iocp) io" where
  "notify_one run fd st = (case st of (n, d) \<Rightarrow>
     case map_of (ip_states d) fd of
       None \<Rightarrow> State_Monad.return (n, d)
     | Some s \<Rightarrow>
         let d1 = put_state fd (s\<lparr>ss_notified := False\<rparr>) d
         in if ss_queue s = [] \<or> \<not> has_event (ss_interest s) ev_readable then State_Monad.return (n, d1)
            else do { d2 \<leftarrow> iocp_call run (Io_call (ss_callback s) fd ev_readable) d1; State_Monad.return (n + 1, d2) })"

primrec notify :: "'cb iocp_runner \<Rightarrow> int list \<Rightarrow> int \<times> 'cb iocp \<Rightarrow> (int \<times> 'cb iocp) io" where
  "notify run [] st = State_Monad.return st"
| "notify run (fd # fds) st = do { st' \<leftarrow> notify_one run fd st; notify run fds st' }"

section \<open>Polling\<close>

definition wait_timeout :: "int \<Rightarrow> bool \<Rightarrow> int \<Rightarrow> u32" where
  "wait_timeout dispatched listeners timeout_ms =
     (if dispatched > 0 then 0
      else if listeners then (if timeout_ms < 0 then 10 else min (of_int timeout_ms) 10)
      else if timeout_ms < 0 then INFINITE else of_int timeout_ms)"

definition iocp_poll :: "kernel \<Rightarrow> 'cb iocp_runner \<Rightarrow> int \<Rightarrow> 'cb iocp \<Rightarrow> (int result \<times> 'cb iocp) io" where
  "iocp_poll K run timeout_ms d0 = do {
     (n, d) \<leftarrow> poll_listeners K run d0;
     r \<leftarrow> sys K (Sys_win (Dequeue (ip_port d) 256 (wait_timeout n (has_listeners d) timeout_ms)));
     err \<leftarrow> get_errno;
     if sr_rc r = 0 \<and> err \<noteq> WAIT_TIMEOUT
     then State_Monad.return (Inl \<lparr>ec_value = to_int32 err, ec_category = system_category\<rparr>, d)
     else do {
       (ready, n1, d1) \<leftarrow> completions K run (if sr_rc r = 0 then [] else take 256 (sr_completions r)) ([], n, d);
       (n2, d2) \<leftarrow> notify run ready (n1, d1);
       State_Monad.return (Inr n2, d2)
     }
   }"

definition iocp_wake :: "kernel \<Rightarrow> 'cb iocp \<Rightarrow> unit io" where
  "iocp_wake K d = waker_wake K Windows (ip_waker d)"

section \<open>Buffered datagrams\<close>

definition retrieve_dgram :: "int \<Rightarrow> nat \<Rightarrow> 'cb iocp \<Rightarrow> (nat \<times> byte list \<times> sock_address) result \<times> 'cb iocp" where
  "retrieve_dgram fd len d =
     (case map_of (ip_states d) fd of
        None \<Rightarrow> (Inl (make_error_code would_block), d)
      | Some s \<Rightarrow>
          if \<not> ss_dgram s then (Inl (make_error_code would_block), d)
          else (case ss_queue s of
              [] \<Rightarrow> (Inl (make_error_code would_block), d)
            | (data, source) # rest \<Rightarrow>
                let n = min len (length data)
                in (Inr (n, take n data, source), put_state fd (s\<lparr>ss_queue := rest\<rparr>) d)))"

section \<open>The contract of a dispatcher\<close>

definition iocp_methods :: "kernel \<Rightarrow> 'cb iocp_runner \<Rightarrow> ('cb iocp, 'cb) dispatcher" where
  "iocp_methods K run = \<lparr>d_add = iocp_add K run, d_modify = iocp_modify K run, d_remove = iocp_remove K,
     d_schedule = iocp_schedule K, d_cancel = iocp_cancel K\<rparr>"

lemma iocp_methods_simps [simp]:
  "d_add (iocp_methods K run) = iocp_add K run" "d_modify (iocp_methods K run) = iocp_modify K run"
  "d_remove (iocp_methods K run) = iocp_remove K" "d_schedule (iocp_methods K run) = iocp_schedule K"
  "d_cancel (iocp_methods K run) = iocp_cancel K"
  by (simp_all add: iocp_methods_def)

definition iocp_table :: "'cb iocp \<Rightarrow> (timer_id, 'cb) table" where
  "iocp_table d = \<lparr>t_io = (\<lambda>fd. map_option ss_callback (map_of (ip_states d) fd)),
     t_timers = (\<lambda>tid. map_option (\<lambda>i. (wt_callback i, wt_repeating i)) (map_of (ip_timers d) tid))\<rparr>"

text \<open>Callbacks that act on the rest of the program and not on the dispatcher.\<close>

definition outside :: "('cb invocation \<Rightarrow> unit io) \<Rightarrow> 'cb iocp_runner" where
  "outside act i d = do { _ \<leftarrow> act i; State_Monad.return d }"

lemma iocp_table_simps [simp]:
  "iocp_table (iocp_note i d) = iocp_table d"
  "iocp_table (d\<lparr>ip_nodes := n\<rparr>) = iocp_table d" "iocp_table (d\<lparr>ip_ids := n\<rparr>) = iocp_table d"
  "iocp_table (d\<lparr>ip_dangling := b\<rparr>) = iocp_table d"
  "iocp_table (put_state fd s d) = (iocp_table d)\<lparr>t_io := (t_io (iocp_table d))(fd \<mapsto> ss_callback s)\<rparr>"
  by (auto simp: iocp_table_def iocp_note_def put_state_def AList.update_conv' fun_eq_iff)

lemma iocp_table_put_same:
  "map_of (ip_states d) fd = Some s \<Longrightarrow> ss_callback s' = ss_callback s \<Longrightarrow> iocp_table (put_state fd s' d) = iocp_table d"
  by (auto simp: iocp_table_def put_state_def AList.update_conv' fun_eq_iff)

lemma yields_outside [yields_intros]: "Q d \<Longrightarrow> yields (outside act i d) Q"
  by (simp add: outside_def yields_def split: prod.split)

lemma deref_Some: "deref fd n d = Some s \<longleftrightarrow> map_of (ip_states d) fd = Some s \<and> ss_node s = n"
  by (auto simp: deref_def split: option.splits if_splits)

lemma yields_overlapped: "(\<And>ok. Q ok) \<Longrightarrow> yields (overlapped K c) Q"
  by (simp add: yields_def)

lemma arm_table:
  "iocp_table d = T \<Longrightarrow> yields (arm_read K (outside act) fd n d) (\<lambda>d'. iocp_table d' = T)"
  "iocp_table d = T \<Longrightarrow> yields (arm_write K (outside act) fd n d) (\<lambda>d'. iocp_table d' = T)"
  unfolding arm_read_def arm_write_def use_state_def iocp_call_def
  by (auto simp: deref_Some simp del: iocp_table_simps(5)
      intro!: yields_intros yields_overlapped trans [OF iocp_table_put_same] simp: iocp_table_simps(1))

lemma arm_slots_callback: "yields (arm_slots K is s) (\<lambda>s'. ss_callback s' = ss_callback s)"
proof (induction "is" arbitrary: s)
  case (Cons i "is")
  have "yields (arm_recv_from K i s) (\<lambda>s'. ss_callback s' = ss_callback s)"
    unfolding arm_recv_from_def by (auto simp: set_pending_def intro!: yields_intros yields_overlapped)
  then show ?case unfolding arm_slots.simps
    by (intro yields_bind, elim yields_weaken) (metis Cons.IH)
qed (simp add: yields_return)

lemma new_state_fields:
  "yields (new_state K fd interest cb n) (\<lambda>s. ss_callback s = cb \<and> ss_node s = n \<and> ss_fd s = fd
     \<and> ss_interest s = interest \<and> \<not> ss_read_pending s \<and> \<not> ss_write_pending s \<and> ss_slots s = None)"
  unfolding new_state_def Let_def by (auto intro!: yields_intros)

text \<open>
  The system as documented: when a socket cannot be associated with a port, the error number is not
  0. A system that behaves this way is \<open>documented K\<close> for some \<open>K\<close>, itself.
\<close>

definition documented :: "kernel \<Rightarrow> kernel" where
  "documented K tr c =
     (let r = K tr c
      in case c of
           Sys_win (Associate _ _ _) \<Rightarrow>
             if sr_rc r = 0
             then r\<lparr>sr_err := Some (case sr_err r of Some e \<Rightarrow> if to_int32 e \<noteq> 0 then e else 1 | None \<Rightarrow> 1)\<rparr> else r
         | _ \<Rightarrow> r)"

lemma documented_same:
  assumes "\<And>tr s h k. sr_rc (K tr (Sys_win (Associate s h k))) = 0 \<Longrightarrow>
    \<exists>e. sr_err (K tr (Sys_win (Associate s h k))) = Some e \<and> to_int32 e \<noteq> 0"
  shows "documented K = K"
proof (intro ext)
  fix tr c
  show "documented K tr c = K tr c"
    using assms [of tr] by (auto simp: documented_def Let_def split: syscall.split win_call.split) force
qed

lemma associate_error: "yields (associate (documented K) s d) (\<lambda>e. case e of None \<Rightarrow> True | Some err \<Rightarrow> to_int32 err \<noteq> 0)"
  unfolding yields_def
  by (auto simp: associate_def io_simps documented_def Let_def to_int32_id split: option.splits)

lemma arm_state_table:
  "yields (arm_state K (outside act) fd i s d)
     (\<lambda>d'. iocp_table d' = (iocp_table d)\<lparr>t_io := (t_io (iocp_table d))(fd \<mapsto> ss_callback s)\<rparr>)"
  (is "yields _ (\<lambda>d'. iocp_table d' = ?T)")
proof -
  have slots: "yields (arm_slots K is (s\<lparr>ss_slots := Some sl\<rparr>)) (\<lambda>s'. iocp_table (put_state fd s' d) = ?T)" for "is" sl
    by (rule yields_weaken [OF arm_slots_callback]) simp
  show ?thesis
    unfolding arm_state_def new_slots_def
    by (auto intro!: yields_intros arm_table yields_then [OF arm_table(1) [OF refl]] yields_then [OF slots])
qed

lemma iocp_add_table:
  "yields (iocp_add (documented K) (outside act) fd i cb d)
     (\<lambda>(r, d'). iocp_table d' = table_op (\<lambda>x. x) (Op_add fd i cb) (Answer (is_ok r)) (iocp_table d))"
  unfolding iocp_add_def Let_def
  by (rule yields_then [OF new_state_fields], rule yields_then [OF associate_error])
    (auto simp: is_ok_def [of "_\<lparr>ec_value := _\<rparr>"] is_ok_def [of "\<lparr>ec_value = _, ec_category = _\<rparr>"]
      intro!: yields_intros yields_then [OF arm_state_table])

lemma iocp_modify_table: "yields (iocp_modify K (outside act) fd i d) (\<lambda>(r, d'). iocp_table d' = iocp_table d)"
proof (cases "map_of (ip_states d) fd")
  case (Some s0)
  let ?s = "s0\<lparr>ss_interest := i\<rparr>"
  have put: "iocp_table (put_state fd ?s d) = iocp_table d" by (rule iocp_table_put_same [OF Some]) simp
  have again: "iocp_table (put_state fd s' (put_state fd ?s d)) = iocp_table d" if "ss_callback s' = ss_callback s0" for s'
    using that Some by (auto simp: iocp_table_def put_state_def AList.update_conv' fun_eq_iff)
  have slots: "yields (arm_slots K is (?s\<lparr>ss_slots := Some sl\<rparr>))
      (\<lambda>s'. iocp_table (put_state fd s' (put_state fd ?s d)) = iocp_table d)" for "is" sl
    by (rule yields_weaken [OF arm_slots_callback]) (rule again, simp)
  have "yields (arm_added K (outside act) fd i (ss_interest s0) ?s (put_state fd ?s d)) (\<lambda>d'. iocp_table d' = iocp_table d)"
    unfolding arm_added_def new_slots_def
    by (auto simp: put simp del: iocp_table_simps(5)
        intro!: yields_intros arm_table yields_then [OF arm_table(1) [OF put]] yields_then [OF slots])
  then show ?thesis
    unfolding iocp_modify_def Let_def Some option.case by (rule yields_then) (simp add: yields_return)
qed (simp add: iocp_modify_def yields_return)

interpretation ic: dispatcher_table "iocp_methods (documented K) (outside act)" "\<lambda>tid. tid" iocp_table for K act
proof unfold_locales
  fix fd i cb and d :: "'a iocp" and w r d' w'
  assume "run_state (d_add (iocp_methods (documented K) (outside act)) fd i cb d) w = ((r, d'), w')"
  with yieldsD [OF iocp_add_table, of K act fd i cb d w]
  show "iocp_table d' = table_op (\<lambda>tid. tid) (Op_add fd i cb) (Answer (is_ok r)) (iocp_table d)" by fastforce
next
  fix fd i and d :: "'a iocp" and w r d' w'
  assume "run_state (d_modify (iocp_methods (documented K) (outside act)) fd i d) w = ((r, d'), w')"
  with yieldsD [OF iocp_modify_table, of "documented K" act fd i d w]
  show "iocp_table d' = iocp_table d" by fastforce
next
  fix fd and d :: "'a iocp" and w r d' w'
  assume "run_state (d_remove (iocp_methods (documented K) (outside act)) fd d) w = ((r, d'), w')"
  then show "iocp_table d' = table_op (\<lambda>tid. tid) (Op_remove fd) (Answer (is_ok r)) (iocp_table d)"
    by (auto simp: iocp_remove_def io_simps iocp_table_def AList.delete_conv' fun_eq_iff split: option.splits if_splits)
next
  fix ms rep cb and d :: "'a iocp" and w tid d' w'
  assume "run_state (d_schedule (iocp_methods (documented K) (outside act)) ms rep cb d) w = ((tid, d'), w')" "tid \<noteq> 0"
  then show "iocp_table d' = table_op (\<lambda>tid. tid) (Op_schedule ms rep cb) (Timer tid) (iocp_table d)"
    by (auto simp: iocp_schedule_def io_simps iocp_table_def AList.update_conv' fun_eq_iff Let_def split: if_splits)
next
  fix ms rep cb and d :: "'a iocp" and w d' w'
  assume "run_state (d_schedule (iocp_methods (documented K) (outside act)) ms rep cb d) w = ((0, d'), w')"
  then show "iocp_table d' = iocp_table d
    \<or> iocp_table d' = (iocp_table d)\<lparr>t_timers := (t_timers (iocp_table d))(0 \<mapsto> (cb, rep))\<rparr>"
    by (auto simp: iocp_schedule_def io_simps iocp_table_def AList.update_conv' fun_eq_iff Let_def split: if_splits)
next
  fix tid and d :: "'a iocp" and w d' w'
  assume "run_state (d_cancel (iocp_methods (documented K) (outside act)) tid d) w = (d', w')"
  then show "iocp_table d' = table_op (\<lambda>tid. tid) (Op_cancel tid) (Answer True) (iocp_table d)"
    by (auto simp: iocp_cancel_def timer_close_def io_simps iocp_table_def AList.delete_conv' fun_eq_iff split: option.splits)
qed

end
