(* ===== verification/Iocp_Runs.thy ===== *)
theory Iocp_Runs
  imports Iocp
begin

text \<open>
  The completion-port dispatcher under all operations, polls and callbacks: the port and the timers
  that it owns are open and released once, and every interest has its overlapped operation. A callback
  may do what it likes with the dispatcher, as long as it keeps the property in question; the lemmas on
  \<open>script\<close> show that every program of dispatcher operations does.
\<close>

section \<open>Ownership\<close>

definition timer_handles :: "('k \<times> 'cb win_timer) list \<Rightarrow> int multiset" where
  "timer_handles ts = mset (map (wt_handle \<circ> snd) ts)"

definition ip_held :: "'cb iocp \<Rightarrow> int multiset" where
  "ip_held d = (if ip_port d \<noteq> 0 then {#ip_port d#} else {#}) + timer_handles (ip_timers d)"

definition ip_owned :: "'cb iocp \<Rightarrow> int multiset" where
  "ip_owned d = ip_held d + (case ip_firing d of None \<Rightarrow> {#} | Some h \<Rightarrow> {#h#})"

lemma timer_handles_simps [simp]:
  "timer_handles [] = {#}" "timer_handles (t # ts) = add_mset (wt_handle (snd t)) (timer_handles ts)"
  by (simp_all add: timer_handles_def)

lemma timer_handles_delete:
  assumes "distinct (map fst ts)" and "map_of ts k = Some t"
  shows "timer_handles ts = add_mset (wt_handle t) (timer_handles (AList.delete k ts))"
  using assms
proof (induction ts)
  case (Cons x ts)
  show ?case
  proof (cases "fst x = k")
    case True
    then have "AList.delete k ts = ts" using Cons.prems(1) by (intro AList.delete_id) auto
    then show ?thesis using True Cons.prems by (cases x) (simp add: AList.delete_eq)
  next
    case False
    then show ?thesis using Cons by (cases x) (simp add: AList.delete_eq)
  qed
qed simp

lemma timer_handles_update:
  assumes "k \<notin> fst ` set ts"
  shows "timer_handles (AList.update k t ts) = add_mset (wt_handle t) (timer_handles ts)"
  using assms by (induction ts) auto

lemma timer_handles_update_sub:
  "timer_handles (AList.update k t ts) \<subseteq># add_mset (wt_handle t) (timer_handles ts)"
proof (induction ts)
  case (Cons x ts)
  then show ?case by (cases x) (auto simp: add_mset_commute [of "wt_handle t"])
qed simp

lemma iocp_new_acquires: "acquires (iocp_new K :: (string + 'cb iocp) io) ip_held"
  unfolding iocp_new_def
  by (rule acquiresI)
    (auto simp: live_step.simps ip_held_def waker_move_assign_def waker_close_def waker_owned_def
      intro!: fd_wp_bind fd_wp_sys fd_wp_if fd_wp_return fd_wp_case_sum fd_wp_case_prod
        wp_acquires [OF waker_create_acquires] wp_waker_drop)

lemma neutral_cancel_all: "neutral (cancel_all K es)"
  by (induction es) (auto intro!: neutral_intros)

lemma wp_timer_close:
  "(\<And>x. Q x (L - {#h#})) \<Longrightarrow> h \<in># L \<Longrightarrow> fd_wp (timer_close K h) Q L"
  unfolding timer_close_def
  by (auto simp: live_step.simps intro!: fd_wp_bind fd_wp_return fd_wp_sys [of _ "Sys_win (Close_timer _)"]
      fd_wp_neutral [OF neutral_win(10)] fd_wp_neutral [OF neutral_win(11)])

lemma wp_timers_close:
  "(\<And>x. Q x (L - mset hs)) \<Longrightarrow> mset hs \<subseteq># L \<Longrightarrow> fd_wp (timers_close K hs) Q L"
proof (induction hs arbitrary: L)
  case (Cons h hs)
  then have "mset hs \<subseteq># L - {#h#}" "h \<in># L" by (simp_all add: insert_subset_eq_iff)
  then show ?case using Cons by (auto intro!: fd_wp_bind wp_timer_close)
qed (simp add: fd_wp_return)

lemma wp_iocp_drop:
  assumes "\<And>x. Q x (L - ip_held d)" and "ip_held d \<subseteq># L"
  shows "fd_wp (iocp_drop K d) Q L"
proof -
  obtain M where "L = M + ip_held d" using assms(2) by (metis subset_mset.diff_add)
  then show ?thesis using assms(1) unfolding iocp_drop_def
    by (auto simp: ip_held_def timer_handles_def live_step.simps waker_owned_def
        intro!: fd_wp_bind fd_wp_neutral [OF neutral_cancel_all] wp_timers_close fd_wp_if fd_wp_return
          fd_wp_sys [of _ "Sys_win (Close_handle _)"] wp_waker_drop)
qed

interpretation iocps: owning_factory "iocp_new K" "iocp_drop K" ip_held for K
  by unfold_locales (auto intro: iocp_new_acquires wp_iocp_drop)

text \<open>
  \<open>kept P f d L\<close>: the dispatcher's port and timers are open, and as long as its 64-bit counter of
  identifiers has not wrapped around, what else is open satisfies \<open>P\<close>; \<open>f\<close> is the timer that fires.
\<close>

definition kept :: "(int multiset \<Rightarrow> bool) \<Rightarrow> int option \<Rightarrow> 'cb iocp \<Rightarrow> int multiset \<Rightarrow> bool" where
  "kept P f d L \<longleftrightarrow> ip_firing d = f \<and> distinct (map fst (ip_timers d)) \<and> ip_owned d \<subseteq># L
     \<and> (\<forall>tid \<in> fst ` set (ip_timers d). unat tid < ip_ids d) \<and> (ip_ids d \<le> 2 ^ 64 \<longrightarrow> P (L - ip_owned d))"

lemma kept_simps [simp]:
  "kept P f (iocp_note i d) L = kept P f d L" "kept P f (put_state fd s d) L = kept P f d L"
  "kept P f (d\<lparr>ip_nodes := n\<rparr>) L = kept P f d L" "kept P f (d\<lparr>ip_dangling := b\<rparr>) L = kept P f d L"
  "kept P f (d\<lparr>ip_states := ss\<rparr>) L = kept P f d L"
  by (simp_all add: kept_def ip_owned_def ip_held_def iocp_note_def put_state_def)

definition keeps_kept :: "(int multiset \<Rightarrow> bool) \<Rightarrow> 'cb iocp_runner \<Rightarrow> bool" where
  "keeps_kept P run \<longleftrightarrow> (\<forall>i d L f. kept P f d L \<longrightarrow> fd_wp (run i d) (kept P f) L)"

lemma wp_call: "keeps_kept P run \<Longrightarrow> kept P f d L \<Longrightarrow> fd_wp (iocp_call run i d) (kept P f) L"
  by (simp add: keeps_kept_def iocp_call_def)

lemma neutral_overlapped: "neutral (overlapped K (Recv_zero s ov))" "neutral (overlapped K (Send_zero s ov))"
  "neutral (overlapped K (Recv_overlapped s ov n))"
  unfolding overlapped_def by (auto intro!: neutral_intros)

lemma neutral_arm_slots: "neutral (arm_recv_from K i s)" "neutral (arm_slots K is s)"
proof -
  show *: "neutral (arm_recv_from K i s)" for i s
    unfolding arm_recv_from_def by (auto intro!: neutral_intros neutral_overlapped)
  show "neutral (arm_slots K is s)" by (induction "is" arbitrary: s) (auto intro!: neutral_intros *)
qed

lemma neutral_new: "neutral (new_slots K)" "neutral (new_state K fd i cb n)" "neutral (associate K s d)"
  unfolding new_slots_def new_state_def associate_def Let_def by (auto intro!: neutral_intros)

lemma wp_arm:
  assumes "keeps_kept P run" and "kept P f d L"
  shows "fd_wp (arm_read K run fd n d) (kept P f) L" "fd_wp (arm_write K run fd n d) (kept P f) L"
  using assms unfolding arm_read_def arm_write_def use_state_def
  by (auto intro!: fd_wp_case_option fd_wp_if fd_wp_return fd_wp_bind fd_wp_neutral [OF neutral_overlapped(1)]
      fd_wp_neutral [OF neutral_overlapped(2)] wp_call)

lemma wp_arm_state:
  assumes "keeps_kept P run" and "kept P f d L"
  shows "fd_wp (arm_state K run fd i s d) (kept P f) L" "fd_wp (arm_added K run fd i old s d) (kept P f) L"
proof -
  have p: "kept P f (put_state fd s' d) L" for s' using assms(2) by simp
  have slots: "neutral (case ss_slots s of None \<Rightarrow> new_slots K | Some sl \<Rightarrow> State_Monad.return sl)"
    by (auto intro!: neutral_intros neutral_new)
  show "fd_wp (arm_state K run fd i s d) (kept P f) L"
    unfolding arm_state_def
    by (auto simp: assms(2) intro!: fd_wp_if fd_wp_return fd_wp_bind [OF fd_wp_neutral [OF neutral_new(1)]]
        fd_wp_bind [OF fd_wp_neutral [OF neutral_arm_slots(2)]] fd_wp_bind [OF fd_wp_return]
        fd_wp_then [OF wp_arm(1) [OF assms(1) p]] wp_arm [OF assms(1)])
  show "fd_wp (arm_added K run fd i old s d) (kept P f) L"
    unfolding arm_added_def
    by (auto simp: assms(2) intro!: fd_wp_if fd_wp_return fd_wp_bind [OF fd_wp_neutral [OF slots]]
        fd_wp_bind [OF fd_wp_neutral [OF neutral_arm_slots(2)]] fd_wp_bind [OF fd_wp_return]
        fd_wp_then [OF wp_arm(1) [OF assms]] wp_arm [OF assms(1)])
qed

lemma unat_of_nat_le: "unat (of_nat n :: u64) \<le> n"
  by (simp add: unsigned_of_nat take_bit_eq_mod)

lemma kept_timer:
  assumes "kept P f d L" and "tid = of_nat (ip_ids d)"
  shows "kept P f (d\<lparr>ip_ids := Suc (ip_ids d), ip_timers := AList.update tid t (ip_timers d)\<rparr>) (add_mset (wt_handle t) L)"
proof -
  let ?d = "d\<lparr>ip_ids := Suc (ip_ids d), ip_timers := AList.update tid t (ip_timers d)\<rparr>"
  note k = assms(1) [unfolded kept_def]
  have le: "ip_owned ?d \<subseteq># add_mset (wt_handle t) (ip_owned d)"
    using timer_handles_update_sub [of tid t "ip_timers d"] by (auto simp: ip_owned_def ip_held_def split: option.split)
  then have sub: "ip_owned ?d \<subseteq># add_mset (wt_handle t) L" using k by (meson mset_subset_eq_add_mset_cancel subset_mset.order_trans)
  have keys: "fst ` set (AList.update tid t (ip_timers d)) = insert tid (fst ` set (ip_timers d))"
    using AList.dom_update [of tid t "ip_timers d"] by auto
  have ids: "\<forall>x \<in> fst ` set (ip_timers ?d). unat x < ip_ids ?d"
  proof
    fix x assume "x \<in> fst ` set (ip_timers ?d)"
    then have "x = tid \<or> x \<in> fst ` set (ip_timers d)" using keys by simp
    then show "unat x < ip_ids ?d" using k unat_of_nat_le [of "ip_ids d"] by (auto simp: assms(2) less_Suc_eq_le intro: less_imp_le)
  qed
  have exact: "P (add_mset (wt_handle t) L - ip_owned ?d)" if "Suc (ip_ids d) \<le> 2 ^ 64"
  proof -
    have "unat tid = ip_ids d" using that by (simp add: assms(2) unsigned_of_nat take_bit_eq_mod)
    then have "tid \<notin> fst ` set (ip_timers d)" using k by fastforce
    then have "ip_owned ?d = add_mset (wt_handle t) (ip_owned d)"
      by (simp add: ip_owned_def ip_held_def timer_handles_update split: option.split)
    then show ?thesis using k that by simp
  qed
  show ?thesis using k sub ids exact by (auto simp: kept_def AList.distinct_update)
qed

lemma kept_ids: "kept P f d L \<Longrightarrow> kept P f (d\<lparr>ip_ids := Suc (ip_ids d)\<rparr>) L"
  by (auto simp: kept_def ip_owned_def ip_held_def)

lemma wp_schedule:
  assumes "kept P f d L"
  shows "fd_wp (iocp_schedule K ms rep cb d) (\<lambda>x. kept P f (snd x)) L"
proof -
  have timer: "kept P f (d\<lparr>ip_ids := Suc (ip_ids d), ip_timers := AList.update (of_nat (ip_ids d))
      \<lparr>wt_id = of_nat (ip_ids d), wt_callback = cb, wt_repeating = rep, wt_iocp = ip_port d, wt_handle = h\<rparr> (ip_timers d)\<rparr>)
      (add_mset h L)" for h
    using kept_timer [OF assms refl, of "\<lparr>wt_id = of_nat (ip_ids d), wt_callback = cb, wt_repeating = rep,
      wt_iocp = ip_port d, wt_handle = h\<rparr>"] by simp
  show ?thesis
    unfolding iocp_schedule_def Let_def
    by (auto simp: live_step.simps kept_ids [OF assms] timer intro!: fd_wp_bind fd_wp_sys [of _ "Sys_win Create_timer"]
        fd_wp_if fd_wp_return fd_wp_neutral [OF neutral_win(10)])
qed

lemma kept_delete:
  assumes "kept P f d L" and "map_of (ip_timers d) tid = Some t"
  shows "kept P f (d\<lparr>ip_timers := AList.delete tid (ip_timers d)\<rparr>) (L - {#wt_handle t#})" and "wt_handle t \<in># L"
proof -
  note k = assms(1) [unfolded kept_def]
  let ?d = "d\<lparr>ip_timers := AList.delete tid (ip_timers d)\<rparr>"
  have o: "ip_owned d = add_mset (wt_handle t) (ip_owned ?d)"
    using timer_handles_delete [OF _ assms(2)] k by (simp add: ip_owned_def ip_held_def)
  then show "wt_handle t \<in># L" using k by (metis insert_subset_eq_iff)
  have "ip_owned ?d \<subseteq># L - {#wt_handle t#}" "L - {#wt_handle t#} - ip_owned ?d = L - ip_owned d"
    using k o by (auto simp: insert_subset_eq_iff)
  then show "kept P f ?d (L - {#wt_handle t#})"
    using k AList.distinct_delete [of "ip_timers d" tid] by (auto simp: kept_def AList.delete_eq)
qed

lemma wp_cancel:
  assumes "kept P f d L"
  shows "fd_wp (iocp_cancel K tid d) (kept P f) L"
  unfolding iocp_cancel_def
  by (auto simp: assms kept_delete [OF assms] intro!: fd_wp_case_option fd_wp_return fd_wp_bind wp_timer_close)

text \<open>The timer that fires changes hands: from the table to \<open>dispatch_timer\<close>, which releases it.\<close>

lemma kept_fire:
  assumes "kept P None d L" and "map_of (ip_timers d) tid = Some t"
  shows "kept P (Some (wt_handle t)) (d\<lparr>ip_timers := AList.delete tid (ip_timers d), ip_firing := Some (wt_handle t)\<rparr>) L"
  using kept_delete [OF assms] kept_def assms(1)
  by (auto simp: kept_def ip_owned_def ip_held_def insert_subset_eq_iff)

lemma kept_fired:
  assumes "kept P (Some h) d L"
  shows "kept P None (d\<lparr>ip_firing := None\<rparr>) (L - {#h#})" and "h \<in># L"
  using assms by (auto simp: kept_def ip_owned_def ip_held_def insert_subset_eq_iff)

lemma wp_dispatch_timer:
  assumes "keeps_kept P run" and "kept P None d L"
  shows "fd_wp (dispatch_timer K run tid d) (kept P None) L"
proof (cases "map_of (ip_timers d) tid")
  case (Some t)
  have "fd_wp (timer_close K (wt_handle t) \<bind> (\<lambda>_. State_Monad.return (d1\<lparr>ip_firing := None\<rparr>))) (kept P None) L'"
    if "kept P (Some (wt_handle t)) d1 L'" for d1 L'
    using kept_fired [OF that] by (auto intro!: fd_wp_bind wp_timer_close fd_wp_return)
  from fd_wp_then [OF wp_call [OF assms(1) kept_fire [OF assms(2) Some]] this] show ?thesis
    by (auto simp: dispatch_timer_def Some intro!: fd_wp_if wp_call [OF assms])
qed (simp add: dispatch_timer_def assms fd_wp_return)

text \<open>Operations, completions and polls.\<close>

lemma wp_remove: "kept P f d L \<Longrightarrow> fd_wp (iocp_remove K fd d) (\<lambda>x. kept P f (snd x)) L"
  unfolding iocp_remove_def
  by (auto intro!: fd_wp_case_option fd_wp_return fd_wp_bind fd_wp_if fd_wp_neutral [OF neutral_win(4)])

lemma wp_add:
  assumes "keeps_kept P run" and "kept P f d L"
  shows "fd_wp (iocp_add K run fd i cb d) (\<lambda>x. kept P f (snd x)) L"
proof -
  have k: "kept P f (d\<lparr>ip_nodes := n\<rparr>) L" for n using assms(2) by simp
  show ?thesis
    unfolding iocp_add_def Let_def
    by (auto simp: assms(2) intro!: fd_wp_bind [OF fd_wp_neutral [OF neutral_new(2)]] fd_wp_bind [OF fd_wp_neutral [OF neutral_new(3)]]
        fd_wp_case_option fd_wp_return fd_wp_then [OF wp_arm_state(1) [OF assms(1) k]])
qed

lemma wp_modify:
  assumes "keeps_kept P run" and "kept P f d L"
  shows "fd_wp (iocp_modify K run fd i d) (\<lambda>x. kept P f (snd x)) L"
proof -
  have k: "kept P f (put_state fd s d) L" for s using assms(2) by simp
  show ?thesis
    unfolding iocp_modify_def Let_def
    by (auto simp: assms(2) intro!: fd_wp_case_option fd_wp_return fd_wp_then [OF wp_arm_state(2) [OF assms(1) k]])
qed

lemma wp_op:
  assumes "keeps_kept P run" and "kept P f d L"
  shows "fd_wp (exec_op (iocp_methods K run) a d) (\<lambda>x. kept P f (snd x)) L"
  by (cases a) (auto intro!: fd_wp_return fd_wp_case_prod fd_wp_then [OF wp_add [OF assms]] fd_wp_then [OF wp_modify [OF assms]]
      fd_wp_then [OF wp_remove [OF assms(2)]] fd_wp_then [OF wp_schedule [OF assms(2)]] fd_wp_then [OF wp_cancel [OF assms(2)]])

lemma wp_listener_calls:
  assumes "keeps_kept P run"
  shows "kept P f d L \<Longrightarrow> fd_wp (listener_calls run es n d) (\<lambda>x. kept P f (snd x)) L"
proof (induction es arbitrary: n d L)
  case (Cons e es)
  then show ?case
    by (auto intro!: fd_wp_case_option fd_wp_then [OF wp_call [OF assms Cons.prems]])
qed (simp add: fd_wp_return)

lemma wp_poll_listeners:
  assumes "keeps_kept P run" and "kept P f d L"
  shows "fd_wp (poll_listeners K run d) (\<lambda>x. kept P f (snd x)) L"
  unfolding poll_listeners_def Let_def
  by (auto simp: assms(2) intro!: fd_wp_if fd_wp_return fd_wp_bind [OF fd_wp_neutral [OF neutral_win(9)]] wp_listener_calls [OF assms])

lemma wp_dgram_completion:
  "kept P f (snd st) L \<Longrightarrow> fd_wp (dgram_completion K fd s ov st) (\<lambda>x. kept P f (snd x)) L"
  unfolding dgram_completion_def Let_def
  by (auto intro!: fd_wp_case_prod fd_wp_case_option fd_wp_return fd_wp_bind fd_wp_if fd_wp_neutral [OF neutral_win(8)]
      fd_wp_neutral [OF neutral_arm_slots(1)])

lemma wp_rearm:
  assumes "keeps_kept P run" and "kept P f d L"
  shows "fd_wp (rearm K run fd d) (\<lambda>x. kept P f x) L"
proof -
  have "fd_wp (use_state fd n (\<lambda>s1. if b s1 then arm_write K run fd n d1 else State_Monad.return d1) d1) (kept P f) L'"
    if "kept P f d1 L'" for n b d1 L'
    using that unfolding use_state_def
    by (auto intro!: fd_wp_case_option fd_wp_if fd_wp_return wp_arm [OF assms(1)])
  then show ?thesis
    unfolding rearm_def
    by (auto simp: assms(2) intro!: fd_wp_case_option fd_wp_return fd_wp_then [OF wp_arm(1) [OF assms]])
qed

lemma wp_completion:
  assumes "keeps_kept P run" and "kept P None (snd (snd st)) L"
  shows "fd_wp (completion K run e st) (\<lambda>x. kept P None (snd (snd x))) L"
proof -
  obtain key ov bytes ready n d where e: "e = (key, ov, bytes)" "st = (ready, n, d)" by (metis prod.exhaust)
  have d: "kept P None d L" using assms(2) e by simp
  have stream: "fd_wp (stream_completion K run fd s ov bytes d) (kept P None) L" for fd s
    unfolding stream_completion_def
    by (auto simp: d intro!: fd_wp_case_prod fd_wp_then [OF wp_call [OF assms(1)]] wp_rearm [OF assms(1)])
  have dgram: "fd_wp (dgram_completion K fd s ov (ready, d)) (\<lambda>x. kept P None (snd x)) L" for fd s
    by (rule wp_dgram_completion) (simp add: d)
  show ?thesis
    unfolding completion_def e
    by (auto simp: d intro!: fd_wp_if fd_wp_return fd_wp_case_option fd_wp_then [OF wp_dispatch_timer [OF assms(1) d]]
        fd_wp_then [OF dgram] fd_wp_then [OF stream] fd_wp_case_prod)
qed

lemma wp_completions:
  assumes "keeps_kept P run"
  shows "kept P None (snd (snd st)) L \<Longrightarrow> fd_wp (completions K run es st) (\<lambda>x. kept P None (snd (snd x))) L"
proof (induction es arbitrary: st L)
  case (Cons e es)
  show ?case unfolding completions.simps
    by (rule fd_wp_then [OF wp_completion [OF assms Cons.prems]]) (rule Cons.IH)
qed (simp add: fd_wp_return)

lemma wp_notify:
  assumes "keeps_kept P run"
  shows "kept P f (snd st) L \<Longrightarrow> fd_wp (notify run fds st) (\<lambda>x. kept P f (snd x)) L"
proof (induction fds arbitrary: st L)
  case (Cons fd fds)
  have "fd_wp (notify_one run fd st) (\<lambda>x. kept P f (snd x)) L"
    unfolding notify_one_def Let_def
    by (auto simp: Cons.prems intro!: fd_wp_case_prod fd_wp_case_option fd_wp_if fd_wp_return
        fd_wp_then [OF wp_call [OF assms]] dest: arg_cong [of _ _ snd] split: prod.splits) (use Cons.prems in simp_all)
  then show ?case unfolding notify.simps by (rule fd_wp_then) (rule Cons.IH)
qed (simp add: fd_wp_return)

lemma wp_poll:
  assumes "keeps_kept P run" and "kept P None d L"
  shows "fd_wp (iocp_poll K run t d) (\<lambda>x. kept P None (snd x)) L"
  unfolding iocp_poll_def
  by (auto intro!: fd_wp_then [OF wp_poll_listeners [OF assms]] fd_wp_case_prod fd_wp_bind [OF fd_wp_neutral [OF neutral_win(3)]]
      fd_wp_bind [OF fd_wp_neutral [OF neutral_get_errno]] fd_wp_if fd_wp_return fd_wp_then [OF wp_completions [OF assms(1)]]
      fd_wp_then [OF wp_notify [OF assms(1)]])

section \<open>Callbacks as programs\<close>

text \<open>A callback that performs a list of dispatcher operations; the callbacks these lead to are \<open>run\<close>.\<close>

definition script :: "kernel \<Rightarrow> ('cb invocation \<Rightarrow> 'cb disp_op list) \<Rightarrow> 'cb iocp_runner \<Rightarrow> 'cb iocp_runner" where
  "script K prog run i d = do { (_, d') \<leftarrow> exec_ops (iocp_methods K run) (prog i) d; State_Monad.return d' }"

primrec nested :: "kernel \<Rightarrow> ('cb invocation \<Rightarrow> 'cb disp_op list) \<Rightarrow> nat \<Rightarrow> 'cb iocp_runner" where
  "nested K prog 0 = (\<lambda>i. State_Monad.return)"
| "nested K prog (Suc n) = script K prog (nested K prog n)"

lemma wp_ops:
  assumes "keeps_kept P run"
  shows "kept P f d L \<Longrightarrow> fd_wp (exec_ops (iocp_methods K run) as d) (\<lambda>x. kept P f (snd x)) L"
proof (induction as arbitrary: d L)
  case (Cons a as)
  show ?case unfolding exec_ops.simps
    by (auto intro!: fd_wp_then [OF wp_op [OF assms Cons.prems]] fd_wp_case_prod fd_wp_then [OF Cons.IH] fd_wp_return)
qed (simp add: fd_wp_return)

lemma nested_kept: "keeps_kept P (nested K prog n)"
proof (induction n)
  case 0
  then show ?case by (simp add: keeps_kept_def fd_wp_return)
next
  case (Suc n)
  have "fd_wp (script K prog (nested K prog n) i d) (kept P f) L" if "kept P f d L" for i d L f
    unfolding script_def by (auto intro!: fd_wp_then [OF wp_ops [OF Suc that]] fd_wp_case_prod fd_wp_return)
  then show ?case by (simp add: keeps_kept_def)
qed

section \<open>The dispatcher at work\<close>

text \<open>
  Operations, wake-ups and polls of the dispatcher, timers that fire on the system's threads, datagrams
  taken from the buffers, and steps of other code.
\<close>

inductive ip_step :: "(int multiset \<Rightarrow> bool) \<Rightarrow> kernel \<Rightarrow> 'cb iocp_runner \<Rightarrow> 'cb iocp \<times> world \<Rightarrow> 'cb iocp \<times> world \<Rightarrow> bool"
  for P K run where
  ip_op: "run_state (exec_op (iocp_methods K run) a d) w = ((x, d'), w') \<Longrightarrow> ip_step P K run (d, w) (d', w')"
| ip_wake: "run_state (iocp_wake K d) w = (x, w') \<Longrightarrow> ip_step P K run (d, w) (d, w')"
| ip_poll: "run_state (iocp_poll K run t d) w = ((r, d'), w') \<Longrightarrow> ip_step P K run (d, w) (d', w')"
| ip_timer: "(tid, info) \<in> set (ip_timers d) \<Longrightarrow> run_state (timer_callback K info) w = (x, w') \<Longrightarrow> ip_step P K run (d, w) (d, w')"
| ip_retrieve: "retrieve_dgram fd len d = (r, d') \<Longrightarrow> ip_step P K run (d, w) (d', w)"
| ip_other: "ip_held d \<subseteq># live w' \<Longrightarrow> P (live w' - ip_held d) \<Longrightarrow> clean (trace w') \<Longrightarrow> ip_step P K run (d, w) (d, w')"

definition ip_init :: "(int multiset \<Rightarrow> bool) \<Rightarrow> kernel \<Rightarrow> 'cb iocp \<times> world \<Rightarrow> bool" where
  "ip_init P K s \<longleftrightarrow> (\<exists>w0. clean (trace w0) \<and> P (live w0) \<and> run_state (iocp_new K) w0 = (Inr (fst s), snd s))"

definition ip_inv :: "(int multiset \<Rightarrow> bool) \<Rightarrow> 'cb iocp \<times> world \<Rightarrow> bool" where
  "ip_inv P s \<longleftrightarrow> kept P None (fst s) (live (snd s)) \<and> clean (trace (snd s))"

lemma new_fields:
  assumes "run_state (iocp_new K) w0 = (Inr d, w)"
  shows "ip_states d = []" "ip_timers d = []" "ip_firing d = None" "\<not> ip_dangling d"
  using assms by (auto simp: iocp_new_def io_simps split: sum.splits prod.splits if_splits)

lemma ip_init_inv:
  assumes "ip_init P K s"
  shows "ip_inv P s"
proof -
  obtain w0 where w0: "clean (trace w0)" "P (live w0)" "run_state (iocp_new K) w0 = (Inr (fst s), snd s)"
    using assms by (auto simp: ip_init_def)
  from acquires_run [OF iocp_new_acquires w0(3,1)] new_fields [OF w0(3)] w0(2) show ?thesis
    by (auto simp: ip_inv_def kept_def ip_owned_def)
qed

lemma neutral_timer_callback: "neutral (timer_callback K info)"
  unfolding timer_callback_def by (auto intro!: neutral_intros)

lemma ip_step_inv:
  assumes "ip_step P K run s t" and "keeps_kept P run" and "ip_inv P s"
  shows "ip_inv P t"
  using assms
proof (induction rule: ip_step.induct)
  case (ip_op a d w x d' w')
  from fd_wpD [OF wp_op [OF ip_op(2)] ip_op(1), of None] ip_op(3) show ?case by (auto simp: ip_inv_def)
next
  case (ip_wake d w x w')
  with neutral_run [OF neutral_waker_wake] neutral_clean [OF neutral_waker_wake] show ?case
    unfolding iocp_wake_def ip_inv_def by (metis fst_conv snd_conv)
next
  case (ip_poll t d w r d' w')
  from fd_wpD [OF wp_poll [OF ip_poll(2)] ip_poll(1)] ip_poll(3) show ?case by (auto simp: ip_inv_def)
next
  case (ip_timer tid info d w x w')
  with neutral_run [OF neutral_timer_callback] neutral_clean [OF neutral_timer_callback] show ?case
    unfolding ip_inv_def by (metis fst_conv snd_conv)
next
  case (ip_retrieve fd len d r d' w)
  then show ?case by (auto simp: retrieve_dgram_def ip_inv_def Let_def split: option.splits if_splits list.splits prod.splits)
next
  case (ip_other d w' w)
  then show ?case by (auto simp: ip_inv_def kept_def ip_owned_def)
qed

lemma ip_reachable_inv:
  assumes "keeps_kept P run" and "reachable (ip_init P K) (ip_step P K run) s"
  shows "ip_inv P s"
  using assms(2) by (induction rule: reachable.induct) (auto intro: ip_init_inv ip_step_inv [OF _ assms(1)])

section \<open>Armed interests\<close>

text \<open>
  A system that starts the overlapped operations it is asked for. A stream socket is armed when each
  direction of its interest has an operation under way, a datagram socket when all of its slots do. The
  stream sockets of \<open>F\<close> are those whose callback is running: they are armed when it has returned.
\<close>

definition accepting_ops :: "kernel \<Rightarrow> bool" where
  "accepting_ops K \<longleftrightarrow> (\<forall>tr c. (case c of Recv_zero _ _ \<Rightarrow> True | Send_zero _ _ \<Rightarrow> True | Recv_overlapped _ _ _ \<Rightarrow> True | _ \<Rightarrow> False) \<longrightarrow>
     sr_rc (K tr (Sys_win c)) \<noteq> -1 \<or> sr_err (K tr (Sys_win c)) = Some WSA_IO_PENDING)"

definition slots_wf :: "'cb per_socket_state \<Rightarrow> bool" where
  "slots_wf s \<longleftrightarrow> (\<forall>sl. ss_slots s = Some sl \<longrightarrow> length (rs_pending sl) = DGRAM_RECV_SLOTS)"

definition all_pending :: "'cb per_socket_state \<Rightarrow> bool" where
  "all_pending s \<longleftrightarrow> (\<exists>sl. ss_slots s = Some sl \<and> rs_pending sl = replicate DGRAM_RECV_SLOTS True)"

definition armed_state :: "'cb per_socket_state \<Rightarrow> bool" where
  "armed_state s \<longleftrightarrow> ss_listener s
     \<or> (if ss_dgram s then has_event (ss_interest s) ev_readable \<longrightarrow> all_pending s
        else (has_event (ss_interest s) ev_readable \<longrightarrow> ss_read_pending s)
          \<and> (has_event (ss_interest s) ev_writable \<longrightarrow> ss_write_pending s))"

definition armed_but :: "int set \<Rightarrow> 'cb iocp \<Rightarrow> bool" where
  "armed_but F d \<longleftrightarrow> \<not> ip_dangling d
     \<and> (\<forall>fd s. map_of (ip_states d) fd = Some s \<longrightarrow> slots_wf s \<and> (fd \<notin> F \<or> ss_dgram s \<longrightarrow> armed_state s))"

definition keeps_armed :: "'cb iocp_runner \<Rightarrow> bool" where
  "keeps_armed run \<longleftrightarrow> (\<forall>F i d. armed_but F d \<longrightarrow> yields (run i d) (armed_but F))"

lemma states_put [simp]: "map_of (ip_states (put_state fd s d)) = (map_of (ip_states d))(fd \<mapsto> s)"
  "ip_dangling (put_state fd s d) = ip_dangling d" "put_state fd s (put_state fd s' d) = put_state fd s d"
  by (simp_all add: put_state_def AList.update_conv' AList.update_last)

lemma armed_put:
  "armed_but F d \<Longrightarrow> slots_wf s \<Longrightarrow> (fd \<notin> F \<or> ss_dgram s \<Longrightarrow> armed_state s) \<Longrightarrow> armed_but F (put_state fd s d)"
  by (auto simp: armed_but_def)

lemma armed_same [simp]:
  "armed_but F (iocp_note i d) = armed_but F d" "armed_but F (d\<lparr>ip_nodes := n\<rparr>) = armed_but F d"
  "armed_but F (d\<lparr>ip_ids := n\<rparr>) = armed_but F d" "armed_but F (d\<lparr>ip_timers := ts\<rparr>) = armed_but F d"
  "armed_but F (d\<lparr>ip_firing := x\<rparr>) = armed_but F d"
  by (simp_all add: armed_but_def iocp_note_def)

lemma armed_get: "armed_but F d \<Longrightarrow> map_of (ip_states d) fd = Some s \<Longrightarrow> slots_wf s \<and> (fd \<notin> F \<or> ss_dgram s \<longrightarrow> armed_state s)"
  by (simp add: armed_but_def)

lemma yields_started:
  assumes "accepting_ops K"
  shows "yields (overlapped K (Recv_zero s ov)) (\<lambda>ok. ok)" "yields (overlapped K (Send_zero s ov)) (\<lambda>ok. ok)"
    "yields (overlapped K (Recv_overlapped s ov n)) (\<lambda>ok. ok)"
  using assms unfolding accepting_ops_def yields_def overlapped_def
  by (auto simp: io_simps split: option.split)

lemma arm_started:
  assumes "accepting_ops K" and "map_of (ip_states d) fd = Some s"
  shows "yields (arm_read K run fd (ss_node s) d)
      (\<lambda>d'. d' = (if ss_read_pending s \<or> ss_listener s \<or> ss_dgram s then d else put_state fd (s\<lparr>ss_read_pending := True\<rparr>) d))"
    and "yields (arm_write K run fd (ss_node s) d)
      (\<lambda>d'. d' = (if ss_write_pending s \<or> ss_listener s \<or> ss_dgram s then d else put_state fd (s\<lparr>ss_write_pending := True\<rparr>) d))"
proof -
  have "deref fd (ss_node s) d = Some s" using assms(2) by (simp add: deref_Some)
  then show "yields (arm_read K run fd (ss_node s) d)
      (\<lambda>d'. d' = (if ss_read_pending s \<or> ss_listener s \<or> ss_dgram s then d else put_state fd (s\<lparr>ss_read_pending := True\<rparr>) d))"
    "yields (arm_write K run fd (ss_node s) d)
      (\<lambda>d'. d' = (if ss_write_pending s \<or> ss_listener s \<or> ss_dgram s then d else put_state fd (s\<lparr>ss_write_pending := True\<rparr>) d))"
    unfolding arm_read_def arm_write_def use_state_def
    by (auto intro!: yields_if yields_return yields_then [OF yields_started(1) [OF assms(1)]]
        yields_then [OF yields_started(2) [OF assms(1)]])
qed

text \<open>Arming slots makes the given ones pending and keeps the others.\<close>

lemma slot_started:
  assumes "accepting_ops K" and "ss_slots s = Some sl"
  shows "yields (arm_recv_from K i s) (\<lambda>s'. s' = set_pending i True s)"
proof (cases "rs_pending sl ! i")
  case True
  then have "sl\<lparr>rs_pending := (rs_pending sl)[i := True]\<rparr> = sl" by (metis (full_types) list_update_id recv_slots.surjective recv_slots.update_convs(2))
  then have "set_pending i True s = s" using assms(2) by (cases s) (simp add: set_pending_def)
  with True assms(2) show ?thesis by (simp add: arm_recv_from_def yields_return)
next
  case False
  with assms show ?thesis unfolding arm_recv_from_def
    by (auto intro!: yields_if yields_return yields_then [OF yields_started(3) [OF assms(1)]])
qed

lemma slots_started:
  assumes "accepting_ops K"
  shows "ss_slots s \<noteq> None \<Longrightarrow> yields (arm_slots K is s) (\<lambda>s'. s' = fold (\<lambda>i. set_pending i True) is s)"
proof (induction "is" arbitrary: s)
  case (Cons i "is")
  then obtain sl where sl: "ss_slots s = Some sl" by auto
  have "yields (arm_slots K is (set_pending i True s)) (\<lambda>s'. s' = fold (\<lambda>i. set_pending i True) is (set_pending i True s))"
    by (rule Cons.IH) (simp add: set_pending_def sl)
  then show ?case unfolding arm_slots.simps by (intro yields_then [OF slot_started [OF assms sl]]) simp
qed (simp add: yields_return)

lemma slots_all_pending:
  assumes "accepting_ops K" and "length (rs_pending sl) = DGRAM_RECV_SLOTS"
  shows "yields (arm_slots K [0..<DGRAM_RECV_SLOTS] (s\<lparr>ss_slots := Some sl\<rparr>))
    (\<lambda>s'. all_pending s' \<and> slots_wf s' \<and> ss_dgram s' = ss_dgram s \<and> ss_listener s' = ss_listener s)"
proof (rule yields_weaken [OF slots_started [OF assms(1)]])
  fix s' :: "'a per_socket_state"
  assume s': "s' = fold (\<lambda>i. set_pending i True) [0..<DGRAM_RECV_SLOTS] (s\<lparr>ss_slots := Some sl\<rparr>)"
  have "length (rs_pending sl) = 4" using assms(2) by (simp add: DGRAM_RECV_SLOTS_def)
  then obtain a b c e where "rs_pending sl = [a, b, c, e]" by (auto simp: length_Suc_conv numeral_eq_Suc)
  then show "all_pending s' \<and> slots_wf s' \<and> ss_dgram s' = ss_dgram s \<and> ss_listener s' = ss_listener s"
    by (simp add: s' DGRAM_RECV_SLOTS_def upt_conv_Cons all_pending_def slots_wf_def set_pending_def numeral_eq_Suc)
qed simp

lemma new_slots_wf: "yields (new_slots K) (\<lambda>sl. length (rs_pending sl) = DGRAM_RECV_SLOTS)"
  unfolding new_slots_def by (auto intro!: yields_intros)

lemma put_same: "map_of (ip_states d) fd = Some s \<Longrightarrow> put_state fd s d = d"
  by (simp add: put_state_def AList.update_triv)

lemma pending_same [simp]:
  "ss_read_pending s \<Longrightarrow> s\<lparr>ss_read_pending := True\<rparr> = s" "ss_write_pending s \<Longrightarrow> s\<lparr>ss_write_pending := True\<rparr> = s"
  "\<not> ss_read_pending s \<Longrightarrow> s\<lparr>ss_read_pending := False\<rparr> = s" "\<not> ss_write_pending s \<Longrightarrow> s\<lparr>ss_write_pending := False\<rparr> = s"
  by (cases s; simp)+

lemma arm_both:
  assumes "accepting_ops K" and "map_of (ip_states d) fd = Some s" and "\<not> ss_listener s" "\<not> ss_dgram s"
  shows "yields (do {
      d1 \<leftarrow> (if a then arm_read K run fd (ss_node s) d else State_Monad.return d);
      (if b then arm_write K run fd (ss_node s) d1 else State_Monad.return d1)
    }) (\<lambda>d'. d' = put_state fd (s\<lparr>ss_read_pending := ss_read_pending s \<or> a, ss_write_pending := ss_write_pending s \<or> b\<rparr>) d)"
proof -
  let ?s = "s\<lparr>ss_read_pending := ss_read_pending s \<or> a\<rparr>"
  have 1: "yields (if a then arm_read K run fd (ss_node s) d else State_Monad.return d) (\<lambda>d1. d1 = put_state fd ?s d)"
    using arm_started(1) [OF assms(1,2), of run] assms(3,4) put_same [OF assms(2)]
    by (auto intro!: yields_return elim!: yields_weaken)
  have m: "map_of (ip_states (put_state fd ?s d)) fd = Some ?s" by simp
  have 2: "yields (if b then arm_write K run fd (ss_node s) (put_state fd ?s d) else State_Monad.return (put_state fd ?s d))
      (\<lambda>d'. d' = put_state fd (?s\<lparr>ss_write_pending := ss_write_pending s \<or> b\<rparr>) d)"
    using arm_started(2) [OF assms(1) m, of run] assms(3,4)
    by (cases "ss_write_pending s") (auto intro!: yields_return elim!: yields_weaken)
  show ?thesis by (rule yields_then [OF 1]) (use 2 in simp)
qed

lemma arm_state_armed:
  assumes "accepting_ops K" and "armed_but F d" and "ss_interest s = i" and "ss_slots s = None"
  shows "yields (arm_state K run fd i s d) (armed_but F)"
proof -
  have put: "armed_but F (put_state fd s' d)" if "slots_wf s'" "armed_state s'" for s'
    using armed_put [OF assms(2)] that by blast
  have wf: "slots_wf (s\<lparr>ss_read_pending := a, ss_write_pending := b\<rparr>)" "slots_wf s" for a b
    using assms(4) by (simp_all add: slots_wf_def)
  consider (dgram) "ss_dgram s" | (stream) "\<not> ss_dgram s" "\<not> ss_listener s" | (listener) "\<not> ss_dgram s" "ss_listener s" by blast
  then show ?thesis
  proof cases
    case dgram
    then show ?thesis unfolding arm_state_def
      by (auto simp: assms(3) wf armed_state_def intro!: yields_return yields_then [OF new_slots_wf]
          yields_then [OF slots_all_pending [OF assms(1)]] put)
  next
    case stream
    have m: "map_of (ip_states (put_state fd s d)) fd = Some s" by simp
    have "yields (arm_state K run fd i s d) (\<lambda>d'. d' = put_state fd (s\<lparr>ss_read_pending := ss_read_pending s \<or> has_event i ev_readable,
        ss_write_pending := ss_write_pending s \<or> has_event i ev_writable\<rparr>) d)"
      using arm_both [OF assms(1) m stream(2,1), of "has_event i ev_readable" run "has_event i ev_writable"] stream
      by (simp add: arm_state_def)
    then show ?thesis by (rule yields_weaken) (use stream in \<open>auto simp: armed_state_def assms(3) intro!: put wf\<close>)
  next
    case listener
    then show ?thesis by (auto simp: arm_state_def armed_state_def intro!: yields_return put wf)
  qed
qed

lemma arm_added_armed:
  assumes "accepting_ops K" and "armed_but F d" and "map_of (ip_states d) fd = Some s0" and "s = s0\<lparr>ss_interest := i\<rparr>"
  shows "yields (arm_added K run fd i (ss_interest s0) s (put_state fd s d)) (armed_but F)"
proof -
  note g = armed_get [OF assms(2,3)]
  have put: "armed_but F (put_state fd s' d)" if "slots_wf s'" "fd \<notin> F \<or> ss_dgram s' \<Longrightarrow> armed_state s'" for s'
    using armed_put [OF assms(2)] that by blast
  have wf: "slots_wf (s\<lparr>ss_read_pending := a, ss_write_pending := b\<rparr>)" "slots_wf s" for a b
    using g by (simp_all add: slots_wf_def assms(4))
  have sl: "yields (case ss_slots s of None \<Rightarrow> new_slots K | Some sl \<Rightarrow> State_Monad.return sl)
      (\<lambda>sl. length (rs_pending sl) = DGRAM_RECV_SLOTS)"
    using wf(2) by (auto simp: slots_wf_def intro!: yields_case_option new_slots_wf yields_return)
  consider (dgram) "ss_dgram s" "\<not> ss_listener s" | (stream) "\<not> ss_dgram s" "\<not> ss_listener s" | (listener) "ss_listener s" by blast
  then show ?thesis
  proof cases
    case dgram
    have old: "armed_but F (put_state fd s d)" if "\<not> newly i (ss_interest s0) ev_readable"
      by (rule put [OF wf(2)]) (use that g dgram in \<open>auto simp: armed_state_def all_pending_def newly_def assms(4)\<close>)
    have new: "yields (arm_slots K [0..<DGRAM_RECV_SLOTS] (s\<lparr>ss_slots := Some sl\<rparr>)) (\<lambda>s'. armed_but F (put_state fd s' d))"
      if "length (rs_pending sl) = DGRAM_RECV_SLOTS" for sl
      by (rule yields_weaken [OF slots_all_pending [OF assms(1) that]], rule put) (use dgram in \<open>auto simp: armed_state_def\<close>)
    show ?thesis unfolding arm_added_def using dgram old
      by (auto intro!: yields_return yields_then [OF sl] yields_then [OF new])
  next
    case stream
    have m: "map_of (ip_states (put_state fd s d)) fd = Some s" by simp
    let ?r = "newly i (ss_interest s0) ev_readable" and ?w = "newly i (ss_interest s0) ev_writable"
    have "yields (arm_added K run fd i (ss_interest s0) s (put_state fd s d))
        (\<lambda>d'. d' = put_state fd (s\<lparr>ss_read_pending := ss_read_pending s \<or> ?r, ss_write_pending := ss_write_pending s \<or> ?w\<rparr>) d)"
      using arm_both [OF assms(1) m stream(2,1), of ?r run ?w] stream by (simp add: arm_added_def)
    moreover have "armed_but F (put_state fd (s\<lparr>ss_read_pending := ss_read_pending s \<or> ?r, ss_write_pending := ss_write_pending s \<or> ?w\<rparr>) d)"
      by (rule put [OF wf(1)]) (use g stream in \<open>auto simp: armed_state_def newly_def assms(4)\<close>)
    ultimately show ?thesis by (auto elim: yields_weaken)
  next
    case listener
    then show ?thesis by (auto simp: arm_added_def armed_state_def intro!: yields_return put wf)
  qed
qed

lemma ops_armed:
  assumes "accepting_ops K" and "armed_but F d"
  shows "yields (exec_op (iocp_methods K run) a d) (\<lambda>x. armed_but F (snd x))"
proof (cases a)
  case (Op_add fd i cb)
  have k: "armed_but F (d\<lparr>ip_nodes := n\<rparr>)" for n using assms(2) by simp
  have "yields (iocp_add K run fd i cb d) (\<lambda>x. armed_but F (snd x))"
    unfolding iocp_add_def Let_def
    by (rule yields_then [OF new_state_fields])
      (auto simp: assms(2) intro!: yields_then [where m = "associate _ _ _" and P = "\<lambda>_. True"] yields_case_option yields_return
        yields_then [OF arm_state_armed [OF assms(1) k]], simp add: yields_def)
  then show ?thesis by (auto simp: Op_add intro!: yields_case_prod yields_return elim!: yields_then)
next
  case (Op_modify fd i)
  have "yields (iocp_modify K run fd i d) (\<lambda>x. armed_but F (snd x))"
    unfolding iocp_modify_def Let_def
    by (auto simp: assms(2) intro!: yields_case_option yields_return yields_then [OF arm_added_armed [OF assms _ refl]])
  then show ?thesis by (auto simp: Op_modify intro!: yields_case_prod yields_return elim!: yields_then)
next
  case (Op_remove fd)
  have "armed_but F (d\<lparr>ip_states := AList.delete fd (ip_states d)\<rparr>)"
    using assms(2) by (auto simp: armed_but_def AList.delete_conv')
  then have "yields (iocp_remove K fd d) (\<lambda>x. armed_but F (snd x))"
    unfolding iocp_remove_def by (auto simp: assms(2) intro!: yields_intros)
  then show ?thesis by (auto simp: Op_remove intro!: yields_case_prod yields_return elim!: yields_then)
next
  case (Op_schedule ms rep cb)
  have "yields (iocp_schedule K ms rep cb d) (\<lambda>x. armed_but F (snd x))"
    unfolding iocp_schedule_def Let_def by (auto simp: assms(2) intro!: yields_intros)
  then show ?thesis by (auto simp: Op_schedule intro!: yields_case_prod yields_return elim!: yields_then)
next
  case (Op_cancel tid)
  have "yields (iocp_cancel K tid d) (armed_but F)"
    unfolding iocp_cancel_def timer_close_def by (auto simp: assms(2) intro!: yields_intros)
  then show ?thesis by (auto simp: Op_cancel intro!: yields_return elim!: yields_then)
qed

lemma nested_armed:
  assumes "accepting_ops K"
  shows "keeps_armed (nested K prog n)"
proof (induction n)
  case (Suc n)
  have ops: "armed_but F d \<Longrightarrow> yields (exec_ops (iocp_methods K run) as d) (\<lambda>x. armed_but F (snd x))" for F as run and d :: "'a iocp"
  proof (induction as arbitrary: d)
    case (Cons a as)
    show ?case unfolding exec_ops.simps
      by (auto intro!: yields_then [OF ops_armed [OF assms Cons.prems]] yields_case_prod yields_then [OF Cons.IH] yields_return)
  qed (simp add: yields_return)
  show ?case
    by (auto simp: keeps_armed_def script_def intro!: yields_then [OF ops] yields_case_prod yields_return)
qed (simp add: keeps_armed_def yields_return)

text \<open>A stream socket whose completion was taken from the port is armed again after its callback.\<close>

lemma call_armed: "keeps_armed run \<Longrightarrow> armed_but F d \<Longrightarrow> yields (iocp_call run i d) (armed_but F)"
  by (simp add: keeps_armed_def iocp_call_def)

lemma rearm_armed:
  assumes "accepting_ops K" and "armed_but {fd} d"
  shows "yields (rearm K run fd d) (armed_but {})"
proof (cases "map_of (ip_states d) fd")
  case None
  with assms(2) have "armed_but {} d" unfolding armed_but_def by (metis empty_iff option.distinct(1) singletonD)
  with None show ?thesis by (simp add: rearm_def yields_return)
next
  case (Some s)
  note g = armed_get [OF assms(2) Some]
  let ?a = "has_event (ss_interest s) ev_readable \<and> \<not> ss_read_pending s"
  let ?b = "has_event (ss_interest s) ev_writable \<and> \<not> ss_write_pending s"
  have put: "armed_but {} (put_state fd s' d)" if "slots_wf s'" "armed_state s'" for s'
    using assms(2) that by (auto simp: armed_but_def)
  show ?thesis
  proof (cases "ss_listener s \<or> ss_dgram s")
    case True
    then have "armed_state s" using g by (auto simp: armed_state_def)
    then have d: "armed_but {} d" using put [of s] g put_same [OF Some] by simp
    have stay: "yields (arm_read K run fd (ss_node s) d) (\<lambda>d'. d' = d)" "yields (arm_write K run fd (ss_node s) d) (\<lambda>d'. d' = d)"
      using arm_started [OF assms(1) Some] True by auto
    have "deref fd (ss_node s) d = Some s" using Some by (simp add: deref_Some)
    with d show ?thesis unfolding rearm_def
      by (auto simp: Some use_state_def intro!: yields_then [where P = "\<lambda>d1. d1 = d"] yields_if stay yields_return
          yields_weaken [OF stay(2)])
  next
    case False
    let ?s = "s\<lparr>ss_read_pending := ss_read_pending s \<or> ?a\<rparr>"
    have 1: "yields (if ?a then arm_read K run fd (ss_node s) d else State_Monad.return d) (\<lambda>d1. d1 = put_state fd ?s d)"
      using arm_started(1) [OF assms(1) Some, of run] False put_same [OF Some]
      by (auto intro!: yields_return elim!: yields_weaken)
    have m: "map_of (ip_states (put_state fd ?s d)) fd = Some ?s" by simp
    have final: "armed_but {} (put_state fd (?s\<lparr>ss_write_pending := ss_write_pending s \<or> ?b\<rparr>) d)"
      by (rule put) (use g False in \<open>auto simp: slots_wf_def armed_state_def\<close>)
    have 2: "yields (if ?b then arm_write K run fd (ss_node s) (put_state fd ?s d) else State_Monad.return (put_state fd ?s d)) (armed_but {})"
      using arm_started(2) [OF assms(1) m, of run] False final
      by (cases "ss_write_pending s") (auto intro!: yields_return elim!: yields_weaken)
    have "deref fd (ss_node s) (put_state fd ?s d) = Some ?s" by (simp add: deref_Some)
    then have "yields (use_state fd (ss_node s) (\<lambda>s1. if has_event (ss_interest s1) ev_writable \<and> \<not> ss_write_pending s1
        then arm_write K run fd (ss_node s) (put_state fd ?s d) else State_Monad.return (put_state fd ?s d)) (put_state fd ?s d)) (armed_but {})"
      using 2 by (simp add: use_state_def)
    then show ?thesis unfolding rearm_def Some option.case by (intro yields_then [OF 1]) (hypsubst, assumption)
  qed
qed

lemma dgram_armed:
  assumes "accepting_ops K" and "armed_but {} (snd st)" and "map_of (ip_states (snd st)) fd = Some s" "ss_dgram s"
  shows "yields (dgram_completion K fd s ov st) (\<lambda>x. armed_but {} (snd x))"
proof -
  obtain ready d where st: "st = (ready, d)" by (metis prod.exhaust)
  note g = armed_get [OF assms(2,3)]
  have put: "armed_but {} (put_state fd s' d)" if "slots_wf s'" "armed_state s'" for s'
    using armed_put assms(2) st that by auto
  have slot: "yields (if has_event (ss_interest s) ev_readable then arm_recv_from K i (set_pending i False (s\<lparr>ss_queue := q\<rparr>))
        else State_Monad.return (set_pending i False (s\<lparr>ss_queue := q\<rparr>)))
      (\<lambda>s2. armed_but {} (put_state fd s2 d) \<and> armed_but {} (put_state fd (s2\<lparr>ss_notified := True\<rparr>) d))"
    if sl: "ss_slots s = Some sl" for i q sl
  proof (cases "has_event (ss_interest s) ev_readable")
    case True
    let ?s = "set_pending i False (s\<lparr>ss_queue := q\<rparr>)"
    have "ss_listener s \<or> rs_pending sl = replicate DGRAM_RECV_SLOTS True"
      using g True assms(4) sl by (auto simp: armed_state_def all_pending_def)
    moreover have pend: "(replicate DGRAM_RECV_SLOTS True)[i := True] = replicate DGRAM_RECV_SLOTS True"
      by (metis list_update_beyond list_update_id nth_replicate not_le_imp_less length_replicate)
    ultimately have "slots_wf (set_pending i True ?s)" "armed_state (set_pending i True ?s)"
      "slots_wf ((set_pending i True ?s)\<lparr>ss_notified := True\<rparr>)" "armed_state ((set_pending i True ?s)\<lparr>ss_notified := True\<rparr>)"
      using g sl assms(4)
      by (auto simp: slots_wf_def armed_state_def all_pending_def set_pending_def pend)
    then show ?thesis using True slot_started [OF assms(1), of ?s "sl\<lparr>rs_pending := (rs_pending sl)[i := False]\<rparr>" i] sl
      by (auto simp: set_pending_def intro!: put elim!: yields_weaken)
  next
    case False
    then show ?thesis using g sl assms(4)
      by (auto simp: slots_wf_def armed_state_def set_pending_def intro!: yields_return put)
  qed
  have fields: "ss_interest (set_pending i b s') = ss_interest s'" for i b s' by (simp add: set_pending_def)
  show ?thesis
    unfolding dgram_completion_def st Let_def prod.case fields
    using assms(2) st
    by (auto simp: find_slot_def intro!: yields_case_option yields_return yields_bind [OF yields_sys] yields_then [OF slot] split: option.splits)
qed

lemma completion_armed:
  assumes "accepting_ops K" and "keeps_armed run" and "armed_but {} (snd (snd st))"
  shows "yields (completion K run e st) (\<lambda>x. armed_but {} (snd (snd x)))"
proof -
  obtain key ov bytes ready n d where e: "e = (key, ov, bytes)" "st = (ready, n, d)" by (metis prod.exhaust)
  have d: "armed_but {} d" using assms(3) e by simp
  have timer: "yields (dispatch_timer K run tid d) (armed_but {})" for tid
    unfolding dispatch_timer_def
    by (auto simp: d yields_def [of "timer_close K h" "\<lambda>_. True" for h] intro!: yields_case_option yields_if yields_return
        call_armed [OF assms(2)] yields_then [OF call_armed [OF assms(2), of "{}"]]
        yields_then [where m = "timer_close K h" and P = "\<lambda>_. True" for h])
  have stream: "yields (stream_completion K run fd s ov bytes d) (armed_but {})"
    if "map_of (ip_states d) fd = Some s" "\<not> ss_dgram s" for fd s
  proof -
    obtain ev s1 where ev: "stream_event s ov bytes = (ev, s1)" by (metis prod.exhaust)
    then have "slots_wf s1" "\<not> ss_dgram s1"
      using armed_get [OF d that(1)] that(2) by (auto simp: stream_event_def slots_wf_def split: if_splits)
    then have "armed_but {fd} (put_state fd s1 d)" using d by (auto simp: armed_but_def)
    from call_armed [OF assms(2) this] show ?thesis
      unfolding stream_completion_def ev by (auto intro!: yields_then rearm_armed [OF assms(1)])
  qed
  have dgram: "yields (dgram_completion K fd s ov (ready, d)) (\<lambda>x. armed_but {} (snd x))"
    if "map_of (ip_states d) fd = Some s" "ss_dgram s" for fd s
    by (rule dgram_armed [OF assms(1)]) (simp_all add: d that)
  show ?thesis
    unfolding completion_def e
    by (auto simp: d intro!: yields_if yields_return yields_case_option yields_then [OF timer]
        yields_then [OF dgram] yields_then [OF stream] yields_case_prod)
qed

lemma notify_armed:
  assumes "keeps_armed run"
  shows "armed_but {} (snd st) \<Longrightarrow> yields (notify run fds st) (\<lambda>x. armed_but {} (snd x))"
proof (induction fds arbitrary: st)
  case (Cons fd fds)
  obtain n d where st: "st = (n, d)" by (metis prod.exhaust)
  have "armed_but {} (put_state fd (s\<lparr>ss_notified := False\<rparr>) d)" if "map_of (ip_states d) fd = Some s" for s
    by (rule armed_put) (use Cons.prems armed_get [OF _ that] st in \<open>auto simp: slots_wf_def armed_state_def all_pending_def\<close>)
  then have "yields (notify_one run fd st) (\<lambda>x. armed_but {} (snd x))"
    unfolding notify_one_def Let_def st using Cons.prems st
    by (auto intro!: yields_case_option yields_if yields_return yields_then [OF call_armed [OF assms, of "{}"]])
  then show ?case unfolding notify.simps by (rule yields_then) (rule Cons.IH)
qed (simp add: yields_return)

lemma poll_armed:
  assumes "accepting_ops K" and "keeps_armed run" and "armed_but {} d"
  shows "yields (iocp_poll K run t d) (\<lambda>x. armed_but {} (snd x))"
proof -
  have listeners: "armed_but {} d \<Longrightarrow> yields (listener_calls run es n d) (\<lambda>x. armed_but {} (snd x))" for es n d
  proof (induction es arbitrary: n d)
    case (Cons e es)
    then show ?case by (auto intro!: yields_case_option yields_then [OF call_armed [OF assms(2) Cons.prems]])
  qed (simp add: yields_return)
  have first: "yields (poll_listeners K run d) (\<lambda>x. armed_but {} (snd x))"
    unfolding poll_listeners_def Let_def
    by (auto simp: assms(3) intro!: yields_if yields_return yields_bind [OF yields_sys] listeners)
  have rest: "armed_but {} (snd (snd st)) \<Longrightarrow> yields (completions K run es st) (\<lambda>x. armed_but {} (snd (snd x)))" for es st
  proof (induction es arbitrary: st)
    case (Cons e es)
    show ?case unfolding completions.simps
      by (rule yields_then [OF completion_armed [OF assms(1,2) Cons.prems]]) (rule Cons.IH)
  qed (simp add: yields_return)
  show ?thesis unfolding iocp_poll_def
    by (auto intro!: yields_then [OF first] yields_case_prod yields_bind [OF yields_sys] yields_bind [OF yields_get_errno]
        yields_if yields_return yields_then [OF rest] yields_then [OF notify_armed [OF assms(2)]])
qed

lemma armed_step:
  assumes "ip_step P K run s t" and "accepting_ops K" and "keeps_armed run" and "armed_but {} (fst s)"
  shows "armed_but {} (fst t)"
  using assms
proof (induction rule: ip_step.induct)
  case (ip_op a d w x d' w')
  from yieldsD [OF ops_armed [OF ip_op(2)] ip_op(1)] ip_op(4) show ?case by simp
next
  case (ip_poll t d w r d' w')
  from yieldsD [OF poll_armed [OF ip_poll(2,3)] ip_poll(1)] ip_poll(4) show ?case by simp
next
  case (ip_retrieve fd len d r d' w)
  have "armed_but {} (put_state fd (s\<lparr>ss_queue := q\<rparr>) d)" if "map_of (ip_states d) fd = Some s" for s q
    by (rule armed_put) (use ip_retrieve(4) armed_get [OF _ that] in \<open>auto simp: slots_wf_def armed_state_def all_pending_def\<close>)
  with ip_retrieve show ?case
    by (auto simp: retrieve_dgram_def Let_def split: option.splits if_splits list.splits prod.splits)
qed simp_all

lemma armed_reachable:
  assumes "accepting_ops K" and "keeps_armed run" and "reachable (ip_init P K) (ip_step P K run) s"
  shows "armed_but {} (fst s)"
  using assms(3)
proof (induction rule: reachable.induct)
  case (reach_init s)
  then obtain w0 where "run_state (iocp_new K) w0 = (Inr (fst s), snd s)" by (auto simp: ip_init_def)
  from new_fields [OF this] show ?case by (simp add: armed_but_def)
next
  case (reach_step s t)
  then show ?case using armed_step assms(1,2) by blast
qed

end
