(* ===== verification/Iocp_Marks.thy ===== *)
theory Iocp_Marks
  imports Iocp_Runs
begin

text \<open>
  The completion-port dispatcher under all operations, polls and callbacks, once more: every state is
  filed under its descriptor, a listener is no datagram socket, and a datagram socket is marked as to be
  notified during a poll only.
\<close>

section \<open>The invariant\<close>

text \<open>Every state is filed under its descriptor.\<close>

definition keyed :: "'cb iocp \<Rightarrow> bool" where
  "keyed d \<longleftrightarrow> distinct (map fst (ip_states d)) \<and> (\<forall>fd s. map_of (ip_states d) fd = Some s \<longrightarrow> ss_fd s = fd)"

lemma keyed_same [simp]:
  "keyed (iocp_note i d) = keyed d" "keyed (d\<lparr>ip_dangling := b\<rparr>) = keyed d"
  "keyed (d\<lparr>ip_timers := ts\<rparr>) = keyed d" "keyed (d\<lparr>ip_firing := h\<rparr>) = keyed d"
  by (simp_all add: keyed_def iocp_note_def)

lemma keyed_put: "keyed d \<Longrightarrow> ss_fd s = f \<Longrightarrow> keyed (put_state f s d)"
  by (simp add: keyed_def) (simp add: put_state_def AList.distinct_update)

text \<open>The sockets marked as to be notified are among \<open>R\<close>.\<close>

definition marks :: "int set \<Rightarrow> 'cb iocp \<Rightarrow> bool" where
  "marks R d \<longleftrightarrow> keyed d \<and> (\<forall>fd s. map_of (ip_states d) fd = Some s \<longrightarrow> (ss_notified s \<longrightarrow> fd \<in> R) \<and> (ss_dgram s \<longrightarrow> \<not> ss_listener s))"

definition keeps_marks :: "'cb iocp_runner \<Rightarrow> bool" where
  "keeps_marks run \<longleftrightarrow> (\<forall>R i d. marks R d \<longrightarrow> yields (run i d) (marks R))"

lemma marks_same [simp]:
  "marks R (iocp_note i d) = marks R d" "marks R (d\<lparr>ip_dangling := b\<rparr>) = marks R d"
  "marks R (d\<lparr>ip_timers := ts\<rparr>) = marks R d" "marks R (d\<lparr>ip_firing := h\<rparr>) = marks R d"
  "marks R (d\<lparr>ip_nodes := n\<rparr>) = marks R d" "marks R (d\<lparr>ip_ids := n\<rparr>) = marks R d"
  by (simp_all add: marks_def keyed_def iocp_note_def)

lemma marks_get:
  "marks R d \<Longrightarrow> map_of (ip_states d) fd = Some s \<Longrightarrow> ss_fd s = fd \<and> (ss_notified s \<longrightarrow> fd \<in> R) \<and> (ss_dgram s \<longrightarrow> \<not> ss_listener s)"
  by (simp add: marks_def keyed_def)

lemma marks_put:
  assumes "marks R d" and "ss_fd s = fd" and "ss_notified s \<longrightarrow> fd \<in> R" and "ss_dgram s \<longrightarrow> \<not> ss_listener s"
  shows "marks R (put_state fd s d)"
  using assms keyed_put [of d s fd] by (simp add: marks_def)

lemma marks_put_same:
  assumes "marks R d" and "map_of (ip_states d) fd = Some s" and "ss_fd s' = ss_fd s" "ss_notified s' = ss_notified s"
    "ss_dgram s' = ss_dgram s" "ss_listener s' = ss_listener s"
  shows "marks R (put_state fd s' d)"
  using marks_get [OF assms(1,2)] assms by (intro marks_put) simp_all

lemma marks_clear:
  assumes "marks (insert fd R) d" and "map_of (ip_states d) fd = Some s"
  shows "marks R (put_state fd (s\<lparr>ss_notified := False\<rparr>) d)"
  using assms keyed_put [of d "s\<lparr>ss_notified := False\<rparr>" fd] marks_get [OF assms] by (auto simp: marks_def)

lemma call_marks: "keeps_marks run \<Longrightarrow> marks R d \<Longrightarrow> yields (iocp_call run i d) (marks R)"
  by (simp add: keeps_marks_def iocp_call_def)

lemma outside_marks: "keeps_marks (outside act)"
  by (simp add: keeps_marks_def yields_outside)

section \<open>Operations\<close>

lemma arm_marks:
  assumes "keeps_marks run" and "marks R d"
  shows "yields (arm_read K run fd n d) (marks R)" "yields (arm_write K run fd n d) (marks R)"
  using assms unfolding arm_read_def arm_write_def use_state_def
  by (auto simp: deref_Some intro!: yields_case_option yields_if yields_return yields_then [OF yields_overlapped [OF TrueI]]
      call_marks intro: marks_put_same)

lemma arm_slots_marks:
  "yields (arm_slots K is s) (\<lambda>s'. ss_fd s' = ss_fd s \<and> ss_notified s' = ss_notified s \<and> ss_dgram s' = ss_dgram s \<and> ss_listener s' = ss_listener s)"
proof (induction "is" arbitrary: s)
  case (Cons i "is")
  have one: "yields (arm_recv_from K i s) (\<lambda>s'. ss_fd s' = ss_fd s \<and> ss_notified s' = ss_notified s \<and> ss_dgram s' = ss_dgram s \<and> ss_listener s' = ss_listener s)"
    unfolding arm_recv_from_def
    by (auto simp: set_pending_def intro!: yields_case_option yields_if yields_return yields_then [OF yields_overlapped [OF TrueI]])
  show ?case unfolding arm_slots.simps by (rule yields_then [OF one], rule yields_weaken [OF Cons.IH]) simp
qed (simp add: yields_return)

lemma new_state_marks:
  "yields (new_state K fd interest cb n) (\<lambda>s. ss_fd s = fd \<and> \<not> ss_notified s \<and> (ss_dgram s \<longrightarrow> \<not> ss_listener s))"
  unfolding new_state_def Let_def by (auto intro!: yields_intros)

lemma slots_put_marks:
  assumes "marks R d" and "ss_fd s = fd" "ss_notified s \<longrightarrow> fd \<in> R" "ss_dgram s \<longrightarrow> \<not> ss_listener s"
  shows "yields (do { s' \<leftarrow> arm_slots K is s; State_Monad.return (put_state fd s' d) }) (marks R)"
  by (rule yields_then [OF arm_slots_marks], rule yields_return, rule marks_put [OF assms(1)]) (use assms in simp_all)

lemma arm_both_marks:
  assumes "keeps_marks run" and "marks R d"
  shows "yields (do {
      d1 \<leftarrow> (if a then arm_read K run fd n d else State_Monad.return d);
      (if b then arm_write K run fd n d1 else State_Monad.return d1) }) (marks R)"
proof -
  have "yields (if a then arm_read K run fd n d else State_Monad.return d) (marks R)"
    using arm_marks(1) [OF assms] assms(2) by (simp add: yields_return)
  then show ?thesis by (rule yields_then) (auto intro!: yields_if yields_return arm_marks [OF assms(1)])
qed

lemma add_marks:
  assumes "keeps_marks run" and "marks R d"
  shows "yields (iocp_add K run fd i cb d) (\<lambda>x. marks R (snd x))"
proof -
  let ?d = "d\<lparr>ip_nodes := Suc (ip_nodes d)\<rparr>"
  have arm: "yields (arm_state K run fd i s ?d) (marks R)"
    if "ss_fd s = fd \<and> \<not> ss_notified s \<and> (ss_dgram s \<longrightarrow> \<not> ss_listener s)" for s
  proof -
    have p: "marks R (put_state fd s ?d)" by (rule marks_put) (use assms(2) that in simp_all)
    have slots: "yields (do { s' \<leftarrow> arm_slots K is (s\<lparr>ss_slots := sl\<rparr>); State_Monad.return (put_state fd s' ?d) }) (marks R)" for "is" sl
      by (rule slots_put_marks) (use assms(2) that in simp_all)
    show ?thesis unfolding arm_state_def
      by (auto intro!: yields_if yields_return p slots yields_then [OF new_slots_wf] arm_marks [OF assms(1)]
          yields_then [OF arm_marks(1) [OF assms(1) p]])
  qed
  have rest: "yields (case e of Some err \<Rightarrow> State_Monad.return (f err, ?d)
      | None \<Rightarrow> do { d' \<leftarrow> arm_state K run fd i s ?d; State_Monad.return (void_ok, d') }) (\<lambda>x. marks R (snd x))"
    if "ss_fd s = fd \<and> \<not> ss_notified s \<and> (ss_dgram s \<longrightarrow> \<not> ss_listener s)" for s e and f :: "int \<Rightarrow> rvoid"
    using assms(2) by (cases e) (auto simp: yields_return intro: yields_then [OF arm [OF that]])
  show ?thesis unfolding iocp_add_def Let_def
    by (rule yields_then [OF new_state_marks], rule yields_then [where P = "\<lambda>_. True"], simp add: yields_def) (rule rest)
qed

lemma modify_marks:
  assumes "keeps_marks run" and "marks R d"
  shows "yields (iocp_modify K run fd i d) (\<lambda>x. marks R (snd x))"
proof -
  have arm: "yields (arm_added K run fd i old s (put_state fd s d)) (marks R)"
    if "map_of (ip_states d) fd = Some s0" "s = s0\<lparr>ss_interest := i\<rparr>" for s0 s old
  proof -
    note g = marks_get [OF assms(2) that(1)]
    have p: "marks R (put_state fd s d)" by (rule marks_put_same [OF assms(2) that(1)]) (simp_all add: that)
    have slots: "yields (do { s' \<leftarrow> arm_slots K is (s\<lparr>ss_slots := sl\<rparr>); State_Monad.return (put_state fd s' d) }) (marks R)" for "is" sl
      by (rule slots_put_marks [OF assms(2)]) (use g in \<open>simp_all add: that(2)\<close>)
    show ?thesis unfolding arm_added_def
      by (auto intro!: yields_if yields_return p slots yields_then [where P = "\<lambda>_. True" and m = "case ss_slots s of None \<Rightarrow> new_slots K | Some sl \<Rightarrow> State_Monad.return sl"]
          arm_marks [OF assms(1)] yields_then [OF arm_marks(1) [OF assms(1) p]] simp: yields_def [of _ "\<lambda>_. True"])
  qed
  show ?thesis unfolding iocp_modify_def Let_def
    by (auto simp: assms(2) intro!: yields_case_option yields_return yields_then [OF arm [OF _ refl]])
qed

lemma ops_marks:
  assumes "keeps_marks run" and "marks R d"
  shows "yields (exec_op (iocp_methods K run) a d) (\<lambda>x. marks R (snd x))"
proof (cases a)
  case (Op_add fd i cb)
  then show ?thesis by (auto intro!: yields_case_prod yields_return yields_then [OF add_marks [OF assms]])
next
  case (Op_modify fd i)
  then show ?thesis by (auto intro!: yields_case_prod yields_return yields_then [OF modify_marks [OF assms]])
next
  case (Op_remove fd)
  have "marks R (d\<lparr>ip_states := AList.delete fd (ip_states d)\<rparr>)"
    using assms(2) AList.distinct_delete [of "ip_states d" fd] by (auto simp: marks_def keyed_def AList.delete_conv')
  then have "yields (iocp_remove K fd d) (\<lambda>x. marks R (snd x))"
    unfolding iocp_remove_def by (auto simp: assms(2) intro!: yields_intros)
  then show ?thesis by (auto simp: Op_remove intro!: yields_case_prod yields_return elim!: yields_then)
next
  case (Op_schedule ms rep cb)
  have "yields (iocp_schedule K ms rep cb d) (\<lambda>x. marks R (snd x))"
    unfolding iocp_schedule_def Let_def by (auto simp: assms(2) intro!: yields_intros)
  then show ?thesis by (auto simp: Op_schedule intro!: yields_case_prod yields_return elim!: yields_then)
next
  case (Op_cancel tid)
  have "yields (iocp_cancel K tid d) (marks R)"
    unfolding iocp_cancel_def timer_close_def by (auto simp: assms(2) intro!: yields_intros)
  then show ?thesis by (auto simp: Op_cancel intro!: yields_return elim!: yields_then)
qed

text \<open>Every program of dispatcher operations is a callback that leaves the marks as they are.\<close>

lemma nested_marks: "keeps_marks (nested K prog n)"
proof (induction n)
  case (Suc n)
  have ops: "marks R d \<Longrightarrow> yields (exec_ops (iocp_methods K (nested K prog n)) as d) (\<lambda>x. marks R (snd x))" for R as and d :: "'a iocp"
  proof (induction as arbitrary: d)
    case (Cons a as)
    show ?case unfolding exec_ops.simps
      by (auto intro!: yields_then [OF ops_marks [OF Suc Cons.prems]] yields_case_prod yields_then [OF Cons.IH] yields_return)
  qed (simp add: yields_return)
  show ?case
    by (auto simp: keeps_marks_def script_def intro!: yields_then [OF ops] yields_case_prod yields_return)
qed (simp add: keeps_marks_def yields_return)

section \<open>Polls\<close>

lemma rearm_marks:
  assumes "keeps_marks run" and "marks R d"
  shows "yields (rearm K run fd d) (marks R)"
  unfolding rearm_def use_state_def
  by (auto simp: assms(2) intro!: yields_case_option yields_if yields_return yields_then [where P = "marks R"] arm_marks [OF assms(1)])

lemma dgram_marks:
  assumes "marks (set ready) d" and "map_of (ip_states d) fd = Some s"
  shows "yields (dgram_completion K fd s ov (ready, d)) (\<lambda>x. marks (set (fst x)) (snd x))"
proof -
  note g = marks_get [OF assms]
  have slot: "yields (if has_event (ss_interest s) ev_readable then arm_recv_from K i (set_pending i False (s\<lparr>ss_queue := q\<rparr>))
        else State_Monad.return (set_pending i False (s\<lparr>ss_queue := q\<rparr>)))
      (\<lambda>s2. ss_fd s2 = fd \<and> ss_notified s2 = ss_notified s \<and> (ss_dgram s2 \<longrightarrow> \<not> ss_listener s2))" for i q
    using g unfolding arm_recv_from_def
    by (auto simp: set_pending_def intro!: yields_case_option yields_if yields_return yields_then [OF yields_overlapped [OF TrueI]])
  have grow: "marks (insert fd (set ready)) d" using assms(1) by (auto simp: marks_def)
  have fields: "ss_interest (set_pending i b (s\<lparr>ss_queue := q\<rparr>)) = ss_interest s" for i b q by (simp add: set_pending_def)
  show ?thesis
  proof (cases "find_slot s ov")
    case (Some i)
    show ?thesis unfolding dgram_completion_def Let_def prod.case fields Some option.case
      by (rule yields_bind [OF yields_sys], rule yields_then [OF slot], rule yields_return)
        (use g in \<open>simp add: marks_put [OF assms(1)] marks_put [OF grow]\<close>)
  qed (simp add: dgram_completion_def assms(1) yields_return)
qed

lemma completion_marks:
  assumes "keeps_marks run" and "marks (set (fst st)) (snd (snd st))"
  shows "yields (completion K run e st) (\<lambda>x. marks (set (fst x)) (snd (snd x)))"
proof -
  obtain key ov bytes ready n d where e: "e = (key, ov, bytes)" "st = (ready, n, d)" by (metis prod.exhaust)
  have d: "marks (set ready) d" using assms(2) e by simp
  have timer: "yields (dispatch_timer K run tid d) (marks (set ready))" for tid
    unfolding dispatch_timer_def
    by (auto simp: d yields_def [of "timer_close K h" "\<lambda>_. True" for h] intro!: yields_case_option yields_if yields_return
        call_marks [OF assms(1)] yields_then [OF call_marks [OF assms(1), of "set ready"]]
        yields_then [where m = "timer_close K h" and P = "\<lambda>_. True" for h])
  have stream: "yields (stream_completion K run fd s ov bytes d) (marks (set ready))" if "map_of (ip_states d) fd = Some s" for fd s
  proof -
    obtain ev s1 where ev: "stream_event s ov bytes = (ev, s1)" by (metis prod.exhaust)
    have "marks (set ready) (put_state fd s1 d)"
      by (rule marks_put_same [OF d that]) (use ev in \<open>auto simp: stream_event_def split: if_splits\<close>)
    from call_marks [OF assms(1) this] show ?thesis
      unfolding stream_completion_def ev by (auto intro!: yields_then rearm_marks [OF assms(1)])
  qed
  show ?thesis
    unfolding completion_def e
    by (auto simp: d intro!: yields_if yields_return yields_case_option yields_then [OF timer]
        yields_then [OF dgram_marks [OF d]] yields_then [OF stream] yields_case_prod)
qed

lemma notify_marks:
  assumes "keeps_marks run"
  shows "marks (set fds) (snd st) \<Longrightarrow> yields (notify run fds st) (\<lambda>x. marks {} (snd x))"
proof (induction fds arbitrary: st)
  case (Cons fd fds)
  obtain n d where st: "st = (n, d)" by (metis prod.exhaust)
  have d: "marks (insert fd (set fds)) d" using Cons.prems st by simp
  have gone: "marks (set fds) d" if "map_of (ip_states d) fd = None"
    using d that unfolding marks_def by (metis insertE option.distinct(1))
  have "yields (notify_one run fd st) (\<lambda>x. marks (set fds) (snd x))"
    unfolding notify_one_def Let_def st
    by (auto simp: gone marks_clear [OF d] intro!: yields_case_option yields_if yields_return
        yields_then [OF call_marks [OF assms, of "set fds"]])
  then show ?case unfolding notify.simps by (rule yields_then) (rule Cons.IH)
qed (simp add: yields_return)

lemma poll_marks:
  assumes "keeps_marks run" and "marks {} d"
  shows "yields (iocp_poll K run t d) (\<lambda>x. marks {} (snd x))"
proof -
  have listeners: "marks {} d \<Longrightarrow> yields (listener_calls run es n d) (\<lambda>x. marks {} (snd x))" for es n d
  proof (induction es arbitrary: n d)
    case (Cons e es)
    then show ?case by (auto intro!: yields_case_option yields_then [OF call_marks [OF assms(1) Cons.prems]])
  qed (simp add: yields_return)
  have first: "yields (poll_listeners K run d) (\<lambda>x. marks {} (snd x))"
    unfolding poll_listeners_def Let_def
    by (auto simp: assms(2) intro!: yields_if yields_return yields_bind [OF yields_sys] listeners)
  have rest: "marks (set (fst st)) (snd (snd st)) \<Longrightarrow> yields (completions K run es st) (\<lambda>x. marks (set (fst x)) (snd (snd x)))" for es st
  proof (induction es arbitrary: st)
    case (Cons e es)
    show ?case unfolding completions.simps
      by (rule yields_then [OF completion_marks [OF assms(1) Cons.prems]]) (rule Cons.IH)
  qed (simp add: yields_return)
  show ?thesis unfolding iocp_poll_def
    by (auto intro!: yields_then [OF first] yields_case_prod yields_bind [OF yields_sys] yields_bind [OF yields_get_errno]
        yields_if yields_return yields_then [OF rest] yields_then [OF notify_marks [OF assms(1)]])
qed

section \<open>Reachable dispatchers\<close>

lemma marks_step:
  assumes "ip_step P K run s t" and "keeps_marks run" and "marks {} (fst s)"
  shows "marks {} (fst t)"
  using assms
proof (induction rule: ip_step.induct)
  case (ip_op a d w x d' w')
  from yieldsD [OF ops_marks [OF ip_op(2)] ip_op(1)] ip_op(3) show ?case by simp
next
  case (ip_poll t d w r d' w')
  from yieldsD [OF poll_marks [OF ip_poll(2)] ip_poll(1)] ip_poll(3) show ?case by simp
next
  case (ip_retrieve fd len d r d' w)
  have "marks {} (put_state fd (s\<lparr>ss_queue := q\<rparr>) d)" if "map_of (ip_states d) fd = Some s" for s q
    by (rule marks_put_same [OF _ that]) (use ip_retrieve(3) in simp_all)
  with ip_retrieve show ?case
    by (auto simp: retrieve_dgram_def Let_def split: option.splits if_splits list.splits prod.splits)
qed simp_all

lemma marks_reachable:
  assumes "keeps_marks run" and "reachable (ip_init P K) (ip_step P K run) s"
  shows "marks {} (fst s)"
  using assms(2)
proof (induction rule: reachable.induct)
  case (reach_init s)
  then obtain w0 where "run_state (iocp_new K) w0 = (Inr (fst s), snd s)" by (auto simp: ip_init_def)
  from new_fields [OF this] show ?case by (simp add: marks_def keyed_def)
next
  case (reach_step s t)
  then show ?case using marks_step assms(1) by blast
qed

end
