(* ===== verification/Iocp_Props.thy ===== *)
theory Iocp_Props
  imports Iocp_Marks
begin

text \<open>
  What a poll of the completion-port dispatcher does to one datagram socket, and the properties of the
  dispatcher. \<open>results\<close> reads off a trace the datagrams that completed on a socket, \<open>calls_on\<close> counts the
  invocations of a socket's callback. \<open>stays\<close> says that a computation leaves a socket alone.
\<close>

section \<open>Leaving a socket alone\<close>

fun result_of :: "int \<Rightarrow> syscall \<times> sysret \<Rightarrow> (byte list \<times> sock_address) list" where
  "result_of fd (Sys_win (Overlapped_result s ov), r) = (if s = fd then completed_dgram r else [])"
| "result_of fd _ = []"

definition results :: "int \<Rightarrow> world \<Rightarrow> (byte list \<times> sock_address) list" where
  "results fd w = concat (map (result_of fd) (trace w))"

fun on_socket :: "int \<Rightarrow> 'cb invocation \<Rightarrow> bool" where
  "on_socket fd (Io_call cb f ev) \<longleftrightarrow> f = fd"
| "on_socket fd (Timer_call cb) \<longleftrightarrow> False"

definition calls_on :: "int \<Rightarrow> 'cb iocp \<Rightarrow> 'cb invocation list" where
  "calls_on fd d = filter (on_socket fd) (ip_log d)"

definition stays :: "int \<Rightarrow> ('a \<Rightarrow> 'cb iocp) \<Rightarrow> 'a io \<Rightarrow> 'cb iocp \<Rightarrow> bool" where
  "stays fd out m d \<longleftrightarrow> (\<forall>w. keyed d \<longrightarrow> keyed (out (outcome m w))
     \<and> map_of (ip_states (out (outcome m w))) fd = map_of (ip_states d) fd
     \<and> calls_on fd (out (outcome m w)) = calls_on fd d \<and> results fd (final_world m w) = results fd w)"

lemma stays_then:
  "stays fd g m d \<Longrightarrow> (\<And>x. stays fd out (f x) (g x)) \<Longrightarrow> stays fd out (State_Monad.bind m f) d"
  by (simp add: stays_def case_prod_beta)

lemma stays_then_yields:
  "stays fd g m d \<Longrightarrow> yields m P \<Longrightarrow> (\<And>x. P x \<Longrightarrow> stays fd out (f x) (g x)) \<Longrightarrow> stays fd out (State_Monad.bind m f) d"
  by (simp add: stays_def yields_def case_prod_beta)

lemma stays_return:
  "map_of (ip_states (out x)) fd = map_of (ip_states d) fd \<Longrightarrow> calls_on fd (out x) = calls_on fd d \<Longrightarrow>
   (keyed d \<Longrightarrow> keyed (out x)) \<Longrightarrow> stays fd out (State_Monad.return x) d"
  by (simp add: stays_def)

lemma stays_if: "(b \<Longrightarrow> stays fd out m d) \<Longrightarrow> (\<not> b \<Longrightarrow> stays fd out n d) \<Longrightarrow> stays fd out (if b then m else n) d"
  by simp

lemma stays_option:
  "(x = None \<Longrightarrow> stays fd out m d) \<Longrightarrow> (\<And>v. x = Some v \<Longrightarrow> stays fd out (f v) d) \<Longrightarrow>
   stays fd out (case x of None \<Rightarrow> m | Some v \<Rightarrow> f v) d"
  by (simp split: option.split)

lemma stays_prod:
  "(\<And>a b. x = (a, b) \<Longrightarrow> stays fd out (f a b) d) \<Longrightarrow> stays fd out (case x of (a, b) \<Rightarrow> f a b) d"
  by (simp split: prod.split)

lemma stays_sys:
  "(\<And>r. result_of fd (c, r) = []) \<Longrightarrow> stays fd (\<lambda>_. d) (sys K c) d"
  by (simp add: stays_def run_sys results_def)

lemma stays_errno: "stays fd (\<lambda>_. d) get_errno d"
  by (simp add: stays_def run_get_errno)

lemma stays_overlapped:
  "stays fd (\<lambda>_. d) (overlapped K (Recv_zero s ov)) d" "stays fd (\<lambda>_. d) (overlapped K (Send_zero s ov)) d"
  "stays fd (\<lambda>_. d) (overlapped K (Recv_overlapped s ov n)) d"
  unfolding overlapped_def by (auto intro!: stays_then [OF stays_sys] stays_then [OF stays_errno] stays_return)

text \<open>Callbacks that touch neither the dispatcher nor the results of its operations.\<close>

definition silent :: "('cb invocation \<Rightarrow> unit io) \<Rightarrow> bool" where
  "silent act \<longleftrightarrow> (\<forall>i fd w. results fd (final_world (act i) w) = results fd w)"

lemma calls_same [simp]:
  "calls_on fd (put_state f s d) = calls_on fd d" "calls_on fd (d\<lparr>ip_dangling := b\<rparr>) = calls_on fd d"
  "calls_on fd (d\<lparr>ip_timers := ts\<rparr>) = calls_on fd d" "calls_on fd (d\<lparr>ip_firing := h\<rparr>) = calls_on fd d"
  by (simp_all add: calls_on_def put_state_def)

lemma stays_put:
  assumes "f \<noteq> fd" and "stays fd out m (put_state f s d)" and "keyed d \<Longrightarrow> ss_fd s = f"
  shows "stays fd out m d"
  using assms keyed_put [of d s f] by (simp add: stays_def)

lemma stays_call:
  assumes "silent act" and "keyed d \<Longrightarrow> \<not> on_socket fd i"
  shows "stays fd (\<lambda>d'. d') (iocp_call (outside act) i d) d"
proof -
  have "run_state (iocp_call (outside act) i d) w = (iocp_note i d, final_world (act i) w)" for w
    by (simp add: iocp_call_def outside_def split: prod.split)
  with assms show ?thesis by (auto simp: stays_def silent_def calls_on_def iocp_note_def keyed_def)
qed

lemma stays_arm:
  assumes "silent act" and "f \<noteq> fd"
  shows "stays fd (\<lambda>d'. d') (arm_read K (outside act) f n d) d" "stays fd (\<lambda>d'. d') (arm_write K (outside act) f n d) d"
proof -
  have k: "ss_fd s = f" if "keyed d" "deref f n d = Some s" for s using that by (simp add: keyed_def deref_Some)
  have p: "keyed (put_state f (s\<lparr>ss_read_pending := b\<rparr>) d)" "keyed (put_state f (s\<lparr>ss_write_pending := b\<rparr>) d)"
    if "keyed d" "deref f n d = Some s" for s b
    using that k by (auto intro!: keyed_put)
  show "stays fd (\<lambda>d'. d') (arm_read K (outside act) f n d) d" "stays fd (\<lambda>d'. d') (arm_write K (outside act) f n d) d"
    unfolding arm_read_def arm_write_def use_state_def
    by (auto simp: assms(2) not_sym [OF assms(2)] k p intro!: stays_option stays_if stays_then [OF stays_overlapped(1)] stays_then [OF stays_overlapped(2)]
        stays_return stays_call [OF assms(1)])
qed

lemma stays_rearm:
  assumes "silent act" and "f \<noteq> fd"
  shows "stays fd (\<lambda>d'. d') (rearm K (outside act) f d) d"
proof -
  have second: "stays fd (\<lambda>d'. d') (use_state f n (\<lambda>s1. if b s1 then arm_write K (outside act) f n d1 else State_Monad.return d1) d1) d1" for n b d1
    unfolding use_state_def by (rule stays_option) (auto intro!: stays_return stays_if stays_arm [OF assms])
  show ?thesis unfolding rearm_def
    by (rule stays_option) (auto intro!: stays_return stays_then [OF stays_arm(1) [OF assms] second] second)
qed

lemma stays_stream:
  assumes "silent act" and "f \<noteq> fd" and "map_of (ip_states d) f = Some s"
  shows "stays fd (\<lambda>d'. d') (stream_completion K (outside act) f s ov bytes d) d"
proof -
  obtain ev s1 where ev: "stream_event s ov bytes = (ev, s1)" by (metis prod.exhaust)
  then have fd: "ss_fd s1 = ss_fd s" by (auto simp: stream_event_def split: if_splits)
  have "stays fd (\<lambda>d'. d') (do { d1 \<leftarrow> iocp_call (outside act) (Io_call (ss_callback s) f ev) (put_state f s1 d);
      rearm K (outside act) f d1 }) (put_state f s1 d)"
    by (rule stays_then [OF stays_call [OF assms(1)] stays_rearm [OF assms(1,2)]]) (simp add: assms(2))
  moreover have "ss_fd s1 = f" if "keyed d" using that assms(3) fd by (simp add: keyed_def)
  ultimately show ?thesis unfolding stream_completion_def ev prod.case by (rule stays_put [OF assms(2)])
qed

text \<open>Arming a slot of a datagram socket, when its interest asks for it.\<close>

definition rearm_slot :: "kernel \<Rightarrow> nat \<Rightarrow> 'cb per_socket_state \<Rightarrow> 'cb per_socket_state io" where
  "rearm_slot K i s = (if has_event (ss_interest s) ev_readable then arm_recv_from K i s else State_Monad.return s)"

lemma rearm_slot_fields:
  "yields (rearm_slot K i s) (\<lambda>s'. ss_fd s' = ss_fd s \<and> ss_callback s' = ss_callback s \<and> ss_interest s' = ss_interest s
     \<and> ss_dgram s' = ss_dgram s \<and> ss_listener s' = ss_listener s \<and> ss_queue s' = ss_queue s \<and> ss_notified s' = ss_notified s)"
  unfolding rearm_slot_def arm_recv_from_def
  by (auto simp: set_pending_def intro!: yields_case_option yields_if yields_return yields_then [OF yields_overlapped [OF TrueI]])

lemma stays_rearm_slot: "stays fd (\<lambda>_. d) (rearm_slot K i s) d"
  unfolding rearm_slot_def arm_recv_from_def by (auto intro!: stays_option stays_if stays_return stays_then [OF stays_overlapped(3)])

lemma dgram_completion_alt:
  "dgram_completion K fd s ov (ready, d) =
     (case find_slot s ov of
        None \<Rightarrow> State_Monad.return (ready, d)
      | Some i \<Rightarrow> do {
          r \<leftarrow> sys K (Sys_win (Overlapped_result fd ov));
          s2 \<leftarrow> rearm_slot K i (set_pending i False (s\<lparr>ss_queue := ss_queue s @ completed_dgram r\<rparr>));
          State_Monad.return (if ss_notified s2 then (ready, put_state fd s2 d)
            else (ready @ [fd], put_state fd (s2\<lparr>ss_notified := True\<rparr>) d))
        })"
  unfolding dgram_completion_def rearm_slot_def Let_def prod.case by (rule refl)

lemma stays_dgram:
  assumes "f \<noteq> fd" and "map_of (ip_states d) f = Some s"
  shows "stays fd snd (dgram_completion K f s ov (ready, d)) d"
proof (cases "find_slot s ov")
  case (Some i)
  have fin: "stays fd snd (State_Monad.return (if ss_notified s2 then (ready, put_state f s2 d)
      else (ready @ [f], put_state f (s2\<lparr>ss_notified := True\<rparr>) d))) d" if "ss_fd s2 = ss_fd s" for s2
    using assms that by (auto simp: keyed_def [of d] intro!: stays_return keyed_put)
  have sys: "stays fd (\<lambda>_. d) (sys K (Sys_win (Overlapped_result f ov))) d" by (rule stays_sys) (simp add: assms(1))
  show ?thesis
    unfolding dgram_completion_alt Some option.case
    by (rule stays_then [OF sys], rule stays_then_yields [OF stays_rearm_slot rearm_slot_fields], rule fin)
      (simp add: set_pending_def)
qed (simp add: dgram_completion_def stays_return)

section \<open>One datagram socket in a poll\<close>

text \<open>
  \<open>dealt\<close>: since the poll began, the datagrams \<open>new\<close> have completed on the socket and are at the end of
  its queue; the socket is marked, and once in the list of those to notify, if there are any; its
  callback has not been called.
\<close>

definition dealt ::
    "int \<Rightarrow> 'cb per_socket_state \<Rightarrow> (byte list \<times> sock_address) list \<Rightarrow> 'cb invocation list \<Rightarrow> int list \<times> 'cb iocp \<Rightarrow> world \<Rightarrow> bool" where
  "dealt fd s0 res calls st w \<longleftrightarrow> keyed (snd st) \<and> calls_on fd (snd st) = calls \<and> count_list (fst st) fd \<le> 1
     \<and> (\<exists>s new. map_of (ip_states (snd st)) fd = Some s \<and> ss_dgram s \<and> \<not> ss_listener s \<and> ss_callback s = ss_callback s0
          \<and> ss_interest s = ss_interest s0 \<and> ss_queue s = ss_queue s0 @ new \<and> results fd w = res @ new
          \<and> (ss_notified s \<longleftrightarrow> fd \<in> set (fst st)) \<and> (new \<noteq> [] \<longrightarrow> fd \<in> set (fst st)))"

lemma dealt_stays:
  assumes "dealt fd s0 res calls (ready, d) w" and "stays fd out m d" and "run_state m w = (x, w')"
    and "fd \<in> set ready' \<longleftrightarrow> fd \<in> set ready" and "count_list ready' fd \<le> 1"
  shows "dealt fd s0 res calls (ready', out x) w'"
proof -
  have "keyed d" using assms(1) by (simp add: dealt_def)
  then have "keyed (out x)" "map_of (ip_states (out x)) fd = map_of (ip_states d) fd" "calls_on fd (out x) = calls_on fd d"
    "results fd w' = results fd w"
    using assms(2,3) unfolding stays_def by (metis fst_conv snd_conv)+
  then show ?thesis using assms(1,4,5) by (simp add: dealt_def)
qed

lemma dealt_own:
  assumes "dealt fd s0 res calls (ready, d) w" and "map_of (ip_states d) fd = Some s"
    and "run_state (dgram_completion K fd s ov (ready, d)) w = ((ready', d'), w')"
  shows "dealt fd s0 res calls (ready', d') w'"
proof (cases "find_slot s ov")
  case None
  then show ?thesis using assms by (auto simp: dgram_completion_alt)
next
  case (Some i)
  let ?c = "Sys_win (Overlapped_result fd ov)"
  let ?r = "K (trace w) ?c"
  let ?w = "final_world (sys K ?c) w"
  let ?s = "set_pending i False (s\<lparr>ss_queue := ss_queue s @ completed_dgram ?r\<rparr>)"
  obtain s2 w2 where 2: "run_state (rearm_slot K i ?s) ?w = (s2, w2)" by (metis prod.exhaust)
  have f: "ss_fd s2 = ss_fd s" "ss_callback s2 = ss_callback s" "ss_interest s2 = ss_interest s" "ss_dgram s2 = ss_dgram s"
    "ss_listener s2 = ss_listener s" "ss_queue s2 = ss_queue s @ completed_dgram ?r" "ss_notified s2 = ss_notified s"
    using yieldsD [OF rearm_slot_fields 2] by (simp_all add: set_pending_def)
  have k: "keyed d" and fd: "ss_fd s = fd" using assms(1,2) by (auto simp: dealt_def keyed_def)
  have "results fd w2 = results fd ?w"
    using stays_rearm_slot [of fd d K i ?s] 2 k unfolding stays_def by (metis snd_conv)
  then have res: "results fd w2 = results fd w @ completed_dgram ?r" by (simp add: results_def run_sys)
  have out: "(ready', d') = (if ss_notified s2 then (ready, put_state fd s2 d) else (ready @ [fd], put_state fd (s2\<lparr>ss_notified := True\<rparr>) d))"
    and w': "w' = w2"
    using assms(3) 2 by (auto simp: dgram_completion_alt Some run_sys split: if_splits)
  have kp: "keyed (put_state fd s2 d)" "keyed (put_state fd (s2\<lparr>ss_notified := True\<rparr>) d)" using k f(1) fd by (auto intro: keyed_put)
  show ?thesis
    using assms(1,2) out res f kp unfolding w' dealt_def
    by (cases "ss_notified s2") (auto simp: count_list_append)
qed

lemma dgram_ready:
  assumes "run_state (dgram_completion K f s ov (ready, d)) w = ((ready', d'), w')"
  shows "ready' = ready \<or> ready' = ready @ [f]"
proof -
  have "yields (dgram_completion K f s ov (ready, d)) (\<lambda>x. fst x = ready \<or> fst x = ready @ [f])"
    unfolding dgram_completion_alt
    by (auto intro!: yields_case_option yields_return yields_bind [OF yields_sys] yields_then [OF rearm_slot_fields])
  from yieldsD [OF this assms] show ?thesis by simp
qed

lemma stays_timer:
  assumes "silent act"
  shows "stays fd (\<lambda>d'. d') (dispatch_timer K (outside act) tid d) d"
proof -
  have close: "stays fd (\<lambda>_. d1) (timer_close K h) d1" for h and d1 :: "'a iocp"
    unfolding timer_close_def by (auto intro!: stays_then [OF stays_sys] stays_return)
  have call: "stays fd (\<lambda>d'. d') (iocp_call (outside act) (Timer_call cb) d1) d1" for cb and d1 :: "'a iocp"
    by (rule stays_call [OF assms]) simp
  have fire: "stays fd (\<lambda>d'. d') (do { d1 \<leftarrow> iocp_call (outside act) (Timer_call cb) d0; _ \<leftarrow> timer_close K h;
      State_Monad.return (d1\<lparr>ip_firing := None\<rparr>) }) d0" for cb h and d0 :: "'a iocp"
    by (rule stays_then [OF call], rule stays_then [OF close], rule stays_return) simp_all
  have same: "stays fd (\<lambda>d'. d') m (d\<lparr>ip_timers := ts, ip_firing := h\<rparr>) \<Longrightarrow> stays fd (\<lambda>d'. d') m d" for m ts h
    by (simp add: stays_def)
  show ?thesis unfolding dispatch_timer_def
    by (rule stays_option) (auto intro!: stays_return call same [OF fire])
qed

lemma dealt_completion:
  assumes "silent act" and "dealt fd s0 res calls (ready, d) w"
    and "run_state (completion K (outside act) e (ready, n, d)) w = ((ready', n', d'), w')"
  shows "dealt fd s0 res calls (ready', d') w'"
proof -
  obtain key ov bytes where e: "e = (key, ov, bytes)" by (metis prod.exhaust)
  have c: "count_list ready fd \<le> 1" using assms(2) by (simp add: dealt_def)
  consider (skip) "key = of_int WAKER_KEY \<or> (key \<noteq> TIMER_KEY \<and> map_of (ip_states d) (sint key) = None)"
    | (timer) "key \<noteq> of_int WAKER_KEY" "key = TIMER_KEY"
    | (dgram) s where "key \<noteq> of_int WAKER_KEY" "key \<noteq> TIMER_KEY" "map_of (ip_states d) (sint key) = Some s" "ss_dgram s"
    | (stream) s where "key \<noteq> of_int WAKER_KEY" "key \<noteq> TIMER_KEY" "map_of (ip_states d) (sint key) = Some s" "\<not> ss_dgram s"
    by (cases "map_of (ip_states d) (sint key)") blast+
  then show ?thesis
  proof cases
    case skip
    with assms(2,3) show ?thesis by (auto simp: completion_def e split: if_splits)
  next
    case timer
    with assms(3) have "run_state (dispatch_timer K (outside act) ov d) w = (d', w')" "ready' = ready"
      by (auto simp: completion_def e split: prod.splits)
    from dealt_stays [OF assms(2) stays_timer [OF assms(1)] this(1)] this(2) c show ?thesis by simp
  next
    case (dgram s)
    with assms(3) have r: "run_state (dgram_completion K (sint key) s ov (ready, d)) w = ((ready', d'), w')"
      by (auto simp: completion_def e split: prod.splits)
    show ?thesis
    proof (cases "sint key = fd")
      case True
      with dealt_own [OF assms(2)] dgram(3) r show ?thesis by blast
    next
      case False
      have "fd \<in> set ready' \<longleftrightarrow> fd \<in> set ready" "count_list ready' fd \<le> 1"
        using dgram_ready [OF r] False c by (auto simp: count_list_append)
      from dealt_stays [OF assms(2) stays_dgram [OF False dgram(3)] r this] show ?thesis by simp
    qed
  next
    case (stream s)
    with assms(3) have r: "run_state (stream_completion K (outside act) (sint key) s ov bytes d) w = (d', w')" "ready' = ready"
      by (auto simp: completion_def e split: prod.splits)
    have "sint key \<noteq> fd" using stream(3,4) assms(2) by (auto simp: dealt_def)
    from dealt_stays [OF assms(2) stays_stream [OF assms(1) this stream(3)] r(1)] r(2) c show ?thesis by simp
  qed
qed

lemma dealt_completions:
  assumes "silent act"
  shows "dealt fd s0 res calls (ready, d) w \<Longrightarrow> run_state (completions K (outside act) es (ready, n, d)) w = ((ready', n', d'), w') \<Longrightarrow>
    dealt fd s0 res calls (ready', d') w'"
proof (induction es arbitrary: ready n d w)
  case (Cons e es)
  obtain r1 n1 d1 w1 where 1: "run_state (completion K (outside act) e (ready, n, d)) w = ((r1, n1, d1), w1)" by (metis prod.exhaust)
  with Cons.prems(2) have "run_state (completions K (outside act) es (r1, n1, d1)) w1 = ((ready', n', d'), w')" by simp
  with Cons.IH [OF dealt_completion [OF assms Cons.prems(1) 1]] show ?case by blast
qed simp

text \<open>The second phase: the socket is notified once, when it is in the list.\<close>

lemma notify_other:
  assumes "silent act" and "f \<noteq> fd"
  shows "stays fd snd (notify_one (outside act) f (n, d)) d"
proof (cases "map_of (ip_states d) f")
  case (Some s)
  let ?d = "put_state f (s\<lparr>ss_notified := False\<rparr>) d"
  have call: "stays fd snd (do { d2 \<leftarrow> iocp_call (outside act) (Io_call (ss_callback s) f ev_readable) ?d; State_Monad.return (n + 1, d2) }) ?d"
    by (rule stays_then [OF stays_call [OF assms(1)] stays_return]) (simp_all add: assms(2))
  have "stays fd snd (notify_one (outside act) f (n, d)) ?d"
    unfolding notify_one_def prod.case Some option.case Let_def by (rule stays_if [OF stays_return call]) simp_all
  then show ?thesis by (rule stays_put [OF assms(2)]) (use Some in \<open>simp add: keyed_def\<close>)
qed (simp add: notify_one_def stays_return)

lemma notify_others:
  assumes "silent act"
  shows "fd \<notin> set fds \<Longrightarrow> stays fd snd (notify (outside act) fds (n, d)) d"
proof (induction fds arbitrary: n d)
  case (Cons f fds)
  have "stays fd snd (notify_one (outside act) f (n, d)) d" by (rule notify_other [OF assms]) (use Cons.prems in auto)
  then show ?case unfolding notify.simps by (rule stays_then) (metis Cons.IH Cons.prems list.set_intros(2) prod.collapse)
qed (simp add: stays_return)

text \<open>What a poll leaves: the queue with the new datagrams, and one call if there is something to read.\<close>

definition notified_once ::
    "int \<Rightarrow> 'cb per_socket_state \<Rightarrow> (byte list \<times> sock_address) list \<Rightarrow> 'cb invocation list \<Rightarrow> bool \<Rightarrow> 'cb iocp \<Rightarrow> world \<Rightarrow> bool" where
  "notified_once fd s0 res calls marked d w \<longleftrightarrow> (\<exists>s new. map_of (ip_states d) fd = Some s \<and> \<not> ss_notified s
     \<and> ss_queue s = ss_queue s0 @ new \<and> results fd w = res @ new \<and> (new \<noteq> [] \<longrightarrow> marked)
     \<and> calls_on fd d = calls @ (if marked \<and> ss_queue s \<noteq> [] \<and> has_event (ss_interest s0) ev_readable
          then [Io_call (ss_callback s0) fd ev_readable] else []))"

lemma notify_own:
  assumes "silent act" and "dealt fd s0 res calls (ready, d) w" and "fd \<in> set ready"
    and "run_state (notify_one (outside act) fd (n, d)) w = ((n', d'), w')"
  shows "notified_once fd s0 res calls True d' w' \<and> keyed d'"
proof -
  obtain s new where s: "map_of (ip_states d) fd = Some s" "ss_callback s = ss_callback s0" "ss_interest s = ss_interest s0"
    "ss_queue s = ss_queue s0 @ new" "results fd w = res @ new" "calls_on fd d = calls" "keyed d"
    using assms(2) by (auto simp: dealt_def)
  let ?d = "put_state fd (s\<lparr>ss_notified := False\<rparr>) d"
  have k: "keyed ?d" using s(1,7) by (intro keyed_put) (auto simp: keyed_def)
  let ?i = "Io_call (ss_callback s) fd ev_readable"
  have call: "run_state (iocp_call (outside act) ?i ?d) w = (iocp_note ?i ?d, final_world (act ?i) w)"
    by (simp add: iocp_call_def outside_def split: prod.split)
  have "results fd (final_world (act ?i) w) = results fd w" using assms(1) by (simp add: silent_def)
  moreover have "calls_on fd (iocp_note ?i ?d) = calls @ [?i]" "ip_states (iocp_note ?i ?d) = ip_states ?d"
    using s(6) by (simp_all add: calls_on_def iocp_note_def put_state_def)
  moreover have "(d', w') = (if ss_queue s = [] \<or> \<not> has_event (ss_interest s) ev_readable then (?d, w)
      else (iocp_note ?i ?d, final_world (act ?i) w))"
    using assms(4) call by (auto simp: notify_one_def s(1) Let_def split: if_splits)
  ultimately have "map_of (ip_states d') fd = Some (s\<lparr>ss_notified := False\<rparr>) \<and> results fd w' = res @ new \<and> keyed d'
      \<and> calls_on fd d' = calls @ (if ss_queue s \<noteq> [] \<and> has_event (ss_interest s) ev_readable then [?i] else [])"
    using s k by (cases "ss_queue s = [] \<or> \<not> has_event (ss_interest s) ev_readable") auto
  then show ?thesis
    unfolding notified_once_def using s(2-4) by (auto intro!: exI [of _ "s\<lparr>ss_notified := False\<rparr>"] exI [of _ new])
qed

lemma notified_stays:
  assumes "notified_once fd s0 res calls b d w" and "keyed d" and "stays fd out m d" and "run_state m w = (x, w')"
  shows "notified_once fd s0 res calls b (out x) w'"
proof -
  have "map_of (ip_states (out x)) fd = map_of (ip_states d) fd" "calls_on fd (out x) = calls_on fd d" "results fd w' = results fd w"
    using assms(2-4) unfolding stays_def by (metis fst_conv snd_conv)+
  with assms(1) show ?thesis by (simp add: notified_once_def)
qed

lemma notify_dealt:
  assumes "silent act"
  shows "dealt fd s0 res calls (fds, d) w \<Longrightarrow> run_state (notify (outside act) fds (n, d)) w = ((n', d'), w') \<Longrightarrow>
    notified_once fd s0 res calls (fd \<in> set fds) d' w'"
proof (induction fds arbitrary: n d w)
  case Nil
  then show ?case by (auto simp: dealt_def notified_once_def)
next
  case (Cons f fds)
  obtain n1 d1 w1 where 1: "run_state (notify_one (outside act) f (n, d)) w = ((n1, d1), w1)" by (metis prod.exhaust)
  with Cons.prems(2) have 2: "run_state (notify (outside act) fds (n1, d1)) w1 = ((n', d'), w')" by simp
  have c: "count_list (f # fds) fd \<le> 1" using Cons.prems(1) by (simp add: dealt_def)
  show ?case
  proof (cases "f = fd")
    case True
    then have out: "fd \<notin> set fds" using c by (auto simp: count_list_0_iff)
    have "notified_once fd s0 res calls True d1 w1 \<and> keyed d1"
      by (rule notify_own [OF assms Cons.prems(1)]) (use 1 True in simp_all)
    with notified_stays [OF _ _ notify_others [OF assms out] 2] show ?thesis by (simp add: True)
  next
    case False
    have "dealt fd s0 res calls (fds, d1) w1"
      using dealt_stays [OF Cons.prems(1) notify_other [OF assms False] 1, of fds] False c by simp
    from Cons.IH [OF this 2] show ?thesis using False by auto
  qed
qed

text \<open>The listeners are polled first; a datagram socket is none of them.\<close>

lemma stays_listeners:
  assumes "silent act" and "map_of (ip_states d) fd = Some s0" "\<not> ss_listener s0"
  shows "stays fd snd (poll_listeners K (outside act) d) d"
proof (cases "keyed d")
  case True
  have out: "fd \<notin> set (polled_listeners d)"
  proof
    assume "fd \<in> set (polled_listeners d)"
    then obtain k s where e: "(k, s) \<in> set (ip_states d)" "ss_listener s" "ss_fd s = fd"
      by (auto simp: polled_listeners_def)
    with True have "map_of (ip_states d) k = Some s" "k = fd" by (auto simp: keyed_def)
    with assms(2,3) e(2) show False by simp
  qed
  have calls: "fd \<notin> fst ` set es \<Longrightarrow> stays fd snd (listener_calls (outside act) es n d1) d1" for es n and d1 :: "'a iocp"
  proof (induction es arbitrary: n d1)
    case (Cons e es)
    have "\<not> on_socket fd (Io_call cb (fst e) ev)" for cb ev using Cons.prems by auto
    then show ?case using Cons
      by (auto intro!: stays_option stays_then [OF stays_call [OF assms(1)]])
  qed (simp add: stays_return)
  have *: "fd \<notin> fst ` set (zip (polled_listeners d) xs)" for xs using out by (auto dest: set_zip_leftD)
  show ?thesis unfolding poll_listeners_def Let_def
    by (auto intro!: stays_return stays_then [OF stays_sys] calls [OF *])
qed (simp add: stays_def)

lemma poll_notified:
  assumes "silent act" and "keyed d" and "map_of (ip_states d) fd = Some s" "ss_dgram s" "\<not> ss_listener s" "\<not> ss_notified s"
    and "run_state (iocp_poll K (outside act) t d) w = ((Inr n, d'), w')"
  shows "\<exists>marked. notified_once fd s (results fd w) (calls_on fd d) marked d' w'"
proof -
  have start: "dealt fd s (results fd w) (calls_on fd d) ([], d) w"
    using assms(2-6) by (auto simp: dealt_def)
  obtain n1 d1 w1 where 1: "run_state (poll_listeners K (outside act) d) w = ((n1, d1), w1)" by (metis prod.exhaust)
  let ?c = "Sys_win (Dequeue (ip_port d1) 256 (wait_timeout n1 (has_listeners d1) t))"
  let ?r = "K (trace w1) ?c"
  let ?w = "final_world (sys K ?c) w1"
  let ?es = "if sr_rc ?r = 0 then [] else take 256 (sr_completions ?r)"
  obtain r2 n2 d2 w2 where 2: "run_state (completions K (outside act) ?es ([], n1, d1)) ?w = ((r2, n2, d2), w2)" by (metis prod.exhaust)
  have "run_state (iocp_poll K (outside act) t d) w =
      (if sr_rc ?r = 0 \<and> errno ?w \<noteq> WAIT_TIMEOUT
       then ((Inl \<lparr>ec_value = to_int32 (errno ?w), ec_category = system_category\<rparr>, d1), ?w)
       else case run_state (notify (outside act) r2 (n2, d2)) w2 of ((m, d3), w3) \<Rightarrow> ((Inr m, d3), w3))"
    using 1 2 by (simp add: iocp_poll_def run_sys run_get_errno split: prod.split)
  with assms(7) have 3: "run_state (notify (outside act) r2 (n2, d2)) w2 = ((n, d'), w')"
    by (auto split: if_splits prod.splits)
  have "dealt fd s (results fd w) (calls_on fd d) ([], d1) w1"
    using dealt_stays [OF start stays_listeners [OF assms(1,3,5)] 1, of "[]"] by simp
  then have "dealt fd s (results fd w) (calls_on fd d) ([], d1) ?w"
    by (simp add: dealt_def results_def run_sys)
  from notify_dealt [OF assms(1) dealt_completions [OF assms(1) this 2] 3] show ?thesis by blast
qed

section \<open>Polls without completions for a socket\<close>

definition reports_none :: "kernel \<Rightarrow> int \<Rightarrow> bool" where
  "reports_none K fd \<longleftrightarrow> (\<forall>tr h n t. \<forall>e \<in> set (sr_completions (K tr (Sys_win (Dequeue h n t)))). sint (fst e) \<noteq> fd)"

lemma stays_completions:
  assumes "silent act"
  shows "\<forall>e \<in> set es. sint (fst e) \<noteq> fd \<Longrightarrow> fd \<notin> set ready \<Longrightarrow>
    stays fd (\<lambda>x. snd (snd x)) (completions K (outside act) es (ready, n, d)) d
    \<and> yields (completions K (outside act) es (ready, n, d)) (\<lambda>x. fd \<notin> set (fst x))"
proof (induction es arbitrary: ready n d)
  case (Cons e es)
  obtain key ov bytes where e: "e = (key, ov, bytes)" by (metis prod.exhaust)
  have key: "sint key \<noteq> fd" using Cons.prems(1) e by simp
  have dgram: "yields (dgram_completion K (sint key) s ov (ready, d)) (\<lambda>x. fd \<notin> set (fst x))" for s
    unfolding yields_def using dgram_ready Cons.prems(2) key by (metis Un_iff list.set(1) list.set(2) insertE prod.collapse set_append empty_iff)
  have 1: "stays fd (\<lambda>x. snd (snd x)) (completion K (outside act) e (ready, n, d)) d"
    unfolding completion_def e prod.case
    by (auto intro!: stays_if stays_return stays_option stays_prod stays_then [OF stays_timer [OF assms]]
        stays_then [OF stays_dgram [OF key]] stays_then [OF stays_stream [OF assms key]])
  have any: "yields m (\<lambda>_. True)" for m :: "'a iocp io" by (simp add: yields_def)
  have 2: "yields (completion K (outside act) e (ready, n, d)) (\<lambda>x. fd \<notin> set (fst x))"
    unfolding completion_def e prod.case
    by (auto simp: Cons.prems(2) intro!: yields_if yields_return yields_case_option yields_case_prod yields_then [OF dgram]
        yields_then [OF any [of "dispatch_timer K r' t' d'" for r' t' d']]
        yields_then [OF any [of "stream_completion K r' f' s' o' b' d'" for r' f' s' o' b' d']])
  have 3: "stays fd (\<lambda>x. snd (snd x)) (completions K (outside act) es st) (snd (snd st))
      \<and> yields (completions K (outside act) es st) (\<lambda>x. fd \<notin> set (fst x))" if "fd \<notin> set (fst st)" for st
    using Cons.IH [of "fst st" "fst (snd st)" "snd (snd st)"] Cons.prems(1) that by simp
  show ?case unfolding completions.simps
    by (intro conjI stays_then_yields [OF 1 2] yields_then [OF 2]) (use 3 in blast)+
qed (simp add: stays_return yields_return)

lemma stays_poll:
  assumes "silent act" and "reports_none K fd" and "map_of (ip_states d) fd = Some s0" "\<not> ss_listener s0"
  shows "stays fd snd (iocp_poll K (outside act) t d) d"
proof -
  have rest: "stays fd snd (do {
       (ready, n1, d1) \<leftarrow> completions K (outside act) es ([], n, d0);
       (n2, d2) \<leftarrow> notify (outside act) ready (n1, d1);
       State_Monad.return (Inr n2 :: int result, d2) }) d0" if "\<forall>e \<in> set es. sint (fst e) \<noteq> fd" for es n and d0 :: "'a iocp"
    using stays_completions [OF assms(1) that, of "[]" K n d0]
    by (auto intro!: stays_then_yields [where g = "\<lambda>x. snd (snd x)" and P = "\<lambda>x. fd \<notin> set (fst x)"] stays_prod
        stays_then [OF notify_others [OF assms(1)]] stays_return)
  have answer: "yields (sys K (Sys_win (Dequeue h 256 x)))
      (\<lambda>r. \<forall>e \<in> set (if sr_rc r = 0 then [] else take 256 (sr_completions r)). sint (fst e) \<noteq> fd)" for h x
    using assms(2) unfolding reports_none_def yields_def run_sys by (simp del: split_paired_All) (meson in_set_takeD)
  have dequeue: "stays fd (\<lambda>_. d0) (sys K (Sys_win (Dequeue h 256 x))) d0" for h x and d0 :: "'a iocp"
    by (rule stays_sys) simp
  show ?thesis unfolding iocp_poll_def
    by (rule stays_then [OF stays_listeners [OF assms(1,3,4)]], rule stays_prod, rule stays_then_yields [OF dequeue answer],
        rule stays_then [OF stays_errno], rule stays_if) (auto intro!: stays_return rest)
qed

section \<open>A receive that is refused\<close>

definition refuses_receives :: "kernel \<Rightarrow> int \<Rightarrow> bool" where
  "refuses_receives K fd \<longleftrightarrow> (\<forall>tr ov n. sr_rc (K tr (Sys_win (Recv_overlapped fd ov n))) = -1
     \<and> (\<exists>e. sr_err (K tr (Sys_win (Recv_overlapped fd ov n))) = Some e \<and> e \<noteq> WSA_IO_PENDING))"

lemma yields_refused:
  "refuses_receives K fd \<Longrightarrow> yields (overlapped K (Recv_overlapped fd ov n)) (\<lambda>ok. \<not> ok)"
  unfolding refuses_receives_def yields_def overlapped_def
  by (auto simp: io_simps split: option.split) (metis option.distinct(1), metis option.inject)

lemma slots_refused:
  assumes "refuses_receives K fd"
  shows "ss_fd s = fd \<Longrightarrow> yields (arm_slots K is s) (\<lambda>s'. s' = s)"
proof (induction "is")
  case (Cons i "is")
  have "yields (arm_recv_from K i s) (\<lambda>s'. s' = s)"
    unfolding arm_recv_from_def Cons.prems
    by (auto intro!: yields_return yields_then [OF yields_refused [OF assms]] split: option.split)
  with Cons.IH [OF Cons.prems] show ?case unfolding arm_slots.simps by (auto elim!: yields_then)
qed (simp add: yields_return)

text \<open>What \<open>add\<close> leaves: no slot is under way, and no callback was called.\<close>

definition unarmed :: "int \<Rightarrow> 'cb invocation list \<Rightarrow> 'cb iocp \<Rightarrow> bool" where
  "unarmed fd calls d \<longleftrightarrow> keyed d \<and> calls_on fd d = calls
     \<and> (\<exists>s sl. map_of (ip_states d) fd = Some s \<and> \<not> ss_listener s \<and> ss_slots s = Some sl \<and> True \<notin> set (rs_pending sl))"

lemma arm_state_unarmed:
  assumes "refuses_receives K fd" and "keyed d" and "ss_fd s = fd" "ss_dgram s" "\<not> ss_listener s" and "has_event i ev_readable"
  shows "yields (arm_state K run fd i s d) (unarmed fd (calls_on fd d))"
proof -
  have slots: "yields (arm_slots K [0..<DGRAM_RECV_SLOTS] (s\<lparr>ss_slots := Some sl\<rparr>)) (\<lambda>s'. s' = s\<lparr>ss_slots := Some sl\<rparr>)" for sl
    by (rule slots_refused [OF assms(1)]) (simp add: assms(3))
  have new: "yields (new_slots K) (\<lambda>sl. True \<notin> set (rs_pending sl))"
    unfolding new_slots_def by (auto intro!: yields_intros)
  have "unarmed fd (calls_on fd d) (put_state fd (s\<lparr>ss_slots := Some sl\<rparr>) d)" if "True \<notin> set (rs_pending sl)" for sl
    using that assms(2-5) by (simp add: unarmed_def keyed_put)
  then show ?thesis unfolding arm_state_def
    by (simp add: assms(4,6)) (auto intro!: yields_then [OF new] yields_then [OF slots] yields_return)
qed

primrec polls :: "kernel \<Rightarrow> 'cb iocp_runner \<Rightarrow> int list \<Rightarrow> 'cb iocp \<Rightarrow> 'cb iocp io" where
  "polls K run [] d = State_Monad.return d"
| "polls K run (t # ts) d = do { x \<leftarrow> iocp_poll K run t d; polls K run ts (snd x) }"

lemma polls_unarmed:
  assumes "silent act" and "reports_none K fd"
  shows "unarmed fd calls d \<Longrightarrow> yields (polls K (outside act) ts d) (unarmed fd calls)"
proof (induction ts arbitrary: d)
  case (Cons t ts)
  then obtain s sl where s: "map_of (ip_states d) fd = Some s" "\<not> ss_listener s" "keyed d" by (auto simp: unarmed_def)
  have "yields (iocp_poll K (outside act) t d) (\<lambda>x. unarmed fd calls (snd x))"
    using stays_poll [OF assms s(1,2), of t] Cons.prems s(3) by (auto simp: yields_def stays_def unarmed_def)
  then show ?case unfolding polls.simps by (rule yields_then) (rule Cons.IH)
qed (simp add: yields_return)

text \<open>A datagram socket that can be associated with the port.\<close>

definition datagram_socket :: "kernel \<Rightarrow> int \<Rightarrow> bool" where
  "datagram_socket K fd \<longleftrightarrow> (\<forall>tr. sr_val (K tr (Sys_ctl (Getsockopt fd (SOL_SOCKET SO_ACCEPTCONN)))) = 0
     \<and> sr_rc (K tr (Sys_ctl (Getsockopt fd (SOL_SOCKET SO_TYPE)))) = 0
     \<and> sr_val (K tr (Sys_ctl (Getsockopt fd (SOL_SOCKET SO_TYPE)))) = SOCK_DGRAM
     \<and> (\<forall>h k. sr_rc (K tr (Sys_win (Associate fd h k))) \<noteq> 0))"

lemma add_unarmed:
  assumes "refuses_receives K fd" and "datagram_socket K fd" and "keyed d" and "has_event i ev_readable"
  shows "yields (iocp_add K run fd i cb d) (\<lambda>x. fst x = void_ok \<and> unarmed fd (calls_on fd d) (snd x))"
proof -
  let ?d = "d\<lparr>ip_nodes := Suc (ip_nodes d)\<rparr>"
  have new: "yields (new_state K fd i cb n) (\<lambda>s. ss_fd s = fd \<and> ss_dgram s \<and> \<not> ss_listener s)" for n
    using assms(2) unfolding yields_def new_state_def datagram_socket_def by (auto simp: io_simps Let_def)
  have assoc: "yields (associate K s ?d) (\<lambda>e. e = None)" if "ss_fd s = fd" for s
    using assms(2) that unfolding yields_def associate_def datagram_socket_def by (auto simp: io_simps)
  have arm: "yields (arm_state K run fd i s ?d) (unarmed fd (calls_on fd d))"
    if "ss_fd s = fd \<and> ss_dgram s \<and> \<not> ss_listener s" for s
    using arm_state_unarmed [OF assms(1), of ?d s i run] that assms(3,4) by (simp add: keyed_def calls_on_def)
  show ?thesis unfolding iocp_add_def Let_def
    by (rule yields_then [OF new], rule yields_then [OF assoc], blast, hypsubst, unfold option.case, rule yields_then [OF arm])
      (simp_all add: yields_return)
qed

section \<open>Emptying the queue of a datagram socket\<close>

primrec retrieves :: "nat \<Rightarrow> int \<Rightarrow> nat \<Rightarrow> 'cb iocp \<Rightarrow> (nat \<times> byte list \<times> sock_address) result list \<times> 'cb iocp" where
  "retrieves 0 fd len d = ([], d)"
| "retrieves (Suc k) fd len d =
     (case retrieve_dgram fd len d of (x, d1) \<Rightarrow> case retrieves k fd len d1 of (xs, d2) \<Rightarrow> (x # xs, d2))"

section \<open>Properties\<close>


lemma readable_events: "has_event ev_readable ev_readable" "\<not> has_event ev_readable ev_writable"
  by (simp_all add: has_event_def io_and_def ev_defs)

definition yes_kernel :: kernel where
  "yes_kernel tr c = sys_ok\<lparr>sr_rc := 1\<rparr>"

definition idle_iocp :: "'cb iocp" where
  "idle_iocp = \<lparr>ip_port = 1, ip_waker = waker_default, ip_states = [], ip_timers = [], ip_ids = 1, ip_firing = None,
     ip_nodes = 0, ip_dangling = False, ip_log = []\<rparr>"

definition idle_act :: "'cb invocation \<Rightarrow> unit io" where
  "idle_act i = State_Monad.return ()"

lemmas yes_defs = iocp_add_def new_state_def associate_def arm_state_def arm_read_def use_state_def overlapped_def deref_def
  put_state_def iocp_remove_def iocp_schedule_def read_ov_def yes_kernel_def sys_ok_def Let_def io_simps


text \<open>
  C18: the port and the timers of the dispatcher are accounted for. Whatever operations, polls and
  callbacks run, and whatever the system answers, its port and the timers of its table are open, none
  is released twice, also when a timer's callback cancels timers, and the destructor releases exactly
  these. As long as the 64-bit counter of timer identifiers has not wrapped around, nothing else of
  the dispatcher is open: what is left satisfies what the other code guarantees.
\<close>

theorem iocp_owns_handles:
  assumes "keeps_kept P run" and "reachable (ip_init P K) (ip_step P K run) (d, w)"
    and "run_state (iocp_drop K d) w = (x, w')"
  shows "ip_held d \<subseteq># live w \<and> live w' = live w - ip_held d \<and> clean (trace w') \<and> (ip_ids d \<le> 2 ^ 64 \<longrightarrow> P (live w'))"
proof -
  have inv: "kept P None d (live w)" "clean (trace w)" using ip_reachable_inv [OF assms(1,2)] by (simp_all add: ip_inv_def)
  then have o: "ip_owned d = ip_held d" by (simp add: kept_def ip_owned_def)
  then have "ip_held d \<subseteq># live w" using inv by (simp add: kept_def)
  then have "fd_wp (iocp_drop K d) (\<lambda>_ L'. L' = live w - ip_held d) (live w)" by (intro wp_iocp_drop) simp_all
  from fd_wpD [OF this assms(3)] inv o show ?thesis by (auto simp: kept_def)
qed

text \<open>A new dispatcher, and what one operation makes of it.\<close>

definition new_iocp :: "'cb iocp" where
  "new_iocp = idle_iocp\<lparr>ip_waker := waker_default\<lparr>wk_iocp := 1\<rparr>\<rparr>"

lemmas new_iocp_defs = iocp_new_def waker_create_def waker_move_assign_def waker_close_def waker_default_def waker_drop_def
  set_iocp_handle_def new_iocp_def idle_iocp_def sys_ok_def io_simps

lemma yes_new: "\<exists>w. run_state (iocp_new yes_kernel) start_world = (Inr new_iocp, w)"
  by (auto simp: yes_kernel_def new_iocp_defs)

lemma op_reachable:
  assumes "\<exists>w. run_state (iocp_new K) start_world = (Inr (new_iocp :: 'cb iocp), w)"
    and "\<And>w. \<exists>x w'. run_state (exec_op (iocp_methods K run) a (new_iocp :: 'cb iocp)) w = ((x, d), w')"
  obtains w where "reachable (ip_init (\<lambda>F. F = {#}) K) (ip_step (\<lambda>F. F = {#}) K run) (d, w)"
proof -
  obtain w where "run_state (iocp_new K) start_world = (Inr (new_iocp :: 'cb iocp), w)" using assms(1) by blast
  then have "ip_init (\<lambda>F. F = {#}) K (new_iocp :: 'cb iocp, w)"
    by (auto simp: ip_init_def start_world_def intro!: exI [of _ start_world])
  then have r: "reachable (ip_init (\<lambda>F. F = {#}) K) (ip_step (\<lambda>F. F = {#}) K run) (new_iocp, w)" by (rule reach_init)
  obtain x w' where "run_state (exec_op (iocp_methods K run) a new_iocp) w = ((x, d), w')" using assms(2) by blast
  from reach_step [OF r ip_op [OF this]] show ?thesis by (rule that)
qed

theorem iocp_owns_handles_witness:
  "\<exists>(d :: nat iocp) w w'. ip_held d = {#1, 1#} \<and> ip_held d \<subseteq># live w \<and> live w' = {#} \<and> clean (trace w')"
proof -
  let ?run = "nested yes_kernel (\<lambda>i. [Op_schedule 5 True (3 :: nat)]) 2"
  let ?d = "new_iocp\<lparr>ip_ids := 2, ip_timers := [(1, \<lparr>wt_id = 1, wt_callback = 6 :: nat, wt_repeating = False, wt_iocp = 1, wt_handle = 1\<rparr>)]\<rparr>"
  obtain w where r: "reachable (ip_init (\<lambda>F. F = {#}) yes_kernel) (ip_step (\<lambda>F. F = {#}) yes_kernel ?run) (?d, w)"
    by (rule op_reachable [OF yes_new, of ?run "Op_schedule 20 False 6" ?d]) (simp_all add: yes_defs new_iocp_def idle_iocp_def)
  obtain x w' where "run_state (iocp_drop yes_kernel ?d) w = (x, w')" by (metis prod.exhaust)
  note owns = iocp_owns_handles [OF nested_kept r this]
  have "ip_ids ?d \<le> 2 ^ 64" by simp
  with owns have "ip_held ?d \<subseteq># live w \<and> live w' = {#} \<and> clean (trace w')" by blast
  moreover have "ip_held ?d = {#1, 1#}" by (simp add: ip_held_def new_iocp_def idle_iocp_def)
  ultimately show ?thesis by blast
qed




definition dgram_state :: "bool \<Rightarrow> (byte list \<times> sock_address) list \<Rightarrow> nat per_socket_state" where
  "dgram_state p q = \<lparr>ss_node = 0, ss_base = 0, ss_fd = 7, ss_callback = 5, ss_interest = ev_readable, ss_read_pending = False,
     ss_write_pending = False, ss_listener = False, ss_dgram = True,
     ss_slots = Some \<lparr>rs_base = 0, rs_pending = replicate DGRAM_RECV_SLOTS p\<rparr>, ss_queue = q, ss_notified = False\<rparr>"

definition one_datagram :: kernel where
  "one_datagram tr c = (case c of
     Sys_win Allocate \<Rightarrow> sys_ok
   | Sys_win _ \<Rightarrow> sys_ok\<lparr>sr_rc := 1, sr_val := 2, sr_data := [65, 66], sr_completions := [(7, sizeof_recv_slot, 2)]\<rparr>
   | Sys_ctl (Getsockopt _ (SOL_SOCKET SO_TYPE)) \<Rightarrow> sys_ok\<lparr>sr_val := SOCK_DGRAM\<rparr>
   | _ \<Rightarrow> sys_ok)"

definition dgram_iocp :: "nat iocp" where
  "dgram_iocp = new_iocp\<lparr>ip_nodes := 1, ip_states := [(7, dgram_state True [])]\<rparr>"

lemma idle_silent: "silent idle_act"
  by (simp add: silent_def idle_act_def)

lemmas datagram_defs = one_datagram_def dgram_state_def dgram_iocp_def new_iocp_def idle_iocp_def arm_recv_from_def overlapped_def
  set_pending_def sys_ok_def readable_events DGRAM_RECV_SLOTS_def upt_conv_Cons slot_ov_def sizeof_recv_slot_def Let_def io_simps

lemma one_datagram_new: "\<exists>w. run_state (iocp_new one_datagram) start_world = (Inr new_iocp, w)"
  by (auto simp: one_datagram_def new_iocp_defs)

lemma one_datagram_add:
  "\<exists>x w'. run_state (exec_op (iocp_methods one_datagram run) (Op_add 7 ev_readable 5) new_iocp) w = ((x, dgram_iocp), w')"
  by (simp add: datagram_defs iocp_add_def new_state_def associate_def arm_state_def new_slots_def put_state_def numeral_eq_Suc)

lemma one_datagram_run:
  "\<exists>d' w' a. run_state (iocp_poll one_datagram (outside idle_act) 0 dgram_iocp) start_world
     = ((Inr 1, d'), w') \<and> results 7 w' = [([65, 66], a)]"
  by (simp add: iocp_poll_def poll_listeners_def polled_listeners_def has_listeners_def wait_timeout_def completion_def
      dgram_completion_def find_slot_def completed_dgram_def notify_one_def put_state_def iocp_call_def outside_def idle_act_def
      results_def start_world_def TIMER_KEY_def WAKER_KEY_def datagram_defs)


text \<open>
  Buffered datagrams are a queue: calling \<open>retrieve_dgram\<close> until it answers \<open>would_block\<close> returns
  every buffered datagram with its sender, oldest first, each cut to the caller's buffer, and leaves the
  queue empty.
\<close>

theorem iocp_retrieve_fifo:
  assumes "map_of (ip_states d) fd = Some s" and "ss_dgram s"
  shows "retrieves (Suc (length (ss_queue s))) fd len d =
    (map (\<lambda>(data, source). Inr (min len (length data), take len data, source)) (ss_queue s) @ [Inl (make_error_code would_block)],
     put_state fd (s\<lparr>ss_queue := []\<rparr>) d)"
  using assms
proof (induction "ss_queue s" arbitrary: s d)
  case Nil
  then have "s\<lparr>ss_queue := []\<rparr> = s" by (cases s) simp
  with Nil show ?case by (simp add: retrieve_dgram_def put_same)
next
  case (Cons x q)
  let ?s = "s\<lparr>ss_queue := q\<rparr>"
  have "retrieve_dgram fd len d = (Inr (min len (length (fst x)), take len (fst x), snd x), put_state fd ?s d)"
    using Cons.prems Cons.hyps(2) [symmetric] by (simp add: retrieve_dgram_def Let_def min_def split: prod.split)
  moreover have "retrieves (Suc (length (ss_queue ?s))) fd len (put_state fd ?s d) =
      (map (\<lambda>(data, source). Inr (min len (length data), take len data, source)) q @ [Inl (make_error_code would_block)],
       put_state fd (s\<lparr>ss_queue := []\<rparr>) d)"
    using Cons.hyps(1) [of ?s "put_state fd ?s d"] Cons.prems by simp
  ultimately show ?case using Cons.hyps(2) [symmetric] by (simp add: case_prod_beta del: retrieves.simps) (simp add: case_prod_beta)
qed

theorem iocp_retrieve_fifo_witness:
  "fst (retrieves 2 7 3 (idle_iocp\<lparr>ip_states := [(7, dgram_state True [([1, 2, 3, 4], sock_address_default)])]\<rparr>))
     = [Inr (3, [1, 2, 3], sock_address_default), Inl (make_error_code would_block)]"
  using iocp_retrieve_fifo [of "idle_iocp\<lparr>ip_states := [(7, dgram_state True [([1, 2, 3, 4], sock_address_default)])]\<rparr>" 7
      "dgram_state True [([1, 2, 3, 4], sock_address_default)]" 3]
  by (simp add: dgram_state_def numeral_2_eq_2)

text \<open>
  A receive that the system refuses is never tried again. A datagram socket is added with success,
  but none of its receives could be started (\<open>arm_recv_from\<close> drops the error, expecting the next poll to
  retry): however often the dispatcher is polled, with no completion for the socket none of its slots
  is armed and its callback is never called, neither for data nor for the error.
\<close>

theorem iocp_refused_receive_deaf:
  assumes "silent act" and "datagram_socket K fd" and "refuses_receives K fd" and "reports_none K fd"
    and "keyed d" and "has_event i ev_readable"
    and "run_state (iocp_add K (outside act) fd i cb d) w = ((r, d1), w1)"
    and "run_state (polls K (outside act) ts d1) w1 = (d2, w2)"
  shows "r = void_ok \<and> calls_on fd d2 = calls_on fd d
    \<and> (\<exists>s sl. map_of (ip_states d2) fd = Some s \<and> ss_slots s = Some sl \<and> True \<notin> set (rs_pending sl))"
proof -
  have 1: "r = void_ok" "unarmed fd (calls_on fd d) d1"
    using yieldsD [OF add_unarmed [OF assms(3,2,5,6)], of "outside act" cb w] by (simp_all add: assms(7))
  from yieldsD [OF polls_unarmed [OF assms(1,4) 1(2)], of ts w1] 1(1) show ?thesis by (auto simp: assms(8) unarmed_def)
qed

definition refusing_kernel :: kernel where
  "refusing_kernel tr c = (case c of
     Sys_win (Recv_overlapped _ _ _) \<Rightarrow> sys_fail 10055
   | Sys_win _ \<Rightarrow> sys_ok\<lparr>sr_rc := 1\<rparr>
   | Sys_ctl (Getsockopt _ (SOL_SOCKET SO_TYPE)) \<Rightarrow> sys_ok\<lparr>sr_val := SOCK_DGRAM\<rparr>
   | _ \<Rightarrow> sys_ok)"

theorem iocp_refused_receive_deaf_witness:
  "\<exists>d1 w1 d2 w2. run_state (iocp_add refusing_kernel (outside idle_act) 7 ev_readable (5 :: nat) idle_iocp) start_world = ((void_ok, d1), w1)
     \<and> run_state (polls refusing_kernel (outside idle_act) [0, 10, 20] d1) w1 = (d2, w2) \<and> calls_on 7 d2 = []"
proof -
  let ?K = refusing_kernel
  have k: "datagram_socket ?K 7" "refuses_receives ?K 7" "reports_none ?K 7"
    by (simp_all add: datagram_socket_def refuses_receives_def reports_none_def refusing_kernel_def sys_fail_def sys_ok_def WSA_IO_PENDING_def)
  have d: "keyed (idle_iocp :: nat iocp)" "calls_on 7 (idle_iocp :: nat iocp) = []" "has_event ev_readable ev_readable"
    by (simp_all add: keyed_def calls_on_def idle_iocp_def readable_events)
  obtain r d1 w1 where 1: "run_state (iocp_add ?K (outside idle_act) 7 ev_readable (5 :: nat) idle_iocp) start_world = ((r, d1), w1)"
    by (metis prod.exhaust)
  obtain d2 w2 where 2: "run_state (polls ?K (outside idle_act) [0, 10, 20] d1) w1 = (d2, w2)" by (metis prod.exhaust)
  from iocp_refused_receive_deaf [OF idle_silent k d(1,3) 1 2] 1 2 d(2) show ?thesis by auto
qed

end
