(* ===== verification/Udp_Mux.thy ===== *)
theory Udp_Mux
  imports Udp_Peer Iocp
begin

text \<open>
  Peer sockets on Windows: the demultiplexer \<open>src/socket/udp_mux.hpp\<close> and the half of
  \<open>src/socket/udp_peer.cpp\<close> that rests on it. A demultiplexer owns one bound socket, a completion port
  and a thread; it hands every datagram to the peer socket registered for its sender. The registry has
  one demultiplexer for each local address.

  Demultiplexers and the \<open>impl\<close> objects of peer sockets are lists; shared, weak and raw pointers are
  indices into them. A demultiplexer is owned by the peer sockets that use it and by the closure of its
  own thread. \<open>mx_log\<close> is the history of received datagrams with the callback that was looked up for
  each, \<open>mp_read\<close> what \<open>recv\<close> has taken. Two outcomes are recorded in the state: \<open>us_dangling\<close>, a callback
  that ran on a destroyed object, and \<open>us_locked\<close>, a thread that waits for \<open>registry_mutex_\<close> while it
  holds it, so that the lock is never released.
\<close>

section \<open>State\<close>

text \<open>The template parameter: what the address family provides.\<close>

record 'a mux_family =
  mf_default :: 'a
  mf_af :: address_family
  mf_eq :: "'a \<Rightarrow> 'a \<Rightarrow> bool"
  mf_to_sock :: "'a \<Rightarrow> sock_address"
  mf_of_sock :: "sock_address \<Rightarrow> 'a"

definition mux4 :: "inet4_address mux_family" where
  "mux4 = \<lparr>mf_default = inet4_default Windows, mf_af = ipv4, mf_eq = inet4_eq, mf_to_sock = inet4_to_sock, mf_of_sock = inet4_of_sock\<rparr>"

definition mux6 :: "inet6_address mux_family" where
  "mux6 = \<lparr>mf_default = inet6_default Windows, mf_af = ipv6, mf_eq = inet6_eq, mf_to_sock = inet6_to_sock, mf_of_sock = inet6_of_sock\<rparr>"

definition STOP_KEY :: u64 where "STOP_KEY = NOT 0"
definition mux_buffer :: nat where "mux_buffer = 65536"

text \<open>The callback that \<open>dispatch\<close> has copied: of a peer socket, or the catch-all handler.\<close>

datatype mux_target = To_peer nat | To_catch_all nat | To_nobody

text \<open>Where the thread is: at the head of its loop, in the array of entries, in a callback, at its end.\<close>

datatype 'a mux_point = Mx_head | Mx_entries "u64 list" | Mx_call mux_target "byte list" 'a "u64 list" | Mx_ended

record 'a udp_mux =
  mx_socket :: socket
  mx_local :: 'a
  mx_peers :: "('a \<times> nat) list"
  mx_catch_all :: "nat option"
  mx_ov :: u64
  mx_port :: int
  mx_stop :: bool
  mx_pc :: "'a mux_point"
  mx_log :: "('a \<times> byte list \<times> mux_target) list"
  mx_unknown :: "(nat \<times> byte list \<times> 'a) list"

record 'a mux_peer =
  mp_mux :: nat
  mp_addr :: 'a
  mp_queue :: "byte list list"
  mp_closed :: bool
  mp_freed :: bool
  mp_read :: "byte list list"

record 'a mux_sys =
  us_world :: world
  us_registry :: "('a \<times> nat) list"
  us_muxes :: "'a udp_mux list"
  us_impls :: "'a mux_peer list"
  us_locked :: bool
  us_dangling :: bool
  us_terminated :: bool

definition set_mux :: "nat \<Rightarrow> ('a udp_mux \<Rightarrow> 'a udp_mux) \<Rightarrow> 'a mux_sys \<Rightarrow> 'a mux_sys" where
  "set_mux m f S = S\<lparr>us_muxes := (us_muxes S)[m := f (us_muxes S ! m)]\<rparr>"

definition set_impl :: "nat \<Rightarrow> ('a mux_peer \<Rightarrow> 'a mux_peer) \<Rightarrow> 'a mux_sys \<Rightarrow> 'a mux_sys" where
  "set_impl i f S = S\<lparr>us_impls := (us_impls S)[i := f (us_impls S ! i)]\<rparr>"

text \<open>No shared pointer to the demultiplexer is left.\<close>

definition mux_expired :: "nat \<Rightarrow> 'a mux_sys \<Rightarrow> bool" where
  "mux_expired m S \<longleftrightarrow> mx_pc (us_muxes S ! m) = Mx_ended \<and> list_all (\<lambda>ob. mp_mux ob = m \<longrightarrow> mp_freed ob) (us_impls S)"

section \<open>Creation and destruction\<close>

text \<open>Start the next overlapped receive; an error is dropped.\<close>

definition arm_overlapped_recv :: "kernel \<Rightarrow> 'a udp_mux \<Rightarrow> unit io" where
  "arm_overlapped_recv K x = do {
     _ \<leftarrow> overlapped K (Recv_overlapped (s_handle (mx_socket x)) (mx_ov x) mux_buffer);
     State_Monad.return ()
   }"

text \<open>The destructor up to the point where it takes \<open>registry_mutex_\<close>; its thread has ended.\<close>

definition mux_shutdown :: "kernel \<Rightarrow> 'a udp_mux \<Rightarrow> 'a udp_mux io" where
  "mux_shutdown K x = do {
     _ \<leftarrow> (if is_open (mx_socket x) \<and> mx_port x \<noteq> 0 then sys K (Sys_win (Cancel_io (s_handle (mx_socket x))))
          else State_Monad.return sys_ok);
     _ \<leftarrow> (if mx_port x \<noteq> 0 then sys K (Sys_win (Post_packet (mx_port x) STOP_KEY 0)) else State_Monad.return sys_ok);
     _ \<leftarrow> (if mx_port x \<noteq> 0 then sys K (Sys_win (Close_handle (mx_port x))) else State_Monad.return sys_ok);
     State_Monad.return (x\<lparr>mx_stop := True, mx_port := 0\<rparr>)
   }"

text \<open>
  A failing exit of \<open>get_or_create\<close>: the object is destroyed while the lock of the registry is held, so
  its destructor waits for that lock for ever. The flag says whether it has an entry in the registry.
\<close>

definition mux_abort :: "kernel \<Rightarrow> 'a udp_mux \<Rightarrow> bool \<Rightarrow> ('a udp_mux \<times> bool + 'a udp_mux) io" where
  "mux_abort K x registered = do {
     (_, s) \<leftarrow> socket_close K Windows (mx_socket x);
     x' \<leftarrow> mux_shutdown K (x\<lparr>mx_socket := s\<rparr>);
     State_Monad.return (Inl (x'\<lparr>mx_pc := Mx_ended\<rparr>, registered))
   }"

text \<open>The bound socket gets a private port and its first receive; it has its entry in the registry by now.\<close>

definition mux_attach :: "kernel \<Rightarrow> 'a udp_mux \<Rightarrow> ('a udp_mux \<times> bool + 'a udp_mux) io" where
  "mux_attach K x = do {
     p \<leftarrow> sys K (Sys_win Create_port);
     if sr_rc p = 0 then mux_abort K x True
     else do {
       h \<leftarrow> sys K (Sys_win (Associate (s_handle (mx_socket x)) (sr_rc p) (of_int (s_handle (mx_socket x)))));
       if sr_rc h = 0 then do {
         _ \<leftarrow> sys K (Sys_win (Close_handle (sr_rc p)));
         mux_abort K x True
       }
       else do {
         _ \<leftarrow> arm_overlapped_recv K x;
         State_Monad.return (Inr (x\<lparr>mx_port := sr_rc p\<rparr>))
       }
     }
   }"

definition mux_bind :: "'a mux_family \<Rightarrow> kernel \<Rightarrow> 'a \<Rightarrow> socket_options \<Rightarrow> 'a udp_mux \<Rightarrow> ('a udp_mux \<times> bool + 'a udp_mux) io" where
  "mux_bind F K loc opts x = do {
     ar \<leftarrow> apply_to K Windows (s_handle (mx_socket x)) opts;
     (case ar of
        Inl _ \<Rightarrow> mux_abort K x False
      | Inr _ \<Rightarrow> do {
          br \<leftarrow> socket_bind K Windows (mx_socket x) (mf_to_sock F loc);
          if \<not> is_ok br then mux_abort K x False else mux_attach K (x\<lparr>mx_local := loc\<rparr>)
        })
   }"

definition mux_new :: "'a mux_family \<Rightarrow> u64 \<Rightarrow> 'a udp_mux" where
  "mux_new F ov = \<lparr>mx_socket = socket_default, mx_local = mf_default F, mx_peers = [], mx_catch_all = None, mx_ov = ov,
     mx_port = 0, mx_stop = False, mx_pc = Mx_head, mx_log = [], mx_unknown = []\<rparr>"

definition mux_open :: "'a mux_family \<Rightarrow> kernel \<Rightarrow> 'a \<Rightarrow> socket_options \<Rightarrow> ('a udp_mux \<times> bool + 'a udp_mux) io" where
  "mux_open F K loc opts = do {
     a \<leftarrow> sys K (Sys_win Allocate);
     let x = mux_new F (of_int (sr_val a));
     r \<leftarrow> socket_create K Windows (mf_af F) dgram 0;
     (case r of
        Inl _ \<Rightarrow> mux_abort K x False
      | Inr s \<Rightarrow> do {
          (s1, _) \<leftarrow> socket_move_assign K Windows False socket_default s;
          mux_bind F K loc opts (x\<lparr>mx_socket := s1\<rparr>)
        })
   }"

definition open_mux :: "'a mux_family \<Rightarrow> kernel \<Rightarrow> 'a \<Rightarrow> socket_options \<Rightarrow> 'a mux_sys \<Rightarrow> nat option \<times> 'a mux_sys" where
  "open_mux F K loc opts S =
     (let n = length (us_muxes S)
      in case run_state (mux_open F K loc opts) (us_world S) of
           (Inl (x, registered), w) \<Rightarrow>
             (None, S\<lparr>us_world := w, us_muxes := us_muxes S @ [x],
                us_registry := (if registered then us_registry S @ [(loc, n)] else us_registry S), us_locked := True\<rparr>)
         | (Inr x, w) \<Rightarrow>
             (Some n, S\<lparr>us_world := w, us_muxes := us_muxes S @ [x], us_registry := us_registry S @ [(loc, n)]\<rparr>))"

text \<open>\<open>None\<close>: the call does not return.\<close>

definition get_or_create :: "'a mux_family \<Rightarrow> kernel \<Rightarrow> 'a \<Rightarrow> socket_options \<Rightarrow> 'a mux_sys \<Rightarrow> nat option \<times> 'a mux_sys" where
  "get_or_create F K loc opts S =
     (if us_locked S then (None, S)
      else case find (\<lambda>e. mf_eq F (fst e) loc) (us_registry S) of
          None \<Rightarrow> open_mux F K loc opts S
        | Some e \<Rightarrow>
            if \<not> mux_expired (snd e) S then (Some (snd e), S)
            else open_mux F K loc opts (S\<lparr>us_registry := filter (\<lambda>e. \<not> mf_eq F (fst e) loc) (us_registry S)\<rparr>))"

text \<open>The destructor, once the last pointer is gone; it blocks when the lock of the registry is not free.\<close>

definition mux_destroy :: "'a mux_family \<Rightarrow> kernel \<Rightarrow> nat \<Rightarrow> 'a mux_sys \<Rightarrow> 'a mux_sys" where
  "mux_destroy F K m S =
     (case run_state (mux_shutdown K (us_muxes S ! m)) (us_world S) of
        (x, w) \<Rightarrow>
          let S1 = S\<lparr>us_world := w, us_muxes := (us_muxes S)[m := x]\<rparr>
          in if us_locked S then S1
             else (case run_state (socket_close K Windows (mx_socket x)) w of
                 ((_, s), w') \<Rightarrow> S1\<lparr>us_world := w', us_muxes := (us_muxes S)[m := x\<lparr>mx_socket := s\<rparr>],
                   us_registry := filter (\<lambda>e. \<not> (mf_eq F (fst e) (mx_local x) \<and> mux_expired (snd e) S)) (us_registry S)\<rparr>))"

section \<open>Peers\<close>

definition mux_find :: "'a mux_family \<Rightarrow> 'a \<Rightarrow> 'a udp_mux \<Rightarrow> nat option" where
  "mux_find F a x = map_option snd (find (\<lambda>e. mf_eq F (fst e) a) (mx_peers x))"

definition register_peer :: "'a mux_family \<Rightarrow> nat \<Rightarrow> 'a \<Rightarrow> nat \<Rightarrow> 'a mux_sys \<Rightarrow> rvoid \<times> 'a mux_sys" where
  "register_peer F m peer i S =
     (if mux_find F peer (us_muxes S ! m) \<noteq> None then (make_error_code already_bound, S)
      else (void_ok, set_mux m (\<lambda>x. x\<lparr>mx_peers := mx_peers x @ [(peer, i)]\<rparr>) S))"

definition deregister_peer :: "'a mux_family \<Rightarrow> nat \<Rightarrow> 'a \<Rightarrow> 'a mux_sys \<Rightarrow> 'a mux_sys" where
  "deregister_peer F m peer S =
     set_mux m (\<lambda>x. x\<lparr>mx_peers := filter (\<lambda>e. \<not> mf_eq F (fst e) peer) (mx_peers x)\<rparr>) S"

definition set_catch_all :: "nat \<Rightarrow> nat option \<Rightarrow> 'a mux_sys \<Rightarrow> 'a mux_sys" where
  "set_catch_all m cb S = set_mux m (\<lambda>x. x\<lparr>mx_catch_all := cb\<rparr>) S"

definition mux_send_to :: "'a mux_family \<Rightarrow> kernel \<Rightarrow> 'a udp_mux \<Rightarrow> byte list \<Rightarrow> 'a \<Rightarrow> nat result io" where
  "mux_send_to F K x data dest =
     (if \<not> is_open (mx_socket x) then State_Monad.return (Inl (make_error_code invalid_state))
      else do {
        r \<leftarrow> sys K (Sys_data (Sendto (s_handle (mx_socket x)) (take (min (length data) INT_MAX) data) 0
               (sa_storage (mf_to_sock F dest)) (sa_len (mf_to_sock F dest))));
        if sr_rc r < 0 then do { ec \<leftarrow> os_failure Windows; State_Monad.return (Inl ec) }
        else State_Monad.return (Inr (nat (sr_rc r)))
      })"

text \<open>The destructor of \<open>impl\<close>.\<close>

definition impl_destroy :: "'a mux_family \<Rightarrow> kernel \<Rightarrow> nat \<Rightarrow> 'a mux_sys \<Rightarrow> 'a mux_sys" where
  "impl_destroy F K i S =
     (let ob = us_impls S ! i;
          S1 = set_impl i (\<lambda>ob. ob\<lparr>mp_closed := True, mp_freed := True\<rparr>) (deregister_peer F (mp_mux ob) (mp_addr ob) S)
      in if mux_expired (mp_mux ob) S1 then mux_destroy F K (mp_mux ob) S1 else S1)"

text \<open>\<open>create\<close>; a peer socket that could not be registered is destroyed. \<open>None\<close>: the call does not return.\<close>

definition mux_peer_create ::
    "'a mux_family \<Rightarrow> kernel \<Rightarrow> 'a \<Rightarrow> 'a \<Rightarrow> socket_options \<Rightarrow> 'a mux_sys \<Rightarrow> nat result option \<times> 'a mux_sys" where
  "mux_peer_create F K loc peer opts S =
     (case get_or_create F K loc opts S of
        (None, S1) \<Rightarrow> (None, S1)
      | (Some m, S1) \<Rightarrow>
          let i = length (us_impls S1);
              S2 = S1\<lparr>us_impls := us_impls S1 @
                [\<lparr>mp_mux = m, mp_addr = peer, mp_queue = [], mp_closed = False, mp_freed = False, mp_read = []\<rparr>]\<rparr>
          in case register_peer F m peer i S2 of
               (ec, S3) \<Rightarrow> if \<not> is_ok ec then (Some (Inl ec), impl_destroy F K i S3) else (Some (Inr i), S3))"

text \<open>A peer socket is \<open>None\<close> (default constructed or moved from) or the index of its \<open>impl\<close>.\<close>

definition mux_peer_send ::
    "'a mux_family \<Rightarrow> kernel \<Rightarrow> nat option \<Rightarrow> byte list \<Rightarrow> 'a mux_sys \<Rightarrow> nat result \<times> 'a mux_sys" where
  "mux_peer_send F K ps data S =
     (case ps of
        None \<Rightarrow> (Inl (make_error_code invalid_state), S)
      | Some i \<Rightarrow>
          (case run_state (mux_send_to F K (us_muxes S ! mp_mux (us_impls S ! i)) data (mp_addr (us_impls S ! i))) (us_world S) of
             (r, w) \<Rightarrow> (r, S\<lparr>us_world := w\<rparr>)))"

text \<open>\<open>None\<close>: the call waits.\<close>

definition mux_peer_recv :: "nat option \<Rightarrow> nat \<Rightarrow> 'a mux_sys \<Rightarrow> ((nat \<times> byte list) result \<times> 'a mux_sys) option" where
  "mux_peer_recv ps len S =
     (case ps of
        None \<Rightarrow> Some (Inl (make_error_code invalid_state), S)
      | Some i \<Rightarrow>
          (case mp_queue (us_impls S ! i) of
             [] \<Rightarrow> if mp_closed (us_impls S ! i) then Some (Inl (make_error_code invalid_state), S) else None
           | front # rest \<Rightarrow>
               Some (Inr (min len (length front), take (min len (length front)) front),
                 set_impl i (\<lambda>ob. ob\<lparr>mp_queue := rest, mp_read := mp_read ob @ [front]\<rparr>) S)))"

definition mux_peer_handle :: "nat option \<Rightarrow> 'a mux_sys \<Rightarrow> socket_t" where
  "mux_peer_handle ps S =
     (case ps of None \<Rightarrow> invalid_socket | Some i \<Rightarrow> s_handle (mx_socket (us_muxes S ! mp_mux (us_impls S ! i))))"

definition mux_peer_is_open :: "nat option \<Rightarrow> 'a mux_sys \<Rightarrow> bool" where
  "mux_peer_is_open ps S = (case ps of None \<Rightarrow> False | Some i \<Rightarrow> \<not> mp_closed (us_impls S ! i))"

section \<open>The receiving thread\<close>

definition mux_lookup :: "'a mux_family \<Rightarrow> 'a \<Rightarrow> 'a udp_mux \<Rightarrow> mux_target" where
  "mux_lookup F src x =
     (case mux_find F src x of
        Some i \<Rightarrow> To_peer i
      | None \<Rightarrow> (case mx_catch_all x of Some c \<Rightarrow> To_catch_all c | None \<Rightarrow> To_nobody))"

text \<open>The call, after the lock was released. The callback of a peer socket appends to its queue.\<close>

definition mux_invoke :: "nat \<Rightarrow> mux_target \<Rightarrow> byte list \<Rightarrow> 'a \<Rightarrow> 'a mux_sys \<Rightarrow> 'a mux_sys" where
  "mux_invoke m t data src S =
     (case t of
        To_peer i \<Rightarrow>
          if mp_freed (us_impls S ! i) then S\<lparr>us_dangling := True\<rparr>
          else set_impl i (\<lambda>ob. ob\<lparr>mp_queue := mp_queue ob @ [data]\<rparr>) S
      | To_catch_all c \<Rightarrow> set_mux m (\<lambda>x. x\<lparr>mx_unknown := mx_unknown x @ [(c, data, src)]\<rparr>) S
      | To_nobody \<Rightarrow> S)"

definition set_pc :: "nat \<Rightarrow> 'a mux_point \<Rightarrow> 'a mux_sys \<Rightarrow> 'a mux_sys" where
  "set_pc m pc S = set_mux m (\<lambda>x. x\<lparr>mx_pc := pc\<rparr>) S"

definition mux_rearm :: "kernel \<Rightarrow> nat \<Rightarrow> 'a mux_sys \<Rightarrow> 'a mux_sys" where
  "mux_rearm K m S =
     (if mx_stop (us_muxes S ! m) then S
      else S\<lparr>us_world := final_world (arm_overlapped_recv K (us_muxes S ! m)) (us_world S)\<rparr>)"

text \<open>The end of the thread. When its closure has the last pointer, the destructor joins its own thread.\<close>

definition thread_end :: "nat \<Rightarrow> 'a mux_sys \<Rightarrow> 'a mux_sys" where
  "thread_end m S = (let S1 = set_pc m Mx_ended S in if mux_expired m S1 then S1\<lparr>us_terminated := True\<rparr> else S1)"

definition mux_wait :: "kernel \<Rightarrow> nat \<Rightarrow> 'a mux_sys \<Rightarrow> 'a mux_sys" where
  "mux_wait K m S =
     (case run_state (sys K (Sys_win (Dequeue (mx_port (us_muxes S ! m)) 16 INFINITE))) (us_world S) of
        (r, w) \<Rightarrow> let S1 = S\<lparr>us_world := w\<rparr>
                  in if sr_rc r = 0 then S1 else set_pc m (Mx_entries (map fst (take 16 (sr_completions r)))) S1)"

definition mux_entry :: "'a mux_family \<Rightarrow> kernel \<Rightarrow> nat \<Rightarrow> u64 list \<Rightarrow> 'a mux_sys \<Rightarrow> 'a mux_sys" where
  "mux_entry F K m ks S =
     (let x = us_muxes S ! m
      in case run_state (sys K (Sys_win (Overlapped_result (s_handle (mx_socket x)) (mx_ov x)))) (us_world S) of
           (r, w) \<Rightarrow>
             let S1 = S\<lparr>us_world := w\<rparr>
             in case completed_dgram r of
                  [] \<Rightarrow> set_pc m (Mx_entries ks) (mux_rearm K m S1)
                | (data, sa) # _ \<Rightarrow>
                    let src = mf_of_sock F sa; t = mux_lookup F src x
                    in set_mux m (\<lambda>x. x\<lparr>mx_log := mx_log x @ [(src, data, t)], mx_pc := Mx_call t data src ks\<rparr>) S1)"

text \<open>One step of \<open>iocp_loop\<close>: a wait, an entry up to the lookup of its callback, or a callback.\<close>

definition mux_thread :: "'a mux_family \<Rightarrow> kernel \<Rightarrow> nat \<Rightarrow> 'a mux_sys \<Rightarrow> 'a mux_sys" where
  "mux_thread F K m S =
     (case mx_pc (us_muxes S ! m) of
        Mx_head \<Rightarrow> if mx_stop (us_muxes S ! m) then thread_end m S else mux_wait K m S
      | Mx_entries [] \<Rightarrow> set_pc m Mx_head S
      | Mx_entries (k # ks) \<Rightarrow> if k = STOP_KEY then thread_end m S else mux_entry F K m ks S
      | Mx_call t data src ks \<Rightarrow> set_pc m (Mx_entries ks) (mux_rearm K m (mux_invoke m t data src S))
      | Mx_ended \<Rightarrow> S)"

text \<open>\<open>on_readable\<close>, for a demultiplexer that is watched by an event loop; \<open>None\<close> is a loop that does not end.\<close>

partial_function (option) mux_drain :: "'a mux_family \<Rightarrow> kernel \<Rightarrow> nat \<Rightarrow> 'a mux_sys \<Rightarrow> 'a mux_sys option" where
  "mux_drain F K m S =
     (case run_state (sys K (Sys_data (Recvfrom (s_handle (mx_socket (us_muxes S ! m))) mux_buffer 0 sizeof_storage))) (us_world S) of
        (r, w) \<Rightarrow>
          let S1 = S\<lparr>us_world := w\<rparr>
          in if sr_rc r < 0 then Some S1
             else if sr_rc r = 0 then mux_drain F K m S1
             else (let data = take (nat (sr_rc r)) (sr_data r); src = mf_of_sock F (received_address r);
                       t = mux_lookup F src (us_muxes S ! m)
                   in mux_drain F K m (mux_invoke m t data src S1)))"

end
