(* ===== verification/Udp_Mux_Runs.thy ===== *)
theory Udp_Mux_Runs
  imports Udp_Mux
begin

text \<open>
  The demultiplexers of a program under all interleavings of their threads with the users of the peer
  sockets: what is open, who is registered, and which datagrams a peer socket gets.
\<close>

section \<open>Steps\<close>

text \<open>
  A step is a call on a peer socket, which is alive, a change of the catch-all handler or a step of a
  thread. Nothing happens after the program was terminated.
\<close>

inductive mux_act :: "'a mux_family \<Rightarrow> kernel \<Rightarrow> 'a mux_sys \<Rightarrow> 'a mux_sys \<Rightarrow> bool" for F K where
  us_create: "mux_peer_create F K loc peer opts S = (r, S') \<Longrightarrow> mux_act F K S S'"
| us_send: "i < length (us_impls S) \<Longrightarrow> \<not> mp_freed (us_impls S ! i) \<Longrightarrow> mux_peer_send F K (Some i) data S = (r, S') \<Longrightarrow> mux_act F K S S'"
| us_recv: "i < length (us_impls S) \<Longrightarrow> \<not> mp_freed (us_impls S ! i) \<Longrightarrow> mux_peer_recv (Some i) len S = Some (r, S') \<Longrightarrow> mux_act F K S S'"
| us_drop: "i < length (us_impls S) \<Longrightarrow> \<not> mp_freed (us_impls S ! i) \<Longrightarrow> mux_act F K S (impl_destroy F K i S)"
| us_catch: "m < length (us_muxes S) \<Longrightarrow> mux_act F K S (set_catch_all m c S)"
| us_thread: "m < length (us_muxes S) \<Longrightarrow> mux_act F K S (mux_thread F K m S)"

definition mux_step :: "'a mux_family \<Rightarrow> kernel \<Rightarrow> 'a mux_sys \<Rightarrow> 'a mux_sys \<Rightarrow> bool" where
  "mux_step F K S S' \<longleftrightarrow> \<not> us_terminated S \<and> mux_act F K S S'"

text \<open>The start: no demultiplexer yet, and \<open>L\<close> is what the rest of the program has open.\<close>

definition us_init :: "int multiset \<Rightarrow> 'a mux_sys \<Rightarrow> bool" where
  "us_init L S \<longleftrightarrow> (\<exists>w. clean (trace w) \<and> live w = L
     \<and> S = \<lparr>us_world = w, us_registry = [], us_muxes = [], us_impls = [], us_locked = False, us_dangling = False,
            us_terminated = False\<rparr>)"

section \<open>Open handles\<close>

definition mux_handles :: "'a udp_mux \<Rightarrow> int multiset" where
  "mux_handles x = owned (mx_socket x) + (if mx_port x \<noteq> 0 then {#mx_port x#} else {#})"

definition us_owned :: "'a mux_sys \<Rightarrow> int multiset" where
  "us_owned S = sum_list (map mux_handles (us_muxes S))"

definition accounted :: "int multiset \<Rightarrow> 'a mux_sys \<Rightarrow> bool" where
  "accounted L S \<longleftrightarrow> live (us_world S) = L + us_owned S \<and> clean (trace (us_world S))"

lemma mux_handles_simps [simp]:
  "mux_handles (x\<lparr>mx_peers := ps\<rparr>) = mux_handles x" "mux_handles (x\<lparr>mx_catch_all := c\<rparr>) = mux_handles x"
  "mux_handles (x\<lparr>mx_pc := pc\<rparr>) = mux_handles x" "mux_handles (x\<lparr>mx_log := l\<rparr>) = mux_handles x"
  "mux_handles (x\<lparr>mx_unknown := u\<rparr>) = mux_handles x" "mux_handles (x\<lparr>mx_stop := b\<rparr>) = mux_handles x"
  "mux_handles (x\<lparr>mx_local := a\<rparr>) = mux_handles x"
  by (simp_all add: mux_handles_def)

lemma map_update_same: "f y = f (xs ! i) \<Longrightarrow> map f (xs[i := y]) = map f xs"
  by (metis length_map list_update_beyond list_update_id map_update not_le nth_map)

lemma us_owned_simps [simp]:
  "us_owned (S\<lparr>us_world := w\<rparr>) = us_owned S" "us_owned (S\<lparr>us_impls := obs\<rparr>) = us_owned S"
  "us_owned (S\<lparr>us_registry := r\<rparr>) = us_owned S" "us_owned (S\<lparr>us_locked := b\<rparr>) = us_owned S"
  "us_owned (S\<lparr>us_dangling := b\<rparr>) = us_owned S" "us_owned (S\<lparr>us_terminated := b\<rparr>) = us_owned S"
  "us_owned (set_impl i f S) = us_owned S" "us_owned (S\<lparr>us_muxes := us_muxes S @ [x]\<rparr>) = us_owned S + mux_handles x"
  by (simp_all add: us_owned_def set_impl_def)

lemma us_owned_set_mux: "(\<And>x. mux_handles (f x) = mux_handles x) \<Longrightarrow> us_owned (set_mux m f S) = us_owned S"
  by (simp add: us_owned_def set_mux_def map_update_same)

lemma us_owned_update:
  assumes "m < length (us_muxes S)" and "us_muxes S ! m = x" and "mux_handles x = mux_handles y + D"
  shows "us_owned S = us_owned (S\<lparr>us_muxes := (us_muxes S)[m := y]\<rparr>) + D"
proof -
  let ?a = "take m (us_muxes S)" and ?b = "drop (Suc m) (us_muxes S)"
  have "us_owned S = sum_list (map mux_handles (?a @ x # ?b))"
    unfolding us_owned_def using assms(1,2) by (metis id_take_nth_drop)
  moreover have "us_owned (S\<lparr>us_muxes := (us_muxes S)[m := y]\<rparr>) = sum_list (map mux_handles (?a @ y # ?b))"
    unfolding us_owned_def using assms(1) by (simp add: upd_conv_take_nth_drop)
  ultimately show ?thesis using assms(3) by simp
qed

text \<open>Opening a demultiplexer accounts for its socket and its port on every path.\<close>

definition mux_of :: "'a udp_mux \<times> bool + 'a udp_mux \<Rightarrow> 'a udp_mux" where
  "mux_of r = (case r of Inl (x, _) \<Rightarrow> x | Inr x \<Rightarrow> x)"

lemma mux_of_simps [simp]: "mux_of (Inl (x, b)) = x" "mux_of (Inr x) = x"
  by (simp_all add: mux_of_def)

lemma neutral_arm_mux [neutral_intros]: "neutral (arm_overlapped_recv K x)"
  unfolding arm_overlapped_recv_def overlapped_def by (auto intro!: neutral_intros)

lemma wp_mux_shutdown:
  assumes "Q (x\<lparr>mx_stop := True, mx_port := 0\<rparr>) (if mx_port x \<noteq> 0 then L - {#mx_port x#} else L)"
    and "mx_port x \<noteq> 0 \<Longrightarrow> mx_port x \<in># L"
  shows "fd_wp (mux_shutdown K x) Q L"
  using assms unfolding mux_shutdown_def
  by (auto simp: live_step.simps intro!: fd_wp_bind fd_wp_if fd_wp_return fd_wp_neutral [OF neutral_win(4)]
      fd_wp_neutral [OF neutral_win(2)] fd_wp_sys [of _ "Sys_win (Close_handle _)"])

lemma wp_mux_abort:
  assumes "mx_port x = 0" and "\<And>x'. mux_handles x' = {#} \<Longrightarrow> Q (Inl (x', b)) L"
  shows "fd_wp (mux_abort K x b) Q (L + owned (mx_socket x))"
  unfolding mux_abort_def
  by (auto simp: assms(1) mux_handles_def intro!: assms(2) fd_wp_bind wp_socket_close fd_wp_case_prod wp_mux_shutdown fd_wp_return)

lemma wp_mux_attach:
  assumes "mx_port x = 0"
  shows "fd_wp (mux_attach K x) (\<lambda>r L'. L' = L + mux_handles (mux_of r)) (L + owned (mx_socket x))"
  unfolding mux_attach_def
  by (auto simp: live_step.simps assms mux_handles_def [of "_\<lparr>mx_port := _\<rparr>"] intro!: fd_wp_bind fd_wp_if fd_wp_return
      fd_wp_sys [of _ "Sys_win Create_port"] fd_wp_sys [of _ "Sys_win (Close_handle _)"] fd_wp_neutral [OF neutral_win(1)]
      fd_wp_neutral [OF neutral_arm_mux] wp_mux_abort)

lemma wp_mux_bind:
  assumes "mx_port x = 0"
  shows "fd_wp (mux_bind F K loc opts x) (\<lambda>r L'. L' = L + mux_handles (mux_of r)) (L + owned (mx_socket x))"
  unfolding mux_bind_def
  using wp_mux_attach [of "x\<lparr>mx_local := loc\<rparr>" K L] assms
  by (auto intro!: fd_wp_bind fd_wp_if fd_wp_case_sum neutral_steps wp_mux_abort)

lemma wp_mux_open: "fd_wp (mux_open F K loc opts) (\<lambda>r L'. L' = L + mux_handles (mux_of r)) L"
proof -
  have abort: "fd_wp (mux_abort K (mux_new F ov) b) (\<lambda>r L'. L' = L + mux_handles (mux_of r)) L" for ov b
    using wp_mux_abort [of "mux_new F ov" "\<lambda>r L'. L' = L + mux_handles (mux_of r)" b L K] by (simp add: mux_new_def)
  have bind: "fd_wp (mux_bind F K loc opts (mux_new F ov\<lparr>mx_socket := s\<rparr>)) (\<lambda>r L'. L' = L + mux_handles (mux_of r)) (L + owned s)" for ov s
    using wp_mux_bind [of "mux_new F ov\<lparr>mx_socket := s\<rparr>" F K loc opts L] by (simp add: mux_new_def)
  show ?thesis unfolding mux_open_def Let_def
    by (auto intro!: fd_wp_bind fd_wp_neutral [OF neutral_win(12)] wp_acquires [OF socket_create_acquires] abort bind
        fd_wp_case_prod wp_move_assign)
qed

lemma accounted_simps [simp]:
  "accounted L (S\<lparr>us_impls := obs\<rparr>) = accounted L S" "accounted L (S\<lparr>us_registry := r\<rparr>) = accounted L S"
  "accounted L (S\<lparr>us_locked := b\<rparr>) = accounted L S" "accounted L (S\<lparr>us_dangling := b\<rparr>) = accounted L S"
  "accounted L (S\<lparr>us_terminated := b\<rparr>) = accounted L S" "accounted L (set_impl i f S) = accounted L S"
  by (simp_all add: accounted_def) (simp add: set_impl_def)

lemma accounted_set_mux [simp]:
  "(\<And>x. mux_handles (f x) = mux_handles x) \<Longrightarrow> accounted L (set_mux m f S) = accounted L S"
  by (simp add: accounted_def us_owned_set_mux) (simp add: set_mux_def)

lemma accounted_io:
  assumes "accounted L S" and "neutral c" and "run_state c (us_world S) = (r, w)"
  shows "accounted L (S\<lparr>us_world := w\<rparr>)"
  using assms(1) neutral_run [OF assms(2,3)] neutral_clean [OF assms(2,3)] by (simp add: accounted_def)

lemma accounted_cong:
  "accounted L S \<Longrightarrow> us_world S' = us_world S \<Longrightarrow> us_muxes S' = us_muxes S \<Longrightarrow> accounted L S'"
  by (simp add: accounted_def us_owned_def)

lemma accounted_open:
  assumes "accounted L S"
  shows "accounted L (snd (open_mux F K loc opts S))"
proof -
  obtain r w where r: "run_state (mux_open F K loc opts) (us_world S) = (r, w)" by (metis surj_pair)
  have "live w = live (us_world S) + mux_handles (mux_of r) \<and> clean (trace w)"
    using fd_wpD [OF wp_mux_open r refl] assms by (simp add: accounted_def)
  with assms have "accounted L (S\<lparr>us_world := w, us_muxes := us_muxes S @ [mux_of r]\<rparr>)"
    by (simp add: accounted_def us_owned_def)
  then show ?thesis
    by (rule accounted_cong) (auto simp: open_mux_def r Let_def split: sum.split)
qed

lemma accounted_get:
  assumes "accounted L S"
  shows "accounted L (snd (get_or_create F K loc opts S))"
  using assms accounted_open [of L "S\<lparr>us_registry := filter (\<lambda>e. \<not> mf_eq F (fst e) loc) (us_registry S)\<rparr>" F K loc opts]
  by (auto simp: get_or_create_def intro: accounted_open split: option.split)

lemma accounted_replace:
  assumes "accounted L S" and "m < length (us_muxes S)" and "mux_handles (us_muxes S ! m) = mux_handles y + D"
    and "fd_wp c (\<lambda>x L'. Q x \<and> L' = live (us_world S) - D) (live (us_world S))" and "run_state c (us_world S) = (r, w)"
  shows "Q r" and "accounted L (S\<lparr>us_world := w, us_muxes := (us_muxes S)[m := y]\<rparr>)"
proof -
  have o: "us_owned S = us_owned (S\<lparr>us_muxes := (us_muxes S)[m := y]\<rparr>) + D"
    by (rule us_owned_update [OF assms(2) refl assms(3)])
  have "Q r \<and> live w = live (us_world S) - D \<and> clean (trace w)"
    using fd_wpD [OF assms(4,5) refl] assms(1) by (simp add: accounted_def)
  with assms(1) o show "Q r" "accounted L (S\<lparr>us_world := w, us_muxes := (us_muxes S)[m := y]\<rparr>)"
    by (auto simp: accounted_def us_owned_def)
qed

lemma handles_live:
  assumes "accounted L S" and "m < length (us_muxes S)"
  shows "mux_handles (us_muxes S ! m) \<subseteq># live (us_world S)"
proof -
  have "mux_handles (us_muxes S ! m) \<subseteq># us_owned S"
    unfolding us_owned_def by (subst id_take_nth_drop [OF assms(2)]) simp
  then show ?thesis using assms(1) by (simp add: accounted_def subset_mset.add_increasing)
qed

lemma accounted_destroy:
  assumes "accounted L S" and "m < length (us_muxes S)"
  shows "accounted L (mux_destroy F K m S)"
proof -
  define x where "x = us_muxes S ! m"
  define x1 where "x1 = x\<lparr>mx_stop := True, mx_port := 0\<rparr>"
  let ?P = "if mx_port x \<noteq> 0 then {#mx_port x#} else {#}"
  have h: "mux_handles (us_muxes S ! m) = mux_handles x1 + ?P" by (simp add: mux_handles_def x_def x1_def)
  obtain y w where r: "run_state (mux_shutdown K x) (us_world S) = (y, w)" by (metis surj_pair)
  have "?P \<subseteq># live (us_world S)" using handles_live [OF assms] h by (metis mset_subset_eq_add_right subset_mset.order_trans)
  then have "fd_wp (mux_shutdown K x) (\<lambda>x' L'. x' = x1 \<and> L' = live (us_world S) - ?P) (live (us_world S))"
    by (intro wp_mux_shutdown) (auto simp: x1_def split: if_splits)
  note 1 = accounted_replace [OF assms h this r]
  let ?S1 = "S\<lparr>us_world := w, us_muxes := (us_muxes S)[m := x1]\<rparr>"
  obtain ec s w' where c: "run_state (socket_close K Windows (mx_socket x1)) (us_world ?S1) = ((ec, s), w')" by (metis surj_pair)
  have "owned (mx_socket x1) \<subseteq># live (us_world ?S1)"
    using handles_live [OF 1(2), of m] assms(2) by (simp add: mux_handles_def) (meson mset_subset_eq_add_left subset_mset.order_trans)
  then have close: "fd_wp (socket_close K Windows (mx_socket x1))
      (\<lambda>e L'. owned (snd e) = {#} \<and> L' = live (us_world ?S1) - owned (mx_socket x1)) (live (us_world ?S1))"
    by (intro wp_socket_close) auto
  have "owned s = {#}" using fd_wpD [OF close c refl] 1(2) by (simp add: accounted_def)
  then have "mux_handles (us_muxes ?S1 ! m) = mux_handles (x1\<lparr>mx_socket := s\<rparr>) + owned (mx_socket x1)"
    using assms(2) by (simp add: mux_handles_def x1_def)
  from accounted_replace(2) [OF 1(2) _ this close c] assms(2)
  have 2: "accounted L (S\<lparr>us_world := w', us_muxes := (us_muxes S)[m := x1\<lparr>mx_socket := s\<rparr>]\<rparr>)" by simp
  show ?thesis
  proof (cases "us_locked S")
    case True
    with 1 r show ?thesis by (simp add: mux_destroy_def x_def)
  next
    case False
    with 2 show ?thesis by (rule_tac accounted_cong [OF 2]) (use 1(1) r c False in \<open>simp_all add: mux_destroy_def x_def\<close>)
  qed
qed

lemma accounted_impl_destroy:
  assumes "accounted L S" and "i < length (us_impls S)" and "mp_mux (us_impls S ! i) < length (us_muxes S)"
  shows "accounted L (impl_destroy F K i S)"
proof -
  let ?m = "mp_mux (us_impls S ! i)"
  let ?S = "set_impl i (\<lambda>ob. ob\<lparr>mp_closed := True, mp_freed := True\<rparr>) (deregister_peer F ?m (mp_addr (us_impls S ! i)) S)"
  have "accounted L ?S" using assms(1) by (simp add: deregister_peer_def)
  moreover have "?m < length (us_muxes ?S)" using assms(3) by (simp add: set_impl_def deregister_peer_def set_mux_def)
  ultimately show ?thesis using accounted_destroy [of L ?S ?m F K] by (simp add: impl_destroy_def Let_def)
qed

lemma accounted_thread:
  assumes "accounted L S"
  shows "accounted L (mux_thread F K m S)"
proof -
  have rearm: "accounted L T \<Longrightarrow> accounted L (mux_rearm K m T)" for T
    unfolding mux_rearm_def using accounted_io [OF _ neutral_arm_mux] by (metis surjective_pairing)
  have invoke: "accounted L T \<Longrightarrow> accounted L (mux_invoke m t d src T)" for t d src T
    by (simp add: mux_invoke_def split: mux_target.split)
  have wait: "accounted L (mux_wait K m S)"
    using accounted_io [OF assms neutral_win(3), of K "mx_port (us_muxes S ! m)" 16 INFINITE]
    by (auto simp: mux_wait_def set_pc_def Let_def split: prod.split)
  have entry: "accounted L (mux_entry F K m ks S)" for ks
    using accounted_io [OF assms neutral_win(8)]
    by (auto simp: mux_entry_def set_pc_def Let_def intro!: rearm split: prod.split list.split)
  show ?thesis
    by (auto simp: mux_thread_def thread_end_def set_pc_def Let_def wait entry assms intro!: rearm invoke split: mux_point.split list.split)
qed

section \<open>Registrations and deliveries\<close>

text \<open>What the keys of the hash maps have to satisfy.\<close>

locale mux_keys =
  fixes F :: "'a mux_family"
  assumes eq_refl: "mf_eq F a a"

text \<open>The datagrams that were looked up for a peer socket, and the one whose callback is being called.\<close>

definition routed :: "nat \<Rightarrow> 'a udp_mux \<Rightarrow> byte list list" where
  "routed i x = map (fst \<circ> snd) (filter (\<lambda>e. snd (snd e) = To_peer i) (mx_log x))"

definition pending :: "nat \<Rightarrow> 'a udp_mux \<Rightarrow> byte list list" where
  "pending i x = (case mx_pc x of Mx_call t d src ks \<Rightarrow> if t = To_peer i then [d] else [] | _ \<Rightarrow> [])"

text \<open>The entries of a demultiplexer are of live peer sockets, one for each address.\<close>

definition mux_good :: "'a mux_family \<Rightarrow> 'a mux_peer list \<Rightarrow> nat \<Rightarrow> 'a udp_mux \<Rightarrow> bool" where
  "mux_good F obs m x \<longleftrightarrow>
     (\<forall>a i. (a, i) \<in> set (mx_peers x) \<longrightarrow> i < length obs \<and> mp_mux (obs ! i) = m \<and> mp_addr (obs ! i) = a \<and> \<not> mp_freed (obs ! i))
     \<and> sorted_wrt (\<lambda>e e'. \<not> mf_eq F (fst e) (fst e')) (mx_peers x)
     \<and> (\<forall>src d i. (src, d, To_peer i) \<in> set (mx_log x) \<longrightarrow> i < length obs \<and> mp_mux (obs ! i) = m \<and> mf_eq F (mp_addr (obs ! i)) src)
     \<and> (\<forall>d src ks i. mx_pc x = Mx_call (To_peer i) d src ks \<longrightarrow> i < length obs \<and> mp_mux (obs ! i) = m)"

definition impl_good :: "'a udp_mux list \<Rightarrow> nat \<Rightarrow> 'a mux_peer \<Rightarrow> bool" where
  "impl_good xs i ob \<longleftrightarrow> mp_mux ob < length xs
     \<and> (mp_freed ob \<or> mp_read ob @ mp_queue ob @ pending i (xs ! mp_mux ob) = routed i (xs ! mp_mux ob))"

definition mux_wf :: "'a mux_family \<Rightarrow> 'a mux_sys \<Rightarrow> bool" where
  "mux_wf F S \<longleftrightarrow> (\<forall>m < length (us_muxes S). mux_good F (us_impls S) m (us_muxes S ! m))
     \<and> (\<forall>i < length (us_impls S). impl_good (us_muxes S) i (us_impls S ! i))"

lemma mux_wf_cong:
  "mux_wf F S \<Longrightarrow> us_muxes S' = us_muxes S \<Longrightarrow> us_impls S' = us_impls S \<Longrightarrow> mux_wf F S'"
  by (simp add: mux_wf_def)

lemma mux_wf_simps [simp]:
  "mux_wf F (S\<lparr>us_world := w\<rparr>) = mux_wf F S" "mux_wf F (S\<lparr>us_registry := r\<rparr>) = mux_wf F S"
  "mux_wf F (S\<lparr>us_locked := b\<rparr>) = mux_wf F S" "mux_wf F (S\<lparr>us_dangling := b\<rparr>) = mux_wf F S"
  "mux_wf F (S\<lparr>us_terminated := b\<rparr>) = mux_wf F S"
  by (simp_all add: mux_wf_def)

lemma mux_wf_replace:
  assumes "mux_wf F S" and "m < length (us_muxes S)" and "mux_good F (us_impls S) m y"
    and "\<And>i ob. i < length (us_impls S) \<Longrightarrow> ob = us_impls S ! i \<Longrightarrow> mp_mux ob = m \<Longrightarrow> \<not> mp_freed ob \<Longrightarrow>
      mp_read ob @ mp_queue ob @ pending i (us_muxes S ! m) = routed i (us_muxes S ! m) \<Longrightarrow>
      mp_read ob @ mp_queue ob @ pending i y = routed i y"
  shows "mux_wf F (S\<lparr>us_muxes := (us_muxes S)[m := y]\<rparr>)"
proof -
  have "impl_good ((us_muxes S)[m := y]) i (us_impls S ! i)" if "i < length (us_impls S)" for i
  proof (cases "mp_mux (us_impls S ! i) = m \<and> \<not> mp_freed (us_impls S ! i)")
    case True
    with assms(1) that have "mp_read (us_impls S ! i) @ mp_queue (us_impls S ! i) @ pending i (us_muxes S ! m) = routed i (us_muxes S ! m)"
      by (auto simp: mux_wf_def impl_good_def)
    from assms(4) [OF that refl _ _ this] True assms(2) show ?thesis by (auto simp: impl_good_def)
  next
    case False
    with assms(1) that show ?thesis by (auto simp: mux_wf_def impl_good_def)
  qed
  with assms(1-3) show ?thesis by (auto simp: mux_wf_def nth_list_update)
qed

text \<open>A change that leaves the entries, the history and the point of the thread alone.\<close>

lemma mux_wf_same:
  assumes "mux_wf F S" and "m < length (us_muxes S)" and "mx_peers y = mx_peers (us_muxes S ! m)"
    and "mx_log y = mx_log (us_muxes S ! m)" and "mx_pc y = mx_pc (us_muxes S ! m)"
  shows "mux_wf F (S\<lparr>us_muxes := (us_muxes S)[m := y]\<rparr>)"
  by (rule mux_wf_replace [OF assms(1,2)])
    (use assms in \<open>auto simp: mux_wf_def mux_good_def pending_def routed_def\<close>)

definition mux_fresh :: "'a udp_mux \<Rightarrow> bool" where
  "mux_fresh x \<longleftrightarrow> mx_peers x = [] \<and> mx_log x = [] \<and> (mx_pc x = Mx_head \<or> mx_pc x = Mx_ended)"

lemma mux_fresh_simps [simp]:
  "mux_fresh (x\<lparr>mx_socket := s\<rparr>) = mux_fresh x" "mux_fresh (x\<lparr>mx_port := p\<rparr>) = mux_fresh x"
  "mux_fresh (x\<lparr>mx_stop := b\<rparr>) = mux_fresh x" "mux_fresh (x\<lparr>mx_local := a\<rparr>) = mux_fresh x"
  "mux_fresh x \<Longrightarrow> mux_fresh (x\<lparr>mx_pc := Mx_ended\<rparr>)" "mux_fresh (mux_new F ov)"
  by (simp_all add: mux_fresh_def mux_new_def)

lemma mux_wf_new_mux:
  assumes "mux_wf F S" and "mux_fresh x"
  shows "mux_wf F (S\<lparr>us_muxes := us_muxes S @ [x]\<rparr>)"
proof -
  have "mux_good F (us_impls S) m ((us_muxes S @ [x]) ! m)" if "m < Suc (length (us_muxes S))" for m
  proof (cases "m = length (us_muxes S)")
    case True
    with assms(2) show ?thesis by (auto simp: mux_good_def mux_fresh_def)
  next
    case False
    with assms(1) that show ?thesis by (simp add: mux_wf_def nth_append)
  qed
  moreover have "impl_good (us_muxes S @ [x]) i (us_impls S ! i)" if "i < length (us_impls S)" for i
    using assms(1) that by (fastforce simp: mux_wf_def impl_good_def nth_append)
  ultimately show ?thesis by (simp add: mux_wf_def)
qed

lemma yields_after: "(\<And>x. yields (f x) Q) \<Longrightarrow> yields (State_Monad.bind m f) Q"
  by (simp add: yields_def case_prod_beta)

lemma abort_fresh: "mux_fresh x \<Longrightarrow> yields (mux_abort K x b) (\<lambda>r. mux_fresh (mux_of r))"
  unfolding mux_abort_def mux_shutdown_def
  by (auto intro!: yields_after yields_case_prod yields_return)

lemma mux_open_fresh: "yields (mux_open F K loc opts) (\<lambda>r. mux_fresh (mux_of r))"
proof -
  have attach: "yields (mux_attach K x) (\<lambda>r. mux_fresh (mux_of r))" if "mux_fresh x" for x :: "'a udp_mux"
    unfolding mux_attach_def
    by (auto simp: that intro!: yields_after yields_if yields_return abort_fresh)
  have bind: "yields (mux_bind F K loc opts x) (\<lambda>r. mux_fresh (mux_of r))" if "mux_fresh x" for x
    unfolding mux_bind_def
    by (auto simp: that intro!: yields_after yields_case_sum yields_if abort_fresh attach)
  show ?thesis unfolding mux_open_def Let_def
    by (auto intro!: yields_after yields_case_sum yields_case_prod abort_fresh bind)
qed

lemma mux_wf_get:
  assumes "mux_wf F S"
  shows "mux_wf F (snd (get_or_create F K loc opts S))"
proof -
  have open_wf: "mux_wf F (snd (open_mux F K loc opts T))" if "mux_wf F T" for T
  proof -
    obtain r w where r: "run_state (mux_open F K loc opts) (us_world T) = (r, w)" by (metis surj_pair)
    have "mux_wf F (T\<lparr>us_muxes := us_muxes T @ [mux_of r]\<rparr>)"
      by (rule mux_wf_new_mux [OF that yieldsD [OF mux_open_fresh r]])
    then show ?thesis by (rule mux_wf_cong) (auto simp: open_mux_def r Let_def split: sum.split)
  qed
  show ?thesis using assms by (auto simp: get_or_create_def intro!: open_wf split: option.split)
qed

lemma mux_good_append: "mux_good F obs m x \<Longrightarrow> mux_good F (obs @ [ob]) m x"
  unfolding mux_good_def by (auto simp: nth_append) (meson less_SucI)+

lemma mux_wf_new_impl:
  assumes "mux_wf F S" and "mp_mux ob < length (us_muxes S)" and "mp_read ob = []" "mp_queue ob = []"
  shows "mux_wf F (S\<lparr>us_impls := us_impls S @ [ob]\<rparr>)"
proof -
  let ?n = "length (us_impls S)" and ?x = "us_muxes S ! mp_mux ob"
  have "mux_good F (us_impls S) (mp_mux ob) ?x" using assms(1,2) by (simp add: mux_wf_def)
  then have "pending ?n ?x = []" "routed ?n ?x = []"
    by (fastforce simp: mux_good_def pending_def routed_def filter_empty_conv split: mux_point.split)+
  with assms have "impl_good (us_muxes S) i ((us_impls S @ [ob]) ! i)" if "i < Suc ?n" for i
    using that by (cases "i = ?n") (auto simp: impl_good_def mux_wf_def nth_append)
  moreover have "mux_good F (us_impls S @ [ob]) m (us_muxes S ! m)" if "m < length (us_muxes S)" for m
    using assms(1) that by (simp add: mux_wf_def mux_good_append)
  ultimately show ?thesis by (simp add: mux_wf_def)
qed

lemma mux_good_impl:
  assumes "mux_good F obs m x" and "mp_mux ob = mp_mux (obs ! i)" "mp_addr ob = mp_addr (obs ! i)"
    and "mp_freed ob \<longrightarrow> mp_freed (obs ! i) \<or> i \<notin> snd ` set (mx_peers x)"
  shows "mux_good F (obs[i := ob]) m x"
proof -
  have k: "mp_mux (obs[i := ob] ! j) = mp_mux (obs ! j)" "mp_addr (obs[i := ob] ! j) = mp_addr (obs ! j)" for j
    using assms(2,3) by (cases "i < length obs"; auto simp: nth_list_update list_update_beyond)+
  have "mp_freed (obs[i := ob] ! j) \<longrightarrow> mp_freed (obs ! j)" if "(a, j) \<in> set (mx_peers x)" for a j
  proof (cases "i = j \<and> i < length obs")
    case True
    then have "mp_freed ob \<longrightarrow> mp_freed (obs ! j)" using assms(4) that by force
    with True show ?thesis by simp
  next
    case False
    then show ?thesis by (cases "i < length obs") (auto simp: list_update_beyond)
  qed
  with assms(1) k show ?thesis unfolding mux_good_def by (metis length_list_update)
qed

lemma mux_good_filter: "mux_good F obs m x \<Longrightarrow> mux_good F obs m (x\<lparr>mx_peers := filter P (mx_peers x)\<rparr>)"
  unfolding mux_good_def by (auto simp: sorted_wrt_filter)

lemma mux_wf_impl:
  assumes "mux_wf F S" and "i < length (us_impls S)"
    and "mp_mux ob = mp_mux (us_impls S ! i)" "mp_addr ob = mp_addr (us_impls S ! i)" "mp_freed ob = mp_freed (us_impls S ! i)"
    and "mp_read ob @ mp_queue ob = mp_read (us_impls S ! i) @ mp_queue (us_impls S ! i)"
  shows "mux_wf F (S\<lparr>us_impls := (us_impls S)[i := ob]\<rparr>)"
proof -
  have "impl_good (us_muxes S) i ob"
    using assms unfolding mux_wf_def impl_good_def by (metis append.assoc)
  moreover have "mux_good F ((us_impls S)[i := ob]) m (us_muxes S ! m)" if "m < length (us_muxes S)" for m
    by (rule mux_good_impl) (use assms that in \<open>auto simp: mux_wf_def\<close>)
  ultimately show ?thesis using assms(1,2) by (simp add: mux_wf_def nth_list_update)
qed

lemma find_None_peers: "mux_find F a x = None \<longleftrightarrow> (\<forall>e \<in> set (mx_peers x). \<not> mf_eq F (fst e) a)"
  by (auto simp: mux_find_def find_None_iff)

lemma mux_wf_register:
  assumes "mux_wf F S" and "i < length (us_impls S)" and "mp_mux (us_impls S ! i) = m" "mp_addr (us_impls S ! i) = a"
    "\<not> mp_freed (us_impls S ! i)"
  shows "mux_wf F (snd (register_peer F m a i S))"
proof -
  let ?x = "us_muxes S ! m"
  have m: "m < length (us_muxes S)" using assms(1-3) by (auto simp: mux_wf_def impl_good_def)
  have "mux_wf F (set_mux m (\<lambda>x. x\<lparr>mx_peers := mx_peers x @ [(a, i)]\<rparr>) S)" if "mux_find F a ?x = None"
    unfolding set_mux_def
  proof (rule mux_wf_replace [OF assms(1) m])
    have "mux_good F (us_impls S) m ?x" using assms(1) m by (simp add: mux_wf_def)
    with that assms show "mux_good F (us_impls S) m (?x\<lparr>mx_peers := mx_peers ?x @ [(a, i)]\<rparr>)"
      by (auto simp: mux_good_def find_None_peers sorted_wrt_append)
  qed (simp add: pending_def routed_def)
  then show ?thesis using assms(1) by (auto simp: register_peer_def)
qed

text \<open>The destructor of a peer socket removes the entry of its address, which is its own if it has one.\<close>

context mux_keys
begin

lemma wf_drop:
  assumes "mux_wf F S" and "i < length (us_impls S)"
  shows "mux_wf F (set_impl i (\<lambda>ob. ob\<lparr>mp_closed := True, mp_freed := True\<rparr>)
    (deregister_peer F (mp_mux (us_impls S ! i)) (mp_addr (us_impls S ! i)) S))"
proof -
  let ?ob = "us_impls S ! i" and ?m = "mp_mux (us_impls S ! i)"
  let ?y = "(us_muxes S ! ?m)\<lparr>mx_peers := filter (\<lambda>e. \<not> mf_eq F (fst e) (mp_addr ?ob)) (mx_peers (us_muxes S ! ?m))\<rparr>"
  let ?T = "deregister_peer F ?m (mp_addr ?ob) S"
  let ?ob' = "?ob\<lparr>mp_closed := True, mp_freed := True\<rparr>"
  have m: "?m < length (us_muxes S)" using assms by (auto simp: mux_wf_def impl_good_def)
  have good: "mux_good F (us_impls S) k (us_muxes S ! k)" if "k < length (us_muxes S)" for k using assms(1) that by (simp add: mux_wf_def)
  have wf: "mux_wf F ?T" unfolding deregister_peer_def set_mux_def
  proof (rule mux_wf_replace [OF assms(1) m])
    show "mux_good F (us_impls S) ?m ?y" by (rule mux_good_filter [OF good [OF m]])
  qed (simp add: pending_def routed_def)
  have T: "us_impls ?T = us_impls S" and len: "length (us_muxes ?T) = length (us_muxes S)"
    by (simp_all add: deregister_peer_def set_mux_def)
  have gone: "i \<notin> snd ` set (mx_peers (us_muxes ?T ! k))" if "k < length (us_muxes S)" for k
  proof
    assume "i \<in> snd ` set (mx_peers (us_muxes ?T ! k))"
    then obtain a where a: "(a, i) \<in> set (mx_peers (us_muxes ?T ! k))" by auto
    have "mux_good F (us_impls ?T) k (us_muxes ?T ! k)" using wf that by (simp add: mux_wf_def len)
    with a have "?m = k" "mp_addr ?ob = a" unfolding mux_good_def T by blast+
    moreover have "mx_peers (us_muxes ?T ! ?m) = mx_peers ?y" using m by (simp add: deregister_peer_def set_mux_def)
    ultimately have "(a, i) \<in> set (mx_peers ?y)" using a by metis
    with \<open>mp_addr ?ob = a\<close> eq_refl show False by simp
  qed
  have "mux_good F ((us_impls ?T)[i := ?ob']) k (us_muxes ?T ! k)" if "k < length (us_muxes ?T)" for k
    by (rule mux_good_impl) (use wf that gone in \<open>simp_all add: mux_wf_def len T\<close>)
  moreover have "impl_good (us_muxes ?T) j ((us_impls ?T)[i := ?ob'] ! j)" if "j < length (us_impls ?T)" for j
  proof -
    have "impl_good (us_muxes ?T) j (us_impls ?T ! j)" using wf that by (simp add: mux_wf_def)
    then show ?thesis using that m by (cases "j = i") (simp_all add: impl_good_def len T)
  qed
  ultimately show ?thesis using assms(2) by (simp add: mux_wf_def set_impl_def T)
qed

end

lemma mux_wf_destroy:
  assumes "mux_wf F S" and "m < length (us_muxes S)"
  shows "mux_wf F (mux_destroy F K m S)"
proof -
  have keep: "yields (mux_shutdown K x) (\<lambda>y. mx_peers y = mx_peers x \<and> mx_log y = mx_log x \<and> mx_pc y = mx_pc x)" for x :: "'a udp_mux"
    unfolding mux_shutdown_def by (auto intro!: yields_after yields_return)
  obtain x w where r: "run_state (mux_shutdown K (us_muxes S ! m)) (us_world S) = (x, w)" by (metis surj_pair)
  note k = yieldsD [OF keep r]
  have 1: "mux_wf F (S\<lparr>us_muxes := (us_muxes S)[m := x]\<rparr>)" by (rule mux_wf_same [OF assms]) (simp_all add: k)
  have 2: "mux_wf F (S\<lparr>us_muxes := (us_muxes S)[m := x\<lparr>mx_socket := s\<rparr>]\<rparr>)" for s
    by (rule mux_wf_same [OF assms]) (simp_all add: k)
  show ?thesis
  proof (cases "us_locked S")
    case True
    then show ?thesis by (rule_tac mux_wf_cong [OF 1]) (simp_all add: mux_destroy_def r)
  next
    case False
    obtain ec s w' where "run_state (socket_close K Windows (mx_socket x)) w = ((ec, s), w')" by (metis surj_pair)
    with False show ?thesis by (rule_tac mux_wf_cong [OF 2 [of s]]) (simp_all add: mux_destroy_def r)
  qed
qed

text \<open>The steps of the thread.\<close>

lemma mux_good_pc:
  "mux_good F obs m x \<Longrightarrow> (\<And>d src ks i. pc = Mx_call (To_peer i) d src ks \<Longrightarrow> i < length obs \<and> mp_mux (obs ! i) = m) \<Longrightarrow> mux_good F obs m (x\<lparr>mx_pc := pc\<rparr>)"
  by (simp add: mux_good_def)

lemma mux_wf_pc:
  assumes "mux_wf F S" and "m < length (us_muxes S)" and "\<And>i. pending i (us_muxes S ! m) = []"
    and "pc = Mx_head \<or> pc = Mx_ended \<or> (\<exists>ks. pc = Mx_entries ks)"
  shows "mux_wf F (set_pc m pc S)"
  unfolding set_pc_def set_mux_def
proof (rule mux_wf_replace [OF assms(1,2)])
  have "mux_good F (us_impls S) m (us_muxes S ! m)" using assms(1,2) by (simp add: mux_wf_def)
  then show "mux_good F (us_impls S) m ((us_muxes S ! m)\<lparr>mx_pc := pc\<rparr>)"
    by (rule mux_good_pc) (use assms(4) in auto)
qed (use assms(3,4) in \<open>auto simp: pending_def routed_def\<close>)

lemma find_peer: "mux_find F src x = Some i \<Longrightarrow> \<exists>a. (a, i) \<in> set (mx_peers x) \<and> mf_eq F a src"
  by (auto simp: mux_find_def find_Some_iff) (metis fst_conv nth_mem)

lemma lookup_peer: "mux_lookup F src x = To_peer i \<Longrightarrow> \<exists>a. (a, i) \<in> set (mx_peers x) \<and> mf_eq F a src"
  by (rule find_peer) (simp add: mux_lookup_def split: option.splits)

lemma mux_wf_log:
  assumes "mux_wf F S" and "m < length (us_muxes S)" and "\<And>i. pending i (us_muxes S ! m) = []"
    and "t = mux_lookup F src (us_muxes S ! m)"
  shows "mux_wf F (set_mux m (\<lambda>x. x\<lparr>mx_log := mx_log x @ [(src, d, t)], mx_pc := Mx_call t d src ks\<rparr>) S)"
  unfolding set_mux_def
proof (rule mux_wf_replace [OF assms(1,2)])
  let ?x = "us_muxes S ! m"
  have g: "mux_good F (us_impls S) m ?x" using assms(1,2) by (simp add: mux_wf_def)
  have "i < length (us_impls S) \<and> mp_mux (us_impls S ! i) = m \<and> mf_eq F (mp_addr (us_impls S ! i)) src" if "t = To_peer i" for i
  proof -
    obtain a where "(a, i) \<in> set (mx_peers ?x)" "mf_eq F a src" using lookup_peer assms(4) \<open>t = To_peer i\<close> by metis
    with g show ?thesis unfolding mux_good_def by blast
  qed
  with g show "mux_good F (us_impls S) m (?x\<lparr>mx_log := mx_log ?x @ [(src, d, t)], mx_pc := Mx_call t d src ks\<rparr>)"
    unfolding mux_good_def by auto
qed (use assms(3) in \<open>auto simp: pending_def routed_def\<close>)

text \<open>The callback: the datagram moves from the thread to the queue.\<close>

lemma mux_wf_called:
  assumes "mux_wf F S" and "m < length (us_muxes S)" and "mx_pc (us_muxes S ! m) = Mx_call (To_peer i) d src ks" and "\<not> mp_freed (us_impls S ! i)"
  shows "mux_wf F (set_pc m (Mx_entries ks) (set_impl i (\<lambda>ob. ob\<lparr>mp_queue := mp_queue ob @ [d]\<rparr>) S))"
proof -
  let ?x = "us_muxes S ! m" and ?ob = "us_impls S ! i"
  let ?y = "?x\<lparr>mx_pc := Mx_entries ks\<rparr>" and ?ob' = "?ob\<lparr>mp_queue := mp_queue ?ob @ [d]\<rparr>"
  have good: "mux_good F (us_impls S) k (us_muxes S ! k)" if "k < length (us_muxes S)" for k using assms(1) that by (simp add: mux_wf_def)
  have i: "i < length (us_impls S)" "mp_mux ?ob = m" using good [OF assms(2)] assms(3) unfolding mux_good_def by blast+
  have "mux_good F (us_impls S) k ((us_muxes S)[m := ?y] ! k)" if "k < length (us_muxes S)" for k
    using mux_good_pc [OF good [OF assms(2)], of "Mx_entries ks"] good [OF that] assms(2) by (cases "k = m") auto
  then have "mux_good F ((us_impls S)[i := ?ob']) k ((us_muxes S)[m := ?y] ! k)" if "k < length (us_muxes S)" for k
    using that by (intro mux_good_impl [of F "us_impls S"]) (auto simp: assms(4))
  moreover have "impl_good ((us_muxes S)[m := ?y]) j ((us_impls S)[i := ?ob'] ! j)" if "j < length (us_impls S)" for j
  proof -
    have j: "impl_good (us_muxes S) j (us_impls S ! j)" using assms(1) that by (simp add: mux_wf_def)
    have p: "pending j ?x = (if j = i then [d] else [])" "pending j ?y = []" "routed j ?y = routed j ?x"
      using assms(3) by (simp_all add: pending_def routed_def)
    show ?thesis
    proof (cases "j = i")
      case True
      with j p i assms(2,4) show ?thesis by (simp add: impl_good_def)
    next
      case False
      with j p assms(2) show ?thesis by (cases "mp_mux (us_impls S ! j) = m") (simp_all add: impl_good_def)
    qed
  qed
  ultimately show ?thesis using i(1) by (simp add: mux_wf_def set_pc_def set_impl_def set_mux_def)
qed

lemma mux_wf_call:
  assumes "mux_wf F S" and "m < length (us_muxes S)" and "mx_pc (us_muxes S ! m) = Mx_call t d src ks"
  shows "mux_wf F (set_pc m (Mx_entries ks) (mux_invoke m t d src S))"
proof (cases t)
  case (To_peer i)
  have "mux_wf F (set_pc m (Mx_entries ks) (S\<lparr>us_dangling := True\<rparr>))" if "mp_freed (us_impls S ! i)"
    unfolding set_pc_def set_mux_def
  proof (rule mux_wf_replace)
    have "mux_good F (us_impls S) m (us_muxes S ! m)" using assms(1,2) by (simp add: mux_wf_def)
    then show "mux_good F (us_impls (S\<lparr>us_dangling := True\<rparr>)) m ((us_muxes (S\<lparr>us_dangling := True\<rparr>) ! m)\<lparr>mx_pc := Mx_entries ks\<rparr>)"
      by (simp, rule mux_good_pc) simp_all
  qed (use assms that To_peer in \<open>auto simp: pending_def routed_def split: if_splits\<close>)
  then show ?thesis using mux_wf_called [OF assms(1,2)] assms(3) To_peer by (simp add: mux_invoke_def)
next
  case (To_catch_all c)
  let ?T = "set_mux m (\<lambda>x. x\<lparr>mx_unknown := mx_unknown x @ [(c, d, src)]\<rparr>) S"
  have "mux_wf F ?T" unfolding set_mux_def by (rule mux_wf_same [OF assms(1,2)]) simp_all
  then have "mux_wf F (set_pc m (Mx_entries ks) ?T)"
    by (rule mux_wf_pc) (use assms To_catch_all in \<open>auto simp: set_mux_def pending_def\<close>)
  with To_catch_all show ?thesis by (simp add: mux_invoke_def)
next
  case To_nobody
  have "mux_wf F (set_pc m (Mx_entries ks) S)"
    by (rule mux_wf_pc [OF assms(1,2)]) (use assms To_nobody in \<open>auto simp: pending_def\<close>)
  with To_nobody show ?thesis by (simp add: mux_invoke_def)
qed

lemma mux_wf_thread:
  assumes "mux_wf F S" and "m < length (us_muxes S)"
  shows "mux_wf F (mux_thread F K m S)"
proof -
  have world: "mux_wf F (g (S\<lparr>us_world := w\<rparr>)) = mux_wf F (g S)" if "g = set_pc m pc" for g w pc
    using that by (simp add: mux_wf_def set_pc_def set_mux_def)
  have rearm: "mux_wf F (set_pc m pc (mux_rearm K m T)) = mux_wf F (set_pc m pc T)" for T pc
    by (simp add: mux_wf_def set_pc_def set_mux_def mux_rearm_def)
  have ended: "mux_wf F (thread_end m S)" if "\<And>i. pending i (us_muxes S ! m) = []"
    using mux_wf_pc [OF assms that, of Mx_ended] by (simp add: thread_end_def Let_def)
  show ?thesis
  proof (cases "mx_pc (us_muxes S ! m)")
    case Mx_head
    then have p: "pending i (us_muxes S ! m) = []" for i by (simp add: pending_def)
    have "mux_wf F (mux_wait K m S)"
      using mux_wf_pc [OF assms p] by (auto simp: mux_wait_def Let_def world assms(1) split: prod.split)
    with Mx_head ended [OF p] show ?thesis by (simp add: mux_thread_def)
  next
    case (Mx_entries ks)
    then have p: "pending i (us_muxes S ! m) = []" for i by (simp add: pending_def)
    have "mux_wf F (mux_entry F K m ks' S)" for ks'
    proof -
      let ?c = "sys K (Sys_win (Overlapped_result (s_handle (mx_socket (us_muxes S ! m))) (mx_ov (us_muxes S ! m))))"
      obtain r w where r: "run_state ?c (us_world S) = (r, w)" by (metis surj_pair)
      have log: "mux_wf F (set_mux m (\<lambda>x. x\<lparr>mx_log := mx_log x @ [(src, d, mux_lookup F src (us_muxes S ! m))],
          mx_pc := Mx_call (mux_lookup F src (us_muxes S ! m)) d src ks'\<rparr>) (S\<lparr>us_world := w\<rparr>))" for src d
        by (rule mux_wf_log) (use assms p in simp_all)
      have skip: "mux_wf F (set_pc m (Mx_entries ks') (S\<lparr>us_world := w\<rparr>))"
        by (rule mux_wf_pc) (use assms p in simp_all)
      show ?thesis using log skip by (auto simp: mux_entry_def Let_def r rearm split: list.split)
    qed
    with Mx_entries ended [OF p] mux_wf_pc [OF assms p, of Mx_head] show ?thesis
      by (simp add: mux_thread_def split: list.split)
  next
    case (Mx_call t d src ks)
    with mux_wf_call [OF assms Mx_call] show ?thesis by (simp add: mux_thread_def rearm)
  next
    case Mx_ended
    with assms(1) show ?thesis by (simp add: mux_thread_def)
  qed
qed

section \<open>The registry\<close>

definition mux_locals :: "'a mux_sys \<Rightarrow> 'a list" where
  "mux_locals S = map mx_local (us_muxes S)"

text \<open>One entry for each local address, and it leads to the demultiplexer bound to that address.\<close>

definition reg_wf :: "'a mux_family \<Rightarrow> 'a mux_sys \<Rightarrow> bool" where
  "reg_wf F S \<longleftrightarrow> sorted_wrt (\<lambda>e e'. \<not> mf_eq F (fst e) (fst e')) (us_registry S)
     \<and> (\<forall>a m. (a, m) \<in> set (us_registry S) \<longrightarrow> m < length (mux_locals S) \<and> mux_locals S ! m = a)"

lemma reg_wf_cong: "reg_wf F S \<Longrightarrow> us_registry S' = us_registry S \<Longrightarrow> mux_locals S' = mux_locals S \<Longrightarrow> reg_wf F S'"
  by (simp add: reg_wf_def)

lemma reg_wf_filter:
  "reg_wf F S \<Longrightarrow> us_registry S' = filter P (us_registry S) \<Longrightarrow> mux_locals S' = mux_locals S \<Longrightarrow> reg_wf F S'"
  by (auto simp: reg_wf_def sorted_wrt_filter)

lemma locals_set_mux [simp]: "(\<And>x. mx_local (f x) = mx_local x) \<Longrightarrow> mux_locals (set_mux m f S) = mux_locals S"
  by (simp add: mux_locals_def set_mux_def map_update_same)

lemma locals_simps [simp]:
  "mux_locals (S\<lparr>us_world := w\<rparr>) = mux_locals S" "mux_locals (S\<lparr>us_impls := obs\<rparr>) = mux_locals S"
  "mux_locals (S\<lparr>us_registry := r\<rparr>) = mux_locals S" "mux_locals (S\<lparr>us_dangling := b\<rparr>) = mux_locals S"
  "mux_locals (S\<lparr>us_terminated := b\<rparr>) = mux_locals S" "mux_locals (set_impl i f S) = mux_locals S"
  by (simp_all add: mux_locals_def set_impl_def)

lemma registry_simps [simp]:
  "us_registry (set_mux m f S) = us_registry S" "us_registry (set_impl i g S) = us_registry S"
  by (simp_all add: set_mux_def set_impl_def)

definition bound_to :: "'a \<Rightarrow> 'a udp_mux \<times> bool + 'a udp_mux \<Rightarrow> bool" where
  "bound_to loc r \<longleftrightarrow> (case r of Inl (x, registered) \<Rightarrow> registered \<longrightarrow> mx_local x = loc | Inr x \<Rightarrow> mx_local x = loc)"

lemma mux_open_bound: "yields (mux_open F K loc opts) (bound_to loc)"
proof -
  have abort: "yields (mux_abort K x b) (bound_to loc)" if "b \<longrightarrow> mx_local x = loc" for x b
    unfolding mux_abort_def mux_shutdown_def using that
    by (auto intro!: yields_after yields_case_prod yields_return simp: bound_to_def)
  show ?thesis
    unfolding mux_open_def mux_bind_def mux_attach_def Let_def
    by (auto intro!: yields_after yields_case_prod yields_case_sum yields_if yields_return abort simp: bound_to_def [of _ "Inr _"])
qed

lemma reg_wf_open:
  assumes "reg_wf F S" and "\<forall>e \<in> set (us_registry S). \<not> mf_eq F (fst e) loc"
  shows "reg_wf F (snd (open_mux F K loc opts S))"
proof -
  obtain r w where r: "run_state (mux_open F K loc opts) (us_world S) = (r, w)" by (metis surj_pair)
  have b: "bound_to loc r" by (rule yieldsD [OF mux_open_bound r])
  have l: "mux_locals (snd (open_mux F K loc opts S)) = mux_locals S @ [mx_local (mux_of r)]"
    by (auto simp: open_mux_def r Let_def mux_locals_def split: sum.split)
  have "us_registry (snd (open_mux F K loc opts S)) = us_registry S
    \<or> mx_local (mux_of r) = loc \<and> us_registry (snd (open_mux F K loc opts S)) = us_registry S @ [(loc, length (mux_locals S))]"
    using b by (auto simp: open_mux_def r Let_def mux_locals_def bound_to_def split: sum.splits)
  with assms l show ?thesis by (auto simp: reg_wf_def sorted_wrt_append nth_append)
qed

lemma reg_wf_get:
  assumes "reg_wf F S"
  shows "reg_wf F (snd (get_or_create F K loc opts S))"
proof (cases "find (\<lambda>e. mf_eq F (fst e) loc) (us_registry S)")
  case None
  then have "\<forall>e \<in> set (us_registry S). \<not> mf_eq F (fst e) loc" unfolding find_None_iff by blast
  from reg_wf_open [OF assms this, of K opts] None assms show ?thesis by (simp add: get_or_create_def)
next
  case (Some e)
  have "reg_wf F (S\<lparr>us_registry := filter (\<lambda>e. \<not> mf_eq F (fst e) loc) (us_registry S)\<rparr>)"
    by (rule reg_wf_filter [OF assms]) simp_all
  from reg_wf_open [OF this, of loc K opts] Some assms show ?thesis by (simp add: get_or_create_def)
qed

lemma reg_wf_destroy:
  assumes "reg_wf F S"
  shows "reg_wf F (mux_destroy F K m S)"
proof -
  have keep: "yields (mux_shutdown K x) (\<lambda>y. mx_local y = mx_local x)" for x :: "'a udp_mux"
    unfolding mux_shutdown_def by (auto intro!: yields_after yields_return)
  obtain x w where r: "run_state (mux_shutdown K (us_muxes S ! m)) (us_world S) = (x, w)" by (metis surj_pair)
  note k = yieldsD [OF keep r]
  have l: "map mx_local ((us_muxes S)[m := y]) = map mx_local (us_muxes S)" if "mx_local y = mx_local x" for y
    by (rule map_update_same) (simp add: k that)
  obtain ec s w' where c: "run_state (socket_close K Windows (mx_socket x)) w = ((ec, s), w')" by (metis surj_pair)
  show ?thesis
  proof (cases "us_locked S")
    case True
    then show ?thesis by (rule_tac reg_wf_cong [OF assms]) (simp_all add: mux_destroy_def r mux_locals_def l)
  next
    case False
    then show ?thesis by (rule_tac reg_wf_filter [OF assms]) (simp_all add: mux_destroy_def r c mux_locals_def l)
  qed
qed

lemma reg_wf_thread: "reg_wf F S \<Longrightarrow> reg_wf F (mux_thread F K m S)"
  by (erule reg_wf_cong)
    (auto simp: mux_thread_def thread_end_def mux_wait_def mux_entry_def mux_rearm_def mux_invoke_def set_pc_def Let_def
      split: mux_point.split list.split prod.split mux_target.split)

section \<open>The invariant of all interleavings\<close>

definition us_inv :: "'a mux_family \<Rightarrow> int multiset \<Rightarrow> 'a mux_sys \<Rightarrow> bool" where
  "us_inv F L S \<longleftrightarrow> accounted L S \<and> mux_wf F S \<and> reg_wf F S"

lemma us_inv_init: "us_init L S \<Longrightarrow> us_inv F L S"
  by (auto simp: us_init_def us_inv_def accounted_def us_owned_def mux_wf_def reg_wf_def)

lemma get_index:
  assumes "get_or_create F K loc opts S = (Some m, S1)" and "reg_wf F S"
  shows "m < length (us_muxes S1)" "us_impls S1 = us_impls S"
proof -
  have "snd e < length (us_muxes S)" if "find P (us_registry S) = Some e" for P e
  proof -
    have "e \<in> set (us_registry S)" using that by (metis find_Some_iff nth_mem)
    then show ?thesis using assms(2) unfolding reg_wf_def mux_locals_def by (metis length_map prod.collapse)
  qed
  with assms(1) show "m < length (us_muxes S1)" "us_impls S1 = us_impls S"
    by (auto simp: get_or_create_def open_mux_def Let_def split: option.splits if_splits prod.splits sum.splits)
qed

context mux_keys
begin

lemma inv_impl_destroy:
  assumes "us_inv F L S" and "i < length (us_impls S)"
  shows "us_inv F L (impl_destroy F K i S)"
proof -
  let ?m = "mp_mux (us_impls S ! i)"
  let ?S = "set_impl i (\<lambda>ob. ob\<lparr>mp_closed := True, mp_freed := True\<rparr>) (deregister_peer F ?m (mp_addr (us_impls S ! i)) S)"
  have wf: "mux_wf F S" and reg: "reg_wf F S" and acc: "accounted L S" using assms(1) by (simp_all add: us_inv_def)
  have m: "?m < length (us_muxes S)" using wf assms(2) by (simp add: mux_wf_def impl_good_def)
  then have m': "?m < length (us_muxes ?S)" by (simp add: set_impl_def deregister_peer_def set_mux_def)
  have "mux_wf F ?S" by (rule wf_drop [OF wf assms(2)])
  moreover have "reg_wf F ?S" by (rule reg_wf_cong [OF reg]) (simp_all add: deregister_peer_def)
  ultimately show ?thesis
    using accounted_impl_destroy [OF acc assms(2) m, of F K] mux_wf_destroy [OF _ m'] reg_wf_destroy [of F ?S K ?m]
    by (simp add: us_inv_def impl_destroy_def Let_def)
qed

lemma inv_create:
  assumes "us_inv F L S" and "mux_peer_create F K loc peer opts S = (r, S')"
  shows "us_inv F L S'"
proof -
  obtain g S1 where g: "get_or_create F K loc opts S = (g, S1)" by (metis surj_pair)
  have inv1: "us_inv F L S1"
    using assms(1) accounted_get [of L S F K loc opts] mux_wf_get [of F S K loc opts] reg_wf_get [of F S K loc opts]
    by (simp add: us_inv_def g)
  show ?thesis
  proof (cases g)
    case None
    with assms(2) g inv1 show ?thesis by (simp add: mux_peer_create_def)
  next
    case (Some m)
    let ?ob = "\<lparr>mp_mux = m, mp_addr = peer, mp_queue = [], mp_closed = False, mp_freed = False, mp_read = []\<rparr>"
    let ?i = "length (us_impls S1)"
    let ?S2 = "S1\<lparr>us_impls := us_impls S1 @ [?ob]\<rparr>"
    have m: "m < length (us_muxes S1)" using get_index [of F K loc opts S m S1] g Some assms(1) by (simp add: us_inv_def)
    have wf2: "mux_wf F ?S2" by (rule mux_wf_new_impl) (use inv1 m in \<open>simp_all add: us_inv_def\<close>)
    obtain ec S3 where r: "register_peer F m peer ?i ?S2 = (ec, S3)" by (metis surj_pair)
    have "mux_wf F S3" using mux_wf_register [OF wf2, of ?i m peer] r by simp
    moreover have "accounted L S3" "us_registry S3 = us_registry S1" "mux_locals S3 = mux_locals S1" "length (us_impls S3) = Suc ?i"
      using r inv1 by (auto simp: register_peer_def us_inv_def set_mux_def mux_locals_def map_update_same accounted_def us_owned_def split: if_splits)
    ultimately have inv3: "us_inv F L S3" "?i < length (us_impls S3)"
      using inv1 reg_wf_cong [of F S1 S3] by (simp_all add: us_inv_def)
    from inv_impl_destroy [OF inv3] inv3(1) assms(2) g Some r show ?thesis
      by (auto simp: mux_peer_create_def Let_def split: if_splits)
  qed
qed

lemma inv_step:
  assumes "us_inv F L S" and "mux_step F K S S'"
  shows "us_inv F L S'"
proof -
  have "mux_act F K S S'" using assms(2) by (simp add: mux_step_def)
  then show ?thesis using assms(1)
  proof cases
    case (us_create loc peer opts r)
    then show ?thesis using inv_create [OF assms(1)] by blast
  next
    case (us_send i data r)
    have n: "neutral (mux_send_to F K x data dest)" for x dest unfolding mux_send_to_def by (intro neutral_intros)
    from us_send(3) assms(1) accounted_io [OF _ n] show ?thesis
      by (auto simp: mux_peer_send_def us_inv_def reg_wf_def split: prod.splits)
  next
    case (us_recv i len r)
    have "mux_wf F (set_impl i (\<lambda>ob. ob\<lparr>mp_queue := rest, mp_read := mp_read ob @ [front]\<rparr>) S)"
      if "mp_queue (us_impls S ! i) = front # rest" for front rest
      unfolding set_impl_def by (rule mux_wf_impl) (use us_recv assms(1) that in \<open>simp_all add: us_inv_def\<close>)
    with us_recv(3) assms(1) show ?thesis
      by (auto simp: mux_peer_recv_def us_inv_def reg_wf_def split: list.splits if_splits)
  next
    case (us_drop i)
    then show ?thesis using inv_impl_destroy [OF assms(1)] by blast
  next
    case (us_catch m c)
    have "mux_wf F (set_catch_all m c S)" unfolding set_catch_all_def set_mux_def
      by (rule mux_wf_same) (use us_catch assms(1) in \<open>simp_all add: us_inv_def\<close>)
    with us_catch assms(1) show ?thesis by (simp add: us_inv_def reg_wf_def set_catch_all_def)
  next
    case (us_thread m)
    with assms(1) show ?thesis by (simp add: us_inv_def accounted_thread mux_wf_thread reg_wf_thread)
  qed
qed

end

sublocale mux_keys < runs: invariant_system "us_init L" "mux_step F K" "us_inv F L" for L K
  by unfold_locales (auto intro: us_inv_init inv_step)

context mux_keys
begin

lemma always_inv: "reachable (us_init L) (mux_step F K) S \<Longrightarrow> us_inv F L S"
  by (rule runs.reachable_inv)

end

interpretation mux4_keys: mux_keys mux4
  by unfold_locales (simp add: mux4_def inet4_eq_def)

interpretation mux6_keys: mux_keys mux6
  by unfold_locales (simp add: mux6_def inet6_eq_def memcmp_zero_iff)

end
