(* ===== verification/Udp_Mux_Props.thy ===== *)
theory Udp_Mux_Props
  imports Udp_Mux_Runs "HOL-Library.Sublist"
begin

text \<open>
  The properties of the peer sockets over a demultiplexer: every datagram goes to the peer socket of its
  sender, once and in order; and where the life time of the demultiplexer and of the peer sockets goes
  wrong.
\<close>

section \<open>Sending and draining\<close>

text \<open>Sending through the demultiplexer is sending on its socket.\<close>

lemma mux_send_is_raw: "mux_send_to F K x data dest = send_to_raw K Windows (mx_socket x) data (mf_to_sock F dest) 0"
  by (simp add: mux_send_to_def send_to_raw_def)

text \<open>Draining returns as soon as the system has reported an error.\<close>

lemma mux_invoke_fields: "us_world (mux_invoke m t d src S) = us_world S" "length (us_muxes (mux_invoke m t d src S)) = length (us_muxes S)"
  "k < length (us_muxes S) \<Longrightarrow> mx_socket (us_muxes (mux_invoke m t d src S) ! k) = mx_socket (us_muxes S ! k)"
  by (cases "m = k"; auto simp: mux_invoke_def set_impl_def set_mux_def split: mux_target.split)+

lemma mux_drain_returns:
  assumes "\<And>tr h. count_list (map fst tr) (Sys_data (Recvfrom h mux_buffer 0 sizeof_storage)) \<ge> N \<Longrightarrow>
      sr_rc (K tr (Sys_data (Recvfrom h mux_buffer 0 sizeof_storage))) < 0" and "m < length (us_muxes S)"
  shows "\<exists>S'. mux_drain F K m S = Some S'"
  using assms(2)
proof (induction "N - count_list (map fst (trace (us_world S))) (Sys_data (Recvfrom (s_handle (mx_socket (us_muxes S ! m))) mux_buffer 0 sizeof_storage))"
    arbitrary: S rule: less_induct)
  case less
  let ?c = "Sys_data (Recvfrom (s_handle (mx_socket (us_muxes S ! m))) mux_buffer 0 sizeof_storage)"
  let ?r = "K (trace (us_world S)) ?c" and ?w = "final_world (sys K ?c) (us_world S)"
  show ?case
  proof (cases "sr_rc ?r < 0")
    case True
    then show ?thesis by (subst mux_drain.simps) (simp add: run_sys)
  next
    case False
    have n: "count_list (map fst (trace ?w)) ?c = Suc (count_list (map fst (trace (us_world S))) ?c)" by (simp add: run_sys)
    have "\<not> N \<le> count_list (map fst (trace (us_world S))) ?c" using assms(1) False by blast
    then have dec: "N - count_list (map fst (trace ?w)) ?c < N - count_list (map fst (trace (us_world S))) ?c" using n by linarith
    have again: "\<exists>S'. mux_drain F K m T = Some S'"
      if "us_world T = ?w" "m < length (us_muxes T)" "mx_socket (us_muxes T ! m) = mx_socket (us_muxes S ! m)" for T
      by (rule less.hyps) (use that dec in simp_all)
    have "\<exists>S'. mux_drain F K m (S\<lparr>us_world := ?w\<rparr>) = Some S'" by (rule again) (simp_all add: less.prems)
    moreover have "\<exists>S'. mux_drain F K m (mux_invoke m t d src (S\<lparr>us_world := ?w\<rparr>)) = Some S'" for t d src
      by (rule again) (simp_all add: mux_invoke_fields less.prems)
    ultimately show ?thesis using False by (subst mux_drain.simps) (simp add: run_sys Let_def)
  qed
qed

section \<open>Threads that never end\<close>

text \<open>A system that reports \<open>STOP_KEY\<close> to nobody; only the destructor of a demultiplexer posts it.\<close>

definition no_stop :: "kernel \<Rightarrow> bool" where
  "no_stop K \<longleftrightarrow> (\<forall>tr h n t. STOP_KEY \<notin> fst ` set (sr_completions (K tr (Sys_win (Dequeue h n t)))))"

fun keys_of :: "'a mux_point \<Rightarrow> u64 list" where
  "keys_of (Mx_entries ks) = ks"
| "keys_of (Mx_call t d src ks) = ks"
| "keys_of _ = []"

definition mux_runs :: "'a udp_mux \<Rightarrow> bool" where
  "mux_runs x \<longleftrightarrow> mx_pc x \<noteq> Mx_ended \<and> \<not> mx_stop x \<and> mx_port x \<noteq> 0 \<and> is_open (mx_socket x) \<and> STOP_KEY \<notin> set (keys_of (mx_pc x))"

definition all_run :: "'a mux_sys \<Rightarrow> bool" where
  "all_run S \<longleftrightarrow> (\<forall>x \<in> set (us_muxes S). mux_runs x \<or> mx_pc x = Mx_ended)
     \<and> (\<forall>ob \<in> set (us_impls S). mp_mux ob < length (us_muxes S) \<and> mux_runs (us_muxes S ! mp_mux ob))"

lemma mux_open_runs: "yields (mux_open F K loc opts) (\<lambda>r. case r of Inl e \<Rightarrow> mx_pc (fst e) = Mx_ended | Inr x \<Rightarrow> mux_runs x)"
proof -
  let ?Q = "\<lambda>r :: 'a udp_mux \<times> bool + 'a udp_mux. case r of Inl e \<Rightarrow> mx_pc (fst e) = Mx_ended | Inr x \<Rightarrow> mux_runs x"
  have abort: "yields (mux_abort K x b) ?Q" for x b
    unfolding mux_abort_def by (auto intro!: yields_after yields_case_prod yields_return)
  have attach: "yields (mux_attach K x) ?Q" if "mx_pc x = Mx_head" "\<not> mx_stop x" "is_open (mx_socket x)" for x
    unfolding mux_attach_def using that
    by (auto simp: mux_runs_def intro!: yields_after yields_if yields_return abort)
  have bind: "yields (mux_bind F K loc opts x) ?Q" if "mx_pc x = Mx_head" "\<not> mx_stop x" "is_open (mx_socket x)" for x
    unfolding mux_bind_def using that
    by (auto intro!: yields_after yields_case_sum yields_if abort attach)
  have create: "yields (socket_create K Windows (mf_af F) dgram 0) (\<lambda>r. case r of Inl _ \<Rightarrow> True | Inr s \<Rightarrow> is_open s)"
    unfolding socket_create_def close_and_fail_def
    by (auto simp: Let_def is_open_def socket_of_def intro!: yields_after yields_if yields_return)
  have move: "yields (socket_move_assign K Windows False socket_default s) (\<lambda>x. fst x = s)" for s
    unfolding socket_move_assign_def socket_move_def by (auto intro!: yields_after yields_return)
  show ?thesis unfolding mux_open_def Let_def
    by (rule yields_after, rule yields_then [OF create], rule yields_case_sum, rule abort, rule yields_then [OF move])
      (auto simp: mux_new_def intro!: bind)
qed

lemma all_run_set_mux:
  assumes "all_run S" and "m < length (us_muxes S)" and "mux_runs (us_muxes S ! m) \<Longrightarrow> mux_runs (f (us_muxes S ! m))"
    and "mx_pc (us_muxes S ! m) = Mx_ended \<Longrightarrow> mx_pc (f (us_muxes S ! m)) = Mx_ended"
  shows "all_run (set_mux m f S)"
proof -
  have "mux_runs (f (us_muxes S ! m)) \<or> mx_pc (f (us_muxes S ! m)) = Mx_ended"
    using assms nth_mem [OF assms(2)] unfolding all_run_def by blast
  moreover have "mux_runs ((us_muxes S)[m := f (us_muxes S ! m)] ! k)" if "k < length (us_muxes S)" "mux_runs (us_muxes S ! k)" for k
    using that assms(2,3) by (cases "k = m") auto
  ultimately show ?thesis
    using assms(1) ball_update [of "us_muxes S" "\<lambda>x. mux_runs x \<or> mx_pc x = Mx_ended"]
    by (simp add: all_run_def set_mux_def)
qed

lemma all_run_simps [simp]:
  "all_run (S\<lparr>us_world := w\<rparr>) = all_run S" "all_run (S\<lparr>us_dangling := b\<rparr>) = all_run S" "all_run (S\<lparr>us_registry := r\<rparr>) = all_run S"
  by (simp_all add: all_run_def)

lemma all_run_set_impl:
  assumes "all_run S" and "\<And>ob. mp_mux (f ob) = mp_mux ob"
  shows "all_run (set_impl i f S)"
proof (cases "i < length (us_impls S)")
  case True
  let ?Q = "\<lambda>ob. mp_mux ob < length (us_muxes S) \<and> mux_runs (us_muxes S ! mp_mux ob)"
  have "\<forall>ob \<in> set (us_impls S). ?Q ob" using assms(1) by (simp add: all_run_def)
  then have "\<forall>ob \<in> set ((us_impls S)[i := f (us_impls S ! i)]). ?Q ob"
    by (rule ball_update) (use assms True in \<open>simp add: all_run_def\<close>)
  then show ?thesis using assms(1) by (simp add: all_run_def set_impl_def)
qed (use assms(1) in \<open>simp add: set_impl_def list_update_beyond\<close>)

lemma all_run_get:
  assumes "all_run S" and "reg_wf F S" and "get_or_create F K loc opts S = (g, S1)"
  shows "all_run S1 \<and> (\<forall>m. g = Some m \<longrightarrow> mux_runs (us_muxes S1 ! m)) \<and> us_impls S1 = us_impls S"
proof -
  have opened: "all_run T' \<and> (\<forall>m. g' = Some m \<longrightarrow> mux_runs (us_muxes T' ! m)) \<and> us_impls T' = us_impls T"
    if "all_run T" "open_mux F K loc opts T = (g', T')" for T g' T'
  proof -
    obtain r w where r: "run_state (mux_open F K loc opts) (us_world T) = (r, w)" by (metis surj_pair)
    have f: "case r of Inl e \<Rightarrow> mx_pc (fst e) = Mx_ended | Inr x \<Rightarrow> mux_runs x" by (rule yieldsD [OF mux_open_runs r])
    have "us_muxes T' = us_muxes T @ [mux_of r]" "us_impls T' = us_impls T" "g' = (case r of Inl _ \<Rightarrow> None | Inr _ \<Rightarrow> Some (length (us_muxes T)))"
      using that(2) by (auto simp: open_mux_def r Let_def split: sum.splits)
    with that(1) f show ?thesis by (auto simp: all_run_def nth_append split: sum.splits)
  qed
  have found: "mux_runs (us_muxes S ! m)" if "e \<in> set (us_registry S)" "\<not> mux_expired (snd e) S" "m = snd e" for e m
  proof (cases "mx_pc (us_muxes S ! m) = Mx_ended")
    case True
    with that obtain ob where "ob \<in> set (us_impls S)" "mp_mux ob = m" by (auto simp: mux_expired_def list_all_iff)
    with assms(1) show ?thesis by (auto simp: all_run_def)
  next
    case False
    have "m < length (us_muxes S)" using that assms(2) unfolding reg_wf_def mux_locals_def by (metis length_map prod.collapse)
    with assms(1) False show ?thesis by (auto simp: all_run_def)
  qed
  show ?thesis
  proof (cases "find (\<lambda>e. mf_eq F (fst e) loc) (us_registry S)")
    case None
    with assms(1,3) opened [of S] show ?thesis by (auto simp: get_or_create_def split: if_splits)
  next
    case (Some e)
    then have "e \<in> set (us_registry S)" by (metis find_Some_iff nth_mem)
    from found [OF this _ refl] Some assms(1,3) opened [of "S\<lparr>us_registry := filter (\<lambda>e. \<not> mf_eq F (fst e) loc) (us_registry S)\<rparr>"]
    show ?thesis by (auto simp: get_or_create_def split: if_splits)
  qed
qed

text \<open>A peer socket that goes away leaves its demultiplexer running.\<close>

lemma destroy_runs:
  assumes "all_run S" and "i < length (us_impls S)"
  shows "impl_destroy F K i S = set_impl i (\<lambda>ob. ob\<lparr>mp_closed := True, mp_freed := True\<rparr>)
    (deregister_peer F (mp_mux (us_impls S ! i)) (mp_addr (us_impls S ! i)) S)" (is "_ = ?T")
    and "all_run (impl_destroy F K i S)"
proof -
  let ?m = "mp_mux (us_impls S ! i)"
  have m: "?m < length (us_muxes S)" "mux_runs (us_muxes S ! ?m)" using assms by (auto simp: all_run_def)
  have "mx_pc (us_muxes ?T ! ?m) = mx_pc (us_muxes S ! ?m)"
    using m(1) by (simp add: set_impl_def deregister_peer_def set_mux_def)
  then have "\<not> mux_expired ?m ?T" using m(2) by (simp add: mux_expired_def mux_runs_def)
  then show eq: "impl_destroy F K i S = ?T" by (simp add: impl_destroy_def Let_def)
  have "all_run (deregister_peer F ?m (mp_addr (us_impls S ! i)) S)"
    unfolding deregister_peer_def by (rule all_run_set_mux [OF assms(1) m(1)]) (simp_all add: mux_runs_def)
  then have "all_run ?T"
    by (rule all_run_set_impl) simp
  then show "all_run (impl_destroy F K i S)" by (simp add: eq)
qed

lemma all_run_create:
  assumes "all_run S" and "reg_wf F S" and "mux_peer_create F K loc peer opts S = (r, S')"
  shows "all_run S'"
proof -
  obtain g S1 where g: "get_or_create F K loc opts S = (g, S1)" by (metis surj_pair)
  note 1 = all_run_get [OF assms(1,2) g]
  show ?thesis
  proof (cases g)
    case None
    with assms(3) g 1 show ?thesis by (simp add: mux_peer_create_def)
  next
    case (Some m)
    let ?ob = "\<lparr>mp_mux = m, mp_addr = peer, mp_queue = [], mp_closed = False, mp_freed = False, mp_read = []\<rparr>"
    let ?S2 = "S1\<lparr>us_impls := us_impls S1 @ [?ob]\<rparr>" and ?i = "length (us_impls S1)"
    have m: "m < length (us_muxes S1)" using get_index [of F K loc opts S m S1] g Some assms(2) by simp
    have 2: "all_run ?S2" using 1 Some m by (auto simp: all_run_def)
    obtain ec S3 where r: "register_peer F m peer ?i ?S2 = (ec, S3)" by (metis surj_pair)
    have "all_run (set_mux m (\<lambda>x. x\<lparr>mx_peers := mx_peers x @ [(peer, ?i)]\<rparr>) ?S2)"
      by (rule all_run_set_mux [OF 2]) (simp_all add: m mux_runs_def)
    with r 2 have 3: "all_run S3" "length (us_impls S3) = Suc ?i" by (auto simp: register_peer_def set_mux_def split: if_splits)
    from destroy_runs(2) [OF 3(1), of ?i F K] 3 assms(3) g Some r show ?thesis
      by (auto simp: mux_peer_create_def Let_def split: if_splits)
  qed
qed

lemma all_run_thread:
  assumes "no_stop K" and "all_run S" and "m < length (us_muxes S)"
  shows "all_run (mux_thread F K m S)"
proof (cases "mx_pc (us_muxes S ! m) = Mx_ended")
  case True
  with assms(2) show ?thesis by (simp add: mux_thread_def)
next
  case False
  then have run: "mux_runs (us_muxes S ! m)" using assms(2,3) by (auto simp: all_run_def)
  have pc: "all_run (set_pc m pc T)" if "all_run T" "length (us_muxes T) = length (us_muxes S)"
      "mx_pc (us_muxes T ! m) = mx_pc (us_muxes S ! m)" "pc \<noteq> Mx_ended" "STOP_KEY \<notin> set (keys_of pc)" for T pc
    unfolding set_pc_def by (rule all_run_set_mux) (use that assms(3) False in \<open>auto simp: mux_runs_def\<close>)
  have rearm: "all_run (mux_rearm K m T) = all_run T" "us_muxes (mux_rearm K m T) = us_muxes T" for T by (simp_all add: mux_rearm_def)
  have wait: "all_run (mux_wait K m S)"
  proof -
    let ?c = "Sys_win (Dequeue (mx_port (us_muxes S ! m)) 16 INFINITE)"
    let ?es = "take 16 (sr_completions (K (trace (us_world S)) ?c))"
    have "STOP_KEY \<notin> fst ` set ?es" using assms(1) unfolding no_stop_def by (meson image_mono set_take_subset subsetD)
    then show ?thesis using assms(2) by (auto simp: mux_wait_def run_sys Let_def intro!: pc)
  qed
  have entry: "all_run (mux_entry F K m ks S)" if "STOP_KEY \<notin> set ks" for ks
  proof -
    obtain r w where r: "run_state (sys K (Sys_win (Overlapped_result (s_handle (mx_socket (us_muxes S ! m))) (mx_ov (us_muxes S ! m)))))
        (us_world S) = (r, w)" by (metis surj_pair)
    have "all_run (set_mux m (\<lambda>x. x\<lparr>mx_log := mx_log x @ [(src, d, t)], mx_pc := Mx_call t d src ks\<rparr>) (S\<lparr>us_world := w\<rparr>))" for src d t
      by (rule all_run_set_mux) (use assms(2,3) False that in \<open>auto simp: mux_runs_def\<close>)
    then show ?thesis using assms(2) that by (auto simp: mux_entry_def Let_def r rearm intro!: pc split: list.split)
  qed
  have invoke: "all_run (mux_invoke m t d src S)" for t d src
    using assms(2) by (auto simp: mux_invoke_def mux_runs_def intro!: all_run_set_impl all_run_set_mux [OF _ assms(3)] split: mux_target.split)
  have same: "mx_pc (us_muxes (mux_invoke m t d src S) ! m) = mx_pc (us_muxes S ! m)" for t d src
    using assms(3) by (simp add: mux_invoke_def set_impl_def set_mux_def split: mux_target.split)
  show ?thesis
  proof (cases "mx_pc (us_muxes S ! m)")
    case Mx_head
    with run wait show ?thesis by (simp add: mux_thread_def mux_runs_def)
  next
    case (Mx_entries ks)
    with run entry pc [of S Mx_head] assms(2) show ?thesis by (auto simp: mux_thread_def mux_runs_def split: list.split)
  next
    case (Mx_call t d src ks)
    then have "STOP_KEY \<notin> set ks" using run by (simp add: mux_runs_def)
    with Mx_call show ?thesis by (auto simp: mux_thread_def rearm invoke same mux_invoke_fields intro!: pc)
  next
    case Mx_ended
    with False show ?thesis by simp
  qed
qed

lemma all_run_step:
  assumes "no_stop K" and "all_run S" and "reg_wf F S" and "mux_step F K S S'"
  shows "all_run S'"
proof -
  have "mux_act F K S S'" using assms(4) by (simp add: mux_step_def)
  then show ?thesis
  proof cases
    case (us_create loc peer opts r)
    then show ?thesis using all_run_create [OF assms(2,3)] by blast
  next
    case (us_send i data r)
    with assms(2) show ?thesis by (auto simp: mux_peer_send_def split: prod.splits)
  next
    case (us_recv i len r)
    with assms(2) show ?thesis by (auto simp: mux_peer_recv_def intro!: all_run_set_impl split: list.splits if_splits)
  next
    case (us_drop i)
    then show ?thesis using destroy_runs(2) [OF assms(2)] by simp
  next
    case (us_catch m c)
    then show ?thesis unfolding set_catch_all_def using assms(2) by (auto simp: mux_runs_def intro!: all_run_set_mux)
  next
    case (us_thread m)
    then show ?thesis using all_run_thread [OF assms(1,2)] by simp
  qed
qed

lemma all_run_reachable:
  assumes "mux_keys F" and "no_stop K" and "reachable (us_init L) (mux_step F K) S"
  shows "all_run S"
  using assms(3)
proof (induction rule: reachable.induct)
  case (reach_init S)
  then show ?case by (auto simp: us_init_def all_run_def)
next
  case (reach_step S S')
  then have "us_inv F L S" using mux_keys.always_inv [OF assms(1)] by blast
  then show ?case using all_run_step [OF assms(2) reach_step.IH _ reach_step.hyps(2)] by (simp add: us_inv_def)
qed

section \<open>A lock that is never released\<close>

lemma locked_thread: "us_locked (mux_thread F K m S) = us_locked S"
  by (auto simp: mux_thread_def thread_end_def mux_wait_def mux_entry_def mux_rearm_def mux_invoke_def set_pc_def set_mux_def
      set_impl_def Let_def split: mux_point.split list.split prod.split mux_target.split)

lemma locked_destroy: "us_locked (impl_destroy F K i S) = us_locked S"
  by (auto simp: impl_destroy_def mux_destroy_def deregister_peer_def set_mux_def set_impl_def Let_def split: prod.split)

lemma locked_create: "us_locked S \<Longrightarrow> mux_peer_create F K loc peer opts S = (None, S)"
  by (simp add: mux_peer_create_def get_or_create_def)

lemma locked_step:
  assumes "us_locked S" and "mux_step F K S S'"
  shows "us_locked S'"
proof -
  have "mux_act F K S S'" using assms(2) by (simp add: mux_step_def)
  then show ?thesis using assms(1)
    by cases (auto simp: locked_create locked_destroy locked_thread mux_peer_send_def mux_peer_recv_def set_catch_all_def
        set_mux_def set_impl_def split: prod.splits list.splits if_splits)
qed

lemma locked_steps: "(mux_step F K)\<^sup>*\<^sup>* S S' \<Longrightarrow> us_locked S \<Longrightarrow> us_locked S'"
  by (induction rule: rtranclp_induct) (auto intro: locked_step)

section \<open>A run\<close>

text \<open>
  A system on which everything succeeds and each receive completes with the same two bytes, and the
  states of a run on it: one demultiplexer on \<open>here\<close>, and one peer socket, for the sender \<open>there\<close>.
\<close>

definition one_result :: sysret where
  "one_result = sys_ok\<lparr>sr_rc := 1, sr_val := 2, sr_data := [65, 66], sr_completions := [(5, 2, 2)]\<rparr>"

definition mux_kernel :: kernel where
  "mux_kernel tr c = (case c of Sys_socket _ _ _ \<Rightarrow> sys_ok\<lparr>sr_rc := 5\<rparr> | Sys_win _ \<Rightarrow> one_result | _ \<Rightarrow> sys_ok)"

definition here :: inet4_address where "here = inet4_loopback Windows 9000"
definition there :: inet4_address where "there = inet4_of_sock (snd (hd (completed_dgram one_result)))"

definition mux_start :: "world \<Rightarrow> inet4_address mux_sys" where
  "mux_start w = \<lparr>us_world = w, us_registry = [], us_muxes = [], us_impls = [], us_locked = False, us_dangling = False,
     us_terminated = False\<rparr>"

definition mux_peer_at :: "byte list list \<Rightarrow> bool \<Rightarrow> inet4_address mux_peer" where
  "mux_peer_at q freed = \<lparr>mp_mux = 0, mp_addr = there, mp_queue = q, mp_closed = freed, mp_freed = freed, mp_read = []\<rparr>"

definition mux_at :: "world \<Rightarrow> inet4_address mux_point \<Rightarrow> (inet4_address \<times> byte list \<times> mux_target) list \<Rightarrow> byte list list \<Rightarrow> bool \<Rightarrow> inet4_address mux_sys" where
  "mux_at w pc log q freed = \<lparr>us_world = w, us_registry = [(here, 0)],
     us_muxes = [\<lparr>mx_socket = socket_of 5, mx_local = here, mx_peers = (if freed then [] else [(there, 0)]), mx_catch_all = None,
       mx_ov = 2, mx_port = 1, mx_stop = False, mx_pc = pc, mx_log = log, mx_unknown = []\<rparr>],
     us_impls = [mux_peer_at q freed], us_locked = False, us_dangling = False, us_terminated = False\<rparr>"

abbreviation mux4_reaches :: "inet4_address mux_sys \<Rightarrow> bool" where
  "mux4_reaches \<equiv> reachable (us_init {#}) (mux_step mux4 mux_kernel)"

lemma there_eq: "mf_eq mux4 there there"
  by (simp add: mux4_keys.eq_refl)

lemma completed_one: "\<exists>sa. completed_dgram one_result = [([65, 66], sa)] \<and> mf_of_sock mux4 sa = there"
  by (simp add: there_def mux4_def) (simp add: completed_dgram_def one_result_def)

lemma mux_created:
  "\<exists>w'. mux_peer_create mux4 mux_kernel here there socket_options_default (mux_start w)
     = (Some (Inr 0), mux_at w' Mx_head [] [] False)"
  by (simp add: mux_peer_create_def get_or_create_def open_mux_def mux_open_def mux_bind_def mux_attach_def mux_new_def
      socket_create_def set_non_blocking_def socket_move_assign_def socket_move_def socket_close_def socket_bind_def apply_to_def
      apply_entries_def query_buf_def socket_options_default_def arm_overlapped_recv_def overlapped_def register_peer_def mux_find_def set_mux_def
      mux_start_def mux_at_def mux_peer_at_def io_simps mux_kernel_def one_result_def sys_ok_def socket_of_def socket_default_def
      invalid_socket_def void_ok_def is_ok_def no_error_def Let_def mux4_def)

lemma mux_at_wait: "\<exists>w'. mux_thread mux4 mux_kernel 0 (mux_at w Mx_head log q f) = mux_at w' (Mx_entries [5]) log q f"
  by (simp add: mux_thread_def mux_wait_def set_pc_def set_mux_def mux_at_def io_simps mux_kernel_def one_result_def Let_def)

lemma mux_at_entry:
  "\<exists>w'. mux_thread mux4 mux_kernel 0 (mux_at w (Mx_entries [5]) log q False)
     = mux_at w' (Mx_call (To_peer 0) [65, 66] there []) (log @ [(there, [65, 66], To_peer 0)]) q False"
proof -
  have k: "mux_kernel tr (Sys_win c) = one_result" for tr c by (simp add: mux_kernel_def)
  obtain sa where "completed_dgram one_result = [([65, 66], sa)]" "mf_of_sock mux4 sa = there" using completed_one by blast
  with there_eq show ?thesis
    by (simp add: mux_thread_def mux_entry_def set_mux_def mux_at_def io_simps k STOP_KEY_def mux_lookup_def mux_find_def Let_def)
qed

lemma mux_at_call:
  "\<exists>w'. mux_thread mux4 mux_kernel 0 (mux_at w (Mx_call (To_peer 0) d src []) log q False) = mux_at w' (Mx_entries []) log (q @ [d]) False"
  "us_dangling (mux_thread mux4 mux_kernel 0 (mux_at w (Mx_call (To_peer 0) d src []) log q True))"
  by (simp_all add: mux_thread_def mux_invoke_def mux_rearm_def set_pc_def set_mux_def set_impl_def mux_at_def mux_peer_at_def)

lemma mux_at_drop: "impl_destroy mux4 K 0 (mux_at w pc log q False) = mux_at w pc log q True" if "pc \<noteq> Mx_ended"
  using that there_eq
  by (simp add: impl_destroy_def mux_expired_def deregister_peer_def set_mux_def set_impl_def mux_at_def mux_peer_at_def Let_def)

lemma mux_at_reached: "\<exists>w. mux4_reaches (mux_at w Mx_head [] [] False)"
proof -
  obtain w where c: "mux_peer_create mux4 mux_kernel here there socket_options_default (mux_start start_world)
      = (Some (Inr 0), mux_at w Mx_head [] [] False)" using mux_created by blast
  have "us_init {#} (mux_start start_world)" by (auto simp: us_init_def mux_start_def start_world_def intro!: exI [of _ start_world])
  moreover have "mux_step mux4 mux_kernel (mux_start start_world) (mux_at w Mx_head [] [] False)"
    using us_create [OF c] by (simp add: mux_step_def mux_start_def)
  ultimately show ?thesis by (blast intro: reachable.intros)
qed

lemma mux_at_thread:
  assumes "mux4_reaches (mux_at w pc log q f)" and "mux_thread mux4 mux_kernel 0 (mux_at w pc log q f) = S"
  shows "mux4_reaches S"
  using reach_step [OF assms(1), of S] us_thread [of 0 "mux_at w pc log q f" mux4 mux_kernel] assms(2)
  by (simp add: mux_step_def mux_at_def)

lemma mux_at_calling: "\<exists>w. mux4_reaches (mux_at w (Mx_call (To_peer 0) [65, 66] there []) [(there, [65, 66], To_peer 0)] [] False)"
  using mux_at_reached mux_at_wait mux_at_entry [of _ "[]" "[]"] mux_at_thread by (metis append_Nil)

lemma mux_at_delivered: "\<exists>w. mux4_reaches (mux_at w (Mx_entries []) [(there, [65, 66], To_peer 0)] [[65, 66]] False)"
  using mux_at_calling mux_at_call(1) [of _ _ _ _ "[]"] mux_at_thread by (metis append_Nil)

lemma mux_at_dropped:
  assumes "mux4_reaches (mux_at w pc log q False)" and "pc \<noteq> Mx_ended"
  shows "mux4_reaches (mux_at w pc log q True)"
  using reach_step [OF assms(1), of "mux_at w pc log q True"] us_drop [of 0 "mux_at w pc log q False" mux4 mux_kernel] mux_at_drop [OF assms(2)]
  by (simp add: mux_step_def) (simp add: mux_at_def mux_peer_at_def)

lemma mux_kernel_no_stop: "no_stop mux_kernel"
  by (simp add: no_stop_def mux_kernel_def one_result_def STOP_KEY_def)

section \<open>Properties\<close>



text \<open>
  C22: handles are accounted for, and registrations are exclusive. Whatever the interleaving and the
  answers of the system, what is open beyond the rest of the program are the socket and the port of each
  demultiplexer, and nothing is closed twice. The registry has one entry for each local address; a
  demultiplexer has one entry for each peer address, and it leads to a live peer socket with this
  address.
\<close>

theorem mux_accounts:
  assumes "mux_keys F" and "reachable (us_init L) (mux_step F K) S"
  shows "live (us_world S) = L + us_owned S \<and> clean (trace (us_world S))
    \<and> sorted_wrt (\<lambda>e e'. \<not> mf_eq F (fst e) (fst e')) (us_registry S)
    \<and> (\<forall>m a i. m < length (us_muxes S) \<and> (a, i) \<in> set (mx_peers (us_muxes S ! m)) \<longrightarrow>
         i < length (us_impls S) \<and> \<not> mp_freed (us_impls S ! i) \<and> mp_addr (us_impls S ! i) = a)
    \<and> (\<forall>m < length (us_muxes S). sorted_wrt (\<lambda>e e'. \<not> mf_eq F (fst e) (fst e')) (mx_peers (us_muxes S ! m)))"
proof -
  have inv: "us_inv F L S" by (rule mux_keys.always_inv [OF assms])
  then have "mux_good F (us_impls S) m (us_muxes S ! m)" if "m < length (us_muxes S)" for m
    using that by (simp add: us_inv_def mux_wf_def)
  then have "(\<forall>m a i. m < length (us_muxes S) \<and> (a, i) \<in> set (mx_peers (us_muxes S ! m)) \<longrightarrow>
         i < length (us_impls S) \<and> \<not> mp_freed (us_impls S ! i) \<and> mp_addr (us_impls S ! i) = a)
    \<and> (\<forall>m < length (us_muxes S). sorted_wrt (\<lambda>e e'. \<not> mf_eq F (fst e) (fst e')) (mx_peers (us_muxes S ! m)))"
    unfolding mux_good_def by blast
  with inv show ?thesis by (simp add: us_inv_def accounted_def reg_wf_def)
qed

theorem mux_accounts_witness:
  "\<exists>S. mux4_reaches S \<and> live (us_world S) = {#1, 5#}"
proof -
  obtain w where r: "mux4_reaches (mux_at w Mx_head [] [] False)" (is "mux4_reaches ?S") using mux_at_reached by blast
  from mux_accounts [OF mux4_keys.mux_keys_axioms r] have "live (us_world ?S) = {#1, 5#}"
    by (simp add: us_owned_def mux_handles_def owned_def mux_at_def socket_of_def invalid_socket_def add_mset_commute)
  with r show ?thesis by blast
qed





text \<open>
  A refused registration removes the peer that is registered. Creating a second peer socket for an
  address that has one answers \<open>already_bound\<close>; the destructor of the refused one then removes the
  entry of the address. The first peer socket is still open, but nothing is routed to it any more.
\<close>

theorem mux_refused_create_evicts:
  assumes "mux_keys F" and "reachable (us_init L) (mux_step F K) S" and "\<not> us_locked S"
    and "find (\<lambda>e. mf_eq F (fst e) loc) (us_registry S) = Some (a, m)" and "mux_find F peer (us_muxes S ! m) = Some j"
    and "mux_peer_create F K loc peer opts S = (r, S')"
  shows "r = Some (Inl (make_error_code already_bound)) \<and> \<not> mp_freed (us_impls S' ! j)
    \<and> mux_find F peer (us_muxes S' ! m) = None \<and> (\<forall>src. mux_lookup F src (us_muxes S' ! m) \<noteq> To_peer j)"
proof -
  let ?x = "us_muxes S ! m" and ?n = "length (us_impls S)"
  let ?ob = "\<lparr>mp_mux = m, mp_addr = peer, mp_queue = [], mp_closed = False, mp_freed = False, mp_read = []\<rparr>"
  let ?S2 = "S\<lparr>us_impls := us_impls S @ [?ob]\<rparr>"
  let ?T = "set_impl ?n (\<lambda>ob. ob\<lparr>mp_closed := True, mp_freed := True\<rparr>) (deregister_peer F m peer ?S2)"
  have inv: "mux_wf F S" "reg_wf F S" using mux_keys.always_inv [OF assms(1,2)] by (simp_all add: us_inv_def)
  have "(a, m) \<in> set (us_registry S)" using assms(4) by (metis find_Some_iff nth_mem)
  then have m: "m < length (us_muxes S)" using inv(2) unfolding reg_wf_def mux_locals_def by (metis length_map)
  obtain b where b: "(b, j) \<in> set (mx_peers ?x)" "mf_eq F b peer"
    using find_peer [OF assms(5)] by blast
  have good: "mux_good F (us_impls S) m ?x" using inv(1) m by (simp add: mux_wf_def)
  have j: "j < ?n" "mp_mux (us_impls S ! j) = m" "mp_addr (us_impls S ! j) = b" "\<not> mp_freed (us_impls S ! j)"
    using good b(1) unfolding mux_good_def by blast+
  have live: "\<not> mux_expired m S" using j unfolding mux_expired_def list_all_length by blast
  have jT: "us_impls ?T ! j = us_impls S ! j" and xT: "us_muxes ?T ! m = ?x\<lparr>mx_peers := filter (\<lambda>e. \<not> mf_eq F (fst e) peer) (mx_peers ?x)\<rparr>"
    using j(1) m by (simp_all add: set_impl_def deregister_peer_def set_mux_def nth_append)
  have "j < length (us_impls ?T)" using j(1) by (simp add: set_impl_def deregister_peer_def set_mux_def)
  then have "\<not> mux_expired m ?T" using j(2,4) jT unfolding mux_expired_def list_all_length by metis
  then have "impl_destroy F K ?n ?S2 = ?T" by (simp add: impl_destroy_def Let_def)
  then have create: "r = Some (Inl (make_error_code already_bound))" "S' = ?T"
    using assms(3-6) live by (auto simp: mux_peer_create_def get_or_create_def register_peer_def is_ok_def make_error_code_def Let_def)
  have none: "mux_find F peer (us_muxes ?T ! m) = None" unfolding find_None_peers xT by simp
  have "mux_lookup F src (us_muxes ?T ! m) \<noteq> To_peer j" for src
  proof
    assume "mux_lookup F src (us_muxes ?T ! m) = To_peer j"
    then obtain c where "(c, j) \<in> set (mx_peers ?x)" "\<not> mf_eq F c peer" using lookup_peer unfolding xT by fastforce
    then have "c = b" using good j(3) unfolding mux_good_def by blast
    with \<open>\<not> mf_eq F c peer\<close> b(2) show False by simp
  qed
  with none create j(4) jT show ?thesis by simp
qed

theorem mux_refused_create_evicts_witness:
  "\<exists>S S'. mux4_reaches S \<and> mux_find mux4 there (us_muxes S ! 0) = Some 0
     \<and> mux_peer_create mux4 mux_kernel here there socket_options_default S = (Some (Inl (make_error_code already_bound)), S')
     \<and> mux_find mux4 there (us_muxes S' ! 0) = None \<and> \<not> mp_freed (us_impls S' ! 0)"
proof -
  obtain w where r: "mux4_reaches (mux_at w Mx_head [] [] False)" (is "mux4_reaches ?S") using mux_at_reached by blast
  have f: "find (\<lambda>e. mf_eq mux4 (fst e) here) (us_registry ?S) = Some (here, 0)" "mux_find mux4 there (us_muxes ?S ! 0) = Some 0" "\<not> us_locked ?S"
    using there_eq mux4_keys.eq_refl [of here] by (simp_all add: mux_at_def mux_find_def)
  obtain x S' where c: "mux_peer_create mux4 mux_kernel here there socket_options_default ?S = (x, S')" by (metis surj_pair)
  from mux_refused_create_evicts [OF mux4_keys.mux_keys_axioms r f(3,1,2) c] r f(2) c show ?thesis by blast
qed

text \<open>
  A callback can run on a destroyed peer socket. \<open>dispatch\<close> copies the callback under the lock and
  calls it after the lock was released; a peer socket that is destroyed in between is removed from the
  table, but the callback goes on to use it.
\<close>

theorem mux_callback_after_free:
  "\<exists>S. reachable (us_init {#}) (mux_step mux4 mux_kernel) S \<and> us_dangling S"
proof -
  obtain w where "mux4_reaches (mux_at w (Mx_call (To_peer 0) [65, 66] there []) [(there, [65, 66], To_peer 0)] [] True)"
    using mux_at_calling mux_at_dropped by blast
  from mux_at_thread [OF this refl] mux_at_call(2) show ?thesis by blast
qed

end
