(* ===== verification/Loop.thy ===== *)
theory Loop
  imports Dispatcher
begin

text \<open>
  The event loop and its timer handles: \<open>include/socketpp/event/loop.hpp\<close>, \<open>event/timer.hpp\<close> and
  \<open>src/event/loop.cpp\<close>.

  The posts go through two buffers: producers append to the active one under the spin lock, the loop
  swaps the buffers under the lock and runs the other one without it. A step is one critical section,
  one call of a posted function, or one return of \<open>poll\<close>; any thread, a running callback included, may
  post or stop at any time, and calls \<open>wake\<close> after it has left the critical section. \<open>lp_signal\<close> is the
  wake-up that the dispatcher holds for the next \<open>poll\<close>, and \<open>lp_waking\<close> counts the threads on
  their way to \<open>wake\<close>. \<open>lp_posted\<close> and \<open>lp_ran\<close> are history.
\<close>

section \<open>State\<close>

datatype lp_point = L_idle | L_check | L_swap | L_run nat | L_poll

record 'f loop =
  lp_queue_a :: "'f list"
  lp_queue_b :: "'f list"
  lp_active_a :: bool
  lp_running :: bool
  lp_stop :: bool
  lp_pc :: lp_point
  lp_once :: bool
  lp_signal :: bool
  lp_waking :: nat
  lp_posted :: "'f list"
  lp_ran :: "'f list"

definition loop_new :: "'f loop" where
  "loop_new = \<lparr>lp_queue_a = [], lp_queue_b = [], lp_active_a = True, lp_running = False, lp_stop = False,
     lp_pc = L_idle, lp_once = False, lp_signal = False, lp_waking = 0, lp_posted = [], lp_ran = []\<rparr>"

text \<open>What \<open>active_queue_\<close> and \<open>drain_queue_\<close> point to.\<close>

definition active_queue :: "'f loop \<Rightarrow> 'f list" where
  "active_queue s = (if lp_active_a s then lp_queue_a s else lp_queue_b s)"

definition drain_queue :: "'f loop \<Rightarrow> 'f list" where
  "drain_queue s = (if lp_active_a s then lp_queue_b s else lp_queue_a s)"

definition set_active :: "'f list \<Rightarrow> 'f loop \<Rightarrow> 'f loop" where
  "set_active q s = (if lp_active_a s then s\<lparr>lp_queue_a := q\<rparr> else s\<lparr>lp_queue_b := q\<rparr>)"

definition set_drain :: "'f list \<Rightarrow> 'f loop \<Rightarrow> 'f loop" where
  "set_drain q s = (if lp_active_a s then s\<lparr>lp_queue_b := q\<rparr> else s\<lparr>lp_queue_a := q\<rparr>)"

section \<open>Any thread\<close>

text \<open>The critical section of \<open>post\<close>, and the call of \<open>wake\<close> that follows it.\<close>

definition post_push :: "'f \<Rightarrow> 'f loop \<Rightarrow> 'f loop" where
  "post_push fn s =
     (set_active (active_queue s @ [fn]) s)\<lparr>lp_waking := Suc (lp_waking s), lp_posted := lp_posted s @ [fn]\<rparr>"

definition loop_wake :: "'f loop \<Rightarrow> 'f loop" where
  "loop_wake s = s\<lparr>lp_waking := lp_waking s - 1, lp_signal := True\<rparr>"

definition stop_request :: "'f loop \<Rightarrow> 'f loop" where
  "stop_request s = s\<lparr>lp_stop := True, lp_waking := Suc (lp_waking s)\<rparr>"

section \<open>The loop thread\<close>

definition run_enter :: "'f loop \<Rightarrow> 'f loop" where
  "run_enter s = s\<lparr>lp_running := True, lp_stop := False, lp_pc := L_check\<rparr>"

definition run_once_enter :: "'f loop \<Rightarrow> 'f loop" where
  "run_once_enter s = s\<lparr>lp_once := True, lp_pc := L_swap\<rparr>"

definition run_check :: "'f loop \<Rightarrow> 'f loop" where
  "run_check s =
     (if \<not> lp_stop s then s\<lparr>lp_pc := L_swap\<rparr> else s\<lparr>lp_running := False, lp_pc := L_idle\<rparr>)"

text \<open>\<open>drain_posts\<close>: the swap, one call of the loop over the drain queue, and the final \<open>clear\<close>.\<close>

definition drain_swap :: "'f loop \<Rightarrow> 'f loop" where
  "drain_swap s = s\<lparr>lp_active_a := \<not> lp_active_a s, lp_pc := L_run 0\<rparr>"

definition drain_call :: "nat \<Rightarrow> 'f loop \<Rightarrow> 'f loop" where
  "drain_call i s =
     (if i < length (drain_queue s)
      then s\<lparr>lp_ran := lp_ran s @ [drain_queue s ! i], lp_pc := L_run (Suc i)\<rparr>
      else (set_drain [] s)\<lparr>lp_pc := L_poll\<rparr>)"

text \<open>
  \<open>poll\<close> returns: with the wake-up among the reported events (\<open>woken\<close>), or with other events or, in
  \<open>run_once\<close>, with the time over, or with an error, on which \<open>run\<close> leaves its loop. \<open>run_once\<close> polls once.
\<close>

definition poll_return :: "bool \<Rightarrow> bool \<Rightarrow> 'f loop \<Rightarrow> 'f loop" where
  "poll_return woken ok s =
     (let s1 = (if woken then s\<lparr>lp_signal := False\<rparr> else s)
      in if lp_once s then s1\<lparr>lp_once := False, lp_pc := L_idle\<rparr>
         else if ok then s1\<lparr>lp_pc := L_check\<rparr> else s1\<lparr>lp_running := False, lp_pc := L_idle\<rparr>)"

inductive loop_step :: "'f loop \<Rightarrow> 'f loop \<Rightarrow> bool" where
  lp_post: "loop_step s (post_push fn s)"
| lp_wake: "lp_waking s > 0 \<Longrightarrow> loop_step s (loop_wake s)"
| lp_stop: "loop_step s (stop_request s)"
| lp_enter: "lp_pc s = L_idle \<Longrightarrow> loop_step s (run_enter s)"
| lp_enter_once: "lp_pc s = L_idle \<Longrightarrow> loop_step s (run_once_enter s)"
| lp_check: "lp_pc s = L_check \<Longrightarrow> loop_step s (run_check s)"
| lp_swap: "lp_pc s = L_swap \<Longrightarrow> loop_step s (drain_swap s)"
| lp_call: "lp_pc s = L_run i \<Longrightarrow> loop_step s (drain_call i s)"
| lp_poll: "lp_pc s = L_poll \<Longrightarrow> (woken \<Longrightarrow> lp_signal s) \<Longrightarrow> loop_step s (poll_return woken ok s)"

section \<open>Timers of the loop\<close>

text \<open>
  A handle has an identifier and, unless empty, the function that cancels it; \<open>th_live\<close> says that the
  function is set. Operations that may cancel return the identifiers they passed to \<open>cancel_timer\<close>.
\<close>

record timer_handle =
  th_id :: timer_id
  th_live :: bool

definition handle_empty :: timer_handle where
  "handle_empty = \<lparr>th_id = 0, th_live = False\<rparr>"

definition handle_make :: "timer_id \<Rightarrow> timer_handle" where
  "handle_make tid = \<lparr>th_id = tid, th_live = True\<rparr>"

definition handle_cancel :: "timer_handle \<Rightarrow> timer_id list \<times> timer_handle" where
  "handle_cancel h = (if th_live h then ([th_id h], h\<lparr>th_live := False, th_id := 0\<rparr>) else ([], h))"

definition handle_drop :: "timer_handle \<Rightarrow> timer_id list" where
  "handle_drop h = fst (handle_cancel h)"

definition handle_move :: "timer_handle \<Rightarrow> timer_handle \<times> timer_handle" where
  "handle_move other = (\<lparr>th_id = th_id other, th_live = th_live other\<rparr>, other\<lparr>th_id := 0, th_live := False\<rparr>)"

definition handle_move_assign ::
    "bool \<Rightarrow> timer_handle \<Rightarrow> timer_handle \<Rightarrow> timer_id list \<times> timer_handle \<times> timer_handle" where
  "handle_move_assign aliased this other =
     (if \<not> aliased
      then (let (c, t) = handle_cancel this
            in (c, t\<lparr>th_id := th_id other, th_live := th_live other\<rparr>, other\<lparr>th_id := 0, th_live := False\<rparr>))
      else ([], this, other))"

definition handle_release :: "timer_handle \<Rightarrow> timer_id \<times> timer_handle" where
  "handle_release h = (th_id h, h\<lparr>th_id := 0, th_live := False\<rparr>)"

definition handle_bool :: "timer_handle \<Rightarrow> bool" where
  "handle_bool h \<longleftrightarrow> th_id h \<noteq> 0"

definition loop_defer :: "('d, 'cb) dispatcher \<Rightarrow> int \<Rightarrow> 'cb \<Rightarrow> 'd \<Rightarrow> (timer_handle \<times> 'd) io" where
  "loop_defer V delay cb d = do {
     (tid, d') \<leftarrow> d_schedule V delay False cb d;
     State_Monad.return (handle_make tid, d')
   }"

definition loop_repeat :: "('d, 'cb) dispatcher \<Rightarrow> int \<Rightarrow> 'cb \<Rightarrow> 'd \<Rightarrow> (timer_handle \<times> 'd) io" where
  "loop_repeat V interval cb d = do {
     (tid, d') \<leftarrow> d_schedule V interval True cb d;
     State_Monad.return (handle_make tid, d')
   }"

section \<open>Posts are a queue\<close>

text \<open>The buffers never overlap: a post leaves the buffer that is being run alone.\<close>

lemma queue_simps [simp]:
  "active_queue (set_active q s) = q" "drain_queue (set_active q s) = drain_queue s"
  "drain_queue (set_drain q s) = q" "active_queue (set_drain q s) = active_queue s"
  by (simp_all add: active_queue_def drain_queue_def set_active_def set_drain_def)

lemma set_simps [simp]:
  "lp_pc (set_active q s) = lp_pc s" "lp_ran (set_active q s) = lp_ran s" "lp_stop (set_active q s) = lp_stop s"
  "lp_signal (set_active q s) = lp_signal s" "lp_posted (set_active q s) = lp_posted s"
  "lp_pc (set_drain q s) = lp_pc s" "lp_ran (set_drain q s) = lp_ran s" "lp_stop (set_drain q s) = lp_stop s"
  "lp_signal (set_drain q s) = lp_signal s" "lp_posted (set_drain q s) = lp_posted s"
  "lp_waking (set_drain q s) = lp_waking s" "lp_waking (set_active q s) = lp_waking s"
  "lp_running (set_drain q s) = lp_running s" "lp_running (set_active q s) = lp_running s"
  "lp_once (set_drain q s) = lp_once s" "lp_once (set_active q s) = lp_once s"
  by (simp_all add: set_active_def set_drain_def)

lemma queue_frame [simp]:
  "active_queue (s\<lparr>lp_waking := n\<rparr>) = active_queue s" "drain_queue (s\<lparr>lp_waking := n\<rparr>) = drain_queue s"
  "active_queue (s\<lparr>lp_posted := l\<rparr>) = active_queue s" "drain_queue (s\<lparr>lp_posted := l\<rparr>) = drain_queue s"
  "active_queue (s\<lparr>lp_ran := l\<rparr>) = active_queue s" "drain_queue (s\<lparr>lp_ran := l\<rparr>) = drain_queue s"
  "active_queue (s\<lparr>lp_pc := p\<rparr>) = active_queue s" "drain_queue (s\<lparr>lp_pc := p\<rparr>) = drain_queue s"
  "active_queue (s\<lparr>lp_signal := b\<rparr>) = active_queue s" "drain_queue (s\<lparr>lp_signal := b\<rparr>) = drain_queue s"
  "active_queue (s\<lparr>lp_stop := b\<rparr>) = active_queue s" "drain_queue (s\<lparr>lp_stop := b\<rparr>) = drain_queue s"
  "active_queue (s\<lparr>lp_once := b\<rparr>) = active_queue s" "drain_queue (s\<lparr>lp_once := b\<rparr>) = drain_queue s"
  "active_queue (s\<lparr>lp_running := b\<rparr>) = active_queue s" "drain_queue (s\<lparr>lp_running := b\<rparr>) = drain_queue s"
  "active_queue (s\<lparr>lp_active_a := \<not> lp_active_a s\<rparr>) = drain_queue s"
  "drain_queue (s\<lparr>lp_active_a := \<not> lp_active_a s\<rparr>) = active_queue s"
  by (simp_all add: active_queue_def drain_queue_def)

lemmas loop_defs = post_push_def loop_wake_def stop_request_def run_enter_def run_once_enter_def run_check_def drain_swap_def
  drain_call_def poll_return_def Let_def

text \<open>What is still to be run, in order.\<close>

definition pending :: "'f loop \<Rightarrow> 'f list" where
  "pending s = (case lp_pc s of L_run i \<Rightarrow> drop i (drain_queue s) | _ \<Rightarrow> []) @ active_queue s"

definition loop_inv :: "'f loop \<Rightarrow> bool" where
  "loop_inv s \<longleftrightarrow> lp_posted s = lp_ran s @ pending s
     \<and> (case lp_pc s of L_run i \<Rightarrow> i \<le> length (drain_queue s) | _ \<Rightarrow> drain_queue s = [])
     \<and> ((lp_pc s = L_poll \<or> (\<exists>i. lp_pc s = L_run i)) \<and> active_queue s \<noteq> [] \<longrightarrow> lp_signal s \<or> lp_waking s > 0)
     \<and> (lp_pc s = L_idle \<or> lp_pc s = L_check \<longrightarrow> \<not> lp_once s)
     \<and> ((lp_pc s = L_poll \<or> (\<exists>i. lp_pc s = L_run i) \<or> lp_pc s = L_swap) \<and> lp_stop s \<and> \<not> lp_once s \<longrightarrow> lp_signal s \<or> lp_waking s > 0)"

lemma loop_step_inv: "loop_step s t \<Longrightarrow> loop_inv s \<Longrightarrow> loop_inv t"
proof (induction rule: loop_step.induct)
  case (lp_post s fn)
  then show ?case by (cases "lp_pc s") (simp_all add: loop_inv_def pending_def post_push_def)
next
  case (lp_wake s)
  then show ?case by (cases "lp_pc s") (simp_all add: loop_inv_def pending_def loop_wake_def)
next
  case (lp_stop s)
  then show ?case by (cases "lp_pc s") (simp_all add: loop_inv_def pending_def stop_request_def)
next
  case (lp_enter s)
  then show ?case by (simp add: loop_inv_def pending_def run_enter_def)
next
  case (lp_enter_once s)
  then show ?case by (simp add: loop_inv_def pending_def run_once_enter_def)
next
  case (lp_check s)
  then show ?case by (cases "lp_stop s") (simp_all add: loop_inv_def pending_def run_check_def)
next
  case (lp_swap s)
  then show ?case by (simp add: loop_inv_def pending_def drain_swap_def)
next
  case (lp_call s i)
  then show ?case
    by (cases "i < length (drain_queue s)") (simp_all add: loop_inv_def pending_def drain_call_def Cons_nth_drop_Suc)
next
  case (lp_poll s woken ok)
  then show ?case
    by (cases woken; cases ok; cases "lp_once s") (simp_all add: loop_inv_def pending_def poll_return_def)
qed

section \<open>The specification\<close>

text \<open>A queue of functions and the functions that were run.\<close>

inductive fifo_step :: "'f list \<times> 'f list \<Rightarrow> 'f list \<times> 'f list \<Rightarrow> bool" where
  fifo_post: "fifo_step (q, h) (q @ [fn], h)"
| fifo_run: "fifo_step (fn # q, h) (q, h @ [fn])"

definition loop_abs :: "'f loop \<Rightarrow> 'f list \<times> 'f list" where
  "loop_abs s = (pending s, lp_ran s)"

lemma loop_step_abs:
  assumes "loop_step s t" and "loop_inv s"
  shows "loop_abs t = loop_abs s \<or> fifo_step (loop_abs s) (loop_abs t)"
  using assms
proof (induction rule: loop_step.induct)
  case (lp_post s fn)
  have "loop_abs (post_push fn s) = (pending s @ [fn], lp_ran s)"
    by (cases "lp_pc s") (simp_all add: loop_abs_def pending_def post_push_def)
  then show ?case by (simp add: loop_abs_def fifo_post)
next
  case (lp_call s i)
  show ?case
  proof (cases "i < length (drain_queue s)")
    case True
    then have "pending s = drain_queue s ! i # (drop (Suc i) (drain_queue s) @ active_queue s)"
      using lp_call by (simp add: pending_def Cons_nth_drop_Suc)
    then show ?thesis
      using True fifo_run [of "drain_queue s ! i" "drop (Suc i) (drain_queue s) @ active_queue s" "lp_ran s"]
      by (simp add: loop_abs_def drain_call_def pending_def)
  next
    case False
    then show ?thesis using lp_call by (simp add: loop_abs_def drain_call_def pending_def)
  qed
next
  case (lp_swap s)
  then show ?case by (simp add: loop_abs_def pending_def drain_swap_def loop_inv_def)
next
  case (lp_wake s)
  then show ?case by (cases "lp_pc s") (simp_all add: loop_abs_def pending_def loop_wake_def)
next
  case (lp_stop s)
  then show ?case by (cases "lp_pc s") (simp_all add: loop_abs_def pending_def stop_request_def)
next
  case (lp_enter s)
  then show ?case by (simp add: loop_abs_def pending_def run_enter_def)
next
  case (lp_enter_once s)
  then show ?case by (simp add: loop_abs_def pending_def run_once_enter_def)
next
  case (lp_check s)
  then show ?case by (simp add: loop_abs_def pending_def run_check_def)
next
  case (lp_poll s woken ok)
  then show ?case by (simp add: loop_abs_def pending_def poll_return_def Let_def)
qed

lemma loop_new_inv: "loop_inv loop_new"
  by (simp add: loop_inv_def loop_new_def pending_def active_queue_def drain_queue_def)

interpretation lp: simulation "\<lambda>s. s = loop_new" loop_step loop_inv "\<lambda>a. a = ([], [])" fifo_step loop_abs
proof
  fix s :: "'a loop"
  assume "s = loop_new"
  then show "loop_inv s" "loop_abs s = ([], [])"
    by (simp_all add: loop_new_inv) (simp add: loop_new_def loop_abs_def pending_def active_queue_def)
next
  fix s t :: "'a loop"
  assume "loop_inv s" "loop_step s t"
  then show "loop_inv t" "loop_abs t = loop_abs s \<or> fifo_step (loop_abs s) (loop_abs t)"
    by (auto intro: loop_step_inv dest: loop_step_abs)
qed

section \<open>Progress\<close>

text \<open>The loop thread on its own: its next step, none when it has left \<open>run\<close> or blocks in \<open>poll\<close>.\<close>

definition loop_next :: "'f loop \<Rightarrow> 'f loop option" where
  "loop_next s = (case lp_pc s of
       L_idle \<Rightarrow> None
     | L_check \<Rightarrow> Some (run_check s)
     | L_swap \<Rightarrow> Some (drain_swap s)
     | L_run i \<Rightarrow> Some (drain_call i s)
     | L_poll \<Rightarrow> if lp_signal s then Some (poll_return True True s)
         else if lp_once s then Some (poll_return False True s) else None)"

inductive loop_alone :: "nat \<Rightarrow> 'f loop \<Rightarrow> 'f loop \<Rightarrow> bool" where
  alone_end: "loop_next s = None \<Longrightarrow> loop_alone 0 s s"
| alone_step: "loop_next s = Some t \<Longrightarrow> loop_alone n t u \<Longrightarrow> loop_alone (Suc n) s u"

lemma loop_next_step: "loop_next s = Some t \<Longrightarrow> loop_step s t"
  by (auto simp: loop_next_def intro: loop_step.intros split: lp_point.splits if_splits)

lemma alone_steps: "loop_alone n s u \<Longrightarrow> loop_step\<^sup>*\<^sup>* s u"
  by (induction rule: loop_alone.induct) (auto dest: loop_next_step intro: converse_rtranclp_into_rtranclp)

text \<open>A bound on the steps until the loop thread blocks or leaves.\<close>

definition loop_weight :: "'f loop \<Rightarrow> nat" where
  "loop_weight s = 4 * length (pending s) + 8 * (if lp_signal s then 1 else 0) + (case lp_pc s of
       L_idle \<Rightarrow> 0 | L_check \<Rightarrow> 5 | L_swap \<Rightarrow> 4 | L_run i \<Rightarrow> 2 | L_poll \<Rightarrow> 1)"

lemma loop_next_weight:
  assumes "loop_next s = Some t" and "loop_inv s"
  shows "loop_weight t < loop_weight s \<and> lp_posted t = lp_posted s \<and> lp_stop t = lp_stop s
    \<and> lp_waking t = lp_waking s \<and> lp_pc s \<noteq> L_idle \<and> (lp_pc t = L_idle \<longrightarrow> lp_stop s \<or> lp_once s)
    \<and> (\<not> lp_once s \<longrightarrow> \<not> lp_once t)"
proof (cases "lp_pc s")
  case (L_run i)
  then show ?thesis using assms
    by (cases "i < length (drain_queue s)")
      (auto simp: loop_next_def loop_weight_def drain_call_def pending_def loop_inv_def)
next
  case L_swap
  then show ?thesis using assms
    by (auto simp: loop_next_def loop_weight_def drain_swap_def pending_def loop_inv_def)
next
  case L_check
  then show ?thesis using assms
    by (cases "lp_stop s") (auto simp: loop_next_def loop_weight_def run_check_def pending_def)
next
  case L_poll
  then show ?thesis using assms
    by (cases "lp_once s") (auto simp: loop_next_def loop_weight_def poll_return_def pending_def split: if_splits)
qed (use assms in \<open>simp add: loop_next_def\<close>)

lemma loop_alone_ends:
  "loop_inv s \<Longrightarrow> \<exists>n u. n \<le> loop_weight s \<and> loop_alone n s u \<and> loop_next u = None \<and> loop_inv u
    \<and> lp_posted u = lp_posted s \<and> lp_stop u = lp_stop s \<and> lp_waking u = lp_waking s
    \<and> (lp_pc u = L_idle \<longrightarrow> lp_stop s \<or> lp_once s \<or> lp_pc s = L_idle) \<and> (\<not> lp_once s \<longrightarrow> \<not> lp_once u)"
proof (induction "loop_weight s" arbitrary: s rule: less_induct)
  case less
  show ?case
  proof (cases "loop_next s")
    case None
    then show ?thesis using less.prems by (intro exI [of _ 0] exI [of _ s]) (simp add: alone_end)
  next
    case (Some t)
    note w = loop_next_weight [OF Some less.prems]
    have "loop_inv t" using loop_step_inv [OF loop_next_step [OF Some] less.prems] .
    from less.hyps [OF conjunct1 [OF w] this] obtain n u where
      "n \<le> loop_weight t" "loop_alone n t u" "loop_next u = None" "loop_inv u" "lp_posted u = lp_posted t"
      "lp_stop u = lp_stop t" "lp_waking u = lp_waking t" "lp_pc u = L_idle \<longrightarrow> lp_stop t \<or> lp_once t \<or> lp_pc t = L_idle"
      "\<not> lp_once t \<longrightarrow> \<not> lp_once u" by blast
    then show ?thesis using w alone_step [OF Some]
      by (intro exI [of _ "Suc n"] exI [of _ u]) auto
  qed
qed

section \<open>Handles\<close>

text \<open>A program over handles: the objects, and the identifiers made, cancelled and released so far.\<close>

record handles =
  hs_objects :: "timer_handle list"
  hs_made :: "timer_id list"
  hs_cancelled :: "timer_id list"
  hs_released :: "timer_id list"

definition held :: "timer_handle \<Rightarrow> timer_id multiset" where
  "held h = (if th_live h then {#th_id h#} else {#})"

definition all_held :: "timer_handle list \<Rightarrow> timer_id multiset" where
  "all_held hs = sum_list (map held hs)"

inductive handle_step :: "handles \<Rightarrow> handles \<Rightarrow> bool" where
  h_make: "handle_step H (H\<lparr>hs_objects := hs_objects H @ [handle_make tid], hs_made := hs_made H @ [tid]\<rparr>)"
| h_cancel: "i < length (hs_objects H) \<Longrightarrow> handle_cancel (hs_objects H ! i) = (c, h) \<Longrightarrow>
    handle_step H (H\<lparr>hs_objects := (hs_objects H)[i := h], hs_cancelled := hs_cancelled H @ c\<rparr>)"
| h_drop: "hs_objects H = xs @ h # ys \<Longrightarrow>
    handle_step H (H\<lparr>hs_objects := xs @ ys, hs_cancelled := hs_cancelled H @ handle_drop h\<rparr>)"
| h_move: "i < length (hs_objects H) \<Longrightarrow> handle_move (hs_objects H ! i) = (new, old) \<Longrightarrow>
    handle_step H (H\<lparr>hs_objects := (hs_objects H)[i := old] @ [new]\<rparr>)"
| h_assign: "i < length (hs_objects H) \<Longrightarrow> j < length (hs_objects H) \<Longrightarrow>
    handle_move_assign (i = j) (hs_objects H ! i) (hs_objects H ! j) = (c, a, b) \<Longrightarrow>
    handle_step H (H\<lparr>hs_objects := (hs_objects H)[j := b, i := a], hs_cancelled := hs_cancelled H @ c\<rparr>)"
| h_release: "i < length (hs_objects H) \<Longrightarrow> handle_release (hs_objects H ! i) = (tid, h) \<Longrightarrow>
    handle_step H (H\<lparr>hs_objects := (hs_objects H)[i := h],
      hs_released := hs_released H @ (if th_live (hs_objects H ! i) then [tid] else [])\<rparr>)"

definition handles_init :: "handles \<Rightarrow> bool" where
  "handles_init H \<longleftrightarrow> H = \<lparr>hs_objects = [], hs_made = [], hs_cancelled = [], hs_released = []\<rparr>"

definition handles_inv :: "handles \<Rightarrow> bool" where
  "handles_inv H \<longleftrightarrow> mset (hs_made H) = all_held (hs_objects H) + mset (hs_cancelled H) + mset (hs_released H)"

lemma all_held_update:
  "i < length hs \<Longrightarrow> all_held (hs[i := h]) + held (hs ! i) = all_held hs + held h"
  by (induction hs arbitrary: i) (auto simp: all_held_def split: nat.split)

lemma all_held_simps [simp]: "all_held [] = {#}" "all_held (h # hs) = held h + all_held hs"
  "all_held (xs @ ys) = all_held xs + all_held ys"
  by (simp_all add: all_held_def)

lemma handle_step_inv: "handle_step H H' \<Longrightarrow> handles_inv H \<Longrightarrow> handles_inv H'"
proof (induction rule: handle_step.induct)
  case (h_make H tid)
  then show ?case by (simp add: handles_inv_def held_def handle_make_def)
next
  case (h_cancel i H c h)
  from all_held_update [OF h_cancel(1), of h] h_cancel show ?case
    by (auto simp: handles_inv_def handle_cancel_def held_def split: if_splits)
next
  case (h_drop H xs h ys)
  then show ?case by (auto simp: handles_inv_def handle_drop_def handle_cancel_def held_def)
next
  case (h_move i H new old)
  from all_held_update [OF h_move(1), of old] h_move show ?case
    by (auto simp: handles_inv_def handle_move_def held_def split: if_splits)
next
  case (h_release i H tid h)
  from all_held_update [OF h_release(1), of h] h_release show ?case
    by (auto simp: handles_inv_def handle_release_def held_def split: if_splits)
next
  case (h_assign i H j c a b)
  let ?hs = "hs_objects H"
  show ?case
  proof (cases "i = j")
    case True
    then show ?thesis using h_assign by (auto simp: handle_move_assign_def handles_inv_def)
  next
    case False
    have 1: "all_held (?hs[j := b]) + held (?hs ! j) = all_held ?hs + held b"
      by (rule all_held_update [OF h_assign(2)])
    have 2: "all_held (?hs[j := b, i := a]) + held (?hs ! i) = all_held (?hs[j := b]) + held a"
      using all_held_update [of i "?hs[j := b]" a] h_assign(1) False by simp
    have "mset c = held (?hs ! i)" "held a = held (?hs ! j)" "held b = {#}"
      using h_assign(3) False by (auto simp: handle_move_assign_def handle_cancel_def held_def split: if_splits)
    then have "all_held (?hs[j := b, i := a]) + mset c = all_held ?hs"
      using 1 2 by (metis add.right_neutral)
    then show ?thesis using h_assign(4) by (simp add: handles_inv_def ac_simps)
  qed
qed

interpretation handle_objects: invariant_system handles_init handle_step handles_inv
proof
  show "handles_inv H" if "handles_init H" for H
    using that by (simp add: handles_init_def handles_inv_def)
qed (rule handle_step_inv)

section \<open>Properties\<close>

text \<open>
  C4: the double buffer of the loop is one queue. Under every interleaving of producers, wake-ups,
  stops and the loop thread, the posts behave as a single queue: a step appends one function at the
  end, or runs the one at the front, or changes nothing; so functions run once each, in the order
  they were posted.
\<close>

theorem loop_posts_refine_queue:
  assumes "reachable (\<lambda>s. s = loop_new) loop_step s"
  shows "reachable (\<lambda>a. a = ([], [])) fifo_step (pending s, lp_ran s) \<and> lp_posted s = lp_ran s @ pending s"
  using lp.reachable_abs [OF assms] lp.reachable_inv [OF assms] by (simp add: loop_abs_def loop_inv_def)

lemma sample_posted: "reachable (\<lambda>s. s = loop_new) loop_step (loop_wake (post_push (5 :: nat) (run_enter loop_new)))"
proof -
  have "reachable (\<lambda>s. s = loop_new) loop_step (run_enter (loop_new :: nat loop))"
    by (rule reach_step [OF reach_init], rule refl, rule lp_enter) (simp add: loop_new_def)
  then have "reachable (\<lambda>s. s = loop_new) loop_step (post_push (5 :: nat) (run_enter loop_new))"
    by (rule reach_step) (rule lp_post)
  then show ?thesis by (rule reach_step) (rule lp_wake, simp add: post_push_def)
qed

theorem loop_posts_refine_queue_witness:
  "pending (loop_wake (post_push (5 :: nat) (run_enter loop_new))) = [5]"
proof -
  have "lp_posted (loop_wake (post_push (5 :: nat) (run_enter loop_new))) = [5]"
    "lp_ran (loop_wake (post_push (5 :: nat) (run_enter loop_new))) = []"
    by (simp_all add: loop_wake_def post_push_def run_enter_def loop_new_def)
  with loop_posts_refine_queue [OF sample_posted] show ?thesis by simp
qed



text \<open>
  Timer handles account for every timer. In every program over handles, the timers made are
  exactly those still held by one handle, those passed to \<open>cancel_timer\<close> once, and those released:
  moving neither cancels nor duplicates, destroying and overwriting cancels exactly once.
\<close>

theorem timer_handles_account:
  assumes "reachable handles_init handle_step H"
  shows "mset (hs_made H) = sum_list (map held (hs_objects H)) + mset (hs_cancelled H) + mset (hs_released H)"
  using handle_objects.reachable_inv [OF assms] by (simp add: handles_inv_def all_held_def)

theorem timer_handles_account_witness:
  "\<exists>H. reachable handles_init handle_step H \<and> hs_objects H = [] \<and> hs_made H = [3] \<and> hs_cancelled H = [3]
    \<and> mset (hs_made H) = mset (hs_cancelled H) + mset (hs_released H)"
proof -
  let ?A = "\<lparr>hs_objects = [], hs_made = [], hs_cancelled = [], hs_released = []\<rparr>"
  let ?B = "?A\<lparr>hs_objects := hs_objects ?A @ [handle_make 3], hs_made := hs_made ?A @ [3]\<rparr>"
  let ?C = "?B\<lparr>hs_objects := [] @ [], hs_cancelled := hs_cancelled ?B @ handle_drop (handle_make 3)\<rparr>"
  have "reachable handles_init handle_step ?A" by (rule reach_init) (simp add: handles_init_def)
  then have "reachable handles_init handle_step ?B" by (rule reach_step) (rule h_make)
  then have r: "reachable handles_init handle_step ?C" by (rule reach_step) (rule h_drop, simp)
  show ?thesis
    by (rule exI [of _ ?C], use r timer_handles_account [OF r] in \<open>simp add: handle_drop_def handle_cancel_def handle_make_def\<close>)
qed

end
