(* ===== verification/Spinlock.thy ===== *)
theory Spinlock
  imports Prelude
begin

text \<open>
  The spin lock of \<open>src/platform/spinlock.hpp\<close>; the event loop has the same code for its post queue.

  A thread is outside, spinning (with the counter of the loop), or holds the lock. One step is one
  \<open>test_and_set\<close> or one \<open>clear\<close>; the pause and yield hints have no effect on the state.
\<close>

datatype lock_pc = Outside | Spinning nat | Holding

record spin =
  sl_flag :: bool
  sl_pc :: "nat \<Rightarrow> lock_pc"

definition spin_new :: spin where
  "spin_new = \<lparr>sl_flag = False, sl_pc = (\<lambda>_. Outside)\<rparr>"

text \<open>One evaluation of the loop condition by thread \<open>i\<close>: set the flag, go on when it was set.\<close>

definition spin_try :: "nat \<Rightarrow> spin \<Rightarrow> spin" where
  "spin_try i s =
     (let was = sl_flag s; s1 = s\<lparr>sl_flag := True\<rparr>
      in if was
         then s1\<lparr>sl_pc := (sl_pc s1)(i := Spinning (case sl_pc s1 i of Spinning n \<Rightarrow> Suc n | _ \<Rightarrow> 1))\<rparr>
         else s1\<lparr>sl_pc := (sl_pc s1)(i := Holding)\<rparr>)"

definition spin_unlock :: "nat \<Rightarrow> spin \<Rightarrow> spin" where
  "spin_unlock i s = s\<lparr>sl_flag := False, sl_pc := (sl_pc s)(i := Outside)\<rparr>"

text \<open>Threads lock, and unlock only what they hold, as \<open>scoped_lock\<close> does.\<close>

inductive spin_step :: "spin \<Rightarrow> spin \<Rightarrow> bool" where
  step_lock: "sl_pc s i \<noteq> Holding \<Longrightarrow> spin_step s (spin_try i s)"
| step_unlock: "sl_pc s i = Holding \<Longrightarrow> spin_step s (spin_unlock i s)"

definition spin_inv :: "spin \<Rightarrow> bool" where
  "spin_inv s \<longleftrightarrow> (sl_flag s \<longleftrightarrow> (\<exists>i. sl_pc s i = Holding)) \<and>
     (\<forall>i j. sl_pc s i = Holding \<longrightarrow> sl_pc s j = Holding \<longrightarrow> i = j)"

interpretation spinlock: invariant_system "\<lambda>s. s = spin_new" spin_step spin_inv
proof
  fix s :: spin
  assume "s = spin_new"
  then show "spin_inv s" by (simp add: spin_inv_def spin_new_def)
next
  fix s t
  assume "spin_inv s" "spin_step s t"
  from this(2,1) show "spin_inv t"
  proof (induction rule: spin_step.induct)
    case (step_lock s i)
    then show ?case by (cases "sl_flag s") (auto simp: spin_inv_def spin_try_def)
  next
    case (step_unlock s i)
    then show ?case by (auto simp: spin_inv_def spin_unlock_def)
  qed
qed

text \<open>
  The spin lock excludes. Under every interleaving at most one thread is between \<open>lock\<close> and
  \<open>unlock\<close>, and the lock is free exactly when none is, so that the next attempt of any thread
  then succeeds.
\<close>

theorem spinlock_excludes:
  assumes "reachable (\<lambda>s. s = spin_new) spin_step s"
  shows "(\<forall>i j. sl_pc s i = Holding \<longrightarrow> sl_pc s j = Holding \<longrightarrow> i = j)
    \<and> ((\<forall>i. sl_pc s i \<noteq> Holding) \<longrightarrow> (\<forall>k. sl_pc (spin_try k s) k = Holding))"
  using spinlock.reachable_inv [OF assms] by (auto simp: spin_inv_def spin_try_def)

theorem spinlock_excludes_witness:
  "sl_pc (spin_try 2 (spin_try 1 spin_new)) 1 = Holding \<and> sl_pc (spin_try 2 (spin_try 1 spin_new)) 2 \<noteq> Holding"
proof -
  let ?a = "spin_try 1 spin_new"
  let ?b = "spin_try 2 ?a"
  have a: "sl_pc ?a 2 \<noteq> Holding" by (simp add: spin_try_def spin_new_def)
  have "reachable (\<lambda>s. s = spin_new) spin_step ?a"
    by (rule reach_step [OF reach_init], rule refl, rule step_lock) (simp add: spin_new_def)
  then have "reachable (\<lambda>s. s = spin_new) spin_step ?b" by (rule reach_step) (rule step_lock [OF a])
  from spinlock_excludes [OF this] have "sl_pc ?b 1 = Holding \<longrightarrow> sl_pc ?b 2 = Holding \<longrightarrow> (1 :: nat) = 2" by blast
  moreover have "sl_pc ?b 1 = Holding" by (simp add: spin_try_def spin_new_def)
  ultimately show ?thesis by simp
qed

end
