(* ===== verification/Async.thy ===== *)
theory Async
  imports Tcp Udp Loop
begin

text \<open>
  The asynchronous operations of the low-level sockets on an event loop:
  \<open>src/socket/tcp_accept_loop.cpp\<close>, \<open>tcp_connect_async.cpp\<close> and \<open>udp_recv_async.cpp\<close>.

  What an operation asks of the loop and of the user is returned as a list of requests, in order:
  calls of the dispatcher, timers, and invocations of the user's handler. The templates over the
  address family are functions of the accepting, connecting or receiving operation.
\<close>

section \<open>Requests\<close>

datatype 'r request =
    Io_add int io_event
  | Io_modify int io_event
  | Io_remove int
  | Defer int
  | Cancel timer_id
  | Handler 'r

definition handled :: "'r request list \<Rightarrow> 'r list" where
  "handled qs = concat (map (\<lambda>q. case q of Handler r \<Rightarrow> [r] | _ \<Rightarrow> []) qs)"

lemma handled_simps [simp]:
  "handled [] = []" "handled (Io_add f e # qs) = handled qs" "handled (Io_modify f e # qs) = handled qs"
  "handled (Io_remove f # qs) = handled qs" "handled (Defer n # qs) = handled qs"
  "handled (Cancel t # qs) = handled qs" "handled (Handler r # qs) = r # handled qs"
  "handled (qs @ qs') = handled qs @ handled qs'"
  by (simp_all add: handled_def)

section \<open>The accept loop\<close>

definition accept_loop_start :: "tcp_listener \<Rightarrow> 'r request list" where
  "accept_loop_start l = [Io_add (s_handle (l_socket l)) ev_readable]"

definition initial_backoff :: int where "initial_backoff = 100"

text \<open>An \<open>accept\<close> failed: the new backoff and the requests of this turn, which ends the loop.\<close>

definition next_backoff :: "int \<Rightarrow> error_code \<Rightarrow> int" where
  "next_backoff backoff ec =
     (if ec = make_error_code fd_limit_reached then min (backoff * 2) 5000 else backoff)"

definition error_requests :: "tcp_listener \<Rightarrow> int \<Rightarrow> error_code \<Rightarrow> 'a result request list" where
  "error_requests l backoff ec =
     (if ec = make_error_code would_block then []
      else if ec = make_error_code fd_limit_reached
      then [Io_modify (s_handle (l_socket l)) ev_none, Defer backoff, Handler (Inl ec)]
      else [Handler (Inl ec)])"

text \<open>The \<open>for (;;)\<close> of the callback; \<open>None\<close> is a loop that does not end.\<close>

partial_function (option) accept_turns ::
    "'a result io \<Rightarrow> tcp_listener \<Rightarrow> int \<Rightarrow> 'a result request list \<Rightarrow> world \<Rightarrow> (int \<times> 'a result request list \<times> world) option" where
  "accept_turns accept l backoff out w =
     (case run_state accept w of (r, w1) \<Rightarrow>
        case r of
          Inl ec \<Rightarrow> Some (next_backoff backoff ec, out @ error_requests l backoff ec, w1)
        | Inr x \<Rightarrow> accept_turns accept l 100 (out @ [Handler (Inr x)]) w1)"

definition accept_callback ::
    "'a result io \<Rightarrow> tcp_listener \<Rightarrow> io_event \<Rightarrow> int \<Rightarrow> world \<Rightarrow> (int \<times> 'a result request list \<times> world) option" where
  "accept_callback accept l events backoff w =
     (if \<not> has_event events ev_readable then Some (backoff, [], w)
      else accept_turns accept l backoff [] w)"

text \<open>The deferred task: accept again.\<close>

definition accept_resume :: "tcp_listener \<Rightarrow> 'r request list" where
  "accept_resume l = [Io_modify (s_handle (l_socket l)) ev_readable]"

lemma accept_turns_step:
  "accept_turns accept l backoff out w =
     (case outcome accept w of
        Inl ec \<Rightarrow> Some (next_backoff backoff ec, out @ error_requests l backoff ec, final_world accept w)
      | Inr x \<Rightarrow> accept_turns accept l 100 (out @ [Handler (Inr x)]) (final_world accept w))"
  by (subst accept_turns.simps) (cases "run_state accept w"; simp split: sum.split prod.split)

text \<open>The worlds after some successful accepts.\<close>

definition world_after :: "'a io \<Rightarrow> nat \<Rightarrow> world \<Rightarrow> world" where
  "world_after m n w = ((\<lambda>w. final_world m w) ^^ n) w"

lemma accept_turns_result:
  assumes "\<And>k. k < n \<Longrightarrow> outcome accept (world_after accept k w) = Inr (xs ! k)" and "length xs = n"
    and "outcome accept (world_after accept n w) = Inl ec"
  shows "accept_turns accept l b out w =
    (let b' = (if n = 0 then b else 100)
     in Some (next_backoff b' ec, out @ map (Handler \<circ> Inr) xs @ error_requests l b' ec, world_after accept (Suc n) w))"
  using assms
proof (induction n arbitrary: b out w xs)
  case 0
  then show ?case by (subst accept_turns_step) (simp add: world_after_def)
next
  case (Suc n)
  obtain x ys where xs: "xs = x # ys" using Suc.prems(2) by (cases xs) auto
  let ?w = "final_world accept w"
  have shift: "world_after accept k ?w = world_after accept (Suc k) w" for k
    using funpow_swap1 [of "\<lambda>w. final_world accept w" k w] by (simp add: world_after_def)
  have 1: "outcome accept w = Inr x" using Suc.prems(1) [of 0] xs by (simp add: world_after_def)
  have "accept_turns accept l 100 (out @ [Handler (Inr x)]) ?w =
    (let b' = (if n = 0 then 100 else 100)
     in Some (next_backoff b' ec, (out @ [Handler (Inr x)]) @ map (Handler \<circ> Inr) ys @ error_requests l b' ec,
         world_after accept (Suc n) ?w))"
    using Suc.prems xs by (intro Suc.IH) (auto simp: shift)
  then show ?case by (subst accept_turns_step) (simp add: 1 xs shift [of "Suc n"])
qed

text \<open>The loop returns as soon as one \<open>accept\<close> fails.\<close>

lemma accept_turns_returns:
  assumes "outcome accept (world_after accept n0 w) = Inl e0"
  obtains xs ec where "outcome accept (world_after accept (length xs) w) = Inl ec"
    "\<And>k. k < length xs \<Longrightarrow> outcome accept (world_after accept k w) = Inr (xs ! k)"
proof -
  define P where "P n \<longleftrightarrow> (\<exists>ec. outcome accept (world_after accept n w) = Inl ec)" for n
  define n where "n = (LEAST n. P n)"
  define xs where "xs = map (\<lambda>k. projr (outcome accept (world_after accept k w))) [0..<n]"
  have "P n" unfolding n_def by (rule LeastI [of P n0]) (use assms in \<open>simp add: P_def\<close>)
  then obtain ec where ec: "outcome accept (world_after accept n w) = Inl ec" by (auto simp: P_def)
  have "outcome accept (world_after accept k w) = Inr (xs ! k)" if "k < n" for k
  proof -
    have "\<not> P k" using that unfolding n_def by (rule not_less_Least)
    then obtain x where "outcome accept (world_after accept k w) = Inr x"
      unfolding P_def by (cases "outcome accept (world_after accept k w)") auto
    then show ?thesis using that by (simp add: xs_def)
  qed
  then show ?thesis by (rule_tac that [of xs ec]) (use ec in \<open>simp_all add: xs_def\<close>)
qed

text \<open>What the sockets handed out own.\<close>

definition handed :: "('a \<Rightarrow> int multiset) \<Rightarrow> 'a result request list \<Rightarrow> int multiset" where
  "handed own qs = sum_list (map (\<lambda>r. case r of Inl _ \<Rightarrow> {#} | Inr x \<Rightarrow> own x) (handled qs))"

lemma live_after_accepts:
  assumes "acquires accept own" and "clean (trace w)" and "length xs = n"
    and "\<And>k. k < n \<Longrightarrow> outcome accept (world_after accept k w) = Inr (xs ! k)"
  shows "live (world_after accept n w) = live w + sum_list (map own xs) \<and> clean (trace (world_after accept n w))"
  using assms(3,4)
proof (induction n arbitrary: xs)
  case 0
  then show ?case using assms(2) by (simp add: world_after_def)
next
  case (Suc n)
  then obtain ys x where xs: "xs = ys @ [x]" by (cases xs rule: rev_cases) auto
  let ?w = "world_after accept n w"
  have IH: "live ?w = live w + sum_list (map own ys) \<and> clean (trace ?w)"
  proof (rule Suc.IH)
    show "length ys = n" using Suc.prems(1) xs by simp
    show "outcome accept (world_after accept k w) = Inr (ys ! k)" if "k < n" for k
      using Suc.prems(2) [of k] that \<open>length ys = n\<close> by (simp add: xs nth_append)
  qed
  have "run_state accept ?w = (Inr x, world_after accept (Suc n) w)"
    using Suc.prems(2) [of n] Suc.prems(1) xs by (simp add: world_after_def prod_eq_iff nth_append)
  from acquires_run [OF assms(1) this] IH show ?case by (simp add: xs)
qed

section \<open>Asynchronous connect\<close>

record attempt =
  ca_world :: world
  ca_sock :: socket
  ca_timer :: timer_handle
  ca_completed :: bool
  ca_requests :: "socket result request list"

text \<open>
  The start: \<open>tid\<close> is what the dispatcher's \<open>schedule_timer\<close> answers. A failing \<open>connect\<close> makes no
  state and reports at once.
\<close>

definition connect_async :: "socket result io \<Rightarrow> int \<Rightarrow> timer_id \<Rightarrow> world \<Rightarrow> attempt" where
  "connect_async connect timeout tid w =
     (case run_state connect w of (r, w') \<Rightarrow>
        case r of
          Inl ec \<Rightarrow> \<lparr>ca_world = w', ca_sock = socket_default, ca_timer = handle_empty, ca_completed = True,
            ca_requests = [Handler (Inl ec)]\<rparr>
        | Inr s \<Rightarrow> \<lparr>ca_world = w', ca_sock = s, ca_timer = handle_make tid, ca_completed = False,
            ca_requests = [Defer timeout, Io_add (s_handle s) ev_writable]\<rparr>)"

text \<open>The timer callback; \<open>fd\<close> is the handle taken at the start.\<close>

definition connect_timeout :: "kernel \<Rightarrow> platform \<Rightarrow> int \<Rightarrow> attempt \<Rightarrow> attempt" where
  "connect_timeout K p fd S =
     (if ca_completed S then S
      else
        (case run_state (socket_close K p (ca_sock S)) (ca_world S) of ((_, s'), w') \<Rightarrow>
           S\<lparr>ca_completed := True, ca_sock := s', ca_world := w',
             ca_requests := ca_requests S @ [Io_remove fd, Handler (Inl (make_error_code timed_out))]\<rparr>))"

definition so_error_code :: "platform \<Rightarrow> int \<Rightarrow> error_code" where
  "so_error_code p e =
     normalize_error p \<lparr>ec_value = e, ec_category = (if p = Windows then system_category else generic_category)\<rparr>"

text \<open>What the I/O callback reports: the error of the socket, read with \<open>getsockopt\<close>, or none.\<close>

definition connect_result :: "kernel \<Rightarrow> platform \<Rightarrow> int \<Rightarrow> error_code option io" where
  "connect_result K p fd = do {
     r \<leftarrow> sys K (Sys_ctl (Getsockopt fd (SOL_SOCKET SO_ERROR)));
     if sr_rc r \<noteq> 0 then do { ec \<leftarrow> os_failure p; State_Monad.return (Some ec) }
     else if sr_val r \<noteq> 0 then State_Monad.return (Some (so_error_code p (sr_val r)))
     else State_Monad.return None
   }"

definition connect_ready :: "kernel \<Rightarrow> platform \<Rightarrow> int \<Rightarrow> attempt \<Rightarrow> attempt" where
  "connect_ready K p fd S =
     (if ca_completed S then S
      else
        (let (c, t) = handle_cancel (ca_timer S);
             S1 = S\<lparr>ca_completed := True, ca_timer := t,
                    ca_requests := ca_requests S @ map Cancel c @ [Io_remove fd]\<rparr>
         in case run_state (connect_result K p fd) (ca_world S) of (e, w1) \<Rightarrow>
              case e of
                Some ec \<Rightarrow>
                  (case run_state (socket_close K p (ca_sock S)) w1 of ((_, s'), w2) \<Rightarrow>
                     S1\<lparr>ca_world := w2, ca_sock := s', ca_requests := ca_requests S1 @ [Handler (Inl ec)]\<rparr>)
              | None \<Rightarrow>
                  S1\<lparr>ca_world := w1, ca_sock := socket_default,
                     ca_requests := ca_requests S1 @ [Handler (Inr (ca_sock S))]\<rparr>))"

text \<open>Timer and I/O callbacks may come in any order and any number.\<close>

inductive attempt_step :: "kernel \<Rightarrow> platform \<Rightarrow> attempt \<Rightarrow> attempt \<Rightarrow> bool" for K p where
  att_timeout: "attempt_step K p S (connect_timeout K p fd S)"
| att_ready: "attempt_step K p S (connect_ready K p fd S)"

definition attempt_init :: "socket result io \<Rightarrow> int multiset \<Rightarrow> attempt \<Rightarrow> bool" where
  "attempt_init connect L S \<longleftrightarrow> (\<exists>timeout tid w. live w = L \<and> clean (trace w) \<and> S = connect_async connect timeout tid w)"

definition attempt_inv :: "int multiset \<Rightarrow> attempt \<Rightarrow> bool" where
  "attempt_inv L S \<longleftrightarrow> length (handled (ca_requests S)) = (if ca_completed S then 1 else 0)
     \<and> live (ca_world S) = L + owned (ca_sock S) + handed owned (ca_requests S) \<and> clean (trace (ca_world S))
     \<and> (ca_completed S \<longrightarrow> owned (ca_sock S) = {#})"

lemma neutral_connect_result [neutral_intros]: "neutral (connect_result K p fd)"
  unfolding connect_result_def by (intro neutral_intros)

lemma handed_append [simp]: "handed own (qs @ qs') = handed own qs + handed own qs'"
  by (simp add: handed_def)

lemma handed_simps [simp]:
  "handed own [] = {#}" "handed own (Io_add f e # qs) = handed own qs" "handed own (Io_remove f # qs) = handed own qs"
  "handed own (Io_modify f e # qs) = handed own qs"
  "handed own (Defer n # qs) = handed own qs" "handed own (Handler (Inl ec) # qs) = handed own qs"
  "handed own (Cancel t # qs) = handed own qs" "handed own (Handler (Inr x) # qs) = own x + handed own qs"
  by (simp_all add: handed_def)

lemma handled_cancels [simp]: "handled (map Cancel c) = []" "handed own (map Cancel c) = {#}"
  by (induction c) auto

lemma attempt_start_inv:
  assumes "acquires connect owned" and "attempt_init connect L S"
  shows "attempt_inv L S"
proof -
  obtain timeout tid w where w: "live w = L" "clean (trace w)" and S: "S = connect_async connect timeout tid w"
    using assms(2) by (auto simp: attempt_init_def)
  obtain r w' where r: "run_state connect w = (r, w')" by (metis surj_pair)
  from acquires_run [OF assms(1) r w(2)] w(1) r S show ?thesis
    by (cases r) (auto simp: connect_async_def attempt_inv_def)
qed

lemma timeout_inv:
  assumes "attempt_inv L S"
  shows "attempt_inv L (connect_timeout K p fd S)"
proof (cases "ca_completed S")
  case True
  then show ?thesis using assms by (simp add: connect_timeout_def)
next
  case False
  obtain ec s' w' where c: "run_state (socket_close K p (ca_sock S)) (ca_world S) = ((ec, s'), w')"
    by (metis surj_pair)
  have "owned (ca_sock S) \<subseteq># live (ca_world S)" using assms by (simp add: attempt_inv_def)
  from socket_close_run [OF c this] assms False c show ?thesis
    by (simp add: attempt_inv_def connect_timeout_def)
qed

lemma ready_inv:
  assumes "attempt_inv L S"
  shows "attempt_inv L (connect_ready K p fd S)"
proof (cases "ca_completed S")
  case True
  then show ?thesis using assms by (simp add: connect_ready_def)
next
  case False
  obtain c t where h: "handle_cancel (ca_timer S) = (c, t)" by (metis surj_pair)
  obtain e w1 where r: "run_state (connect_result K p fd) (ca_world S) = (e, w1)" by (metis surj_pair)
  have w1: "live w1 = live (ca_world S)" "clean (trace w1)"
    using neutral_run [OF neutral_connect_result r] neutral_clean [OF neutral_connect_result r] assms
    by (simp_all add: attempt_inv_def)
  show ?thesis
  proof (cases e)
    case None
    then show ?thesis using assms False h r w1 by (simp add: attempt_inv_def connect_ready_def ac_simps)
  next
    case (Some ec)
    obtain ec' s' w2 where c: "run_state (socket_close K p (ca_sock S)) w1 = ((ec', s'), w2)" by (metis surj_pair)
    have "owned (ca_sock S) \<subseteq># live w1" using assms w1 by (simp add: attempt_inv_def)
    from socket_close_run [OF c this w1(2)] assms False h r w1 Some c show ?thesis
      by (simp add: attempt_inv_def connect_ready_def)
  qed
qed

interpretation attempts: invariant_system "\<lambda>S. attempt_init connect L S \<and> acquires connect owned" "attempt_step K p" "attempt_inv L"
  for connect L K p
proof
  show "attempt_inv L S" if "attempt_init connect L S \<and> acquires connect owned" for S
    using that by (auto intro: attempt_start_inv)
  show "attempt_inv L T" if "attempt_inv L S" "attempt_step K p S T" for S T
    using that(2,1) by (induction rule: attempt_step.induct) (auto intro: timeout_inv ready_inv)
qed

section \<open>Asynchronous receive\<close>

definition recv_async :: "socket \<Rightarrow> 'r request list" where
  "recv_async s = [Io_add (s_handle s) ev_readable]"

text \<open>The I/O callback: \<open>recv\<close> is \<open>recv_from\<close> of the socket into the caller's buffer.\<close>

definition recv_async_callback :: "'a result io \<Rightarrow> int \<Rightarrow> io_event \<Rightarrow> 'a result request list io" where
  "recv_async_callback recv cb_fd events =
     (if \<not> has_event events ev_readable then State_Monad.return []
      else do {
        r \<leftarrow> recv;
        (case r of
           Inl ec \<Rightarrow> State_Monad.return [Io_remove cb_fd, Handler (Inl ec)]
         | Inr x \<Rightarrow> State_Monad.return [Io_remove cb_fd, Handler (Inr x)])
      })"

definition udp4_recv_async_callback where
  "udp4_recv_async_callback K retrieve p s len = recv_async_callback (udp4_recv_from K retrieve p s len 0)"

definition udp6_recv_async_callback where
  "udp6_recv_async_callback K retrieve p s len = recv_async_callback (udp6_recv_from K retrieve p s len 0)"

definition tcp4_accept_callback where
  "tcp4_accept_callback K p l = accept_callback (tcp4_accept K p l) l"

definition tcp6_accept_callback where
  "tcp6_accept_callback K p l = accept_callback (tcp6_accept K p l) l"

definition tcp4_connect_async where
  "tcp4_connect_async K p a opts = connect_async (tcp4_connect K p a opts)"

definition tcp6_connect_async where
  "tcp6_connect_async K p a opts = connect_async (tcp6_connect K p a opts)"

section \<open>Properties\<close>

lemma tcp4_accept_acquires: "acquires (tcp4_accept K p l) (owned \<circ> fst)"
  unfolding tcp4_accept_def
  by (rule acquiresI) (auto intro!: wp_intros wp_acquires [OF accept_raw_peer_acquires])

lemma tcp6_accept_acquires: "acquires (tcp6_accept K p l) (owned \<circ> fst)"
  unfolding tcp6_accept_def
  by (rule acquiresI) (auto intro!: wp_intros wp_acquires [OF accept_raw_peer_acquires])

text \<open>
  The callback of the accept loop, for any accepting operation with the ownership contract: it
  returns when an accept fails at some point, and then it has handed every accepted socket to the
  handler, in order, followed by what the error calls for.
\<close>

lemma accept_callback_spec:
  assumes acq: "acquires accept own" and "has_event events ev_readable" and clean: "clean (trace w)"
    and fails: "outcome accept (world_after accept n0 w) = Inl e0"
  shows "\<exists>xs ec b0 w'. b0 \<in> {b, 100} \<and> accept_callback accept l events b w =
      Some (next_backoff b0 ec, map (Handler \<circ> Inr) xs @ error_requests l b0 ec, w')
    \<and> live w' = live w + sum_list (map own xs) \<and> clean (trace w')"
proof -
  obtain xs ec where xs: "outcome accept (world_after accept (length xs) w) = Inl ec"
    "\<And>k. k < length xs \<Longrightarrow> outcome accept (world_after accept k w) = Inr (xs ! k)"
    using accept_turns_returns [OF fails] by blast
  let ?w = "world_after accept (length xs) w"
  have w: "live ?w = live w + sum_list (map own xs)" "clean (trace ?w)"
    using live_after_accepts [OF acq clean refl, of xs] xs(2) by simp_all
  have "run_state accept ?w = (Inl ec, world_after accept (Suc (length xs)) w)"
    using xs(1) by (simp add: world_after_def prod_eq_iff)
  from acquires_run [OF acq this w(2)] w
  have "live (world_after accept (Suc (length xs)) w) = live w + sum_list (map own xs)"
    "clean (trace (world_after accept (Suc (length xs)) w))" by simp_all
  moreover have "accept_callback accept l events b w =
      (let b0 = (if xs = [] then b else 100)
       in Some (next_backoff b0 ec, map (Handler \<circ> Inr) xs @ error_requests l b0 ec, world_after accept (Suc (length xs)) w))"
    using accept_turns_result [OF xs(2) refl xs(1), of l b "[]"] assms(2)
    by (simp add: accept_callback_def)
  ultimately show ?thesis
    by (intro exI [of _ xs] exI [of _ ec] exI [of _ "if xs = [] then b else 100"]) (simp add: Let_def)
qed

text \<open>
  C28: the accept loop of a TCP listener loses no connection. When the system eventually refuses an
  \<open>accept\<close>, the callback returns; the descriptors it has opened are exactly those of the sockets it
  has handed to the handler; and the backoff stays between 100 and 5000 milliseconds.
\<close>

theorem accept_loop_accounts:
  assumes "has_event events ev_readable" and "clean (trace w)" and "100 \<le> b" and "b \<le> 5000"
    and "outcome (tcp4_accept K p l) (world_after (tcp4_accept K p l) n0 w) = Inl e0"
  shows "\<exists>b' qs w'. tcp4_accept_callback K p l events b w = Some (b', qs, w')
    \<and> live w' = live w + handed (owned \<circ> fst) qs \<and> clean (trace w') \<and> 100 \<le> b' \<and> b' \<le> 5000"
proof -
  obtain xs ec b0 w' where r: "b0 \<in> {b, 100}" "accept_callback (tcp4_accept K p l) l events b w =
      Some (next_backoff b0 ec, map (Handler \<circ> Inr) xs @ error_requests l b0 ec, w')"
    "live w' = live w + sum_list (map (owned \<circ> fst) xs)" "clean (trace w')"
    using accept_callback_spec [OF tcp4_accept_acquires assms(1,2,5), of b l] by (elim exE conjE) (rule that)
  have h1: "handed (owned \<circ> fst) (map (Handler \<circ> Inr) xs) = sum_list (map (owned \<circ> fst) xs)"
    by (induction xs) simp_all
  have h2: "handed (owned \<circ> fst) (error_requests l b0 ec) = {#}" by (simp add: error_requests_def)
  have h3: "100 \<le> next_backoff b0 ec" "next_backoff b0 ec \<le> 5000"
    using assms(3,4) r(1) by (auto simp: next_backoff_def)
  show ?thesis
    unfolding tcp4_accept_callback_def
    by (intro exI [of _ "next_backoff b0 ec"] exI [of _ "map (Handler \<circ> Inr) xs @ error_requests l b0 ec"] exI [of _ w'])
      (simp only: r handed_append h1 h2 h3 add.right_neutral simp_thms)
qed

theorem accept_loop_accounts_witness:
  "\<exists>w'. tcp4_accept_callback (\<lambda>tr c. sys_fail 24) Linux (tcp_listener_default\<lparr>l_socket := socket_of 5\<rparr>) ev_readable 100 start_world
     = Some (200, [Io_modify 5 ev_none, Defer 100, Handler (Inl (make_error_code fd_limit_reached))], w') \<and> live w' = {#}"
proof -
  let ?l = "tcp_listener_default\<lparr>l_socket := socket_of 5\<rparr>"
  let ?a = "tcp4_accept (\<lambda>tr c. sys_fail 24) Linux ?l"
  have a: "outcome ?a (world_after ?a 0 start_world) = Inl (make_error_code fd_limit_reached)"
    by (simp add: world_after_def tcp4_accept_def accept_raw_peer_def accept_conn_def is_open_def socket_of_def
        invalid_socket_def io_simps sys_fail_def normalize_error_def switch_error_def portable_cases_def)
  obtain b' qs w' where r: "tcp4_accept_callback (\<lambda>tr c. sys_fail 24) Linux ?l ev_readable 100 start_world = Some (b', qs, w')"
    "live w' = handed (owned \<circ> fst) qs"
    using accept_loop_accounts [of ev_readable start_world 100 "\<lambda>tr c. sys_fail 24" Linux ?l 0, OF _ _ _ _ a]
    by (auto simp: start_world_def)
  have "accept_callback ?a ?l ev_readable 100 start_world =
      Some (200, [Io_modify 5 ev_none, Defer 100, Handler (Inl (make_error_code fd_limit_reached))], final_world ?a start_world)"
    unfolding accept_callback_def by (subst accept_turns_step)
      (use a in \<open>simp add: next_backoff_def error_requests_def world_after_def socket_of_def\<close>)
  with r have "qs = [Io_modify 5 ev_none, Defer 100, Handler (Inl (make_error_code fd_limit_reached))]" "b' = 200"
    by (simp_all add: tcp4_accept_callback_def)
  then show ?thesis using r by simp
qed



text \<open>
  Outside Windows, the error of a failed asynchronous connect is not normalised: \<open>SO_ERROR\<close> is
  wrapped in the generic category, which \<open>normalize_error\<close> passes through, so that the handler gets no
  \<open>socketpp\<close> error code, whereas the synchronous connect reports the same failure as one.
\<close>

theorem connect_async_error_raw:
  assumes "p \<noteq> Windows" and "e \<noteq> 0"
  shows "so_error_code p e = \<lparr>ec_value = e, ec_category = generic_category\<rparr>
    \<and> (\<forall>c. so_error_code p e \<noteq> make_error_code c)"
  using assms by (simp add: so_error_code_def normalize_error_def make_error_code_def)

theorem connect_async_error_raw_witness:
  "so_error_code Linux 111 \<noteq> make_error_code connection_refused"
proof -
  have "\<forall>c. so_error_code Linux 111 \<noteq> make_error_code c"
    by (rule conjunct2 [OF connect_async_error_raw]) simp_all
  then show ?thesis by blast
qed

end
