(* ===== verification/Stream_Impl.thy ===== *)
theory Stream_Impl
  imports Connection Async "HOL-Library.AList"
begin

text \<open>
  The stream server and client: \<open>src/high/stream.cpp\<close>, on top of the connection engine
  (\<open>Connection\<close>), the accept loop and the asynchronous connect (\<open>Async\<close>).

  The connection objects, which the code holds in shared pointers, are the list \<open>si_objs\<close>; a shared
  pointer is an index into it. \<open>si_posted\<close> is the queue of the event loop (a first-in first-out queue,
  as \<open>Loop\<close> shows), \<open>si_pool\<close> holds the tasks handed to the thread pool, which run in any order and
  at any time, and \<open>si_serial\<close> the callbacks handed to the serial queue of the container. A step of
  \<open>si_step\<close> is a call of the user, a task of the loop, an event, a turn of the accept loop, or a part
  of a pool task. The world is shared: an operation on a connection runs in the world of the stream.
\<close>

section \<open>State\<close>

text \<open>The template parameters of \<open>stream_impl\<close>: what the address family provides.\<close>

record 'a family =
  fm_default :: 'a
  fm_open :: "tcp_listener \<Rightarrow> 'a \<Rightarrow> int \<Rightarrow> socket_options \<Rightarrow> (rvoid \<times> tcp_listener) io"
  fm_accept :: "tcp_listener \<Rightarrow> (socket \<times> 'a) result io"
  fm_connect :: "'a \<Rightarrow> socket_options \<Rightarrow> socket result io"
  fm_local :: "socket \<Rightarrow> 'a result io"
  fm_peer :: "socket \<Rightarrow> 'a result io"

definition stream4 :: "kernel \<Rightarrow> platform \<Rightarrow> inet4_address family" where
  "stream4 K p = \<lparr>fm_default = inet4_default p, fm_open = tcp4_listener_open K p, fm_accept = tcp4_accept K p,
     fm_connect = tcp4_connect K p, fm_local = tcp4_local_addr K p, fm_peer = tcp4_peer_addr K p\<rparr>"

definition stream6 :: "kernel \<Rightarrow> platform \<Rightarrow> inet6_address family" where
  "stream6 K p = \<lparr>fm_default = inet6_default p, fm_open = tcp6_listener_open K p, fm_accept = tcp6_accept K p,
     fm_connect = tcp6_connect K p, fm_local = tcp6_local_addr K p, fm_peer = tcp6_peer_addr K p\<rparr>"

datatype stream_mode = Listen_mode | Client_mode

text \<open>
  The value of \<open>on_close_\<close>: empty, the user's handler, the handler that erases the table entry of a
  descriptor and then calls the user's, or the handler that clears \<open>connected_flag\<close> first.
\<close>

datatype close_hook = No_hook | User_hook | Erase_hook int bool | Flag_hook bool

text \<open>Before, during (with the descriptor its task has captured) and after \<open>on_connect_cb\<close>.\<close>

datatype phase = Fresh | In_connect int | Running

text \<open>
  A connection object: \<open>o_fd\<close> is its descriptor at the start, \<open>o_ran\<close> counts the callbacks of its
  serial queue that have run, \<open>o_erased\<close> records that its close handler has posted the erasure.
\<close>

record 'a conn_object =
  o_conn :: conn
  o_fd :: int
  o_peer :: 'a
  o_local :: 'a
  o_hook :: close_hook
  o_phase :: phase
  o_wrapper :: bool
  o_ran :: nat
  o_erased :: bool
  o_freed :: bool

datatype loop_task =
    Conn_task nat posted
  | Accept_start
  | Connect_start
  | Listener_stop
  | Erase int
  | Serial_submit nat
  | Timer_start int bool nat
  | Loop_stop

datatype pool_task = Error_task error_code | Connect_task nat int

datatype si_point = Si_idle | Si_accepting

record stream_listen_config =
  lc_max_write_buffer :: u64
  lc_read_buffer_size :: nat
  lc_sock_opts :: socket_options
  lc_backlog :: int
  lc_max_connections :: nat

record stream_connect_config =
  cc_max_write_buffer :: u64
  cc_read_buffer_size :: nat
  cc_sock_opts :: socket_options
  cc_connect_timeout :: int

record 'a stream_impl =
  si_mode :: stream_mode
  si_world :: world
  si_on_connect :: bool
  si_on_error :: bool
  si_listener :: tcp_listener
  si_max_write_buf :: u64
  si_read_buf_size :: nat
  si_max_conn :: nat
  si_sock_opts :: socket_options
  si_backlog :: int
  si_connections :: "(int \<times> nat) list"
  si_count :: u64
  si_listen_paused :: bool
  si_connect_addr :: 'a
  si_connect_timeout :: int
  si_client_conn :: "nat option"
  si_connected :: bool
  si_armed :: bool
  si_objs :: "'a conn_object list"
  si_attempt :: "attempt option"
  si_posted :: "loop_task list"
  si_pool :: "pool_task list"
  si_serial :: "nat list"
  si_timers :: "(timer_id \<times> bool \<times> nat) list"
  si_listen_io :: "io_event option"
  si_backoff :: int
  si_pc :: si_point
  si_running :: bool
  si_stopping :: bool

definition stream_new :: "'a family \<Rightarrow> world \<Rightarrow> 'a stream_impl" where
  "stream_new F w = \<lparr>si_mode = Listen_mode, si_world = w, si_on_connect = False, si_on_error = False,
     si_listener = tcp_listener_default, si_max_write_buf = 16 * 1024 * 1024, si_read_buf_size = 65536,
     si_max_conn = 0, si_sock_opts = socket_options_default, si_backlog = 128,
     si_connections = [], si_count = 0, si_listen_paused = False, si_connect_addr = fm_default F,
     si_connect_timeout = 30000, si_client_conn = None, si_connected = False, si_armed = False,
     si_objs = [], si_attempt = None, si_posted = [], si_pool = [], si_serial = [], si_timers = [],
     si_listen_io = None, si_backoff = initial_backoff, si_pc = Si_idle, si_running = False, si_stopping = False\<rparr>"

definition do_listen :: "'a family \<Rightarrow> 'a \<Rightarrow> stream_listen_config \<Rightarrow> 'a stream_impl \<Rightarrow> rvoid \<times> 'a stream_impl" where
  "do_listen F addr config S =
     (let S1 = S\<lparr>si_mode := Listen_mode, si_max_write_buf := lc_max_write_buffer config,
                 si_read_buf_size := lc_read_buffer_size config, si_max_conn := lc_max_connections config,
                 si_sock_opts := lc_sock_opts config, si_backlog := lc_backlog config\<rparr>
      in case run_state (fm_open F (si_listener S1) addr (si_backlog S1) (si_sock_opts S1)) (si_world S1) of ((r, l), w) \<Rightarrow>
           (r, S1\<lparr>si_listener := l, si_world := w, si_running := is_ok r\<rparr>))"

definition do_connect :: "'a \<Rightarrow> stream_connect_config \<Rightarrow> 'a stream_impl \<Rightarrow> 'a stream_impl" where
  "do_connect addr config S =
     S\<lparr>si_mode := Client_mode, si_connect_addr := addr, si_connect_timeout := cc_connect_timeout config,
       si_max_write_buf := cc_max_write_buffer config, si_read_buf_size := cc_read_buffer_size config,
       si_sock_opts := cc_sock_opts config, si_running := True\<rparr>"

section \<open>Connections\<close>

text \<open>
  An operation of the connection engine on object \<open>i\<close>: it runs in the world of the stream, and what it
  posts goes to the end of the loop's queue.
\<close>

definition checkout :: "nat \<Rightarrow> 'a stream_impl \<Rightarrow> conn" where
  "checkout i S = (o_conn (si_objs S ! i))\<lparr>c_world := si_world S, c_posted := []\<rparr>"

definition set_obj :: "nat \<Rightarrow> ('a conn_object \<Rightarrow> 'a conn_object) \<Rightarrow> 'a stream_impl \<Rightarrow> 'a stream_impl" where
  "set_obj i f S = S\<lparr>si_objs := (si_objs S)[i := f (si_objs S ! i)]\<rparr>"

definition at_conn :: "nat \<Rightarrow> (conn \<Rightarrow> conn) \<Rightarrow> 'a stream_impl \<Rightarrow> 'a stream_impl" where
  "at_conn i f S =
     (let c = f (checkout i S)
      in set_obj i (\<lambda>ob. ob\<lparr>o_conn := c\<rparr>)
           (S\<lparr>si_world := c_world c, si_posted := si_posted S @ map (Conn_task i) (c_posted c)\<rparr>))"

definition hook_set :: "close_hook \<Rightarrow> bool" where
  "hook_set h \<longleftrightarrow> h \<noteq> No_hook"

text \<open>Assigning \<open>on_close_\<close>.\<close>

definition set_hook :: "nat \<Rightarrow> close_hook \<Rightarrow> 'a stream_impl \<Rightarrow> 'a stream_impl" where
  "set_hook i h S = set_obj i (\<lambda>ob. ob\<lparr>o_hook := h, o_conn := (o_conn ob)\<lparr>c_on_close := hook_set h\<rparr>\<rparr>) S"

text \<open>Making a connection object from a configured socket.\<close>

definition new_object :: "socket \<Rightarrow> 'a \<Rightarrow> 'a \<Rightarrow> bool \<Rightarrow> 'a stream_impl \<Rightarrow> 'a conn_object" where
  "new_object sock peer local wrapper S =
     \<lparr>o_conn = conn_new (si_world S) sock (si_read_buf_size S) (si_max_write_buf S) False False, o_fd = s_handle sock,
      o_peer = peer, o_local = local, o_hook = No_hook, o_phase = (if wrapper then Fresh else Running),
      o_wrapper = wrapper, o_ran = 0, o_erased = False, o_freed = False\<rparr>"

definition address_or :: "'a \<Rightarrow> 'a result \<Rightarrow> 'a" where
  "address_or d r = (case r of Inl _ \<Rightarrow> d | Inr a \<Rightarrow> a)"

text \<open>Submitting to the pool, which may refuse; the result is ignored.\<close>

definition pool_submit :: "bool \<Rightarrow> pool_task \<Rightarrow> 'a stream_impl \<Rightarrow> 'a stream_impl" where
  "pool_submit ok t S = (if ok then S\<lparr>si_pool := si_pool S @ [t]\<rparr> else S)"

definition report_error :: "bool \<Rightarrow> error_code \<Rightarrow> 'a stream_impl \<Rightarrow> 'a stream_impl" where
  "report_error ok ec S = (if si_on_error S then pool_submit ok (Error_task ec) S else S)"

section \<open>Listen mode\<close>

text \<open>\<open>arm_listen\<close> and \<open>arm_connect\<close>, called by \<open>on_connect\<close> with the new handler in place.\<close>

definition arm :: "'a stream_impl \<Rightarrow> 'a stream_impl" where
  "arm S = (if si_armed S then S
     else S\<lparr>si_armed := True, si_posted := si_posted S @ [if si_mode S = Listen_mode then Accept_start else Connect_start]\<rparr>)"

definition on_connect :: "bool \<Rightarrow> 'a stream_impl \<Rightarrow> 'a stream_impl" where
  "on_connect handler S = arm (S\<lparr>si_on_connect := handler\<rparr>)"

definition on_error :: "bool \<Rightarrow> 'a stream_impl \<Rightarrow> 'a stream_impl" where
  "on_error handler S = S\<lparr>si_on_error := handler\<rparr>"

text \<open>The handler of the accept loop.\<close>

definition on_accepted :: "'a family \<Rightarrow> kernel \<Rightarrow> platform \<Rightarrow> bool \<Rightarrow> socket \<Rightarrow> 'a \<Rightarrow> 'a stream_impl \<Rightarrow> 'a stream_impl" where
  "on_accepted F K p ok sock peer S =
     (if si_max_conn S > 0 \<and> length (si_connections S) \<ge> si_max_conn S
      then S\<lparr>si_world := final_world (socket_close K p sock) (si_world S)\<rparr>
      else
        let fd = s_handle sock;
            w1 = final_world (set_non_blocking K p sock True) (si_world S);
            (lr, w2) = run_state (fm_local F sock) w1;
            i = length (si_objs S);
            S1 = S\<lparr>si_world := w2, si_connections := AList.update fd i (si_connections S), si_count := si_count S + 1\<rparr>;
            ob = new_object sock peer (address_or (fm_default F) lr)
        in if si_on_connect S
           then pool_submit ok (Connect_task i fd) (S1\<lparr>si_objs := si_objs S1 @ [ob True S1]\<rparr>)
           else at_conn i start_reading (set_hook i (Erase_hook fd False) (S1\<lparr>si_objs := si_objs S1 @ [ob False S1]\<rparr>)))"

text \<open>One turn of the accept loop: the backoff and the registration follow the accept loop.\<close>

definition accept_turn :: "'a family \<Rightarrow> kernel \<Rightarrow> platform \<Rightarrow> bool \<Rightarrow> bool \<Rightarrow> 'a stream_impl \<Rightarrow> 'a stream_impl" where
  "accept_turn F K p ok pool_ok S =
     (case run_state (fm_accept F (si_listener S)) (si_world S) of (r, w) \<Rightarrow>
        case r of
          Inr (sock, peer) \<Rightarrow> on_accepted F K p pool_ok sock peer (S\<lparr>si_world := w, si_backoff := 100\<rparr>)
        | Inl ec \<Rightarrow>
            let S1 = S\<lparr>si_world := w, si_backoff := next_backoff (si_backoff S) ec, si_pc := Si_idle\<rparr>
            in if ec = make_error_code would_block then S1
               else if ec = make_error_code fd_limit_reached
               then report_error pool_ok ec (if ok then S1\<lparr>si_listen_io := map_option (\<lambda>_. ev_none) (si_listen_io S1)\<rparr> else S1)
               else report_error pool_ok ec S1)"

definition do_pause :: "'a stream_impl \<Rightarrow> 'a stream_impl" where
  "do_pause S = (if si_mode S \<noteq> Listen_mode \<or> \<not> si_armed S then S
     else S\<lparr>si_listen_paused := True, si_posted := si_posted S @ [Listener_stop]\<rparr>)"

definition do_resume :: "'a stream_impl \<Rightarrow> 'a stream_impl" where
  "do_resume S = (if si_mode S \<noteq> Listen_mode \<or> \<not> si_armed S then S
     else S\<lparr>si_listen_paused := False, si_posted := si_posted S @ [Accept_start]\<rparr>)"

text \<open>
  \<open>accept_loop\<close> registers the descriptor of the listener, with a new backoff; the dispatcher refuses a
  closed one.
\<close>

definition accept_start :: "bool \<Rightarrow> 'a stream_impl \<Rightarrow> 'a stream_impl" where
  "accept_start ok S = (if ok \<and> is_open (l_socket (si_listener S))
     then S\<lparr>si_listen_io := Some ev_readable, si_backoff := initial_backoff\<rparr> else S)"

definition stop_listener :: "kernel \<Rightarrow> platform \<Rightarrow> 'a stream_impl \<Rightarrow> 'a stream_impl" where
  "stop_listener K p S =
     (case run_state (listener_stop K p (si_listener S)) (si_world S) of (l, w) \<Rightarrow> S\<lparr>si_listener := l, si_world := w\<rparr>)"

definition erase_connection :: "int \<Rightarrow> 'a stream_impl \<Rightarrow> 'a stream_impl" where
  "erase_connection fd S = S\<lparr>si_connections := AList.delete fd (si_connections S), si_count := si_count S - 1\<rparr>"

section \<open>Client mode\<close>

text \<open>The completion of the asynchronous connect.\<close>

definition on_connected :: "'a family \<Rightarrow> kernel \<Rightarrow> platform \<Rightarrow> bool \<Rightarrow> socket result \<Rightarrow> 'a stream_impl \<Rightarrow> 'a stream_impl" where
  "on_connected F K p ok r S =
     (case r of
        Inl ec \<Rightarrow> report_error ok ec S
      | Inr sock \<Rightarrow>
          let w1 = final_world (set_non_blocking K p sock True) (si_world S);
              (pr, w2) = run_state (fm_peer F sock) w1;
              (lr, w3) = run_state (fm_local F sock) w2;
              i = length (si_objs S);
              S1 = S\<lparr>si_world := w3\<rparr>;
              S2 = S1\<lparr>si_objs := si_objs S1 @
                       [new_object sock (address_or (fm_default F) pr) (address_or (fm_default F) lr) (si_on_connect S) S1],
                     si_client_conn := Some i, si_connected := True\<rparr>
          in if si_on_connect S then pool_submit ok (Connect_task i (s_handle sock)) S2 else at_conn i start_reading S2)"

text \<open>
  A part of the asynchronous connect: its start, its timer or its I/O callback. What it hands to the
  completion handler is handled last.
\<close>

definition run_attempt :: "'a family \<Rightarrow> kernel \<Rightarrow> platform \<Rightarrow> bool \<Rightarrow> attempt \<Rightarrow> 'a stream_impl \<Rightarrow> 'a stream_impl" where
  "run_attempt F K p ok A S =
     foldl (\<lambda>T r. on_connected F K p ok r T)
       (S\<lparr>si_world := ca_world A, si_attempt := Some (A\<lparr>ca_requests := []\<rparr>)\<rparr>) (handled (ca_requests A))"

definition connect_start :: "'a family \<Rightarrow> kernel \<Rightarrow> platform \<Rightarrow> bool \<Rightarrow> timer_id \<Rightarrow> 'a stream_impl \<Rightarrow> 'a stream_impl" where
  "connect_start F K p ok tid S =
     run_attempt F K p ok
       (connect_async (fm_connect F (si_connect_addr S) (si_sock_opts S)) (si_connect_timeout S) tid (si_world S)) S"

section \<open>Pool tasks\<close>

text \<open>\<open>on_connect_cb\<close> starts, and the user installs handlers while it runs.\<close>

definition connect_begin :: "nat \<Rightarrow> int \<Rightarrow> 'a stream_impl \<Rightarrow> 'a stream_impl" where
  "connect_begin i fd S = set_obj i (\<lambda>ob. ob\<lparr>o_phase := In_connect fd\<rparr>) S"

definition connection_on_data :: "nat \<Rightarrow> bool \<Rightarrow> 'a stream_impl \<Rightarrow> 'a stream_impl" where
  "connection_on_data i handler S =
     set_obj i (\<lambda>ob. ob\<lparr>o_conn := (o_conn ob)\<lparr>c_on_data := handler\<rparr>\<rparr>) S"

definition connection_on_close :: "nat \<Rightarrow> bool \<Rightarrow> 'a stream_impl \<Rightarrow> 'a stream_impl" where
  "connection_on_close i handler S = set_hook i (if handler then User_hook else No_hook) S"

text \<open>\<open>on_connect_cb\<close> returned: wrap the user's close handler and start reading.\<close>

definition wrap_hook :: "stream_mode \<Rightarrow> int \<Rightarrow> close_hook \<Rightarrow> close_hook" where
  "wrap_hook mode fd h = (if mode = Listen_mode then Erase_hook fd (hook_set h) else Flag_hook (hook_set h))"

definition connect_end :: "nat \<Rightarrow> int \<Rightarrow> 'a stream_impl \<Rightarrow> 'a stream_impl" where
  "connect_end i fd S =
     at_conn i start_reading
       (set_obj i (\<lambda>ob. ob\<lparr>o_phase := Running\<rparr>) (set_hook i (wrap_hook (si_mode S) fd (o_hook (si_objs S ! i))) S))"

text \<open>The next callback of the connection's serial queue; \<open>on_close_\<close> is read when it runs.\<close>

definition run_hook :: "nat \<Rightarrow> 'a stream_impl \<Rightarrow> 'a stream_impl" where
  "run_hook i S =
     (case o_hook (si_objs S ! i) of
        Erase_hook fd _ \<Rightarrow> set_obj i (\<lambda>ob. ob\<lparr>o_erased := True\<rparr>) (S\<lparr>si_posted := si_posted S @ [Erase fd]\<rparr>)
      | Flag_hook _ \<Rightarrow> S\<lparr>si_connected := False\<rparr>
      | _ \<Rightarrow> S)"

definition run_callback :: "nat \<Rightarrow> 'a stream_impl \<Rightarrow> 'a stream_impl" where
  "run_callback i S =
     (let ob = si_objs S ! i;
          S1 = set_obj i (\<lambda>ob. ob\<lparr>o_ran := o_ran ob + 1\<rparr>) S
      in case c_callbacks (o_conn ob) ! o_ran ob of On_data _ \<Rightarrow> S1 | On_close \<Rightarrow> run_hook i S1)"

section \<open>Timers and posts\<close>

definition do_post :: "nat \<Rightarrow> 'a stream_impl \<Rightarrow> 'a stream_impl" where
  "do_post cb S = S\<lparr>si_posted := si_posted S @ [Serial_submit cb]\<rparr>"

definition do_defer :: "int \<Rightarrow> nat \<Rightarrow> 'a stream_impl \<Rightarrow> 'a stream_impl" where
  "do_defer delay cb S = S\<lparr>si_posted := si_posted S @ [Timer_start delay False cb]\<rparr>"

definition do_repeat :: "int \<Rightarrow> nat \<Rightarrow> 'a stream_impl \<Rightarrow> 'a stream_impl" where
  "do_repeat interval cb S = S\<lparr>si_posted := si_posted S @ [Timer_start interval True cb]\<rparr>"

definition timer_start :: "timer_id \<Rightarrow> bool \<Rightarrow> nat \<Rightarrow> 'a stream_impl \<Rightarrow> 'a stream_impl" where
  "timer_start tid rep cb S = S\<lparr>si_timers := si_timers S @ [(tid, rep, cb)]\<rparr>"

definition stream_timer_fire :: "timer_id \<times> bool \<times> nat \<Rightarrow> 'a stream_impl \<Rightarrow> 'a stream_impl" where
  "stream_timer_fire t S =
     (case t of (tid, rep, cb) \<Rightarrow>
        S\<lparr>si_serial := si_serial S @ [cb], si_timers := (if rep then si_timers S else remove1 t (si_timers S))\<rparr>)"

definition do_local_addr :: "'a family \<Rightarrow> 'a stream_impl \<Rightarrow> 'a \<times> 'a stream_impl" where
  "do_local_addr F S =
     (if si_mode S = Listen_mode
      then (case run_state (fm_local F (l_socket (si_listener S))) (si_world S) of (r, w) \<Rightarrow>
              (address_or (fm_default F) r, S\<lparr>si_world := w\<rparr>))
      else (case si_client_conn S of Some i \<Rightarrow> o_local (si_objs S ! i) | None \<Rightarrow> fm_default F, S))"

text \<open>The deferred task of the accept loop.\<close>

definition accept_rearm :: "bool \<Rightarrow> 'a stream_impl \<Rightarrow> 'a stream_impl" where
  "accept_rearm ok S = (if ok then S\<lparr>si_listen_io := map_option (\<lambda>_. ev_readable) (si_listen_io S)\<rparr> else S)"

section \<open>Loop tasks\<close>

definition run_task :: "'a family \<Rightarrow> kernel \<Rightarrow> platform \<Rightarrow> bool \<Rightarrow> bool \<Rightarrow> timer_id \<Rightarrow> loop_task \<Rightarrow> 'a stream_impl \<Rightarrow> 'a stream_impl" where
  "run_task F K p ok pool_ok tid t S = (case t of
       Conn_task i c \<Rightarrow> at_conn i (run_posted K p ok c) S
     | Accept_start \<Rightarrow> accept_start ok S
     | Connect_start \<Rightarrow> connect_start F K p pool_ok tid S
     | Listener_stop \<Rightarrow> stop_listener K p S
     | Erase fd \<Rightarrow> erase_connection fd S
     | Serial_submit cb \<Rightarrow> S\<lparr>si_serial := si_serial S @ [cb]\<rparr>
     | Timer_start _ rep cb \<Rightarrow> timer_start tid rep cb S
     | Loop_stop \<Rightarrow> S\<lparr>si_stopping := True\<rparr>)"

section \<open>Calls of the user on a connection\<close>

datatype user_op = Op_send "byte list" | Op_close | Op_pause | Op_resume

fun user_call :: "bool \<Rightarrow> user_op \<Rightarrow> conn \<Rightarrow> conn" where
  "user_call seen (Op_send data) c =
     (case enqueue_send seen data c of (ok, c') \<Rightarrow> c'\<lparr>c_accepted := c_accepted c' @ (if ok then data else [])\<rparr>)"
| "user_call seen Op_close c = close_from_user seen c"
| "user_call seen Op_pause c = pause_from_user seen c"
| "user_call seen Op_resume c = resume_from_user seen c"

section \<open>Lifetime\<close>

text \<open>
  Who holds the wrapper and who holds the connection object itself. \<open>~connection\<close> closes the
  connection when the wrapper was its last owner; the object's destructor closes the socket.
\<close>

definition in_table :: "nat \<Rightarrow> 'a stream_impl \<Rightarrow> bool" where
  "in_table i S \<longleftrightarrow> i \<in> snd ` set (si_connections S) \<or> si_client_conn S = Some i"

definition wrapper_held :: "nat \<Rightarrow> 'a stream_impl \<Rightarrow> bool" where
  "wrapper_held i S \<longleftrightarrow> in_table i S \<or> (\<exists>fd. Connect_task i fd \<in> set (si_pool S) \<or> o_phase (si_objs S ! i) = In_connect fd)"

definition impl_held :: "nat \<Rightarrow> 'a stream_impl \<Rightarrow> bool" where
  "impl_held i S \<longleftrightarrow> in_table i S \<or> (\<exists>t. Conn_task i t \<in> set (si_posted S))
     \<or> c_interest (o_conn (si_objs S ! i)) \<noteq> None \<or> c_pc (o_conn (si_objs S ! i)) \<noteq> Idle
     \<or> o_ran (si_objs S ! i) < length (c_callbacks (o_conn (si_objs S ! i)))"

definition drop_wrapper :: "nat \<Rightarrow> 'a stream_impl \<Rightarrow> 'a stream_impl" where
  "drop_wrapper i S =
     (let S1 = set_obj i (\<lambda>ob. ob\<lparr>o_wrapper := False\<rparr>) S
      in if \<not> impl_held i S \<and> \<not> c_closed (o_conn (si_objs S ! i)) then at_conn i (close_from_user False) S1 else S1)"

definition free_object :: "kernel \<Rightarrow> platform \<Rightarrow> nat \<Rightarrow> 'a stream_impl \<Rightarrow> 'a stream_impl" where
  "free_object K p i S =
     (let S1 = S\<lparr>si_world := final_world (socket_drop K p (c_socket (o_conn (si_objs S ! i)))) (si_world S)\<rparr>
      in set_obj i (\<lambda>ob. ob\<lparr>o_freed := True, o_conn := (o_conn ob)\<lparr>c_socket := socket_default\<rparr>\<rparr>) S1)"

section \<open>Destruction\<close>

text \<open>
  \<open>do_destroy\<close> on the user's thread before the loop has ended, and after it was joined. The pool then
  finishes its tasks.
\<close>

definition destroy_begin :: "kernel \<Rightarrow> platform \<Rightarrow> 'a stream_impl \<Rightarrow> 'a stream_impl" where
  "destroy_begin K p S =
     (let S1 = (if si_mode S = Listen_mode then stop_listener K p S else S)
      in S1\<lparr>si_posted := si_posted S1 @ [Loop_stop], si_stopping := True\<rparr>)"

definition destroy_end :: "kernel \<Rightarrow> platform \<Rightarrow> 'a stream_impl \<Rightarrow> 'a stream_impl" where
  "destroy_end K p S =
     (if si_mode S = Listen_mode
      then (foldl (\<lambda>T e. at_conn (snd e) (initiate_close K p) T) S (si_connections S))\<lparr>si_connections := [], si_count := 0\<rparr>
      else (case si_client_conn S of
              Some i \<Rightarrow> (at_conn i (initiate_close K p) S)\<lparr>si_client_conn := None\<rparr>
            | None \<Rightarrow> S)\<lparr>si_connected := False\<rparr>)"

section \<open>Interleavings\<close>

text \<open>The loop thread is between two tasks.\<close>

definition loop_idle :: "'a stream_impl \<Rightarrow> bool" where
  "loop_idle S \<longleftrightarrow> si_running S \<and> si_pc S = Si_idle \<and> (\<forall>ob \<in> set (si_objs S). c_pc (o_conn ob) = Idle)"

definition in_use :: "nat \<Rightarrow> 'a stream_impl \<Rightarrow> bool" where
  "in_use i S \<longleftrightarrow> i < length (si_objs S) \<and> \<not> o_freed (si_objs S ! i)"

fun op_small :: "user_op \<Rightarrow> bool" where
  "op_small (Op_send data) \<longleftrightarrow> length data < 2 ^ 62"
| "op_small _ \<longleftrightarrow> True"

text \<open>What the user's threads and the pool do.\<close>

inductive user_step :: "kernel \<Rightarrow> platform \<Rightarrow> 'a stream_impl \<Rightarrow> 'a stream_impl \<Rightarrow> bool" for K p where
  us_on_connect: "user_step K p S (on_connect h S)"
| us_on_error: "user_step K p S (on_error h S)"
| us_pause: "user_step K p S (do_pause S)"
| us_resume: "user_step K p S (do_resume S)"
| us_post: "user_step K p S (do_post cb S)"
| us_defer: "user_step K p S (do_defer delay cb S)"
| us_repeat: "user_step K p S (do_repeat delay cb S)"
| us_cancel: "user_step K p S (S\<lparr>si_timers := filter (\<lambda>t. fst t \<noteq> tid) (si_timers S)\<rparr>)"
| us_destroy: "user_step K p S (destroy_begin K p S)"
| us_call: "in_use i S \<Longrightarrow> o_wrapper (si_objs S ! i) \<Longrightarrow> o_phase (si_objs S ! i) \<noteq> Fresh \<Longrightarrow> op_small op \<Longrightarrow>
    (seen \<Longrightarrow> c_closed (o_conn (si_objs S ! i))) \<Longrightarrow> user_step K p S (at_conn i (user_call seen op) S)"
| us_error_cb: "si_pool S = xs @ Error_task ec # ys \<Longrightarrow> user_step K p S (S\<lparr>si_pool := xs @ ys\<rparr>)"
| us_connect_begin: "si_pool S = xs @ Connect_task i fd # ys \<Longrightarrow> user_step K p S (connect_begin i fd (S\<lparr>si_pool := xs @ ys\<rparr>))"
| us_on_data: "in_use i S \<Longrightarrow> o_phase (si_objs S ! i) = In_connect fd \<Longrightarrow> user_step K p S (connection_on_data i h S)"
| us_on_close: "in_use i S \<Longrightarrow> o_phase (si_objs S ! i) = In_connect fd \<Longrightarrow> user_step K p S (connection_on_close i h S)"
| us_connect_end: "in_use i S \<Longrightarrow> o_phase (si_objs S ! i) = In_connect fd \<Longrightarrow> user_step K p S (connect_end i fd S)"
| us_callback: "in_use i S \<Longrightarrow> o_ran (si_objs S ! i) < length (c_callbacks (o_conn (si_objs S ! i))) \<Longrightarrow>
    user_step K p S (run_callback i S)"
| us_drop_wrapper: "in_use i S \<Longrightarrow> o_wrapper (si_objs S ! i) \<Longrightarrow> \<not> wrapper_held i S \<Longrightarrow> user_step K p S (drop_wrapper i S)"
| us_free: "in_use i S \<Longrightarrow> \<not> o_wrapper (si_objs S ! i) \<Longrightarrow> \<not> impl_held i S \<Longrightarrow> user_step K p S (free_object K p i S)"

text \<open>What the loop thread does.\<close>

inductive thread_step :: "'a family \<Rightarrow> kernel \<Rightarrow> platform \<Rightarrow> 'a stream_impl \<Rightarrow> 'a stream_impl \<Rightarrow> bool" for F K p where
  ts_task: "loop_idle S \<Longrightarrow> si_posted S = t # ts \<Longrightarrow>
    thread_step F K p S (run_task F K p ok pool_ok tid t (S\<lparr>si_posted := ts\<rparr>))"
| ts_event: "loop_idle S \<Longrightarrow> in_use i S \<Longrightarrow> c_interest (o_conn (si_objs S ! i)) \<noteq> None \<Longrightarrow>
    thread_step F K p S (at_conn i (on_io_event K p ev) S)"
| ts_drain_top: "in_use i S \<Longrightarrow> c_pc (o_conn (si_objs S ! i)) = Drain_top \<Longrightarrow> thread_step F K p S (at_conn i (drain_top ok) S)"
| ts_drain_send: "in_use i S \<Longrightarrow> c_pc (o_conn (si_objs S ! i)) = Sending chunk sent \<Longrightarrow>
    thread_step F K p S (at_conn i (drain_send K p chunk sent) S)"
| ts_listen_event: "loop_idle S \<Longrightarrow> si_listen_io S = Some ev \<Longrightarrow> has_event ev ev_readable \<Longrightarrow>
    thread_step F K p S (S\<lparr>si_pc := Si_accepting\<rparr>)"
| ts_accept: "si_pc S = Si_accepting \<Longrightarrow> thread_step F K p S (accept_turn F K p ok pool_ok S)"
| ts_rearm: "loop_idle S \<Longrightarrow> thread_step F K p S (accept_rearm ok S)"
| ts_timer: "loop_idle S \<Longrightarrow> t \<in> set (si_timers S) \<Longrightarrow> thread_step F K p S (stream_timer_fire t S)"
| ts_connect_timeout: "loop_idle S \<Longrightarrow> si_attempt S = Some A \<Longrightarrow>
    thread_step F K p S (run_attempt F K p pool_ok (connect_timeout K p (s_handle (ca_sock A)) (A\<lparr>ca_world := si_world S\<rparr>)) S)"
| ts_connect_ready: "loop_idle S \<Longrightarrow> si_attempt S = Some A \<Longrightarrow>
    thread_step F K p S (run_attempt F K p pool_ok (connect_ready K p (s_handle (ca_sock A)) (A\<lparr>ca_world := si_world S\<rparr>)) S)"
| ts_exit: "loop_idle S \<Longrightarrow> si_stopping S \<Longrightarrow> thread_step F K p S ((destroy_end K p (S\<lparr>si_running := False\<rparr>)))"

definition si_step :: "'a family \<Rightarrow> kernel \<Rightarrow> platform \<Rightarrow> 'a stream_impl \<Rightarrow> 'a stream_impl \<Rightarrow> bool" where
  "si_step F K p S T \<longleftrightarrow> user_step K p S T \<or> thread_step F K p S T"

text \<open>The two factories: a stream that listens or is about to connect.\<close>

definition listening :: "'a family \<Rightarrow> 'a stream_impl \<Rightarrow> bool" where
  "listening F S \<longleftrightarrow> (\<exists>addr config w. clean (trace w) \<and> live w = {#} \<and> unat (lc_max_write_buffer config) < 2 ^ 62
     \<and> (\<exists>r. is_ok r \<and> do_listen F addr config (stream_new F w) = (r, S)))"

definition connecting :: "'a family \<Rightarrow> 'a stream_impl \<Rightarrow> bool" where
  "connecting F S \<longleftrightarrow> (\<exists>addr config w. clean (trace w) \<and> live w = {#} \<and> unat (cc_max_write_buffer config) < 2 ^ 62
     \<and> S = do_connect addr config (stream_new F w))"

end
