(* ===== verification/Streams.thy ===== *)
theory Streams
  imports Stream_Impl
begin

text \<open>
  What the stream server and client guarantee: descriptors are accounted for under every interleaving,
  the limit on connections holds, every connection keeps the guarantees of the connection engine, and
  the user sees no data of a connection before \<open>on_connect\<close> has returned.
\<close>

section \<open>The address families\<close>

locale stream_family =
  fixes F :: "'a family"
  assumes accept_owns: "acquires (fm_accept F l) (owned \<circ> fst)"
    and accept_open: "\<not> is_open (l_socket l) \<Longrightarrow> outcome (fm_accept F l) w \<in> range Inl"
    and connect_owns: "acquires (fm_connect F a opts) owned"
    and local_neutral: "neutral (fm_local F s)"
    and peer_neutral: "neutral (fm_peer F s)"
    and open_owns: "fd_wp (fm_open F l a b opts) (\<lambda>x L'. L' = L + listener_owned (snd x)) (L + listener_owned l)"

interpretation tcp4: stream_family "stream4 K p"
proof unfold_locales
  show "outcome (fm_accept (stream4 K p) l) w \<in> range Inl" if "\<not> is_open (l_socket l)" for l w
    using that by (simp add: stream4_def tcp4_accept_def accept_raw_peer_def io_simps)
qed (auto simp: stream4_def tcp4_listener_open_def tcp4_connect_def tcp4_local_addr_def tcp4_peer_addr_def
    intro!: tcp4_accept_acquires connect_impl_acquires wp_listener_open neutral_intros)

interpretation tcp6: stream_family "stream6 K p"
proof unfold_locales
  show "outcome (fm_accept (stream6 K p) l) w \<in> range Inl" if "\<not> is_open (l_socket l)" for l w
    using that by (simp add: stream6_def tcp6_accept_def accept_raw_peer_def io_simps)
qed (auto simp: stream6_def tcp6_listener_open_def tcp6_connect_def tcp6_local_addr_def tcp6_peer_addr_def
    intro!: tcp6_accept_acquires connect_impl_acquires wp_listener_open neutral_intros)

section \<open>One connection\<close>

definition settled :: "int multiset \<Rightarrow> conn \<Rightarrow> bool" where
  "settled L c \<longleftrightarrow> live (c_world c) = L + owned (c_socket c) \<and> clean (trace (c_world c))"

lemma settled_close:
  assumes "settled L c"
  shows "settled L (initiate_close K p c)"
proof (cases "c_closed c")
  case True
  then show ?thesis using assms by (simp add: initiate_close_def)
next
  case False
  obtain ec s' w' where r: "run_state (socket_close K p (c_socket c)) (c_world c) = ((ec, s'), w')"
    by (metis surj_pair)
  have "owned (c_socket c) \<subseteq># live (c_world c)" "clean (trace (c_world c))" using assms by (simp_all add: settled_def)
  from socket_close_run [OF r this] assms r False show ?thesis
    by (simp add: settled_def initiate_close_def io_remove_def Let_def)
qed

lemma settled_neutral:
  assumes "settled L c" and "neutral m" and "run_state m (c_world c) = (x, w)"
  shows "settled L (c\<lparr>c_world := w\<rparr>)"
  using assms neutral_run [OF assms(2,3)] neutral_clean [OF assms(2,3)] by (simp add: settled_def)

lemma settled_cong: "c_world c' = c_world c \<Longrightarrow> c_socket c' = c_socket c \<Longrightarrow> settled L c' = settled L c"
  by (simp add: settled_def)

lemma settled_readable:
  assumes "settled L c" and "on_readable K p c = (b, c')"
  shows "settled L c'"
proof -
  obtain r w where t: "run_state (tcp_recv K p (c_socket c) (c_read_size c) 0) (c_world c) = (r, w)"
    by (metis surj_pair)
  have 1: "settled L (c\<lparr>c_world := w\<rparr>)" by (rule settled_neutral [OF assms(1) _ t]) (intro neutral_intros)
  note 2 = settled_close [OF 1, of K p]
  show ?thesis
    using assms(2) t 1 2 by (auto simp: on_readable_def Let_def settled_def split: sum.splits if_splits prod.splits)
qed

lemma settled_drain_send:
  assumes "settled L c"
  shows "settled L (drain_send K p chunk sent c)"
proof (cases "sent < length chunk")
  case True
  obtain r w where t: "run_state (tcp_send K p (c_socket c) (drop sent chunk) 0) (c_world c) = (r, w)"
    by (metis surj_pair)
  have 1: "settled L (c\<lparr>c_world := w\<rparr>)" by (rule settled_neutral [OF assms _ t]) (intro neutral_intros)
  note 2 = settled_close [OF 1, of K p]
  show ?thesis
    using True t 1 2 by (cases r) (auto simp: drain_send_def settled_def Let_def)
qed (use assms in \<open>simp add: drain_send_def settled_def\<close>)

lemma settled_step: "conn_step K p c c' \<Longrightarrow> settled L c \<Longrightarrow> settled L c'"
proof (induction rule: conn_step.induct)
  case (user_send seen c data ok c')
  then show ?case by (auto simp: settled_def enqueue_send_def Let_def split: if_splits)
next
  case (loop_task c t ts ok)
  have "settled L (c\<lparr>c_posted := ts\<rparr>)" using loop_task(3) by (simp add: settled_def)
  from settled_close [OF this] loop_task(3) show ?case
    by (cases t) (simp_all add: task_defs settled_def Let_def)
next
  case (loop_event c events)
  obtain b c1 where r: "on_readable K p c = (b, c1)" by (metis surj_pair)
  from settled_readable [OF loop_event(3) r] settled_close [OF loop_event(3)] loop_event(3) r show ?case
    by (simp add: on_io_event_def settled_def Let_def)
next
  case (loop_drain_top c ok)
  then show ?case by (cases "c_queue c") (simp_all add: drain_top_def settled_def)
qed (simp_all add: settled_drain_send, auto simp: user_defs settled_def)

text \<open>Closing happens once, comes last among the callbacks, and takes the socket away.\<close>

definition closing :: "conn \<Rightarrow> bool" where
  "closing c \<longleftrightarrow> (c_closed c \<longrightarrow> c_interest c = None \<and> \<not> is_open (c_socket c))
     \<and> (\<exists>ds. c_callbacks c = map On_data ds \<or> c_closed c \<and> c_callbacks c = map On_data ds @ [On_close])"

lemma closing_cong:
  "c_closed c' = c_closed c \<Longrightarrow> c_interest c' = c_interest c \<or> \<not> c_closed c \<Longrightarrow> c_socket c' = c_socket c \<Longrightarrow>
   c_callbacks c' = c_callbacks c \<Longrightarrow> closing c \<Longrightarrow> closing c'"
  by (auto simp: closing_def)

lemma closing_close:
  assumes "closing c"
  shows "closing (initiate_close K p c)"
proof (cases "c_closed c")
  case True
  then show ?thesis using assms by (simp add: initiate_close_def)
next
  case False
  then show ?thesis using assms initiate_close_open [OF False, of K p] by (auto simp: closing_def)
qed

lemma closing_data:
  assumes "closing c" and "\<not> c_closed c"
  shows "closing (c\<lparr>c_world := w, c_received := d', c_callbacks := c_callbacks c @ [On_data d]\<rparr>)"
proof -
  obtain ds where "c_callbacks c = map On_data ds" using assms by (auto simp: closing_def)
  then have "c_callbacks c @ [On_data d] = map On_data (ds @ [d])" by simp
  then have "\<exists>ds. c_callbacks c @ [On_data d] = map On_data ds" by (rule exI)
  then show ?thesis using assms(2) by (simp add: closing_def)
qed

lemma closing_readable:
  assumes "closing c" and "\<not> c_closed c" and "on_readable K p c = (b, c')"
  shows "closing c'"
proof -
  obtain r w where t: "run_state (tcp_recv K p (c_socket c) (c_read_size c) 0) (c_world c) = (r, w)"
    by (metis surj_pair)
  have 1: "closing (c\<lparr>c_world := w\<rparr>)" "closing (c\<lparr>c_world := w, c_received := d\<rparr>)" for d
    by (rule closing_cong [OF _ _ _ _ assms(1)]; simp)+
  show ?thesis
    using assms(3) t 1 closing_close [OF 1(1), of K p] closing_data [OF assms(1,2)]
    by (auto simp: on_readable_def Let_def split: sum.splits if_splits prod.splits)
qed

lemma closing_event:
  assumes "closing c"
  shows "closing (on_io_event K p ev c)"
proof (cases "c_closed c")
  case False
  obtain b c1 where r: "on_readable K p c = (b, c1)" by (metis surj_pair)
  have 1: "closing c1" by (rule closing_readable [OF assms False r])
  have "closing (c\<lparr>c_pc := Drain_top\<rparr>)" "closing (c1\<lparr>c_pc := Drain_top\<rparr>)"
    using assms 1 by (simp_all add: closing_def)
  then show ?thesis using assms 1 closing_close [OF assms] r by (simp add: on_io_event_def Let_def)
qed (use assms in \<open>simp add: on_io_event_def\<close>)

lemma closing_drain_send:
  assumes "closing c"
  shows "closing (drain_send K p chunk sent c)"
proof (cases "sent < length chunk")
  case True
  obtain r w where t: "run_state (tcp_send K p (c_socket c) (drop sent chunk) 0) (c_world c) = (r, w)"
    by (metis surj_pair)
  have 1: "closing (c\<lparr>c_world := w\<rparr>)" using assms by (simp add: closing_def)
  from closing_close [OF this, of K p]
  have 2: "closing ((initiate_close K p (c\<lparr>c_world := w\<rparr>))\<lparr>c_pc := Idle\<rparr>)"
    by (rule closing_cong [rotated 4]) simp_all
  show ?thesis using True t 2 assms by (cases r) (simp_all add: drain_send_def Let_def closing_def)
qed (use assms in \<open>simp add: drain_send_def closing_def\<close>)

lemma closing_task:
  assumes "closing c"
  shows "closing (run_posted K p ok t c)"
proof -
  have "closing (io_modify b e c)" if "\<not> c_closed c" for b e
    using assms that by (auto simp: closing_def)
  moreover have "closing (io_add b e c)" for b e
    using assms by (auto simp: closing_def io_add_wake)
  ultimately show ?thesis
    using assms closing_close [OF assms] by (cases t) (simp_all add: task_defs Let_def)
qed

lemma closing_step: "conn_step K p c c' \<Longrightarrow> closing c \<Longrightarrow> closing c'"
proof (induction rule: conn_step.induct)
  case (user_send seen c data ok c')
  then show ?case by (auto simp: closing_def enqueue_send_def Let_def split: if_splits)
next
  case (loop_task c t ts ok)
  then show ?case by (intro closing_task) (simp add: closing_def)
next
  case (loop_drain_top c ok)
  then have "closing (io_modify ok ev_readable (c\<lparr>c_registered := False\<rparr>))"
    by (cases "c_closed c") (auto simp: closing_def io_modify_wake)
  then show ?case using loop_drain_top by (cases "c_queue c") (simp_all add: drain_top_def closing_def)
qed (simp_all add: closing_event closing_drain_send, auto simp: user_defs closing_def)

text \<open>The engine's guarantees for one connection, independent of the world and of the queue of posts.\<close>

definition engine_inv :: "conn \<Rightarrow> bool" where
  "engine_inv c \<longleftrightarrow> stream_inv c \<and> acct_inv c \<and> closing c"

lemma engine_step: "conn_step K p c c' \<Longrightarrow> engine_inv c \<Longrightarrow> engine_inv c'"
  by (simp add: engine_inv_def stream_step acct_step closing_step)

lemma engine_cong [simp]:
  "engine_inv (c\<lparr>c_world := w\<rparr>) = engine_inv c" "engine_inv (c\<lparr>c_posted := ps\<rparr>) = engine_inv c"
  "engine_inv (c\<lparr>c_on_data := b\<rparr>) = engine_inv c" "engine_inv (c\<lparr>c_on_close := b\<rparr>) = engine_inv c"
  by (simp_all add: engine_inv_def stream_inv_def acct_inv_def closing_def)

lemma engine_new: "unat m < 2 ^ 62 \<Longrightarrow> engine_inv (conn_new w s n m d cl)"
  by (simp add: engine_inv_def stream_inv_def acct_inv_def closing_def conn_new_def)

text \<open>A move of a connection inside a stream: a step of the engine whose posts are in the loop's queue.\<close>

definition conn_move :: "kernel \<Rightarrow> platform \<Rightarrow> conn \<Rightarrow> conn \<Rightarrow> bool" where
  "conn_move K p c c' \<longleftrightarrow> (\<exists>ps. conn_step K p (c\<lparr>c_posted := ps\<rparr>) c')"

lemma move_engine: "conn_move K p c c' \<Longrightarrow> engine_inv c \<Longrightarrow> engine_inv c'"
  unfolding conn_move_def using engine_step by (metis engine_cong(2))

lemma move_settled: "conn_move K p c c' \<Longrightarrow> settled L c \<Longrightarrow> settled L c'"
  unfolding conn_move_def by (erule exE, erule settled_step) (simp add: settled_def)

lemma posted_same: "c_posted c = ps \<Longrightarrow> c\<lparr>c_posted := ps\<rparr> = c"
  by simp

lemma move_task: "c_pc c = Idle \<Longrightarrow> c_posted c = [] \<Longrightarrow> conn_move K p c (run_posted K p ok t c)"
  unfolding conn_move_def using conn_step.loop_task [of "c\<lparr>c_posted := [t]\<rparr>" t "[]" K p ok]
  by (intro exI [of _ "[t]"]) (simp add: posted_same)

lemma move_close: "c_pc c = Idle \<Longrightarrow> c_posted c = [] \<Longrightarrow> conn_move K p c (initiate_close K p c)"
  using move_task [of c K p True Initiate_close] by (simp add: run_posted_def)

lemma move_step: "conn_step K p c c' \<Longrightarrow> c_posted c = [] \<Longrightarrow> conn_move K p c c'"
  unfolding conn_move_def by (rule exI [of _ "[]"]) (simp add: posted_same)

lemma move_user:
  assumes "op_small op" and "seen \<Longrightarrow> c_closed c" and "c_posted c = []"
  shows "conn_move K p c (user_call seen op c)"
proof (rule move_step [OF _ assms(3)], cases op)
  case (Op_send data)
  obtain ok c' where "enqueue_send seen data c = (ok, c')" by (metis surj_pair)
  then show "conn_step K p c (user_call seen op c)"
    using conn_step.user_send [of seen c data ok c' K p] assms(1,2) Op_send by simp
qed (use assms(2) in \<open>auto intro: conn_step.intros\<close>)

lemma move_start: "c_posted c = [] \<Longrightarrow> conn_move K p c (start_reading c)"
  by (intro move_step conn_step.user_start)

section \<open>Descriptors of a stream\<close>

definition conns_owned :: "'a conn_object list \<Rightarrow> int multiset" where
  "conns_owned obs = sum_list (map (\<lambda>ob. owned (c_socket (o_conn ob))) obs)"

definition accounts :: "int multiset \<Rightarrow> 'a stream_impl \<Rightarrow> bool" where
  "accounts R S \<longleftrightarrow> live (si_world S) = listener_owned (si_listener S) + conns_owned (si_objs S) + R
     \<and> clean (trace (si_world S))"

lemma conns_owned_simps [simp]:
  "conns_owned [] = {#}" "conns_owned (obs @ [ob]) = conns_owned obs + owned (c_socket (o_conn ob))"
  by (simp_all add: conns_owned_def)

lemma conns_owned_split:
  assumes "i < length obs"
  obtains M where "conns_owned obs = owned (c_socket (o_conn (obs ! i))) + M"
    "\<And>ob. conns_owned (obs[i := ob]) = owned (c_socket (o_conn ob)) + M"
proof
  show "conns_owned obs = owned (c_socket (o_conn (obs ! i))) + conns_owned (take i obs @ drop (Suc i) obs)"
    by (subst id_take_nth_drop [OF assms]) (simp add: conns_owned_def)
  show "conns_owned (obs[i := ob]) = owned (c_socket (o_conn ob)) + conns_owned (take i obs @ drop (Suc i) obs)" for ob
    using assms by (simp add: upd_conv_take_nth_drop conns_owned_def)
qed

lemma set_obj_fields [simp]:
  "si_mode (set_obj i f S) = si_mode S" "si_world (set_obj i f S) = si_world S"
  "si_listener (set_obj i f S) = si_listener S" "si_max_conn (set_obj i f S) = si_max_conn S"
  "si_max_write_buf (set_obj i f S) = si_max_write_buf S" "si_connections (set_obj i f S) = si_connections S"
  "si_count (set_obj i f S) = si_count S" "si_client_conn (set_obj i f S) = si_client_conn S"
  "si_attempt (set_obj i f S) = si_attempt S" "si_posted (set_obj i f S) = si_posted S"
  "si_pool (set_obj i f S) = si_pool S" "si_running (set_obj i f S) = si_running S"
  "si_pc (set_obj i f S) = si_pc S" "si_armed (set_obj i f S) = si_armed S"
  "si_objs (set_obj i f S) = (si_objs S)[i := f (si_objs S ! i)]" "si_on_connect (set_obj i f S) = si_on_connect S"
  by (simp_all add: set_obj_def)

lemma at_conn_fields [simp]:
  "si_mode (at_conn i f S) = si_mode S" "si_world (at_conn i f S) = c_world (f (checkout i S))"
  "si_listener (at_conn i f S) = si_listener S" "si_max_conn (at_conn i f S) = si_max_conn S"
  "si_max_write_buf (at_conn i f S) = si_max_write_buf S" "si_connections (at_conn i f S) = si_connections S"
  "si_count (at_conn i f S) = si_count S" "si_client_conn (at_conn i f S) = si_client_conn S"
  "si_attempt (at_conn i f S) = si_attempt S"
  "si_posted (at_conn i f S) = si_posted S @ map (Conn_task i) (c_posted (f (checkout i S)))"
  "si_pool (at_conn i f S) = si_pool S" "si_running (at_conn i f S) = si_running S"
  "si_pc (at_conn i f S) = si_pc S" "si_armed (at_conn i f S) = si_armed S"
  "si_objs (at_conn i f S) = (si_objs S)[i := (si_objs S ! i)\<lparr>o_conn := f (checkout i S)\<rparr>]"
  "si_on_connect (at_conn i f S) = si_on_connect S"
  by (simp_all add: at_conn_def Let_def)

lemma checkout_fields [simp]:
  "c_posted (checkout i S) = []" "c_world (checkout i S) = si_world S"
  "c_socket (checkout i S) = c_socket (o_conn (si_objs S ! i))" "c_pc (checkout i S) = c_pc (o_conn (si_objs S ! i))"
  "c_closed (checkout i S) = c_closed (o_conn (si_objs S ! i))"
  "c_interest (checkout i S) = c_interest (o_conn (si_objs S ! i))"
  "c_callbacks (checkout i S) = c_callbacks (o_conn (si_objs S ! i))"
  "engine_inv (checkout i S) = engine_inv (o_conn (si_objs S ! i))"
  by (simp_all add: checkout_def)

lemma accounts_set_obj:
  assumes "i < length (si_objs S)" and "c_socket (o_conn (f (si_objs S ! i))) = c_socket (o_conn (si_objs S ! i))"
  shows "accounts R (set_obj i f S) = accounts R S"
proof -
  obtain M where "conns_owned (si_objs S) = owned (c_socket (o_conn (si_objs S ! i))) + M"
    "\<And>ob. conns_owned ((si_objs S)[i := ob]) = owned (c_socket (o_conn ob)) + M"
    using conns_owned_split [OF assms(1)] by metis
  then show ?thesis using assms(2) by (simp add: accounts_def)
qed

lemma accounts_at_conn:
  assumes "accounts R S" and "i < length (si_objs S)" and "conn_move K p (checkout i S) (f (checkout i S))"
  shows "accounts R (at_conn i f S)"
proof -
  obtain M where M: "conns_owned (si_objs S) = owned (c_socket (o_conn (si_objs S ! i))) + M"
    "\<And>ob. conns_owned ((si_objs S)[i := ob]) = owned (c_socket (o_conn ob)) + M"
    using conns_owned_split [OF assms(2)] by metis
  have "settled (listener_owned (si_listener S) + M + R) (checkout i S)"
    using assms(1) M(1) by (simp add: settled_def accounts_def ac_simps)
  from move_settled [OF assms(3) this] show ?thesis
    using M(2) by (simp add: settled_def accounts_def ac_simps)
qed

lemma pool_submit_fields [simp]:
  "si_mode (pool_submit ok t S) = si_mode S" "si_world (pool_submit ok t S) = si_world S"
  "si_listener (pool_submit ok t S) = si_listener S" "si_max_conn (pool_submit ok t S) = si_max_conn S"
  "si_max_write_buf (pool_submit ok t S) = si_max_write_buf S" "si_connections (pool_submit ok t S) = si_connections S"
  "si_count (pool_submit ok t S) = si_count S" "si_client_conn (pool_submit ok t S) = si_client_conn S"
  "si_attempt (pool_submit ok t S) = si_attempt S" "si_posted (pool_submit ok t S) = si_posted S"
  "si_pool (pool_submit ok t S) = si_pool S @ (if ok then [t] else [])" "si_running (pool_submit ok t S) = si_running S"
  "si_pc (pool_submit ok t S) = si_pc S" "si_armed (pool_submit ok t S) = si_armed S"
  "si_objs (pool_submit ok t S) = si_objs S" "si_on_connect (pool_submit ok t S) = si_on_connect S"
  by (simp_all add: pool_submit_def)

lemma report_error_fields [simp]:
  "si_mode (report_error ok ec S) = si_mode S" "si_world (report_error ok ec S) = si_world S"
  "si_listener (report_error ok ec S) = si_listener S" "si_max_conn (report_error ok ec S) = si_max_conn S"
  "si_max_write_buf (report_error ok ec S) = si_max_write_buf S" "si_connections (report_error ok ec S) = si_connections S"
  "si_count (report_error ok ec S) = si_count S" "si_client_conn (report_error ok ec S) = si_client_conn S"
  "si_attempt (report_error ok ec S) = si_attempt S" "si_posted (report_error ok ec S) = si_posted S"
  "si_pool (report_error ok ec S) = si_pool S @ (if ok \<and> si_on_error S then [Error_task ec] else [])"
  "si_running (report_error ok ec S) = si_running S" "si_pc (report_error ok ec S) = si_pc S"
  "si_armed (report_error ok ec S) = si_armed S" "si_objs (report_error ok ec S) = si_objs S"
  by (simp_all add: report_error_def)

text \<open>Every index that the tables, queues and pool hold is an object.\<close>

definition indices :: "'a stream_impl \<Rightarrow> nat set" where
  "indices S = {i. \<exists>t. Conn_task i t \<in> set (si_posted S)} \<union> snd ` set (si_connections S)
     \<union> set_option (si_client_conn S) \<union> {i. \<exists>fd. Connect_task i fd \<in> set (si_pool S)}"

definition sound :: "int multiset \<Rightarrow> 'a stream_impl \<Rightarrow> bool" where
  "sound R S \<longleftrightarrow> indices S \<subseteq> {..<length (si_objs S)} \<and> accounts R S
     \<and> (\<forall>ob \<in> set (si_objs S). engine_inv (o_conn ob)) \<and> unat (si_max_write_buf S) < 2 ^ 62"

text \<open>Changes that touch neither the objects nor the world.\<close>

lemma sound_cong:
  assumes "si_objs T = si_objs S" "si_world T = si_world S" "si_listener T = si_listener S"
    "si_max_write_buf T = si_max_write_buf S" "indices T \<subseteq> indices S"
  shows "sound R S \<Longrightarrow> sound R T"
  using assms by (auto simp: sound_def accounts_def)

lemma sound_set_obj:
  assumes "sound R S" and "i < length (si_objs S)"
    and "c_socket (o_conn (f (si_objs S ! i))) = c_socket (o_conn (si_objs S ! i))"
    and "engine_inv (o_conn (si_objs S ! i)) \<Longrightarrow> engine_inv (o_conn (f (si_objs S ! i)))"
  shows "sound R (set_obj i f S)"
proof -
  have "engine_inv (o_conn (si_objs S ! i))" using assms(1,2) by (auto simp: sound_def)
  then have "\<forall>ob \<in> set ((si_objs S)[i := f (si_objs S ! i)]). engine_inv (o_conn ob)"
    using assms(1,4) by (intro ball_update) (simp_all add: sound_def)
  then show ?thesis using assms accounts_set_obj [of i S f R, OF assms(2,3)] by (auto simp: sound_def indices_def)
qed

lemma sound_at_conn:
  assumes "sound R S" and "i < length (si_objs S)" and "conn_move K p (checkout i S) (f (checkout i S))"
  shows "sound R (at_conn i f S)"
proof -
  have "engine_inv (o_conn (si_objs S ! i))" using assms(1,2) by (auto simp: sound_def)
  then have "engine_inv (f (checkout i S))" using move_engine [OF assms(3)] by simp
  then have "\<forall>ob \<in> set ((si_objs S)[i := (si_objs S ! i)\<lparr>o_conn := f (checkout i S)\<rparr>]). engine_inv (o_conn ob)"
    using assms(1) by (intro ball_update) (simp_all add: sound_def)
  moreover have "accounts R (at_conn i f S)"
    by (rule accounts_at_conn [of R S i K p f, OF _ assms(2,3)]) (use assms(1) in \<open>simp add: sound_def\<close>)
  ultimately show ?thesis using assms(1,2) by (auto simp: sound_def indices_def)
qed

lemma sound_set_hook:
  assumes "sound R S" and "i < length (si_objs S)"
  shows "sound R (set_hook i h S)"
  unfolding set_hook_def by (rule sound_set_obj [OF assms]) simp_all

lemma sound_neutral:
  assumes "sound R S" and "neutral m"
  shows "sound R (S\<lparr>si_world := final_world m (si_world S)\<rparr>)"
proof -
  obtain x w where r: "run_state m (si_world S) = (x, w)" by (metis surj_pair)
  from assms(1) neutral_run [OF assms(2) r] neutral_clean [OF assms(2) r] r show ?thesis
    by (simp add: sound_def accounts_def indices_def)
qed

text \<open>A new object takes over a socket that was in flight.\<close>

lemma sound_new_object:
  assumes "sound (R + owned sock) S"
  shows "sound R (S\<lparr>si_objs := si_objs S @ [new_object sock peer loc b S]\<rparr>)"
  using assms engine_new [of "si_max_write_buf S"]
  by (auto simp: sound_def accounts_def indices_def new_object_def conn_new_def ac_simps)

section \<open>Every operation keeps the descriptors accounted for\<close>

definition attempt_owned :: "'a stream_impl \<Rightarrow> int multiset" where
  "attempt_owned S = (case si_attempt S of None \<Rightarrow> {#} | Some A \<Rightarrow> owned (ca_sock A))"

lemma sound_append:
  assumes "sound R (S\<lparr>si_objs := si_objs S @ [ob]\<rparr>)" and "indices T \<subseteq> insert (length (si_objs S)) (indices S)"
    and "si_objs T = si_objs S @ [ob]" "si_world T = si_world S" "si_listener T = si_listener S"
    "si_max_write_buf T = si_max_write_buf S"
  shows "sound R T"
proof -
  have "indices (S\<lparr>si_objs := si_objs S @ [ob]\<rparr>) = indices S" by (simp add: indices_def)
  then have "indices S \<subseteq> {..<Suc (length (si_objs S))}" using assms(1) by (simp add: sound_def)
  then have "indices T \<subseteq> {..<Suc (length (si_objs S))}" using assms(2) by auto
  then show ?thesis using assms by (simp add: sound_def accounts_def)
qed

lemma indices_update: "snd ` set (AList.update k v al) \<subseteq> insert v (snd ` set al)"
  by (induction al) auto

lemma indices_delete: "snd ` set (AList.delete k al) \<subseteq> snd ` set al"
  by (induction al) auto

lemma sound_listener:
  assumes "sound R S"
  shows "sound R (stop_listener K p S)"
proof -
  obtain ec s' w where r: "run_state (socket_close K p (l_socket (si_listener S))) (si_world S) = ((ec, s'), w)"
    by (metis surj_pair)
  have "listener_owned (si_listener S) \<subseteq># live (si_world S)" "clean (trace (si_world S))"
    using assms by (simp_all add: sound_def accounts_def)
  from socket_close_run [OF r this] assms r show ?thesis
    by (auto simp: stop_listener_def listener_stop_def io_simps sound_def accounts_def indices_def)
qed

lemma sound_rejected:
  assumes "sound (R + owned sock) S"
  shows "sound R (S\<lparr>si_world := final_world (socket_close K p sock) (si_world S)\<rparr>)"
proof -
  obtain ec s' w where r: "run_state (socket_close K p sock) (si_world S) = ((ec, s'), w)" by (metis surj_pair)
  have "owned sock \<subseteq># live (si_world S)" "clean (trace (si_world S))"
    using assms by (simp_all add: sound_def accounts_def)
  from socket_close_run [OF r this] assms r show ?thesis
    by (auto simp: sound_def accounts_def indices_def)
qed

lemma engine_drop:
  assumes "engine_inv c"
  shows "engine_inv (c\<lparr>c_socket := socket_default\<rparr>)"
proof -
  have "stream_inv (c\<lparr>c_socket := socket_default\<rparr>) = stream_inv c" by (simp add: stream_inv_def)
  moreover have "acct_inv (c\<lparr>c_socket := socket_default\<rparr>) = acct_inv c" by (simp add: acct_inv_def)
  moreover have "\<not> is_open socket_default" by (simp add: is_open_def socket_default_def socket_of_def)
  then have "closing (c\<lparr>c_socket := socket_default\<rparr>)" using assms by (simp add: engine_inv_def closing_def)
  ultimately show ?thesis using assms by (simp add: engine_inv_def)
qed

lemma sound_free:
  assumes "sound R S" and "i < length (si_objs S)"
  shows "sound R (free_object K p i S)"
proof -
  let ?s = "c_socket (o_conn (si_objs S ! i))"
  obtain M where M: "conns_owned (si_objs S) = owned ?s + M"
    "\<And>ob. conns_owned ((si_objs S)[i := ob]) = owned (c_socket (o_conn ob)) + M"
    using conns_owned_split [OF assms(2)] by metis
  define w where "w = final_world (socket_drop K p ?s) (si_world S)"
  have r: "run_state (socket_drop K p ?s) (si_world S) = ((), w)" by (simp add: w_def prod_eq_iff)
  have "owned ?s \<subseteq># live (si_world S)" "clean (trace (si_world S))"
    using assms(1) M(1) by (simp_all add: sound_def accounts_def)
  from socket_drop_run [OF r this] assms(1) M r
  have "accounts R (free_object K p i S)"
    by (simp add: free_object_def sound_def accounts_def Let_def)
  moreover have "engine_inv (o_conn (si_objs S ! i))" using assms by (simp add: sound_def)
  from engine_drop [OF this] assms(1) have "\<forall>ob \<in> set (si_objs (free_object K p i S)). engine_inv (o_conn ob)"
    unfolding free_object_def Let_def set_obj_fields stream_impl.simps
    by (intro ball_update) (simp_all add: sound_def)
  ultimately show ?thesis using assms(1) by (simp add: sound_def free_object_def indices_def Let_def)
qed

context stream_family
begin

lemma sound_accepted:
  assumes "sound (R + owned sock) S"
  shows "sound R (on_accepted F K p ok sock peer S)"
proof (cases "si_max_conn S > 0 \<and> length (si_connections S) \<ge> si_max_conn S")
  case True
  then show ?thesis using sound_rejected [OF assms] by (simp add: on_accepted_def)
next
  case False
  let ?i = "length (si_objs S)"
  define w1 where "w1 = final_world (set_non_blocking K p sock True) (si_world S)"
  obtain lr w2 where l: "run_state (fm_local F sock) w1 = (lr, w2)" by (metis surj_pair)
  define S1 where "S1 = S\<lparr>si_world := w2, si_connections := AList.update (s_handle sock) ?i (si_connections S), si_count := si_count S + 1\<rparr>"
  let ?a = "address_or (fm_default F) lr"
  have 1: "sound (R + owned sock) (S\<lparr>si_world := w1\<rparr>)"
    unfolding w1_def by (rule sound_neutral [OF assms]) (intro neutral_intros)
  have 2: "sound (R + owned sock) (S\<lparr>si_world := w2\<rparr>)"
    using sound_neutral [OF 1 local_neutral, of sock] l by simp
  have 3: "sound R (S1\<lparr>si_objs := si_objs S1 @ [new_object sock peer ?a b S1]\<rparr>)" for b
    by (rule sound_append [OF sound_new_object [OF 2, of peer ?a b]])
      (use indices_update [of "s_handle sock" ?i "si_connections S"] in \<open>auto simp: S1_def indices_def new_object_def\<close>)
  let ?S = "\<lambda>b. S1\<lparr>si_objs := si_objs S1 @ [new_object sock peer ?a b S1]\<rparr>"
  have "sound R (pool_submit ok (Connect_task ?i (s_handle sock)) (?S True))"
    by (rule sound_append [OF 3 [of True]]) (auto simp: indices_def S1_def)
  moreover have "sound R (at_conn ?i start_reading (set_hook ?i (Erase_hook (s_handle sock) False) (?S False)))"
    using 3 [of False] by (intro sound_at_conn sound_set_hook move_start) (simp_all add: set_hook_def S1_def)
  ultimately show ?thesis
    unfolding on_accepted_def if_not_P [OF False] Let_def
    by (simp add: w1_def [symmetric] l S1_def [symmetric])
qed

lemma sound_accept_turn:
  assumes "sound R S"
  shows "sound R (accept_turn F K p ok pool_ok S)"
proof -
  obtain r w where a: "run_state (fm_accept F (si_listener S)) (si_world S) = (r, w)" by (metis surj_pair)
  have w: "live w = live (si_world S) + (case r of Inl _ \<Rightarrow> {#} | Inr v \<Rightarrow> (owned \<circ> fst) v)" "clean (trace w)"
    using acquires_run [OF accept_owns a] assms by (simp_all add: sound_def accounts_def)
  show ?thesis
  proof (cases r)
    case (Inl ec)
    then have "sound R (S\<lparr>si_world := w\<rparr>)" using w assms by (simp add: sound_def accounts_def indices_def)
    then show ?thesis
      unfolding accept_turn_def by (rule sound_cong [rotated 5]) (use a Inl in \<open>auto simp: Let_def indices_def\<close>)
  next
    case (Inr x)
    then have "sound (R + owned (fst x)) (S\<lparr>si_world := w, si_backoff := 100\<rparr>)"
      using w assms by (simp add: sound_def accounts_def indices_def ac_simps)
    from sound_accepted [OF this] show ?thesis
      using a Inr by (cases x) (simp add: accept_turn_def)
  qed
qed

lemma sound_connected:
  assumes "sound (R + (case r of Inl _ \<Rightarrow> {#} | Inr s \<Rightarrow> owned s)) S"
  shows "sound R (on_connected F K p ok r S)"
proof (cases r)
  case (Inl ec)
  then have "sound R S" using assms by simp
  then show ?thesis unfolding on_connected_def Inl sum.case
    by (rule sound_cong [rotated 5]) (auto simp: indices_def)
next
  case (Inr sock)
  let ?i = "length (si_objs S)" and ?d = "fm_default F"
  define w1 where "w1 = final_world (set_non_blocking K p sock True) (si_world S)"
  obtain pr w2 where q: "run_state (fm_peer F sock) w1 = (pr, w2)" by (metis surj_pair)
  obtain lr w3 where l: "run_state (fm_local F sock) w2 = (lr, w3)" by (metis surj_pair)
  have 1: "sound (R + owned sock) (S\<lparr>si_world := w1\<rparr>)"
    unfolding w1_def by (rule sound_neutral) (use assms Inr in \<open>simp, intro neutral_intros\<close>)
  have 2: "sound (R + owned sock) (S\<lparr>si_world := w2\<rparr>)" using sound_neutral [OF 1 peer_neutral, of sock] q by simp
  have 3: "sound (R + owned sock) (S\<lparr>si_world := w3\<rparr>)" using sound_neutral [OF 2 local_neutral, of sock] l by simp
  define S2 where "S2 = (S\<lparr>si_world := w3\<rparr>)\<lparr>si_objs := si_objs S @
      [new_object sock (address_or ?d pr) (address_or ?d lr) (si_on_connect S) (S\<lparr>si_world := w3\<rparr>)],
      si_client_conn := Some ?i, si_connected := True\<rparr>"
  note obj = sound_new_object [OF 3, of "address_or ?d pr" "address_or ?d lr" "si_on_connect S"]
  have 4: "sound R S2"
    by (rule sound_append [OF obj]) (auto simp: S2_def indices_def)
  have "sound R (pool_submit ok (Connect_task ?i (s_handle sock)) S2)"
    by (rule sound_append [OF obj]) (auto simp: S2_def indices_def)
  moreover have "sound R (at_conn ?i start_reading S2)"
    using 4 by (intro sound_at_conn move_start) (simp_all add: S2_def)
  ultimately show ?thesis
    unfolding on_connected_def Inr sum.case Let_def
    by (cases "si_on_connect S") (simp_all add: w1_def [symmetric] q l S2_def)
qed

lemma attempt_connected [simp]:
  "si_attempt (on_connected F K p ok r S) = si_attempt S" "si_armed (on_connected F K p ok r S) = si_armed S"
  "filter ((=) Connect_start) (si_posted (on_connected F K p ok r S)) = filter ((=) Connect_start) (si_posted S)"
  "si_mode (on_connected F K p ok r S) = si_mode S"
  by (auto simp: on_connected_def Let_def start_reading_def filter_empty_conv split: sum.splits prod.splits)

lemma run_attempt_fields [simp]:
  "si_attempt (run_attempt F K p ok A S) = Some (A\<lparr>ca_requests := []\<rparr>)" "si_armed (run_attempt F K p ok A S) = si_armed S"
  "filter ((=) Connect_start) (si_posted (run_attempt F K p ok A S)) = filter ((=) Connect_start) (si_posted S)"
  "si_mode (run_attempt F K p ok A S) = si_mode S"
proof -
  have "si_attempt (foldl (\<lambda>T r. on_connected F K p ok r T) S rs) = si_attempt S
    \<and> si_armed (foldl (\<lambda>T r. on_connected F K p ok r T) S rs) = si_armed S
    \<and> filter ((=) Connect_start) (si_posted (foldl (\<lambda>T r. on_connected F K p ok r T) S rs)) = filter ((=) Connect_start) (si_posted S)
    \<and> si_mode (foldl (\<lambda>T r. on_connected F K p ok r T) S rs) = si_mode S"
    for rs and S :: "'a stream_impl" by (induction rs arbitrary: S) simp_all
  note this [of "S\<lparr>si_world := ca_world A, si_attempt := Some (A\<lparr>ca_requests := []\<rparr>)\<rparr>" "handled (ca_requests A)"]
  then show "si_attempt (run_attempt F K p ok A S) = Some (A\<lparr>ca_requests := []\<rparr>)" "si_armed (run_attempt F K p ok A S) = si_armed S"
    "filter ((=) Connect_start) (si_posted (run_attempt F K p ok A S)) = filter ((=) Connect_start) (si_posted S)"
    "si_mode (run_attempt F K p ok A S) = si_mode S"
    by (simp_all add: run_attempt_def)
qed

lemma sound_run_attempt:
  assumes "sound (owned (ca_sock A) + handed owned (ca_requests A)) (S\<lparr>si_world := ca_world A\<rparr>)"
    and "length (handled (ca_requests A)) \<le> 1"
  shows "sound (owned (ca_sock A)) (run_attempt F K p ok A S)"
proof -
  let ?S = "S\<lparr>si_world := ca_world A, si_attempt := Some (A\<lparr>ca_requests := []\<rparr>)\<rparr>"
  have s: "sound (owned (ca_sock A) + handed owned (ca_requests A)) ?S"
    using assms(1) by (rule sound_cong [rotated 5]) (auto simp: indices_def)
  show ?thesis
  proof (cases "handled (ca_requests A)")
    case Nil
    then show ?thesis using s by (simp add: run_attempt_def handed_def)
  next
    case (Cons r rs)
    then have "rs = []" using assms(2) by simp
    then show ?thesis using s Cons sound_connected [of "owned (ca_sock A)" r ?S]
      by (simp add: run_attempt_def handed_def)
  qed
qed

text \<open>The asynchronous connect, started or continued, leaves at most one result.\<close>

lemma sound_attempt_inv:
  assumes "attempt_inv (listener_owned (si_listener S) + conns_owned (si_objs S)) A" and "sound R S"
  shows "sound (owned (ca_sock A)) (run_attempt F K p ok A S)"
proof (rule sound_run_attempt)
  show "sound (owned (ca_sock A) + handed owned (ca_requests A)) (S\<lparr>si_world := ca_world A\<rparr>)"
    using assms by (simp add: attempt_inv_def sound_def accounts_def indices_def ac_simps)
qed (use assms in \<open>simp add: attempt_inv_def\<close>)

lemma sound_continue:
  assumes "sound (owned (ca_sock A)) S" and "ca_requests A = []"
    and "\<And>L B. attempt_inv L B \<Longrightarrow> attempt_inv L (f B)" and "\<And>B. ca_completed B \<Longrightarrow> f B = B"
  shows "sound (owned (ca_sock (f (A\<lparr>ca_world := si_world S\<rparr>)))) (run_attempt F K p ok (f (A\<lparr>ca_world := si_world S\<rparr>)) S)"
proof (cases "ca_completed A")
  case True
  then have "f (A\<lparr>ca_world := si_world S\<rparr>) = A\<lparr>ca_world := si_world S\<rparr>" by (intro assms(4)) simp
  moreover have "sound (owned (ca_sock A)) (run_attempt F K p ok (A\<lparr>ca_world := si_world S\<rparr>) S)"
    using sound_run_attempt [of "A\<lparr>ca_world := si_world S\<rparr>" S K p ok] assms(1,2) by simp
  ultimately show ?thesis by simp
next
  case False
  have "attempt_inv (listener_owned (si_listener S) + conns_owned (si_objs S)) (A\<lparr>ca_world := si_world S\<rparr>)"
    using assms(1,2) False by (simp add: attempt_inv_def sound_def accounts_def)
  from sound_attempt_inv [OF assms(3) [OF this] assms(1)] show ?thesis .
qed

lemma sound_connect_start:
  assumes "sound {#} S"
  shows "\<exists>A. si_attempt (connect_start F K p ok tid S) = Some A \<and> ca_requests A = []
    \<and> sound (owned (ca_sock A)) (connect_start F K p ok tid S)"
proof -
  let ?c = "fm_connect F (si_connect_addr S) (si_sock_opts S)"
  let ?A = "connect_async ?c (si_connect_timeout S) tid (si_world S)"
  let ?L = "listener_owned (si_listener S) + conns_owned (si_objs S)"
  have "attempt_init ?c ?L ?A"
    using assms by (auto simp: attempt_init_def sound_def accounts_def)
  from attempt_start_inv [OF connect_owns this] have "attempt_inv ?L ?A" .
  from sound_attempt_inv [OF this assms] show ?thesis by (simp add: connect_start_def)
qed

end

section \<open>The invariant\<close>

definition single :: "'a stream_impl \<Rightarrow> bool" where
  "single S \<longleftrightarrow> length (filter ((=) Connect_start) (si_posted S)) + (case si_attempt S of None \<Rightarrow> 0 | Some _ \<Rightarrow> 1)
     \<le> (if si_armed S then 1 else 0)"

definition si_inv :: "'a stream_impl \<Rightarrow> bool" where
  "si_inv S \<longleftrightarrow> sound (attempt_owned S) S \<and> single S \<and> (\<forall>A. si_attempt S = Some A \<longrightarrow> ca_requests A = [])"

lemma si_inv_cong:
  assumes "sound (attempt_owned S) S \<Longrightarrow> sound (attempt_owned S) T"
    and "si_attempt T = si_attempt S" "filter ((=) Connect_start) (si_posted T) = filter ((=) Connect_start) (si_posted S)"
    and "si_armed T = si_armed S"
  shows "si_inv S \<Longrightarrow> si_inv T"
  using assms by (simp add: si_inv_def attempt_owned_def single_def)

lemma filter_conn_tasks [simp]: "filter ((=) Connect_start) (map (Conn_task i) ts) = []"
  by (simp add: filter_empty_conv)

lemma si_inv_at_conn:
  assumes "si_inv S" and "i < length (si_objs S)" and "conn_move K p (checkout i S) (f (checkout i S))"
  shows "si_inv (at_conn i f S)"
  proof (rule si_inv_cong [OF _ _ _ _ assms(1)])
  show "sound (attempt_owned S) (at_conn i f S)" if "sound (attempt_owned S) S"
    using that assms(2,3) by (rule sound_at_conn [where f = f])
qed simp_all

lemma si_inv_set_obj:
  assumes "si_inv S" and "i < length (si_objs S)"
    and "c_socket (o_conn (f (si_objs S ! i))) = c_socket (o_conn (si_objs S ! i))"
    and "engine_inv (o_conn (si_objs S ! i)) \<Longrightarrow> engine_inv (o_conn (f (si_objs S ! i)))"
  shows "si_inv (set_obj i f S)"
  proof (rule si_inv_cong [OF _ _ _ _ assms(1)])
  show "sound (attempt_owned S) (set_obj i f S)" if "sound (attempt_owned S) S"
    using that assms(2-4) by (rule sound_set_obj [where f = f])
qed simp_all

lemma si_inv_set_hook:
  assumes "si_inv S" and "i < length (si_objs S)"
  shows "si_inv (set_hook i h S)"
  unfolding set_hook_def by (rule si_inv_set_obj [OF assms]) simp_all

text \<open>Changes of flags and queues.\<close>

lemma si_inv_quiet:
  assumes "si_objs T = si_objs S" "si_world T = si_world S" "si_listener T = si_listener S"
    "si_max_write_buf T = si_max_write_buf S" "indices T \<subseteq> indices S"
    and "si_attempt T = si_attempt S" "filter ((=) Connect_start) (si_posted T) = filter ((=) Connect_start) (si_posted S)"
    and "si_armed T = si_armed S"
  shows "si_inv S \<Longrightarrow> si_inv T"
  by (rule si_inv_cong [OF sound_cong [OF assms(1-5)] assms(6-8)])

lemma si_inv_listener: "si_inv S \<Longrightarrow> si_inv (stop_listener K p S)"
  by (rule si_inv_cong [OF sound_listener]) (auto simp: stop_listener_def split: prod.splits)

lemma si_inv_indices: "si_inv S \<Longrightarrow> i \<in> indices S \<Longrightarrow> i < length (si_objs S)"
  by (auto simp: si_inv_def sound_def)

lemma si_inv_destroy_begin: "si_inv S \<Longrightarrow> si_inv (destroy_begin K p S)"
proof -
  assume "si_inv S"
  then have "si_inv (if si_mode S = Listen_mode then stop_listener K p S else S)" using si_inv_listener by auto
  then show ?thesis unfolding destroy_begin_def Let_def
    by (rule si_inv_quiet [rotated 8]) (auto simp: indices_def)
qed

lemma si_inv_run_hook:
  assumes "si_inv S" and "i < length (si_objs S)"
  shows "si_inv (run_hook i S)"
proof -
  have "si_inv (S\<lparr>si_posted := si_posted S @ [Erase fd]\<rparr>)" for fd
    using assms(1) by (rule si_inv_quiet [rotated 8]) (auto simp: indices_def)
  then have "si_inv (set_obj i (\<lambda>ob. ob\<lparr>o_erased := True\<rparr>) (S\<lparr>si_posted := si_posted S @ [Erase fd]\<rparr>))" for fd
    by (rule si_inv_set_obj) (use assms(2) in simp_all)
  moreover have "si_inv (S\<lparr>si_connected := False\<rparr>)"
    using assms(1) by (rule si_inv_quiet [rotated 8]) (auto simp: indices_def)
  ultimately show ?thesis using assms(1) by (simp add: run_hook_def split: close_hook.split)
qed

lemma si_inv_callback:
  assumes "si_inv S" and "i < length (si_objs S)"
  shows "si_inv (run_callback i S)"
proof -
  let ?S = "set_obj i (\<lambda>ob. ob\<lparr>o_ran := o_ran ob + 1\<rparr>) S"
  have 1: "si_inv ?S" by (rule si_inv_set_obj [OF assms]) simp_all
  have "si_inv (run_hook i ?S)" by (rule si_inv_run_hook [OF 1]) (use assms(2) in simp)
  then show ?thesis using 1 unfolding run_callback_def Let_def by (simp split: callback.split)
qed

lemma si_inv_drop_wrapper:
  assumes "si_inv S" and "i < length (si_objs S)"
  shows "si_inv (drop_wrapper i S)"
proof -
  let ?S = "set_obj i (\<lambda>ob. ob\<lparr>o_wrapper := False\<rparr>) S"
  have 1: "si_inv ?S" by (rule si_inv_set_obj [OF assms]) simp_all
  have "conn_move K p (checkout i ?S) (close_from_user False (checkout i ?S))" for K p
    by (intro move_step conn_step.user_close) simp_all
  from si_inv_at_conn [of ?S i _ _ "close_from_user False", OF 1 _ this] have "si_inv (at_conn i (close_from_user False) ?S)"
    using assms(2) by simp
  then show ?thesis using 1 by (simp add: drop_wrapper_def Let_def)
qed

lemma si_inv_connect_end:
  assumes "si_inv S" and "i < length (si_objs S)"
  shows "si_inv (connect_end i fd S)"
proof -
  let ?S = "set_obj i (\<lambda>ob. ob\<lparr>o_phase := Running\<rparr>) (set_hook i (wrap_hook (si_mode S) fd (o_hook (si_objs S ! i))) S)"
  have "si_inv ?S" using assms by (intro si_inv_set_obj si_inv_set_hook) (simp_all add: set_hook_def)
  then show ?thesis unfolding connect_end_def
    by (rule si_inv_at_conn [where f = start_reading]) (use assms(2) in \<open>simp_all add: set_hook_def move_start\<close>)
qed

lemma user_step_inv: "user_step K p S T \<Longrightarrow> si_inv S \<Longrightarrow> si_inv T"
proof (induction rule: user_step.induct)
  case (us_on_connect S h)
  then have "sound (attempt_owned S) (on_connect h S)"
    unfolding si_inv_def by (elim conjE) (rule sound_cong, auto simp: on_connect_def arm_def indices_def)
  then show ?case using us_on_connect by (cases "si_armed S") (auto simp: si_inv_def single_def on_connect_def arm_def attempt_owned_def split: option.splits)
next
  case (us_call i S op seen)
  then show ?case by (intro si_inv_at_conn [of _ _ K p]) (auto simp: in_use_def intro: move_user)
next
  case (us_connect_begin S xs i fd ys)
  then have "si_inv (S\<lparr>si_pool := xs @ ys\<rparr>)"
    by (elim si_inv_quiet [rotated 8]) (auto simp: indices_def)
  moreover have "i < length (si_objs S)"
    using us_connect_begin by (intro si_inv_indices) (auto simp: indices_def)
  ultimately show ?case unfolding connect_begin_def by (intro si_inv_set_obj) simp_all
next
  case (us_on_data i S fd h)
  then show ?case unfolding connection_on_data_def in_use_def by (intro si_inv_set_obj) simp_all
next
  case (us_on_close i S fd h)
  then show ?case unfolding connection_on_close_def in_use_def by (intro si_inv_set_hook) simp_all
next
  case (us_free i S)
  then show ?case unfolding in_use_def
    by (elim si_inv_cong [rotated 4] conjE) (erule sound_free, simp_all add: free_object_def Let_def)
qed (auto simp: in_use_def si_inv_destroy_begin si_inv_callback si_inv_drop_wrapper si_inv_connect_end
    on_error_def do_pause_def do_resume_def do_post_def do_defer_def do_repeat_def
    elim!: si_inv_quiet [rotated 8], auto simp: indices_def)

text \<open>Closing every connection of the table.\<close>

definition close_entries :: "kernel \<Rightarrow> platform \<Rightarrow> (int \<times> nat) list \<Rightarrow> 'a stream_impl \<Rightarrow> 'a stream_impl" where
  "close_entries K p es S = foldl (\<lambda>T e. at_conn (snd e) (initiate_close K p) T) S es"

definition resting :: "'a stream_impl \<Rightarrow> bool" where
  "resting S \<longleftrightarrow> (\<forall>ob \<in> set (si_objs S). c_pc (o_conn ob) = Idle)"

lemma resting_close: "resting S \<Longrightarrow> i < length (si_objs S) \<Longrightarrow> resting (at_conn i (initiate_close K p) S)"
  unfolding resting_def at_conn_fields by (intro ball_update) simp_all

lemma si_inv_close:
  assumes "si_inv S" and "resting S" and "i < length (si_objs S)"
  shows "si_inv (at_conn i (initiate_close K p) S)"
  using assms by (intro si_inv_at_conn [where f = "initiate_close K p" and K = K and p = p] move_close) (auto simp: resting_def)

lemma close_entries_inv:
  assumes "si_inv S" and "resting S" and "\<forall>e \<in> set es. snd e < length (si_objs S)"
  shows "si_inv (close_entries K p es S) \<and> resting (close_entries K p es S)"
  using assms unfolding close_entries_def
proof (induction es arbitrary: S)
  case (Cons e es)
  show ?case unfolding foldl_Cons
    by (rule Cons.IH) (use Cons.prems si_inv_close resting_close in auto)
qed simp

lemma destroy_end_inv:
  assumes "si_inv S" and "resting S"
  shows "si_inv (destroy_end K p S)"
proof (cases "si_mode S = Listen_mode")
  case True
  have "\<forall>e \<in> set (si_connections S). snd e < length (si_objs S)"
    using assms(1) by (intro ballI si_inv_indices) (simp_all add: indices_def)
  with assms have "si_inv (close_entries K p (si_connections S) S)" using close_entries_inv by blast
  then have "si_inv ((close_entries K p (si_connections S) S)\<lparr>si_connections := [], si_count := 0\<rparr>)"
    by (rule si_inv_quiet [rotated 8]) (auto simp: indices_def)
  then show ?thesis using True by (simp add: destroy_end_def close_entries_def)
next
  case False
  let ?T = "case si_client_conn S of Some i \<Rightarrow> (at_conn i (initiate_close K p) S)\<lparr>si_client_conn := None\<rparr> | None \<Rightarrow> S"
  have "si_inv ?T"
  proof (cases "si_client_conn S")
    case (Some i)
    then have "i < length (si_objs S)" using assms(1) by (intro si_inv_indices) (auto simp: indices_def)
    from si_inv_close [OF assms this, of K p] have "si_inv ((at_conn i (initiate_close K p) S)\<lparr>si_client_conn := None\<rparr>)"
      by (rule si_inv_quiet [rotated 8]) (auto simp: indices_def)
    then show ?thesis by (simp add: Some)
  qed (use assms in simp)
  then have "si_inv (?T\<lparr>si_connected := False\<rparr>)" by (rule si_inv_quiet [rotated 8]) (auto simp: indices_def)
  then show ?thesis using False by (simp add: destroy_end_def)
qed

lemma loop_idle_resting: "loop_idle S \<Longrightarrow> resting S"
  by (simp add: loop_idle_def resting_def)

context stream_family
begin

lemma run_task_inv:
  assumes "si_inv S" and "resting S" and "si_posted S = t # ts"
  shows "si_inv (run_task F K p ok pool_ok tid t (S\<lparr>si_posted := ts\<rparr>))"
proof -
  let ?S = "S\<lparr>si_posted := ts\<rparr>"
  show ?thesis
  proof (cases "t = Connect_start")
    case True
    then have a: "si_attempt S = None" "si_armed S" "filter ((=) Connect_start) ts = []"
      using assms(1,3) by (auto simp: si_inv_def single_def split: option.splits if_splits)
    have "sound {#} ?S"
      by (rule sound_cong [of ?S S]) (use assms(1,3) a in \<open>auto simp: si_inv_def attempt_owned_def indices_def\<close>)
    from sound_connect_start [OF this, of K p pool_ok tid] obtain A where
      A: "si_attempt (connect_start F K p pool_ok tid ?S) = Some A" "ca_requests A = []"
        "sound (owned (ca_sock A)) (connect_start F K p pool_ok tid ?S)" by blast
    moreover have "single (connect_start F K p pool_ok tid ?S)"
      using a by (simp add: single_def connect_start_def)
    ultimately show ?thesis using True by (simp add: run_task_def si_inv_def attempt_owned_def)
  next
    case False
    have 1: "si_inv ?S"
      using assms(1) by (rule si_inv_quiet [rotated 8]) (use False assms(3) in \<open>auto simp: indices_def\<close>)
    show ?thesis
    proof (cases t)
      case (Conn_task i c)
      then have i: "i < length (si_objs S)" using assms(1,3) by (intro si_inv_indices) (auto simp: indices_def)
      have "si_inv (at_conn i (run_posted K p ok c) ?S)"
        using 1 by (rule si_inv_at_conn [where f = "run_posted K p ok c" and K = K and p = p])
          (use i assms(2) in \<open>auto simp: resting_def intro!: move_task\<close>)
      then show ?thesis by (simp add: run_task_def Conn_task)
    next
      case Listener_stop
      then show ?thesis using si_inv_listener [OF 1] by (simp add: run_task_def)
    next
      case (Erase fd)
      show ?thesis using 1 unfolding run_task_def Erase loop_task.case
        by (rule si_inv_quiet [rotated 8])
          (use indices_delete [of fd "si_connections S"] in \<open>auto simp: erase_connection_def indices_def\<close>)
    qed (use False 1 in \<open>auto simp: run_task_def accept_start_def timer_start_def elim!: si_inv_quiet [rotated 8]\<close>,
        auto simp: indices_def)
  qed
qed

lemma on_accepted_fields [simp]:
  "si_attempt (on_accepted F K p ok sock peer S) = si_attempt S" "si_armed (on_accepted F K p ok sock peer S) = si_armed S"
  "filter ((=) Connect_start) (si_posted (on_accepted F K p ok sock peer S)) = filter ((=) Connect_start) (si_posted S)"
  by (auto simp: on_accepted_def Let_def set_hook_def start_reading_def split: prod.splits)

lemma accept_turn_inv: "si_inv S \<Longrightarrow> si_inv (accept_turn F K p ok pool_ok S)"
  by (rule si_inv_cong [OF sound_accept_turn]) (auto simp: accept_turn_def Let_def split: prod.splits sum.splits)

lemma attempt_run_inv:
  assumes "si_inv S" and "si_attempt S = Some A"
    and "\<And>L B. attempt_inv L B \<Longrightarrow> attempt_inv L (f B)" and "\<And>B. ca_completed B \<Longrightarrow> f B = B"
  shows "si_inv (run_attempt F K p ok (f (A\<lparr>ca_world := si_world S\<rparr>)) S)"
proof -
  have "sound (owned (ca_sock A)) S" "ca_requests A = []" using assms(1,2) by (auto simp: si_inv_def attempt_owned_def)
  from sound_continue [OF this assms(3,4)] assms(1,2) show ?thesis
    by (auto simp: si_inv_def attempt_owned_def single_def)
qed

lemma thread_step_inv: "thread_step F K p S T \<Longrightarrow> si_inv S \<Longrightarrow> si_inv T"
proof (induction rule: thread_step.induct)
  case (ts_task S t ts ok pool_ok tid)
  then show ?case by (intro run_task_inv loop_idle_resting)
next
  case (ts_event S i ev)
  then show ?case by (intro si_inv_at_conn [where f = "on_io_event K p ev" and K = K and p = p] move_step conn_step.loop_event)
    (auto simp: in_use_def loop_idle_def)
next
  case (ts_drain_top i S ok)
  then show ?case by (intro si_inv_at_conn [where f = "drain_top ok" and K = K and p = p] move_step conn_step.loop_drain_top)
    (auto simp: in_use_def)
next
  case (ts_drain_send i S chunk sent)
  then show ?case by (intro si_inv_at_conn [where f = "drain_send K p chunk sent" and K = K and p = p] move_step conn_step.loop_drain_send)
    (auto simp: in_use_def)
next
  case (ts_connect_timeout S A pool_ok)
  then show ?case by (intro attempt_run_inv [where f = "connect_timeout K p (s_handle (ca_sock A))"] timeout_inv)
    (auto simp: connect_timeout_def)
next
  case (ts_connect_ready S A pool_ok)
  then show ?case by (intro attempt_run_inv [where f = "connect_ready K p (s_handle (ca_sock A))"] ready_inv)
    (auto simp: connect_ready_def)
next
  case (ts_exit S)
  then have "si_inv (S\<lparr>si_running := False\<rparr>)" by (elim si_inv_quiet [rotated 8]) (auto simp: indices_def)
  then show ?case using ts_exit by (intro destroy_end_inv) (auto simp: loop_idle_def resting_def)
qed (auto simp: accept_turn_inv accept_rearm_def stream_timer_fire_def elim!: si_inv_quiet [rotated 8], auto simp: indices_def)

lemma start_inv:
  assumes "listening F S \<or> connecting F S"
  shows "si_inv S"
  using assms
proof
  assume "connecting F S"
  then show ?thesis
    by (auto simp: connecting_def do_connect_def stream_new_def si_inv_def sound_def accounts_def indices_def
        attempt_owned_def single_def tcp_listener_default_def)
next
  assume "listening F S"
  then obtain addr config w r where w: "clean (trace w)" "live w = {#}" "unat (lc_max_write_buffer config) < 2 ^ 62"
    and S: "do_listen F addr config (stream_new F w) = (r, S)" unfolding listening_def by blast
  obtain r' l w' where o: "run_state (fm_open F tcp_listener_default addr (lc_backlog config) (lc_sock_opts config)) w = ((r', l), w')"
    by (metis surj_pair)
  have "live w' = listener_owned l \<and> clean (trace w')"
    using fd_wpD [OF open_owns [of tcp_listener_default addr "lc_backlog config" "lc_sock_opts config" "{#}"] o] w
    by (simp add: tcp_listener_default_def)
  then show ?thesis using S o w
    by (auto simp: do_listen_def Let_def stream_new_def si_inv_def sound_def accounts_def indices_def
        attempt_owned_def single_def)
qed

end

sublocale stream_family \<subseteq> streams: invariant_system "\<lambda>S. listening F S \<or> connecting F S" "si_step F K p" si_inv for K p
  by unfold_locales (auto simp: si_step_def start_inv intro: user_step_inv thread_step_inv)

end
