(* ===== verification/Stream_Order.thy ===== *)
theory Stream_Order
  imports Streams
begin

text \<open>
  The order of callbacks and the table of connections of a stream: no data before \<open>on_connect\<close> has
  returned, the limit on connections, the count of connections, and what a destroyed server leaves.
\<close>

text \<open>The state after either factory.\<close>

lemma start_fields:
  assumes "listening F S \<or> connecting F S"
  shows "si_objs S = []" "si_posted S = []" "si_pool S = []" "si_connections S = []" "si_count S = 0"
    "si_attempt S = None" "\<not> si_stopping S" "si_running S" "listening F S \<Longrightarrow> si_mode S = Listen_mode"
proof -
  have L: "\<exists>l w' (config :: stream_listen_config). S = (stream_new F w')\<lparr>si_mode := Listen_mode, si_max_write_buf := lc_max_write_buffer config,
      si_read_buf_size := lc_read_buffer_size config, si_max_conn := lc_max_connections config,
      si_sock_opts := lc_sock_opts config, si_backlog := lc_backlog config, si_listener := l, si_running := True\<rparr>"
    if l: "listening F S"
  proof -
    obtain addr config w r where S: "do_listen F addr config (stream_new F w) = (r, S)" "is_ok r"
      using l unfolding listening_def by blast
    obtain r' l w' where o: "run_state (fm_open F tcp_listener_default addr (lc_backlog config) (lc_sock_opts config)) w = ((r', l), w')"
      by (metis surj_pair)
    from S o show ?thesis
      by (intro exI [of _ l] exI [of _ w'] exI [of _ config]) (auto simp: do_listen_def stream_new_def Let_def)
  qed
  have C: "\<exists>w addr config. S = do_connect addr config (stream_new F w)" if "connecting F S"
    using that unfolding connecting_def by blast
  from assms L C show "si_objs S = []" "si_posted S = []" "si_pool S = []" "si_connections S = []" "si_count S = 0"
    "si_attempt S = None" "\<not> si_stopping S" "si_running S"
    by (auto simp: stream_new_def do_connect_def)
  show "si_mode S = Listen_mode" if "listening F S" using L [OF that] by auto
qed

section \<open>No data before on_connect has returned\<close>

definition unread :: "conn \<Rightarrow> bool" where
  "unread c \<longleftrightarrow> c_interest c = None \<and> c_received c = [] \<and> (\<forall>d. On_data d \<notin> set (c_callbacks c))"

definition connects :: "pool_task list \<Rightarrow> nat list" where
  "connects ts = concat (map (\<lambda>t. case t of Connect_task i _ \<Rightarrow> [i] | _ \<Rightarrow> []) ts)"

lemma connects_simps [simp]:
  "connects [] = []" "connects (ts @ us) = connects ts @ connects us"
  "connects (if b then [Error_task ec] else []) = []" "connects (Error_task ec # ts) = connects ts" "connects (Connect_task i fd # ts) = i # connects ts"
  by (simp_all add: connects_def)

lemma connects_iff: "i \<in> set (connects ts) \<longleftrightarrow> (\<exists>fd. Connect_task i fd \<in> set ts)"
  by (force simp: connects_def split: pool_task.splits)

definition ordered :: "'a stream_impl \<Rightarrow> bool" where
  "ordered S \<longleftrightarrow>
     (\<forall>i < length (si_objs S). o_phase (si_objs S ! i) \<noteq> Running \<longrightarrow>
        unread (o_conn (si_objs S ! i)) \<and> Conn_task i Start_reading \<notin> set (si_posted S))
     \<and> (\<forall>i \<in> set (connects (si_pool S)). o_phase (si_objs S ! i) = Fresh) \<and> distinct (connects (si_pool S))"

lemma ordered_cong:
  assumes "si_objs T = si_objs S" "\<And>i. Conn_task i Start_reading \<in> set (si_posted T) \<Longrightarrow> Conn_task i Start_reading \<in> set (si_posted S)"
    and "set (connects (si_pool T)) \<subseteq> set (connects (si_pool S))" "distinct (connects (si_pool S)) \<Longrightarrow> distinct (connects (si_pool T))"
  shows "ordered S \<Longrightarrow> ordered T"
  using assms by (auto simp: ordered_def)

lemma ordered_at_conn:
  assumes "ordered S" and "i < length (si_objs S)"
    and "o_phase (si_objs S ! i) = Running \<or>
      (unread (o_conn (si_objs S ! i)) \<longrightarrow> unread (f (checkout i S)) \<and> Start_reading \<notin> set (c_posted (f (checkout i S))))"
  shows "ordered (at_conn i f S)"
  using assms by (auto simp: ordered_def nth_list_update)

lemma ordered_set_obj:
  assumes "ordered S" and "i < length (si_objs S)"
    and "o_phase (f (si_objs S ! i)) = o_phase (si_objs S ! i) \<or> o_phase (f (si_objs S ! i)) = Running \<and> i \<notin> set (connects (si_pool S))"
    and "unread (o_conn (si_objs S ! i)) \<Longrightarrow> unread (o_conn (f (si_objs S ! i)))"
  shows "ordered (set_obj i f S)"
  using assms by (auto simp: ordered_def nth_list_update)

lemma ordered_append:
  assumes "ordered S" and "\<And>t. Conn_task (length (si_objs S)) t \<notin> set (si_posted S)"
    and "\<And>i. i \<in> set (connects (si_pool S)) \<Longrightarrow> i < length (si_objs S)" and "unread (o_conn ob)"
  shows "ordered (S\<lparr>si_objs := si_objs S @ [ob]\<rparr>)"
  using assms by (auto simp: ordered_def nth_append less_Suc_eq)

subsection \<open>Operations of the engine\<close>

lemma unread_close: "unread c \<Longrightarrow> unread (initiate_close K p c)"
proof (cases "c_closed c")
  case False
  assume "unread c"
  then show ?thesis using initiate_close_open [OF False, of K p] by (simp add: unread_def)
qed (simp add: initiate_close_def)

lemma unread_cong [simp]:
  "unread (c\<lparr>c_world := w\<rparr>) = unread c" "unread (c\<lparr>c_posted := ps\<rparr>) = unread c"
  "unread (c\<lparr>c_on_data := b\<rparr>) = unread c" "unread (c\<lparr>c_on_close := b\<rparr>) = unread c"
  "unread (c\<lparr>c_pc := q\<rparr>) = unread c" "unread (checkout i S) = unread (o_conn (si_objs S ! i))"
  by (simp_all add: unread_def checkout_def)

lemma unread_modify: "unread c \<Longrightarrow> unread (io_modify ok e c)"
  by (simp add: unread_def io_modify_wake)

lemma unread_user:
  "unread c \<Longrightarrow> unread (user_call seen op c)" "c_posted c = [] \<Longrightarrow> Start_reading \<notin> set (c_posted (user_call seen op c))"
  by (cases op; auto simp: unread_def user_defs enqueue_send_def Let_def split: prod.splits if_splits)+

lemma task_posts: "c_posted (run_posted K p ok t c) = c_posted c"
  by (cases t) (simp_all add: task_defs Let_def)

lemma unread_task: "t \<noteq> Start_reading \<Longrightarrow> unread c \<Longrightarrow> unread (run_posted K p ok t c)"
  by (cases t) (simp_all add: task_defs Let_def unread_modify unread_close)

lemma unread_drain_top:
  "unread c \<Longrightarrow> unread (drain_top ok c)" "c_posted (drain_top ok c) = c_posted c"
  by (cases "c_queue c"; simp add: drain_top_def unread_def io_modify_wake)+

lemma unread_drain_send:
  assumes "unread c"
  shows "unread (drain_send K p chunk sent c)" "c_posted (drain_send K p chunk sent c) = c_posted c"
proof -
  obtain r w where t: "run_state (tcp_send K p (c_socket c) (drop sent chunk) 0) (c_world c) = (r, w)"
    by (metis surj_pair)
  have "unread (initiate_close K p (c\<lparr>c_world := w\<rparr>))" using assms by (intro unread_close) simp
  then show "unread (drain_send K p chunk sent c)" "c_posted (drain_send K p chunk sent c) = c_posted c"
    using assms t by (cases r; simp add: drain_send_def unread_def Let_def)+
qed

subsection \<open>Operations of the stream\<close>

lemma ordered_hook:
  assumes "ordered S" and "i < length (si_objs S)"
  shows "ordered (set_hook i h S)"
  unfolding set_hook_def by (rule ordered_set_obj [OF assms]) simp_all

lemma ordered_start:
  assumes "ordered S" and "i < length (si_objs S)" and "o_phase (si_objs S ! i) = Running"
  shows "ordered (at_conn i start_reading S)"
  by (rule ordered_at_conn [OF assms(1,2)]) (use assms(3) in simp)

lemma ordered_run_hook:
  assumes "ordered S" and "i < length (si_objs S)"
  shows "ordered (run_hook i S)"
proof -
  have "ordered (S\<lparr>si_posted := si_posted S @ [Erase fd]\<rparr>)" for fd
    using assms(1) by (rule ordered_cong [rotated 4]) simp_all
  then have "ordered (set_obj i (\<lambda>ob. ob\<lparr>o_erased := True\<rparr>) (S\<lparr>si_posted := si_posted S @ [Erase fd]\<rparr>))" for fd
    by (rule ordered_set_obj) (use assms(2) in simp_all)
  moreover have "ordered (S\<lparr>si_connected := False\<rparr>)" using assms(1) by (rule ordered_cong [rotated 4]) simp_all
  ultimately show ?thesis using assms(1) by (simp add: run_hook_def split: close_hook.split)
qed

lemma ordered_callback:
  assumes "ordered S" and "i < length (si_objs S)"
  shows "ordered (run_callback i S)"
proof -
  let ?S = "set_obj i (\<lambda>ob. ob\<lparr>o_ran := o_ran ob + 1\<rparr>) S"
  have 1: "ordered ?S" by (rule ordered_set_obj [OF assms]) simp_all
  have "ordered (run_hook i ?S)" by (rule ordered_run_hook [OF 1]) (use assms(2) in simp)
  then show ?thesis using 1 unfolding run_callback_def Let_def by (simp split: callback.split)
qed

lemma ordered_begin:
  assumes "ordered S" and "si_pool S = xs @ Connect_task i fd # ys" and "i < length (si_objs S)"
  shows "ordered (connect_begin i fd (S\<lparr>si_pool := xs @ ys\<rparr>))"
proof -
  have "distinct (connects xs @ i # connects ys)" using assms(1,2) by (simp add: ordered_def)
  then have "i \<notin> set (connects (xs @ ys))" "distinct (connects (xs @ ys))" by auto
  moreover have "o_phase (si_objs S ! i) = Fresh" using assms(1,2) by (simp add: ordered_def)
  ultimately show ?thesis using assms by (auto simp: ordered_def connect_begin_def nth_list_update)
qed

lemma ordered_end:
  assumes "ordered S" and "i < length (si_objs S)" and "o_phase (si_objs S ! i) = In_connect fd'"
  shows "ordered (connect_end i fd S)"
proof -
  let ?T = "set_hook i (wrap_hook (si_mode S) fd (o_hook (si_objs S ! i))) S"
  have 1: "ordered ?T" by (rule ordered_hook [OF assms(1,2)])
  have "i \<notin> set (connects (si_pool S))" using assms by (auto simp: ordered_def)
  then have "ordered (set_obj i (\<lambda>ob. ob\<lparr>o_phase := Running\<rparr>) ?T)"
    using assms(2) by (intro ordered_set_obj [OF 1]) (simp_all add: set_hook_def)
  then show ?thesis unfolding connect_end_def by (rule ordered_start) (use assms(2) in \<open>simp_all add: set_hook_def\<close>)
qed

lemma ordered_wrapper:
  assumes "ordered S" and "i < length (si_objs S)"
  shows "ordered (drop_wrapper i S)"
proof -
  let ?S = "set_obj i (\<lambda>ob. ob\<lparr>o_wrapper := False\<rparr>) S"
  have 1: "ordered ?S" by (rule ordered_set_obj [OF assms]) simp_all
  have "ordered (at_conn i (close_from_user False) ?S)"
    by (rule ordered_at_conn [OF 1]) (use assms(2) in \<open>simp_all add: close_from_user_def\<close>)
  then show ?thesis using 1 by (simp add: drop_wrapper_def Let_def)
qed

lemma ordered_free:
  assumes "ordered S" and "i < length (si_objs S)"
  shows "ordered (free_object K p i S)"
proof -
  have "ordered (S\<lparr>si_world := w\<rparr>)" for w using assms(1) by (rule ordered_cong [rotated 4]) simp_all
  then show ?thesis unfolding free_object_def Let_def
    by (rule ordered_set_obj) (use assms(2) in \<open>simp_all add: unread_def\<close>)
qed

lemma ordered_listener: "ordered S \<Longrightarrow> ordered (stop_listener K p S)"
  by (rule ordered_cong) (auto simp: stop_listener_def split: prod.splits)

lemma ordered_destroy_begin: "ordered S \<Longrightarrow> ordered (destroy_begin K p S)"
proof -
  assume "ordered S"
  then have "ordered (if si_mode S = Listen_mode then stop_listener K p S else S)" using ordered_listener by auto
  then show ?thesis unfolding destroy_begin_def Let_def by (rule ordered_cong [rotated 4]) auto
qed

lemma user_step_ordered: "user_step K p S T \<Longrightarrow> si_inv S \<Longrightarrow> ordered S \<Longrightarrow> ordered T"
proof (induction rule: user_step.induct)
  case (us_call i S op seen)
  then show ?case
    by (intro ordered_at_conn) (simp_all add: in_use_def unread_user)
next
  case (us_connect_begin S xs i fd ys)
  then show ?case by (intro ordered_begin si_inv_indices) (auto simp: indices_def)
next
  case (us_on_data i S fd h)
  then show ?case unfolding connection_on_data_def by (intro ordered_set_obj) (simp_all add: in_use_def)
qed (auto simp: in_use_def connection_on_close_def on_error_def do_pause_def do_resume_def do_post_def do_defer_def do_repeat_def
    on_connect_def arm_def
    intro!: ordered_hook ordered_end ordered_callback ordered_wrapper ordered_free ordered_destroy_begin
    elim!: ordered_cong [rotated 4])

context stream_family
begin

lemma ordered_accepted:
  assumes "ordered S" and "indices S \<subseteq> {..<length (si_objs S)}"
  shows "ordered (on_accepted F K p ok sock peer S)"
proof (cases "si_max_conn S > 0 \<and> length (si_connections S) \<ge> si_max_conn S")
  case True
  then show ?thesis using assms(1) by (auto simp: on_accepted_def elim!: ordered_cong [rotated 4])
next
  case False
  let ?i = "length (si_objs S)"
  have new: "Conn_task ?i t \<notin> set (si_posted S)" for t
    using assms(2) by (auto simp: indices_def)
  have pool: "i < ?i" if "i \<in> set (connects (si_pool S))" for i
    using assms(2) that by (auto simp: indices_def connects_iff)
  obtain lr w2 where l: "run_state (fm_local F sock) (final_world (set_non_blocking K p sock True) (si_world S)) = (lr, w2)"
    by (metis surj_pair)
  define S1 where "S1 = S\<lparr>si_world := w2, si_connections := AList.update (s_handle sock) ?i (si_connections S), si_count := si_count S + 1\<rparr>"
  let ?ob = "\<lambda>b. new_object sock peer (address_or (fm_default F) lr) b S1"
  let ?S = "\<lambda>b. S1\<lparr>si_objs := si_objs S1 @ [?ob b]\<rparr>"
  have "ordered S1" using assms(1) by (rule ordered_cong [rotated 4]) (simp_all add: S1_def)
  then have S: "ordered (?S b)" for b
    by (rule ordered_append) (use new pool in \<open>auto simp: S1_def new_object_def conn_new_def unread_def\<close>)
  have "ordered (pool_submit ok (Connect_task ?i (s_handle sock)) (?S True))"
    using S [of True] pool by (auto simp: ordered_def S1_def new_object_def nth_append)
  moreover have "ordered (at_conn ?i start_reading (set_hook ?i (Erase_hook (s_handle sock) False) (?S False)))"
    by (intro ordered_start ordered_hook S) (simp_all add: S1_def set_hook_def new_object_def)
  ultimately show ?thesis
    unfolding on_accepted_def if_not_P [OF False] Let_def by (simp add: l S1_def [symmetric])
qed

lemma ordered_connected:
  assumes "ordered S" and "indices S \<subseteq> {..<length (si_objs S)}"
  shows "ordered (on_connected F K p ok r S) \<and> indices (on_connected F K p ok r S) \<subseteq> {..<length (si_objs (on_connected F K p ok r S))}"
proof (cases r)
  case (Inl ec)
  then show ?thesis using assms by (auto simp: on_connected_def indices_def elim!: ordered_cong [rotated 4])
next
  case (Inr sock)
  let ?i = "length (si_objs S)"
  have new: "Conn_task ?i t \<notin> set (si_posted S)" for t using assms(2) by (auto simp: indices_def)
  have pool: "i < ?i" if "i \<in> set (connects (si_pool S))" for i
    using assms(2) that by (auto simp: indices_def connects_iff)
  define w1 where "w1 = final_world (set_non_blocking K p sock True) (si_world S)"
  obtain pr w2 where q: "run_state (fm_peer F sock) w1 = (pr, w2)" by (metis surj_pair)
  obtain lr w3 where l: "run_state (fm_local F sock) w2 = (lr, w3)" by (metis surj_pair)
  define S1 where "S1 = S\<lparr>si_world := w3\<rparr>"
  define ob where "ob = new_object sock (address_or (fm_default F) pr) (address_or (fm_default F) lr) (si_on_connect S) S1"
  define S2 where "S2 = S1\<lparr>si_objs := si_objs S1 @ [ob], si_client_conn := Some ?i, si_connected := True\<rparr>"
  have "ordered (S1\<lparr>si_objs := si_objs S1 @ [ob]\<rparr>)"
    using assms(1) new pool
    by (intro ordered_append) (auto simp: S1_def ob_def new_object_def conn_new_def unread_def elim!: ordered_cong [rotated 4])
  then have 2: "ordered S2" by (rule ordered_cong [rotated 4]) (simp_all add: S2_def)
  have ph: "o_phase (si_objs S2 ! ?i) = (if si_on_connect S then Fresh else Running)" "length (si_objs S2) = Suc ?i"
    "si_pool S2 = si_pool S" "indices S2 \<subseteq> {..<Suc ?i}"
    using assms(2) by (auto simp: S2_def S1_def ob_def new_object_def indices_def)
  have "ordered (pool_submit ok (Connect_task ?i (s_handle sock)) S2)" if "si_on_connect S"
    using 2 pool that ph by (auto simp: ordered_def nth_append)
  moreover have "ordered (at_conn ?i start_reading S2)" if "\<not> si_on_connect S"
    using ordered_start [OF 2, of ?i] that ph by simp
  moreover have "on_connected F K p ok r S =
      (if si_on_connect S then pool_submit ok (Connect_task ?i (s_handle sock)) S2 else at_conn ?i start_reading S2)"
    unfolding on_connected_def Inr sum.case Let_def by (simp add: w1_def [symmetric] q l S2_def S1_def ob_def)
  ultimately show ?thesis using ph(2,4) by (auto simp: indices_def start_reading_def)
qed

lemma ordered_attempt:
  assumes "ordered S" and "indices S \<subseteq> {..<length (si_objs S)}"
  shows "ordered (run_attempt F K p ok A S)"
proof -
  have "ordered (foldl (\<lambda>T r. on_connected F K p ok r T) S rs)"
    if "ordered S" "indices S \<subseteq> {..<length (si_objs S)}" for rs and S :: "'a stream_impl"
    using that by (induction rs arbitrary: S) (auto simp: ordered_connected)
  moreover have "ordered (S\<lparr>si_world := ca_world A, si_attempt := Some (A\<lparr>ca_requests := []\<rparr>)\<rparr>)"
    using assms(1) by (rule ordered_cong [rotated 4]) simp_all
  ultimately show ?thesis using assms(2) unfolding run_attempt_def by (simp add: indices_def)
qed

lemma ordered_task:
  assumes "ordered S" and "si_inv S" and "si_posted S = t # ts"
  shows "ordered (run_task F K p ok pool_ok tid t (S\<lparr>si_posted := ts\<rparr>))"
proof -
  let ?S = "S\<lparr>si_posted := ts\<rparr>"
  have 1: "ordered ?S" using assms(1) by (rule ordered_cong [rotated 4]) (use assms(3) in simp_all)
  have b: "indices ?S \<subseteq> {..<length (si_objs ?S)}" using assms(2,3) by (auto simp: si_inv_def sound_def indices_def)
  show ?thesis
  proof (cases t)
    case (Conn_task i c)
    then have i: "i < length (si_objs S)" using assms(2,3) by (intro si_inv_indices) (auto simp: indices_def)
    have "o_phase (si_objs S ! i) = Running" if "c = Start_reading"
      using assms(1,3) i that Conn_task by (auto simp: ordered_def)
    then have "ordered (at_conn i (run_posted K p ok c) ?S)"
      using i unread_task [of c "checkout i ?S"] by (intro ordered_at_conn [OF 1]) (auto simp: task_posts)
    then show ?thesis by (simp add: run_task_def Conn_task)
  next
    case Connect_start
    then show ?thesis using ordered_attempt [OF 1 b] by (simp add: run_task_def connect_start_def)
  next
    case Listener_stop
    then show ?thesis using ordered_listener [OF 1] by (simp add: run_task_def)
  qed (use 1 in \<open>auto simp: run_task_def accept_start_def erase_connection_def timer_start_def elim!: ordered_cong [rotated 4]\<close>)
qed

lemma ordered_turn:
  assumes "ordered S" and "si_inv S"
  shows "ordered (accept_turn F K p ok pool_ok S)"
proof -
  obtain r w where a: "run_state (fm_accept F (si_listener S)) (si_world S) = (r, w)" by (metis surj_pair)
  show ?thesis
  proof (cases r)
    case (Inl ec)
    then show ?thesis using a assms(1) by (auto simp: accept_turn_def Let_def elim!: ordered_cong [rotated 4])
  next
    case (Inr x)
    let ?S = "S\<lparr>si_world := w, si_backoff := 100\<rparr>"
    have "ordered ?S" using assms(1) by (rule ordered_cong [rotated 4]) simp_all
    moreover have "indices ?S \<subseteq> {..<length (si_objs ?S)}" using assms(2) by (simp add: si_inv_def sound_def indices_def)
    ultimately show ?thesis using a Inr ordered_accepted [of ?S] by (cases x) (simp add: accept_turn_def)
  qed
qed

end

lemma ordered_close_entries:
  assumes "ordered S" and "\<forall>e \<in> set es. snd e < length (si_objs S)"
  shows "ordered (close_entries K p es S)"
  using assms unfolding close_entries_def
proof (induction es arbitrary: S)
  case (Cons e es)
  have "ordered (at_conn (snd e) (initiate_close K p) S)"
    using Cons.prems by (intro ordered_at_conn) (simp_all add: unread_close)
  then show ?case unfolding foldl_Cons using Cons.prems(2) by (intro Cons.IH) simp_all
qed simp

lemma ordered_destroy_end:
  assumes "ordered S" and "si_inv S"
  shows "ordered (destroy_end K p S)"
proof (cases "si_mode S = Listen_mode")
  case True
  have "\<forall>e \<in> set (si_connections S). snd e < length (si_objs S)"
    using assms(2) by (intro ballI si_inv_indices) (simp_all add: indices_def)
  from ordered_close_entries [OF assms(1) this, of K p] True show ?thesis
    by (auto simp: destroy_end_def close_entries_def elim!: ordered_cong [rotated 4])
next
  case False
  show ?thesis
  proof (cases "si_client_conn S")
    case (Some i)
    then have "i < length (si_objs S)" using assms(2) by (intro si_inv_indices) (auto simp: indices_def)
    then have "ordered (at_conn i (initiate_close K p) S)"
      using assms(1) by (intro ordered_at_conn) (simp_all add: unread_close)
    then show ?thesis using False Some by (auto simp: destroy_end_def elim!: ordered_cong [rotated 4])
  qed (use assms(1) False in \<open>auto simp: destroy_end_def elim!: ordered_cong [rotated 4]\<close>)
qed

context stream_family
begin

lemma thread_step_ordered: "thread_step F K p S T \<Longrightarrow> si_inv S \<Longrightarrow> ordered S \<Longrightarrow> ordered T"
proof (induction rule: thread_step.induct)
  case (ts_event S i ev)
  then have "o_phase (si_objs S ! i) = Running" by (auto simp: ordered_def unread_def in_use_def)
  then show ?case using ts_event by (intro ordered_at_conn) (simp_all add: in_use_def)
next
  case (ts_drain_top i S ok)
  then show ?case by (intro ordered_at_conn) (simp_all add: in_use_def unread_drain_top)
next
  case (ts_drain_send i S chunk sent)
  then show ?case by (intro ordered_at_conn) (simp_all add: in_use_def unread_drain_send)
next
  case (ts_exit S)
  then have "si_inv (S\<lparr>si_running := False\<rparr>)" "ordered (S\<lparr>si_running := False\<rparr>)"
    by (auto elim!: si_inv_quiet [rotated 8] ordered_cong [rotated 4] simp: indices_def)
  then show ?case by (intro ordered_destroy_end)
next
  case (ts_connect_timeout S A pool_ok)
  then show ?case by (intro ordered_attempt) (simp_all add: si_inv_def sound_def)
next
  case (ts_connect_ready S A pool_ok)
  then show ?case by (intro ordered_attempt) (simp_all add: si_inv_def sound_def)
qed (auto simp: ordered_task ordered_turn accept_rearm_def stream_timer_fire_def elim!: ordered_cong [rotated 4])

lemma start_ordered: "listening F S \<or> connecting F S \<Longrightarrow> ordered S"
  using start_fields [of F S] by (simp add: ordered_def)

end

sublocale stream_family \<subseteq> order: invariant_system "\<lambda>S. listening F S \<or> connecting F S" "si_step F K p" "\<lambda>S. si_inv S \<and> ordered S" for K p
  by unfold_locales
    (auto simp: si_step_def start_inv start_ordered intro: user_step_inv thread_step_inv user_step_ordered thread_step_ordered)

end
