(* ===== verification/Stream_Table.thy ===== *)
theory Stream_Table
  imports Stream_Order
begin

text \<open>
  The table of connections of a listening stream: its size and the limit, the published count, and,
  as long as the system does not reuse a descriptor whose entry is still in the table, that every open
  connection is in the table and that a destroyed server leaves no descriptor open.
\<close>

section \<open>What a move of a connection keeps\<close>

definition extends :: "conn \<Rightarrow> conn \<Rightarrow> bool" where
  "extends c c' \<longleftrightarrow> (\<exists>xs. c_callbacks c' = c_callbacks c @ xs) \<and> (c_closed c \<longrightarrow> c_closed c')
     \<and> (\<not> is_open (c_socket c) \<longrightarrow> \<not> is_open (c_socket c'))"

lemma extends_same:
  "c_callbacks c' = c_callbacks c \<Longrightarrow> c_closed c' = c_closed c \<Longrightarrow> c_socket c' = c_socket c \<Longrightarrow> extends c c'"
  by (simp add: extends_def)

lemma extends_trans: "extends a b \<Longrightarrow> extends b c \<Longrightarrow> extends a c"
  unfolding extends_def by (metis append_assoc)

lemma extends_close: "extends c (initiate_close K p c)"
proof (cases "c_closed c")
  case False
  then show ?thesis using initiate_close_open [OF False, of K p] by (simp add: extends_def)
qed (simp add: initiate_close_def extends_def)

lemma extends_world: "extends (c\<lparr>c_world := w\<rparr>) d \<Longrightarrow> extends c d"
  by (simp add: extends_def)

lemma extends_readable:
  assumes "on_readable K p c = (b, c')"
  shows "extends c c'"
proof -
  obtain r w where t: "run_state (tcp_recv K p (c_socket c) (c_read_size c) 0) (c_world c) = (r, w)"
    by (metis surj_pair)
  have "extends c (initiate_close K p (c\<lparr>c_world := w\<rparr>))" by (rule extends_world [OF extends_close])
  then show ?thesis
    using assms t by (auto simp: on_readable_def Let_def extends_def split: sum.splits if_splits prod.splits)
qed

lemma extends_event: "extends c (on_io_event K p ev c)"
proof -
  obtain b c1 where r: "on_readable K p c = (b, c1)" by (metis surj_pair)
  from extends_readable [OF r] have "extends c c1" "extends c (c1\<lparr>c_pc := Drain_top\<rparr>)" by (simp_all add: extends_def)
  then show ?thesis using r extends_close [of c K p] by (auto simp: on_io_event_def Let_def extends_def)
qed

lemma extends_drain_send: "extends c (drain_send K p chunk sent c)"
proof -
  obtain r w where t: "run_state (tcp_send K p (c_socket c) (drop sent chunk) 0) (c_world c) = (r, w)"
    by (metis surj_pair)
  have "extends c ((initiate_close K p (c\<lparr>c_world := w\<rparr>))\<lparr>c_pc := Idle\<rparr>)"
    using extends_world [OF extends_close [of "c\<lparr>c_world := w\<rparr>" K p]] by (simp add: extends_def)
  then show ?thesis using t by (cases r) (auto simp: drain_send_def Let_def intro: extends_same)
qed

lemma extends_step: "conn_step K p c c' \<Longrightarrow> extends c c'"
proof (induction rule: conn_step.induct)
  case (user_send seen c data ok c')
  then show ?case by (auto simp: extends_def enqueue_send_def Let_def split: if_splits)
next
  case (loop_task c t ts ok)
  have "extends c (initiate_close K p (c\<lparr>c_posted := ts\<rparr>))"
    using extends_close [of "c\<lparr>c_posted := ts\<rparr>" K p] by (simp add: extends_def)
  then show ?case by (cases t) (auto simp: task_defs Let_def intro: extends_same)
next
  case (loop_drain_top c ok)
  then show ?case by (cases "c_queue c") (auto simp: drain_top_def intro: extends_same)
qed (auto simp: extends_event extends_drain_send user_defs intro: extends_same)

lemma extends_move: "conn_move K p c c' \<Longrightarrow> extends c c'"
  unfolding conn_move_def by (auto dest!: extends_step simp: extends_def)

lemma extends_checkout: "extends (checkout i S) c = extends (o_conn (si_objs S ! i)) c"
  by (simp add: extends_def checkout_def)

section \<open>The table and the count\<close>

definition erases :: "loop_task list \<Rightarrow> int list" where
  "erases ts = concat (map (\<lambda>t. case t of Erase fd \<Rightarrow> [fd] | _ \<Rightarrow> []) ts)"

lemma erases_simps [simp]:
  "erases [] = []" "erases (ts @ us) = erases ts @ erases us" "erases (Erase fd # ts) = fd # erases ts"
  "erases (Conn_task i c # ts) = erases ts" "erases (Accept_start # ts) = erases ts"
  "erases (Connect_start # ts) = erases ts" "erases (Listener_stop # ts) = erases ts"
  "erases (Serial_submit cb # ts) = erases ts" "erases (Timer_start d r cb # ts) = erases ts"
  "erases (Loop_stop # ts) = erases ts"
  by (simp_all add: erases_def)

lemma erases_conn [simp]: "erases (map (Conn_task i) cs) = []"
  by (induction cs) simp_all

definition unerased :: "'a conn_object list \<Rightarrow> nat" where
  "unerased obs = length (filter (\<lambda>ob. \<not> o_erased ob) obs)"

lemma unerased_simps [simp]:
  "unerased [] = 0" "unerased (obs @ [ob]) = unerased obs + (if o_erased ob then 0 else 1)"
  by (simp_all add: unerased_def)

lemma unerased_update:
  "i < length obs \<Longrightarrow> unerased (obs[i := ob]) + (if o_erased (obs ! i) then 0 else 1) = unerased obs + (if o_erased ob then 0 else 1)"
proof (induction obs arbitrary: i)
  case (Cons a obs)
  show ?case
  proof (cases i)
    case (Suc j)
    then show ?thesis using Cons.IH [of j] Cons.prems by (auto simp: unerased_def split: if_splits)
  qed (simp add: unerased_def)
qed simp

definition ran_close :: "'a conn_object \<Rightarrow> bool" where
  "ran_close ob \<longleftrightarrow> On_close \<in> set (take (o_ran ob) (c_callbacks (o_conn ob)))"

definition table :: "'a stream_impl \<Rightarrow> bool" where
  "table S \<longleftrightarrow> si_mode S = Listen_mode \<and> si_attempt S = None \<and> Connect_start \<notin> set (si_posted S)
     \<and> distinct (map fst (si_connections S)) \<and> (0 < si_max_conn S \<longrightarrow> length (si_connections S) \<le> si_max_conn S)
     \<and> (\<forall>ob \<in> set (si_objs S). o_erased ob \<longrightarrow> ran_close ob)
     \<and> (si_running S \<longrightarrow> si_count S = of_nat (unerased (si_objs S) + length (erases (si_posted S))))"

lemma table_cong:
  assumes "si_objs T = si_objs S" "si_connections T = si_connections S" "si_count T = si_count S"
    "si_max_conn T = si_max_conn S" "si_mode T = si_mode S" "si_attempt T = si_attempt S"
    "erases (si_posted T) = erases (si_posted S)" "Connect_start \<in> set (si_posted T) \<Longrightarrow> Connect_start \<in> set (si_posted S)"
    "si_running T \<Longrightarrow> si_running S"
  shows "table S \<Longrightarrow> table T"
  using assms by (auto simp: table_def)

lemma table_set_obj:
  assumes "table S" and "i < length (si_objs S)" and "o_erased (f (si_objs S ! i)) = o_erased (si_objs S ! i)"
    and "ran_close (si_objs S ! i) \<Longrightarrow> ran_close (f (si_objs S ! i))"
  shows "table (set_obj i f S)"
proof -
  have "unerased ((si_objs S)[i := f (si_objs S ! i)]) = unerased (si_objs S)"
    using unerased_update [OF assms(2), of "f (si_objs S ! i)"] assms(3) by (simp split: if_splits)
  moreover have "\<forall>ob \<in> set ((si_objs S)[i := f (si_objs S ! i)]). o_erased ob \<longrightarrow> ran_close ob"
    using assms by (intro ball_update) (simp_all add: table_def)
  ultimately show ?thesis using assms(1) by (simp add: table_def)
qed

lemma table_at_conn:
  assumes "table S" and "i < length (si_objs S)" and "extends (o_conn (si_objs S ! i)) (f (checkout i S))"
  shows "table (at_conn i f S)"
proof -
  have "table (S\<lparr>si_world := c_world (f (checkout i S)), si_posted := si_posted S @ map (Conn_task i) (c_posted (f (checkout i S)))\<rparr>)"
    using assms(1) by (rule table_cong [rotated 9]) auto
  then show ?thesis unfolding at_conn_def Let_def
    by (rule table_set_obj) (use assms(2,3) in \<open>auto simp: ran_close_def extends_def\<close>)
qed

lemma table_hook:
  assumes "table S" and "i < length (si_objs S)"
  shows "table (set_hook i h S)"
  unfolding set_hook_def by (rule table_set_obj [OF assms]) (simp_all add: ran_close_def)

text \<open>The close handler runs once, so the entry of a connection is erased once.\<close>

lemma close_runs_once:
  assumes "closing c" and "n < length (c_callbacks c)" and "c_callbacks c ! n = On_close"
  shows "On_close \<notin> set (take n (c_callbacks c))"
proof -
  obtain ds where "c_callbacks c = map On_data ds \<or> c_callbacks c = map On_data ds @ [On_close]"
    using assms(1) by (auto simp: closing_def)
  then show ?thesis using assms(2,3) by (auto simp: nth_append dest: in_set_takeD split: if_splits)
qed

lemma table_callback:
  assumes "table S" and "si_inv S" and "i < length (si_objs S)" and "o_ran (si_objs S ! i) < length (c_callbacks (o_conn (si_objs S ! i)))"
  shows "table (run_callback i S)"
proof -
  let ?ob = "si_objs S ! i"
  define S1 where "S1 = set_obj i (\<lambda>ob. ob\<lparr>o_ran := o_ran ob + 1\<rparr>) S"
  have 1: "table S1" unfolding S1_def
    by (rule table_set_obj [OF assms(1,3)]) (use assms(4) in \<open>auto simp: ran_close_def take_Suc_conv_app_nth\<close>)
  have S1: "length (si_objs S1) = length (si_objs S)" "si_objs S1 ! i = ?ob\<lparr>o_ran := o_ran ?ob + 1\<rparr>"
    "si_posted S1 = si_posted S" using assms(3) by (simp_all add: S1_def)
  have "table (run_hook i S1)" if close: "c_callbacks (o_conn ?ob) ! o_ran ?ob = On_close"
  proof -
    have "closing (o_conn ?ob)" using assms(2,3) by (auto simp: si_inv_def sound_def engine_inv_def)
    from close_runs_once [OF this assms(4) close] have "\<not> o_erased ?ob"
      using assms(1,3) by (auto simp: table_def ran_close_def)
    then have ne: "\<not> o_erased (si_objs S1 ! i)" using S1 by simp
    have ran: "ran_close (si_objs S1 ! i)" using assms(4) close S1 by (simp add: ran_close_def take_Suc_conv_app_nth)
    have E: "table (set_obj i (\<lambda>ob. ob\<lparr>o_erased := True\<rparr>) (S1\<lparr>si_posted := si_posted S1 @ [Erase fd]\<rparr>))" for fd
    proof -
      let ?o = "(si_objs S1 ! i)\<lparr>o_erased := True\<rparr>"
      have "unerased ((si_objs S1)[i := ?o]) + 1 = unerased (si_objs S1)"
        using unerased_update [of i "si_objs S1" ?o] ne assms(3) S1 by simp
      then have "unerased ((si_objs S1)[i := ?o]) + length (erases (si_posted S1 @ [Erase fd])) = unerased (si_objs S1) + length (erases (si_posted S1))"
        by simp
      moreover have "\<forall>ob \<in> set ((si_objs S1)[i := ?o]). o_erased ob \<longrightarrow> ran_close ob"
        using 1 ran by (intro ball_update) (simp_all add: table_def ran_close_def)
      ultimately show ?thesis using 1 by (simp add: table_def del: of_nat_add erases_simps)
    qed
    moreover have "table (S1\<lparr>si_connected := False\<rparr>)" using 1 by (rule table_cong [rotated 9]) auto
    ultimately show ?thesis using 1 by (simp add: run_hook_def split: close_hook.split)
  qed
  then show ?thesis using 1 by (simp add: run_callback_def Let_def S1_def split: callback.split)
qed

lemma table_end:
  assumes "table S" and "i < length (si_objs S)"
  shows "table (connect_end i fd S)"
proof -
  let ?T = "set_obj i (\<lambda>ob. ob\<lparr>o_phase := Running\<rparr>) (set_hook i (wrap_hook (si_mode S) fd (o_hook (si_objs S ! i))) S)"
  have "table ?T" by (rule table_set_obj [OF table_hook [OF assms]]) (use assms(2) in \<open>simp_all add: set_hook_def ran_close_def\<close>)
  then show ?thesis unfolding connect_end_def
    by (rule table_at_conn) (use assms(2) in \<open>simp_all add: set_hook_def start_reading_def extends_def checkout_def\<close>)
qed

lemma table_wrapper:
  assumes "table S" and "i < length (si_objs S)"
  shows "table (drop_wrapper i S)"
proof -
  let ?S = "set_obj i (\<lambda>ob. ob\<lparr>o_wrapper := False\<rparr>) S"
  have 1: "table ?S" by (rule table_set_obj [OF assms]) (simp_all add: ran_close_def)
  have "table (at_conn i (close_from_user False) ?S)"
    by (rule table_at_conn [OF 1]) (use assms(2) in \<open>simp_all add: close_from_user_def extends_def checkout_def\<close>)
  then show ?thesis using 1 by (simp add: drop_wrapper_def Let_def)
qed

lemma table_free:
  assumes "table S" and "i < length (si_objs S)"
  shows "table (free_object K p i S)"
proof -
  have "table (S\<lparr>si_world := w\<rparr>)" for w using assms(1) by (rule table_cong [rotated 9]) auto
  then show ?thesis unfolding free_object_def Let_def
    by (rule table_set_obj) (use assms(2) in \<open>simp_all add: ran_close_def\<close>)
qed

lemma table_listener: "table S \<Longrightarrow> table (stop_listener K p S)"
  by (rule table_cong) (auto simp: stop_listener_def split: prod.splits)

lemma table_destroy_begin: "table S \<Longrightarrow> table (destroy_begin K p S)"
proof -
  assume "table S"
  then have "table (if si_mode S = Listen_mode then stop_listener K p S else S)" using table_listener by auto
  then show ?thesis unfolding destroy_begin_def Let_def by (rule table_cong [rotated 9]) auto
qed

lemma table_begin:
  assumes "table S" and "i < length (si_objs S)"
  shows "table (connect_begin i fd (S\<lparr>si_pool := ts\<rparr>))"
proof -
  have "table (S\<lparr>si_pool := ts\<rparr>)" using assms(1) by (rule table_cong [rotated 9]) auto
  then show ?thesis unfolding connect_begin_def
    by (rule table_set_obj) (use assms(2) in \<open>simp_all add: ran_close_def\<close>)
qed

lemma user_step_table: "user_step K p S T \<Longrightarrow> si_inv S \<Longrightarrow> table S \<Longrightarrow> table T"
proof (induction rule: user_step.induct)
  case (us_on_connect S h)
  then show ?case by (cases "si_armed S") (auto simp: on_connect_def arm_def table_def)
next
  case (us_call i S op seen)
  then have "conn_move K p (checkout i S) (user_call seen op (checkout i S))" by (intro move_user) auto
  from extends_move [OF this] us_call show ?case by (intro table_at_conn) (simp_all add: in_use_def extends_checkout)
next
  case (us_connect_begin S xs i fd ys)
  then have "i < length (si_objs S)" by (intro si_inv_indices) (auto simp: indices_def)
  then show ?case using us_connect_begin by (intro table_begin)
next
  case (us_on_data i S fd h)
  then show ?case unfolding connection_on_data_def by (intro table_set_obj) (simp_all add: in_use_def ran_close_def)
qed (auto simp: in_use_def connection_on_close_def on_error_def do_pause_def do_resume_def do_post_def do_defer_def do_repeat_def
    intro!: table_hook table_end table_callback table_wrapper table_free table_destroy_begin
    elim!: table_cong [rotated 9])

lemma length_update: "length (AList.update k v al) = (if k \<in> fst ` set al then length al else Suc (length al))"
  by (induction al) auto

lemma table_erase:
  assumes "table S" and "si_posted S = Erase fd # ts"
  shows "table (erase_connection fd (S\<lparr>si_posted := ts\<rparr>))"
  using assms length_delete_le [of fd "si_connections S"]
  by (auto simp: table_def erase_connection_def distinct_delete)

lemma table_close_entries:
  assumes "table S" and "\<forall>e \<in> set es. snd e < length (si_objs S)"
  shows "table (close_entries K p es S)"
  using assms unfolding close_entries_def
proof (induction es arbitrary: S)
  case (Cons e es)
  have "table (at_conn (snd e) (initiate_close K p) S)"
    using Cons.prems extends_close [of "checkout (snd e) S" K p] by (intro table_at_conn) (simp_all add: extends_checkout)
  then show ?case unfolding foldl_Cons using Cons.prems(2) by (intro Cons.IH) simp_all
qed simp

lemma close_entries_fields [simp]:
  "si_mode (close_entries K p es S) = si_mode S" "si_running (close_entries K p es S) = si_running S"
  "si_connections (close_entries K p es S) = si_connections S" "length (si_objs (close_entries K p es S)) = length (si_objs S)"
  "si_listener (close_entries K p es S) = si_listener S" "si_attempt (close_entries K p es S) = si_attempt S"
  unfolding close_entries_def by (induction es arbitrary: S) simp_all

lemma table_exit:
  assumes "table S" and "si_inv S"
  shows "table (destroy_end K p (S\<lparr>si_running := False\<rparr>))"
proof -
  let ?S = "S\<lparr>si_running := False\<rparr>"
  have 1: "table ?S" using assms(1) by (rule table_cong [rotated 9]) auto
  have "\<forall>e \<in> set (si_connections S). snd e < length (si_objs S)"
    using assms(2) by (intro ballI si_inv_indices) (simp_all add: indices_def)
  then have "table (close_entries K p (si_connections S) ?S)" by (intro table_close_entries 1) simp
  moreover have "si_mode S = Listen_mode" using assms(1) by (simp add: table_def)
  ultimately show ?thesis by (simp add: destroy_end_def close_entries_def [symmetric] table_def)
qed

context stream_family
begin

lemma table_accepted:
  assumes "table S"
  shows "table (on_accepted F K p ok sock peer S)"
proof (cases "si_max_conn S > 0 \<and> length (si_connections S) \<ge> si_max_conn S")
  case True
  then show ?thesis using assms by (auto simp: on_accepted_def elim!: table_cong [rotated 9])
next
  case False
  let ?i = "length (si_objs S)"
  obtain lr w2 where l: "run_state (fm_local F sock) (final_world (set_non_blocking K p sock True) (si_world S)) = (lr, w2)"
    by (metis surj_pair)
  define S1 where "S1 = S\<lparr>si_world := w2, si_connections := AList.update (s_handle sock) ?i (si_connections S), si_count := si_count S + 1\<rparr>"
  let ?S = "\<lambda>b. S1\<lparr>si_objs := si_objs S1 @ [new_object sock peer (address_or (fm_default F) lr) b S1]\<rparr>"
  have S: "table (?S b)" for b
    using assms False by (auto simp: table_def S1_def distinct_update length_update new_object_def)
  have "table (pool_submit ok (Connect_task ?i (s_handle sock)) (?S True))"
    using S [of True] by (rule table_cong [rotated 9]) auto
  moreover have "table (at_conn ?i start_reading (set_hook ?i (Erase_hook (s_handle sock) False) (?S False)))"
    by (intro table_at_conn table_hook S) (simp_all add: S1_def set_hook_def start_reading_def extends_def checkout_def)
  ultimately show ?thesis
    unfolding on_accepted_def if_not_P [OF False] Let_def by (simp add: l S1_def [symmetric])
qed

lemma table_turn:
  assumes "table S"
  shows "table (accept_turn F K p ok pool_ok S)"
proof -
  obtain r w where a: "run_state (fm_accept F (si_listener S)) (si_world S) = (r, w)" by (metis surj_pair)
  show ?thesis
  proof (cases r)
    case (Inl ec)
    then show ?thesis using a assms by (auto simp: accept_turn_def Let_def elim!: table_cong [rotated 9])
  next
    case (Inr x)
    have "table (S\<lparr>si_world := w, si_backoff := 100\<rparr>)" using assms by (rule table_cong [rotated 9]) auto
    then show ?thesis using a Inr table_accepted by (cases x) (simp add: accept_turn_def)
  qed
qed

lemma table_task:
  assumes "table S" and "si_inv S" and "resting S" and "si_posted S = t # ts"
  shows "table (run_task F K p ok pool_ok tid t (S\<lparr>si_posted := ts\<rparr>))"
proof (cases "\<exists>fd. t = Erase fd")
  case True
  then show ?thesis using table_erase assms(1,4) by (auto simp: run_task_def)
next
  case False
  let ?S = "S\<lparr>si_posted := ts\<rparr>"
  have 1: "table ?S" using assms(1) by (rule table_cong [rotated 9]) (use assms(4) False in \<open>cases t; auto\<close>)+
  show ?thesis
  proof (cases t)
    case (Conn_task i c)
    then have i: "i < length (si_objs S)" using assms(2,4) by (intro si_inv_indices) (auto simp: indices_def)
    then have "conn_move K p (checkout i ?S) (run_posted K p ok c (checkout i ?S))"
      using assms(3) by (intro move_task) (auto simp: resting_def)
    from extends_move [OF this] i have "table (at_conn i (run_posted K p ok c) ?S)"
      by (intro table_at_conn [OF 1]) (simp_all add: extends_checkout)
    then show ?thesis by (simp add: run_task_def Conn_task)
  next
    case Connect_start
    then show ?thesis using assms(1,4) by (simp add: table_def)
  next
    case Listener_stop
    then show ?thesis using table_listener [OF 1] by (simp add: run_task_def)
  qed (use 1 False in \<open>auto simp: run_task_def accept_start_def timer_start_def elim!: table_cong [rotated 9]\<close>)
qed

lemma thread_step_table: "thread_step F K p S T \<Longrightarrow> si_inv S \<Longrightarrow> table S \<Longrightarrow> table T"
proof (induction rule: thread_step.induct)
  case (ts_task S t ts ok pool_ok tid)
  then show ?case by (intro table_task loop_idle_resting)
next
  case (ts_event S i ev)
  then show ?case using extends_event [of "checkout i S" K p ev] by (intro table_at_conn) (simp_all add: in_use_def extends_checkout)
next
  case (ts_drain_top i S ok)
  then have "conn_move K p (checkout i S) (drain_top ok (checkout i S))"
    by (intro move_step conn_step.loop_drain_top) simp_all
  from extends_move [OF this] ts_drain_top show ?case by (intro table_at_conn) (simp_all add: in_use_def extends_checkout)
next
  case (ts_drain_send i S chunk sent)
  then show ?case using extends_drain_send [of "checkout i S" K p chunk sent]
    by (intro table_at_conn) (simp_all add: in_use_def extends_checkout)
next
  case (ts_connect_timeout S A pool_ok)
  then show ?case by (simp add: table_def)
next
  case (ts_connect_ready S A pool_ok)
  then show ?case by (simp add: table_def)
next
  case (ts_exit S)
  then show ?case by (intro table_exit)
qed (auto simp: table_turn accept_rearm_def stream_timer_fire_def elim!: table_cong [rotated 9])

lemma start_table: "listening F S \<Longrightarrow> table S"
  using start_fields [of F S] by (simp add: table_def)

end

sublocale stream_family \<subseteq> tables: invariant_system "listening F" "si_step F K p" "\<lambda>S. si_inv S \<and> table S" for K p
  by unfold_locales
    (auto simp: si_step_def start_inv start_table intro: user_step_inv thread_step_inv user_step_table thread_step_table)

section \<open>Without reuse of a descriptor\<close>

text \<open>
  The entry of a connection is erased by descriptor, after the descriptor was closed. What follows
  assumes that no connection is accepted on a descriptor that still has an entry.
\<close>

definition fresh_step :: "'a family \<Rightarrow> kernel \<Rightarrow> platform \<Rightarrow> 'a stream_impl \<Rightarrow> 'a stream_impl \<Rightarrow> bool" where
  "fresh_step F K p S T \<longleftrightarrow> si_step F K p S T
     \<and> (length (si_objs S) < length (si_objs T) \<longrightarrow> o_fd (last (si_objs T)) \<notin> fst ` set (si_connections S))"

text \<open>The descriptor that a connection's tasks and close handler have captured is its own.\<close>

definition captured :: "'a stream_impl \<Rightarrow> bool" where
  "captured S \<longleftrightarrow>
     (\<forall>ob \<in> set (si_objs S). (\<forall>fd b. o_hook ob = Erase_hook fd b \<longrightarrow> fd = o_fd ob) \<and> (\<forall>fd. o_phase ob = In_connect fd \<longrightarrow> fd = o_fd ob))
     \<and> (\<forall>i fd. Connect_task i fd \<in> set (si_pool S) \<longrightarrow> fd = o_fd (si_objs S ! i))"

text \<open>
  The table holds exactly the connections whose erasure has not run; an erasure on its way to the loop
  belongs to one closed connection of the table.
\<close>

definition entries :: "'a stream_impl \<Rightarrow> bool" where
  "entries S \<longleftrightarrow>
     (\<forall>j < length (si_objs S). \<not> o_erased (si_objs S ! j) \<longrightarrow> (o_fd (si_objs S ! j), j) \<in> set (si_connections S))
     \<and> distinct (erases (si_posted S))
     \<and> (\<forall>fd \<in> set (erases (si_posted S)). \<exists>j. (fd, j) \<in> set (si_connections S) \<and> o_erased (si_objs S ! j))
     \<and> (\<forall>(fd, j) \<in> set (si_connections S). o_fd (si_objs S ! j) = fd \<and> (o_erased (si_objs S ! j) \<longrightarrow> fd \<in> set (erases (si_posted S))))
     \<and> si_count S = of_nat (length (si_connections S))"

definition shut :: "'a stream_impl \<Rightarrow> bool" where
  "shut S \<longleftrightarrow> \<not> is_open (l_socket (si_listener S)) \<and> (\<forall>ob \<in> set (si_objs S). \<not> is_open (c_socket (o_conn ob)))"

definition tracked :: "'a stream_impl \<Rightarrow> bool" where
  "tracked S \<longleftrightarrow> captured S \<and> (si_running S \<longrightarrow> entries S) \<and> (\<not> si_running S \<longrightarrow> shut S)
     \<and> (si_stopping S \<or> Loop_stop \<in> set (si_posted S) \<longrightarrow> \<not> is_open (l_socket (si_listener S)))"

lemma tracked_cong:
  assumes "si_objs T = si_objs S" "set (si_pool T) \<subseteq> set (si_pool S)" "si_connections T = si_connections S" "si_count T = si_count S"
    "erases (si_posted T) = erases (si_posted S)" "si_listener T = si_listener S" "si_running T = si_running S"
    "si_stopping T \<or> Loop_stop \<in> set (si_posted T) \<Longrightarrow> si_stopping S \<or> Loop_stop \<in> set (si_posted S)"
  shows "tracked S \<Longrightarrow> tracked T"
  using assms by (auto simp: tracked_def captured_def entries_def shut_def)

lemma nth_upd: "i < length xs \<Longrightarrow> xs[i := y] ! j = (if j = i then y else xs ! j)"
  by (cases "j < length xs") (auto simp: nth_list_update)

lemma captured_set_obj:
  assumes "captured S" and "i < length (si_objs S)" and "o_fd (f (si_objs S ! i)) = o_fd (si_objs S ! i)"
    and "\<And>fd b. o_hook (f (si_objs S ! i)) = Erase_hook fd b \<Longrightarrow> fd = o_fd (si_objs S ! i)"
    and "\<And>fd. o_phase (f (si_objs S ! i)) = In_connect fd \<Longrightarrow> fd = o_fd (si_objs S ! i)"
  shows "captured (set_obj i f S)"
proof -
  let ?obs = "(si_objs S)[i := f (si_objs S ! i)]"
  let ?P = "\<lambda>ob. (\<forall>fd b. o_hook ob = Erase_hook fd b \<longrightarrow> fd = o_fd ob) \<and> (\<forall>fd. o_phase ob = In_connect fd \<longrightarrow> fd = o_fd ob)"
  have "\<forall>ob \<in> set ?obs. ?P ob"
  proof (rule ball_update)
    show "\<forall>ob \<in> set (si_objs S). ?P ob" using assms(1) unfolding captured_def by (elim conjE)
  qed (unfold assms(3), intro conjI allI impI assms(4,5))
  moreover have "o_fd (?obs ! j) = o_fd (si_objs S ! j)" for j using assms(2,3) by (simp add: nth_upd)
  then have "\<forall>i fd. Connect_task i fd \<in> set (si_pool S) \<longrightarrow> fd = o_fd (?obs ! i)"
    using assms(1) unfolding captured_def by simp
  ultimately show ?thesis unfolding captured_def set_obj_fields by (rule conjI)
qed

lemma shut_set_obj:
  assumes "shut S" and "i < length (si_objs S)"
    and "\<not> is_open (c_socket (o_conn (si_objs S ! i))) \<Longrightarrow> \<not> is_open (c_socket (o_conn (f (si_objs S ! i))))"
  shows "shut (set_obj i f S)"
proof -
  have "\<forall>ob \<in> set ((si_objs S)[i := f (si_objs S ! i)]). \<not> is_open (c_socket (o_conn ob))"
    using assms by (intro ball_update) (simp_all add: shut_def)
  then show ?thesis using assms(1) by (simp add: shut_def)
qed

lemma set_obj_stopping [simp]: "si_stopping (set_obj i f S) = si_stopping S"
  by (simp add: set_obj_def)

lemma tracked_set_obj:
  assumes "tracked S" and "i < length (si_objs S)"
    and "o_erased (f (si_objs S ! i)) = o_erased (si_objs S ! i)" "o_fd (f (si_objs S ! i)) = o_fd (si_objs S ! i)"
    and "\<And>fd b. o_hook (f (si_objs S ! i)) = Erase_hook fd b \<Longrightarrow> fd = o_fd (si_objs S ! i)"
    and "\<And>fd. o_phase (f (si_objs S ! i)) = In_connect fd \<Longrightarrow> fd = o_fd (si_objs S ! i)"
    and "\<not> is_open (c_socket (o_conn (si_objs S ! i))) \<Longrightarrow> \<not> is_open (c_socket (o_conn (f (si_objs S ! i))))"
  shows "tracked (set_obj i f S)"
proof -
  let ?obs = "(si_objs S)[i := f (si_objs S ! i)]"
  have nth: "o_erased (?obs ! j) = o_erased (si_objs S ! j)" "o_fd (?obs ! j) = o_fd (si_objs S ! j)" for j
    using assms(2,3,4) by (simp_all add: nth_upd)
  have "entries (set_obj i f S) = entries S" unfolding entries_def set_obj_fields nth by simp
  moreover have "captured (set_obj i f S)"
    by (rule captured_set_obj [where f = f, OF _ assms(2,4,5,6)]) (use assms(1) in \<open>simp_all add: tracked_def\<close>)
  moreover have "shut (set_obj i f S)" if "shut S" by (rule shut_set_obj [where f = f, OF that assms(2,7)])
  ultimately show ?thesis using assms(1) by (simp add: tracked_def)
qed

lemma tracked_at_conn:
  assumes "tracked S" and "i < length (si_objs S)" and "extends (o_conn (si_objs S ! i)) (f (checkout i S))"
  shows "tracked (at_conn i f S)"
proof -
  let ?T = "S\<lparr>si_world := c_world (f (checkout i S)), si_posted := si_posted S @ map (Conn_task i) (c_posted (f (checkout i S)))\<rparr>"
  have 1: "tracked ?T" using assms(1) by (rule tracked_cong [rotated 8]) auto
  have ob: "si_objs S ! i \<in> set (si_objs S)" using assms(2) by simp
  show ?thesis unfolding at_conn_def Let_def
  proof (rule tracked_set_obj [OF 1])
    show "fd = o_fd (si_objs ?T ! i)" if "o_hook ((si_objs ?T ! i)\<lparr>o_conn := f (checkout i S)\<rparr>) = Erase_hook fd b" for fd b
      using assms(1) ob that unfolding tracked_def captured_def by simp
    show "fd = o_fd (si_objs ?T ! i)" if "o_phase ((si_objs ?T ! i)\<lparr>o_conn := f (checkout i S)\<rparr>) = In_connect fd" for fd
      using assms(1) ob that unfolding tracked_def captured_def by simp
  qed (use assms(2,3) in \<open>simp_all add: extends_def\<close>)
qed

lemma tracked_obj:
  assumes "tracked S" and "i < length (si_objs S)"
  shows "o_hook (si_objs S ! i) = Erase_hook fd b \<Longrightarrow> fd = o_fd (si_objs S ! i)"
    "o_phase (si_objs S ! i) = In_connect fd \<Longrightarrow> fd = o_fd (si_objs S ! i)"
proof -
  have "si_objs S ! i \<in> set (si_objs S)" using assms(2) by simp
  then show "o_hook (si_objs S ! i) = Erase_hook fd b \<Longrightarrow> fd = o_fd (si_objs S ! i)"
    "o_phase (si_objs S ! i) = In_connect fd \<Longrightarrow> fd = o_fd (si_objs S ! i)"
    using assms(1) unfolding tracked_def captured_def by blast+
qed

lemma tracked_hook:
  assumes "tracked S" and "i < length (si_objs S)" and "\<And>fd b. h = Erase_hook fd b \<Longrightarrow> fd = o_fd (si_objs S ! i)"
  shows "tracked (set_hook i h S)"
  unfolding set_hook_def
  by (rule tracked_set_obj [OF assms(1,2)]) (use assms(3) tracked_obj [OF assms(1,2)] in simp_all)

text \<open>The close handler posts the erasure of its own entry.\<close>

lemma entries_erase_posted:
  assumes "entries S" and "distinct (map fst (si_connections S))" and "i < length (si_objs S)" and "\<not> o_erased (si_objs S ! i)"
    and "fd = o_fd (si_objs S ! i)"
  shows "entries (set_obj i (\<lambda>ob. ob\<lparr>o_erased := True\<rparr>) (S\<lparr>si_posted := si_posted S @ [Erase fd]\<rparr>))"
proof -
  have here: "(fd, i) \<in> set (si_connections S)" using assms(1,3-5) by (auto simp: entries_def)
  have uniq: "j = i" if "(fd, j) \<in> set (si_connections S)" for j
    using assms(2) here that by (metis eq_key_imp_eq_value)
  have "fd \<notin> set (erases (si_posted S))"
  proof
    assume "fd \<in> set (erases (si_posted S))"
    then obtain j where "(fd, j) \<in> set (si_connections S)" "o_erased (si_objs S ! j)" using assms(1) unfolding entries_def by blast
    then show False using uniq assms(4) by blast
  qed
  then show ?thesis using assms(1,3,5) here by (auto simp: entries_def nth_upd split: if_splits)
qed

lemma set_delete: "set (AList.delete k al) = {e \<in> set al. fst e \<noteq> k}"
  by (induction al) auto

lemma length_delete: "k \<in> fst ` set al \<Longrightarrow> distinct (map fst al) \<Longrightarrow> Suc (length (AList.delete k al)) = length al"
  by (induction al) auto

text \<open>The erasure takes away the entry of its connection, and no other.\<close>

lemma entries_erase:
  assumes "entries S" and "distinct (map fst (si_connections S))" and "si_posted S = Erase fd # ts"
  shows "entries (erase_connection fd (S\<lparr>si_posted := ts\<rparr>))"
proof -
  obtain i where i: "(fd, i) \<in> set (si_connections S)" "o_erased (si_objs S ! i)"
    using assms(1,3) unfolding entries_def by auto
  have uniq: "j = i" if "(fd, j) \<in> set (si_connections S)" for j
    using assms(2) i(1) that by (metis eq_key_imp_eq_value)
  note del = set_delete [of fd "si_connections S"]
  have "fd \<in> fst ` set (si_connections S)" using i(1) by force
  from length_delete [OF this assms(2)] have len: "length (si_connections S) = Suc (length (AList.delete fd (si_connections S)))"
    by simp
  have "fd \<notin> set (erases ts)" "distinct (erases ts)" using assms(1,3) by (simp_all add: entries_def)
  moreover have "(o_fd (si_objs S ! j), j) \<in> set (AList.delete fd (si_connections S))"
    if "j < length (si_objs S)" "\<not> o_erased (si_objs S ! j)" for j
    using that assms(1) uniq i(2) unfolding entries_def del by auto
  ultimately show ?thesis
    using assms(1,3) len unfolding entries_def erase_connection_def
    by (auto simp: del split: prod.splits)
qed

lemma tracked_callback:
  assumes "tracked S" and "table S" and "si_inv S" and "i < length (si_objs S)"
    and "o_ran (si_objs S ! i) < length (c_callbacks (o_conn (si_objs S ! i)))"
  shows "tracked (run_callback i S)"
proof -
  let ?ob = "si_objs S ! i"
  define S1 where "S1 = set_obj i (\<lambda>ob. ob\<lparr>o_ran := o_ran ob + 1\<rparr>) S"
  have 1: "tracked S1" unfolding S1_def
    by (rule tracked_set_obj [OF assms(1,4)]) (use tracked_obj [OF assms(1,4)] in simp_all)
  have S1: "length (si_objs S1) = length (si_objs S)" "si_objs S1 ! i = ?ob\<lparr>o_ran := o_ran ?ob + 1\<rparr>"
    "si_connections S1 = si_connections S" using assms(4) by (simp_all add: S1_def)
  have "tracked (run_hook i S1)" if close: "c_callbacks (o_conn ?ob) ! o_ran ?ob = On_close"
  proof (cases "o_hook (si_objs S1 ! i)")
    case (Erase_hook fd b)
    have fd: "fd = o_fd (si_objs S1 ! i)" by (rule tracked_obj(1) [OF 1 _ Erase_hook]) (use assms(4) S1 in simp)
    have "closing (o_conn ?ob)" using assms(3,4) by (auto simp: si_inv_def sound_def engine_inv_def)
    from close_runs_once [OF this assms(5) close] have "\<not> o_erased ?ob"
      using assms(2,4) by (auto simp: table_def ran_close_def)
    then have ne: "\<not> o_erased (si_objs S1 ! i)" using S1 by simp
    let ?T = "set_obj i (\<lambda>ob. ob\<lparr>o_erased := True\<rparr>) (S1\<lparr>si_posted := si_posted S1 @ [Erase fd]\<rparr>)"
    have "entries ?T" if "si_running S1"
      by (rule entries_erase_posted) (use 1 that assms(2,4) S1 ne fd in \<open>simp_all add: tracked_def table_def\<close>)
    moreover have "captured ?T"
      by (rule captured_set_obj) (use 1 tracked_obj [OF 1, of i] assms(4) S1 in \<open>simp_all add: tracked_def captured_def\<close>)
    moreover have "shut ?T" if "shut S1"
      by (rule shut_set_obj) (use that assms(4) S1 in \<open>simp_all add: shut_def\<close>)
    ultimately have "tracked ?T" using 1 by (auto simp: tracked_def)
    then show ?thesis by (simp add: run_hook_def Erase_hook)
  qed (use 1 in \<open>auto simp: run_hook_def elim!: tracked_cong [rotated 8]\<close>)
  then show ?thesis using 1 by (simp add: run_callback_def Let_def S1_def split: callback.split)
qed

lemma tracked_end:
  assumes "tracked S" and "i < length (si_objs S)" and "o_phase (si_objs S ! i) = In_connect fd" and "si_mode S = Listen_mode"
  shows "tracked (connect_end i fd S)"
proof -
  let ?H = "set_hook i (wrap_hook (si_mode S) fd (o_hook (si_objs S ! i))) S"
  have 1: "tracked ?H" by (rule tracked_hook [OF assms(1,2)])
    (use assms(3,4) tracked_obj(2) [OF assms(1,2)] in \<open>auto simp: wrap_hook_def\<close>)
  have "tracked (set_obj i (\<lambda>ob. ob\<lparr>o_phase := Running\<rparr>) ?H)"
    by (rule tracked_set_obj [OF 1]) (use assms(2) tracked_obj(1) [OF 1, of i] in \<open>simp_all add: set_hook_def\<close>)
  then show ?thesis unfolding connect_end_def
    by (rule tracked_at_conn) (use assms(2) in \<open>simp_all add: set_hook_def start_reading_def extends_def checkout_def\<close>)
qed

lemma tracked_wrapper:
  assumes "tracked S" and "i < length (si_objs S)"
  shows "tracked (drop_wrapper i S)"
proof -
  let ?S = "set_obj i (\<lambda>ob. ob\<lparr>o_wrapper := False\<rparr>) S"
  have 1: "tracked ?S" by (rule tracked_set_obj [OF assms]) (use tracked_obj [OF assms] in simp_all)
  have "tracked (at_conn i (close_from_user False) ?S)"
    by (rule tracked_at_conn [OF 1]) (use assms(2) in \<open>simp_all add: close_from_user_def extends_def checkout_def\<close>)
  then show ?thesis using 1 by (simp add: drop_wrapper_def Let_def)
qed

lemma closed_default [simp]: "\<not> is_open socket_default"
  by (simp add: is_open_def socket_default_def socket_of_def)

lemma tracked_free:
  assumes "tracked S" and "i < length (si_objs S)"
  shows "tracked (free_object K p i S)"
proof -
  have 1: "tracked (S\<lparr>si_world := w\<rparr>)" for w using assms(1) by (rule tracked_cong [rotated 8]) auto
  show ?thesis unfolding free_object_def Let_def
    by (rule tracked_set_obj [OF 1]) (use tracked_obj [OF assms] assms(2) in simp_all)
qed

lemma listener_stopped:
  "\<not> is_open (l_socket (si_listener (stop_listener K p S)))"
  "si_objs (stop_listener K p S) = si_objs S" "si_pool (stop_listener K p S) = si_pool S" "si_connections (stop_listener K p S) = si_connections S"
  "si_count (stop_listener K p S) = si_count S" "si_posted (stop_listener K p S) = si_posted S" "si_running (stop_listener K p S) = si_running S"
  "si_stopping (stop_listener K p S) = si_stopping S" "si_mode (stop_listener K p S) = si_mode S"
  by (auto simp: stop_listener_def listener_stop_def socket_close_def io_simps is_open_def socket_default_def socket_of_def
      invalid_socket_def Let_def split: prod.splits)

lemma tracked_listener: "tracked S \<Longrightarrow> tracked (stop_listener K p S)"
  using listener_stopped [of K p S] by (auto simp: tracked_def captured_def entries_def shut_def)

lemma tracked_destroy_begin:
  assumes "tracked S" and "si_mode S = Listen_mode"
  shows "tracked (destroy_begin K p S)"
  using assms listener_stopped [of K p S]
  by (auto simp: destroy_begin_def Let_def tracked_def captured_def entries_def shut_def)

lemma tracked_begin:
  assumes "tracked S" and "i < length (si_objs S)" and "si_pool S = xs @ Connect_task i fd # ys"
  shows "tracked (connect_begin i fd (S\<lparr>si_pool := xs @ ys\<rparr>))"
proof -
  let ?S = "S\<lparr>si_pool := xs @ ys\<rparr>"
  have 1: "tracked ?S" using assms(1) by (rule tracked_cong [rotated 8]) (use assms(3) in auto)
  have "fd = o_fd (si_objs S ! i)" using assms(1,3) unfolding tracked_def captured_def by simp
  then show ?thesis unfolding connect_begin_def
    by (intro tracked_set_obj [OF 1]) (use assms(2) tracked_obj [OF 1, of i] in simp_all)
qed

lemma user_step_tracked: "user_step K p S T \<Longrightarrow> si_inv S \<Longrightarrow> table S \<Longrightarrow> tracked S \<Longrightarrow> tracked T"
proof (induction rule: user_step.induct)
  case (us_on_connect S h)
  then show ?case by (cases "si_armed S") (auto simp: on_connect_def arm_def tracked_def captured_def entries_def shut_def)
next
  case (us_call i S op seen)
  then have "conn_move K p (checkout i S) (user_call seen op (checkout i S))" by (intro move_user) auto
  from extends_move [OF this] us_call show ?case by (intro tracked_at_conn) (simp_all add: in_use_def extends_checkout)
next
  case (us_connect_begin S xs i fd ys)
  then have "i < length (si_objs S)" by (intro si_inv_indices) (auto simp: indices_def)
  then show ?case using us_connect_begin by (intro tracked_begin)
next
  case (us_on_data i S fd h)
  then show ?case unfolding connection_on_data_def
    by (intro tracked_set_obj) (use tracked_obj [OF us_on_data(5)] in \<open>simp_all add: in_use_def\<close>)
next
  case (us_on_close i S fd h)
  then show ?case unfolding connection_on_close_def by (intro tracked_hook) (auto simp: in_use_def split: if_splits)
next
  case (us_connect_end i S fd)
  then show ?case by (intro tracked_end) (simp_all add: in_use_def table_def)
next
  case (us_destroy S)
  then show ?case by (intro tracked_destroy_begin) (simp_all add: table_def)
qed (auto simp: in_use_def on_error_def do_pause_def do_resume_def do_post_def do_defer_def do_repeat_def
    intro!: tracked_callback tracked_wrapper tracked_free elim!: tracked_cong [rotated 8])

text \<open>Closing every entry closes every connection.\<close>

lemma close_entries_extends:
  assumes "\<forall>e \<in> set es. snd e < length (si_objs S)" and "i < length (si_objs S)"
  shows "extends (o_conn (si_objs S ! i)) (o_conn (si_objs (close_entries K p es S) ! i))
    \<and> (i \<in> snd ` set es \<longrightarrow> c_closed (o_conn (si_objs (close_entries K p es S) ! i)))"
  using assms
proof (induction es arbitrary: S)
  case Nil
  then show ?case by (simp add: close_entries_def extends_def)
next
  case (Cons e es)
  let ?S = "at_conn (snd e) (initiate_close K p) S"
  have IH: "extends (o_conn (si_objs ?S ! i)) (o_conn (si_objs (close_entries K p es ?S) ! i))
    \<and> (i \<in> snd ` set es \<longrightarrow> c_closed (o_conn (si_objs (close_entries K p es ?S) ! i)))"
    by (rule Cons.IH) (use Cons.prems in simp_all)
  have "extends (o_conn (si_objs S ! i)) (o_conn (si_objs ?S ! i)) \<and> (i = snd e \<longrightarrow> c_closed (o_conn (si_objs ?S ! i)))"
    using Cons.prems extends_close [of "checkout (snd e) S" K p]
    by (auto simp: nth_list_update extends_checkout extends_same)
  moreover have "close_entries K p (e # es) S = close_entries K p es ?S" by (simp add: close_entries_def)
  ultimately show ?case using IH extends_trans by (auto simp: extends_def)
qed

lemma captured_close_entries:
  assumes "captured S" and "\<forall>e \<in> set es. snd e < length (si_objs S)"
  shows "captured (close_entries K p es S)"
  using assms
proof (induction es arbitrary: S)
  case (Cons e es)
  let ?U = "at_conn (snd e) (initiate_close K p) S"
  have ob: "si_objs S ! snd e \<in> set (si_objs S)" using Cons.prems(2) by simp
  have "captured (S\<lparr>si_world := w, si_posted := ts\<rparr>)" for w ts using Cons.prems(1) by (simp add: captured_def)
  then have "captured ?U" unfolding at_conn_def Let_def
    by (rule captured_set_obj) (use Cons.prems ob in \<open>simp_all add: captured_def\<close>)
  then show ?case using Cons.IH [of ?U] Cons.prems(2) by (simp add: close_entries_def)
qed (simp add: close_entries_def)

lemma erased_closed:
  assumes "table S" and "si_inv S" and "i < length (si_objs S)" and "o_erased (si_objs S ! i)"
  shows "c_closed (o_conn (si_objs S ! i))"
proof -
  have "On_close \<in> set (c_callbacks (o_conn (si_objs S ! i)))"
    using assms(1,3,4) by (auto simp: table_def ran_close_def dest: in_set_takeD)
  moreover have "closing (o_conn (si_objs S ! i))" using assms(2,3) by (simp add: si_inv_def sound_def engine_inv_def)
  ultimately show ?thesis by (auto simp: closing_def)
qed

lemma table_indices: "si_inv S \<Longrightarrow> \<forall>e \<in> set (si_connections S). snd e < length (si_objs S)"
  by (intro ballI si_inv_indices) (simp_all add: indices_def)

lemma exit_closes:
  assumes "tracked S" and "table S" and "si_inv S" and "loop_idle S" and i: "i < length (si_objs S)"
  shows "\<not> is_open (c_socket (o_conn (si_objs (close_entries K p (si_connections S) (S\<lparr>si_running := False\<rparr>)) ! i)))"
proof -
  let ?S = "S\<lparr>si_running := False\<rparr>" and ?es = "si_connections S"
  let ?T = "close_entries K p ?es ?S"
  have idx: "\<forall>e \<in> set ?es. snd e < length (si_objs ?S)" using table_indices [OF assms(3)] by simp
  have "si_inv ?S" using assms(3) by (rule si_inv_quiet [rotated 8]) (auto simp: indices_def)
  from close_entries_inv [OF this _ idx, of K p] have "si_inv ?T"
    using assms(4) by (simp add: loop_idle_def resting_def)
  then have "closing (o_conn (si_objs ?T ! i))" using i by (simp add: si_inv_def sound_def engine_inv_def)
  moreover have "c_closed (o_conn (si_objs ?T ! i))"
  proof (cases "o_erased (si_objs S ! i)")
    case True
    from erased_closed [OF assms(2,3) i this] close_entries_extends [OF idx, of i K p] i show ?thesis
      by (simp add: extends_def)
  next
    case False
    then have "(o_fd (si_objs S ! i), i) \<in> set ?es" using assms(1,4) i by (simp add: tracked_def entries_def loop_idle_def)
    then have "i \<in> snd ` set ?es" by force
    then show ?thesis using close_entries_extends [OF idx, of i K p] i by simp
  qed
  ultimately show ?thesis by (simp add: closing_def)
qed

lemma tracked_exit:
  assumes "tracked S" and "table S" and "si_inv S" and "loop_idle S" and "si_stopping S"
  shows "tracked (destroy_end K p (S\<lparr>si_running := False\<rparr>))"
proof -
  let ?T = "close_entries K p (si_connections S) (S\<lparr>si_running := False\<rparr>)"
  have "captured (S\<lparr>si_running := False\<rparr>)" using assms(1) by (simp add: tracked_def captured_def)
  from captured_close_entries [OF this, of "si_connections S" K p] have "captured ?T"
    using table_indices [OF assms(3)] by simp
  then have "captured (?T\<lparr>si_connections := [], si_count := 0\<rparr>)" by (simp add: captured_def)
  moreover have "\<forall>ob \<in> set (si_objs ?T). \<not> is_open (c_socket (o_conn ob))"
  proof
    fix ob assume "ob \<in> set (si_objs ?T)"
    then obtain i where "i < length (si_objs S)" "ob = si_objs ?T ! i" by (auto simp: in_set_conv_nth)
    then show "\<not> is_open (c_socket (o_conn ob))" using exit_closes [OF assms(1-4)] by simp
  qed
  moreover have "\<not> is_open (l_socket (si_listener S))" using assms(1,5) by (simp add: tracked_def)
  moreover have "si_mode S = Listen_mode" using assms(2) by (simp add: table_def)
  ultimately show ?thesis
    by (simp add: destroy_end_def close_entries_def [symmetric] tracked_def shut_def)
qed

context stream_family
begin

text \<open>An accepted connection on a descriptor without an entry.\<close>

lemma tracked_new:
  assumes "tracked S" and "indices S \<subseteq> {..<length (si_objs S)}" and "s_handle sock \<notin> fst ` set (si_connections S)"
    and "si_running S" and T: "T = S\<lparr>si_world := w, si_connections := AList.update (s_handle sock) (length (si_objs S)) (si_connections S),
      si_count := si_count S + 1, si_objs := si_objs S @ [ob]\<rparr>"
    and ob: "o_fd ob = s_handle sock" "\<not> o_erased ob" "o_hook ob = No_hook" "\<And>fd. o_phase ob \<noteq> In_connect fd"
  shows "tracked T"
proof -
  have upd: "AList.update (s_handle sock) n al = al @ [(s_handle sock, n)]" if "s_handle sock \<notin> fst ` set al" for n :: nat and al
    using that by (induction al) auto
  have c: "snd e < length (si_objs S)" if "e \<in> set (si_connections S)" for e
    using assms(2) that by (auto simp: indices_def)
  have pool: "i < length (si_objs S)" if "Connect_task i fd \<in> set (si_pool S)" for i fd
    using assms(2) that by (auto simp: indices_def)
  have "captured T" using assms(1) ob pool unfolding tracked_def captured_def T by (auto simp: nth_append)
  moreover have "entries T"
  proof -
    have E: "entries S" using assms(1,4) by (simp add: tracked_def)
    have "\<exists>j. (fd, j) \<in> set (si_connections T) \<and> o_erased (si_objs T ! j)" if fd: "fd \<in> set (erases (si_posted S))" for fd
    proof -
      obtain j where j: "(fd, j) \<in> set (si_connections S)" "o_erased (si_objs S ! j)" using E fd unfolding entries_def by blast
      then show ?thesis using c [OF j(1)] unfolding T by (intro exI [of _ j]) (simp add: upd [OF assms(3)] nth_append)
    qed
    moreover have "o_fd (si_objs T ! j) = fd \<and> (o_erased (si_objs T ! j) \<longrightarrow> fd \<in> set (erases (si_posted S)))"
      if e: "(fd, j) \<in> set (si_connections T)" for fd j
    proof (cases "(fd, j) \<in> set (si_connections S)")
      case True
      then show ?thesis using E c [OF True] unfolding T entries_def by (auto simp: nth_append)
    next
      case False
      then show ?thesis using e ob unfolding T by (auto simp: upd [OF assms(3)])
    qed
    moreover have "(o_fd (si_objs T ! j), j) \<in> set (si_connections T)" if "j < length (si_objs T)" "\<not> o_erased (si_objs T ! j)" for j
      using that E ob(1) unfolding T entries_def by (auto simp: upd [OF assms(3)] nth_append less_Suc_eq)
    moreover have "si_posted T = si_posted S" by (simp add: T)
    moreover have "si_count T = of_nat (length (si_connections T))" "distinct (erases (si_posted S))"
      using E by (simp_all add: T upd [OF assms(3)] entries_def)
    ultimately show ?thesis unfolding entries_def by auto
  qed
  ultimately show ?thesis using assms(1,4) by (simp add: tracked_def T)
qed

lemma accepted_length:
  "length (si_objs (on_accepted F K p ok sock peer S)) =
     (if si_max_conn S > 0 \<and> length (si_connections S) \<ge> si_max_conn S then length (si_objs S) else Suc (length (si_objs S)))"
  by (auto simp: on_accepted_def Let_def set_hook_def split: prod.splits)

lemma tracked_accepted:
  assumes "tracked S" and "indices S \<subseteq> {..<length (si_objs S)}" and "si_running S"
    and fresh: "length (si_objs S) < length (si_objs (on_accepted F K p ok sock peer S)) \<Longrightarrow> s_handle sock \<notin> fst ` set (si_connections S)"
  shows "tracked (on_accepted F K p ok sock peer S)"
proof (cases "si_max_conn S > 0 \<and> length (si_connections S) \<ge> si_max_conn S")
  case True
  then show ?thesis using assms(1) by (auto simp: on_accepted_def elim!: tracked_cong [rotated 8])
next
  case False
  let ?i = "length (si_objs S)"
  have new: "s_handle sock \<notin> fst ` set (si_connections S)"
    by (rule fresh) (use accepted_length [of K p ok sock peer S] False in simp)
  obtain lr w2 where l: "run_state (fm_local F sock) (final_world (set_non_blocking K p sock True) (si_world S)) = (lr, w2)"
    by (metis surj_pair)
  define S1 where "S1 = S\<lparr>si_world := w2, si_connections := AList.update (s_handle sock) ?i (si_connections S), si_count := si_count S + 1\<rparr>"
  let ?ob = "\<lambda>b. new_object sock peer (address_or (fm_default F) lr) b S1"
  let ?S = "\<lambda>b. S1\<lparr>si_objs := si_objs S1 @ [?ob b]\<rparr>"
  have S: "tracked (?S b)" for b
    by (rule tracked_new [OF assms(1,2) new assms(3), where w = w2 and ob = "?ob b"]) (simp_all add: S1_def new_object_def)
  have "tracked (pool_submit ok (Connect_task ?i (s_handle sock)) (?S True))"
    using S [of True] by (auto simp: tracked_def captured_def entries_def shut_def S1_def new_object_def nth_append pool_submit_def)
  moreover have "tracked (at_conn ?i start_reading (set_hook ?i (Erase_hook (s_handle sock) False) (?S False)))"
    by (intro tracked_at_conn tracked_hook S)
      (simp_all add: S1_def set_hook_def start_reading_def extends_def checkout_def new_object_def)
  ultimately show ?thesis
    unfolding on_accepted_def if_not_P [OF False] Let_def by (simp add: l S1_def [symmetric])
qed

lemma accepted_last:
  assumes "length (si_objs S) < length (si_objs (on_accepted F K p ok sock peer S))"
  shows "o_fd (last (si_objs (on_accepted F K p ok sock peer S))) = s_handle sock"
proof -
  have "\<not> (si_max_conn S > 0 \<and> length (si_connections S) \<ge> si_max_conn S)"
    using assms accepted_length [of K p ok sock peer S] by (auto split: if_splits)
  then show ?thesis
    by (auto simp: on_accepted_def Let_def set_hook_def new_object_def split: prod.splits)
qed

lemma tracked_turn:
  assumes "tracked S" and "si_inv S" and "table S"
    and fresh: "length (si_objs S) < length (si_objs (accept_turn F K p ok pool_ok S)) \<Longrightarrow>
      o_fd (last (si_objs (accept_turn F K p ok pool_ok S))) \<notin> fst ` set (si_connections S)"
  shows "tracked (accept_turn F K p ok pool_ok S)"
proof -
  obtain r w where a: "run_state (fm_accept F (si_listener S)) (si_world S) = (r, w)" by (metis surj_pair)
  show ?thesis
  proof (cases r)
    case (Inl ec)
    have "tracked (S\<lparr>si_world := w, si_backoff := b, si_pc := q, si_listen_io := e\<rparr>)" for b q e
      using assms(1) by (rule tracked_cong [rotated 8]) auto
    then show ?thesis using a Inl assms(1)
      by (auto simp: accept_turn_def Let_def report_error_def pool_submit_def tracked_def captured_def entries_def shut_def)
  next
    case (Inr x)
    obtain sock peer where x: "x = (sock, peer)" by (cases x)
    let ?S = "S\<lparr>si_world := w, si_backoff := 100\<rparr>"
    have T: "accept_turn F K p ok pool_ok S = on_accepted F K p pool_ok sock peer ?S"
      using a Inr x by (simp add: accept_turn_def)
    have 1: "tracked ?S" using assms(1) by (rule tracked_cong [rotated 8]) auto
    have idx: "indices ?S \<subseteq> {..<length (si_objs ?S)}" using assms(2) by (simp add: si_inv_def sound_def indices_def)
    show ?thesis
    proof (cases "si_running S")
      case True
      then show ?thesis unfolding T using accepted_last [of ?S K p pool_ok sock peer] fresh
        by (intro tracked_accepted 1 idx) (simp_all add: T)
    next
      case False
      then have "\<not> is_open (l_socket (si_listener S))" using assms(1) by (simp add: tracked_def shut_def)
      from accept_open [OF this, of "si_world S"] a Inr show ?thesis by auto
    qed
  qed
qed

lemma tracked_task:
  assumes "tracked S" and "si_inv S" and "table S" and "loop_idle S" and "si_posted S = t # ts"
  shows "tracked (run_task F K p ok pool_ok tid t (S\<lparr>si_posted := ts\<rparr>))"
proof (cases "\<exists>fd. t = Erase fd")
  case True
  then obtain fd where t: "t = Erase fd" ..
  have run: "si_running S" using assms(4) by (simp add: loop_idle_def)
  have "entries (erase_connection fd (S\<lparr>si_posted := ts\<rparr>))"
    by (rule entries_erase) (use assms run t in \<open>simp_all add: tracked_def table_def\<close>)
  then show ?thesis using assms(1,5) run t by (auto simp: run_task_def tracked_def captured_def erase_connection_def)
next
  case False
  let ?S = "S\<lparr>si_posted := ts\<rparr>"
  have er: "erases ts = erases (si_posted S)" using assms(5) False by (cases t) auto
  have 1: "tracked ?S" using assms(1) by (rule tracked_cong [rotated 8]) (use assms(5) er in auto)
  show ?thesis
  proof (cases t)
    case (Conn_task i c)
    then have i: "i < length (si_objs S)" using assms(2,5) by (intro si_inv_indices) (auto simp: indices_def)
    then have "conn_move K p (checkout i ?S) (run_posted K p ok c (checkout i ?S))"
      using loop_idle_resting [OF assms(4)] by (intro move_task) (auto simp: resting_def)
    from extends_move [OF this] i have "tracked (at_conn i (run_posted K p ok c) ?S)"
      by (intro tracked_at_conn [OF 1]) (simp_all add: extends_checkout)
    then show ?thesis by (simp add: run_task_def Conn_task)
  next
    case Connect_start
    then show ?thesis using assms(3,5) by (simp add: table_def)
  next
    case Listener_stop
    then show ?thesis using tracked_listener [OF 1] by (simp add: run_task_def)
  next
    case Loop_stop
    then have "\<not> is_open (l_socket (si_listener S))" using assms(1,5) by (simp add: tracked_def)
    then show ?thesis using 1 Loop_stop by (simp add: run_task_def tracked_def captured_def entries_def shut_def)
  qed (use 1 False in \<open>auto simp: run_task_def accept_start_def timer_start_def elim!: tracked_cong [rotated 8]\<close>)
qed

lemma thread_step_tracked:
  "thread_step F K p S T \<Longrightarrow> (length (si_objs S) < length (si_objs T) \<longrightarrow> o_fd (last (si_objs T)) \<notin> fst ` set (si_connections S)) \<Longrightarrow>
   si_inv S \<Longrightarrow> table S \<Longrightarrow> tracked S \<Longrightarrow> tracked T"
proof (induction rule: thread_step.induct)
  case (ts_task S t ts ok pool_ok tid)
  then show ?case by (intro tracked_task)
next
  case (ts_event S i ev)
  then show ?case using extends_event [of "checkout i S" K p ev] by (intro tracked_at_conn) (simp_all add: in_use_def extends_checkout)
next
  case (ts_drain_top i S ok)
  then have "conn_move K p (checkout i S) (drain_top ok (checkout i S))"
    by (intro move_step conn_step.loop_drain_top) simp_all
  from extends_move [OF this] ts_drain_top show ?case by (intro tracked_at_conn) (simp_all add: in_use_def extends_checkout)
next
  case (ts_drain_send i S chunk sent)
  then show ?case using extends_drain_send [of "checkout i S" K p chunk sent]
    by (intro tracked_at_conn) (simp_all add: in_use_def extends_checkout)
next
  case (ts_accept S ok pool_ok)
  then show ?case by (intro tracked_turn) auto
next
  case (ts_connect_timeout S A pool_ok)
  then show ?case by (simp add: table_def)
next
  case (ts_connect_ready S A pool_ok)
  then show ?case by (simp add: table_def)
next
  case (ts_exit S)
  then show ?case by (intro tracked_exit)
qed (auto simp: accept_rearm_def stream_timer_fire_def elim!: tracked_cong [rotated 8])

lemma start_tracked: "listening F S \<Longrightarrow> tracked S"
  using start_fields [of F S] by (simp add: tracked_def captured_def entries_def)

end

sublocale stream_family \<subseteq> fresh: invariant_system "listening F" "fresh_step F K p" "\<lambda>S. si_inv S \<and> table S \<and> tracked S" for K p
  by unfold_locales
    (auto simp: fresh_step_def si_step_def start_inv start_table start_tracked
      intro: user_step_inv thread_step_inv user_step_table thread_step_table user_step_tracked thread_step_tracked)

lemma conns_owned_closed: "\<forall>ob \<in> set obs. s_handle (c_socket (o_conn ob)) = invalid_socket \<Longrightarrow> conns_owned obs = {#}"
  by (induction obs) (auto simp: conns_owned_def owned_def is_open_def)

end
