(* ===== verification/Stream_Props.thy ===== *)
theory Stream_Props
  imports Stream_Table
begin

text \<open>
  The guarantees of streams, for the IPv4 instance, with concrete runs that meet their hypotheses.
\<close>

section \<open>A concrete server\<close>

text \<open>A system that gives out descriptor 3 for the listener and 7 for a connection, when 7 is free.\<close>

definition serving_kernel :: kernel where
  "serving_kernel tr c = (case c of
       Sys_socket _ _ _ \<Rightarrow> sys_ok\<lparr>sr_rc := 3\<rparr>
     | Sys_accept _ _ \<Rightarrow> if 7 \<in># live_fds tr then sys_fail 11 else sys_ok\<lparr>sr_rc := 7\<rparr>
     | _ \<Rightarrow> sys_ok)"

definition example_config :: stream_listen_config where
  "example_config = \<lparr>lc_max_write_buffer = 64, lc_read_buffer_size = 4, lc_sock_opts = socket_options_default,
     lc_backlog = 128, lc_max_connections = 2\<rparr>"

abbreviation serving :: "inet4_address family" where
  "serving \<equiv> stream4 serving_kernel Linux"

abbreviation serve_step :: "inet4_address stream_impl \<Rightarrow> inet4_address stream_impl \<Rightarrow> bool" where
  "serve_step \<equiv> si_step serving serving_kernel Linux"

definition served :: "inet4_address stream_impl" where
  "served = snd (do_listen serving (inet4_default Linux) example_config (stream_new serving start_world))"

lemma served_open:
  "\<exists>w. run_state (tcp4_listener_open serving_kernel Linux tcp_listener_default (inet4_default Linux) 128 socket_options_default) start_world
     = ((void_ok, tcp_listener_default\<lparr>l_socket := socket_of 3\<rparr>), w)"
  by (auto simp: tcp4_listener_open_def listener_open_def listener_configure_def socket_create_def apply_to_def
      apply_entries_def query_buf_def socket_options_default_def io_simps serving_kernel_def sys_ok_def
      invalid_socket_def socket_move_assign_def socket_move_def socket_close_def socket_of_def
      reuse_policy_def socket_bind_def tcp_listener_default_def socket_default_def Let_def void_ok_def is_ok_def no_error_def
      split: prod.splits)

lemma served_eq:
  "\<exists>w. served = (stream_new serving w)\<lparr>si_mode := Listen_mode, si_max_write_buf := 64, si_read_buf_size := 4, si_max_conn := 2,
     si_sock_opts := socket_options_default, si_backlog := 128, si_listener := tcp_listener_default\<lparr>l_socket := socket_of 3\<rparr>,
     si_running := True\<rparr> \<and> listening serving served"
proof -
  obtain w where o: "run_state (tcp4_listener_open serving_kernel Linux tcp_listener_default (inet4_default Linux) 128 socket_options_default) start_world
     = ((void_ok, tcp_listener_default\<lparr>l_socket := socket_of 3\<rparr>), w)" using served_open by blast
  have d: "do_listen serving (inet4_default Linux) example_config (stream_new serving start_world) = (void_ok, served)"
    and e: "served = (stream_new serving w)\<lparr>si_mode := Listen_mode, si_max_write_buf := 64, si_read_buf_size := 4, si_max_conn := 2,
      si_sock_opts := socket_options_default, si_backlog := 128, si_listener := tcp_listener_default\<lparr>l_socket := socket_of 3\<rparr>,
      si_running := True\<rparr>"
    using o by (simp_all add: served_def do_listen_def stream_new_def example_config_def stream4_def Let_def is_ok_def void_ok_def no_error_def)
  have "listening serving served"
    unfolding listening_def using d
    by (intro exI [of _ "inet4_default Linux"] exI [of _ example_config] exI [of _ start_world])
      (auto simp: start_world_def example_config_def is_ok_def void_ok_def no_error_def)
  with e show ?thesis by blast
qed

lemma served_fields:
  "si_listener served = tcp_listener_default\<lparr>l_socket := socket_of 3\<rparr>" "si_mode served = Listen_mode" "si_armed served = False"
  "si_running served" "si_pc served = Si_idle" "si_objs served = []" "si_posted served = []" "si_pool served = []"
  "si_max_conn served = 2" "si_connections served = []" "si_count served = 0" "si_attempt served = None"
proof -
  obtain w where e: "served = (stream_new serving w)\<lparr>si_mode := Listen_mode, si_max_write_buf := 64, si_read_buf_size := 4, si_max_conn := 2,
      si_sock_opts := socket_options_default, si_backlog := 128, si_listener := tcp_listener_default\<lparr>l_socket := socket_of 3\<rparr>,
      si_running := True\<rparr>" using served_eq by blast
  show "si_listener served = tcp_listener_default\<lparr>l_socket := socket_of 3\<rparr>" "si_mode served = Listen_mode" "si_armed served = False"
    "si_running served" "si_pc served = Si_idle" "si_objs served = []" "si_posted served = []" "si_pool served = []"
    "si_max_conn served = 2" "si_connections served = []" "si_count served = 0" "si_attempt served = None"
    by (simp_all add: e) (simp_all add: stream_new_def)
qed

lemma served_listening: "listening serving served"
  using served_eq by blast

lemma served_world: "live (si_world served) = {#3#}" "clean (trace (si_world served))"
  using tcp4.start_inv [of serving_kernel Linux served] served_listening
  by (simp_all add: si_inv_def sound_def accounts_def served_fields attempt_owned_def owned_def socket_of_def invalid_socket_def)

text \<open>A connection is accepted and its connect callback is queued.\<close>

definition armed_server :: "inet4_address stream_impl" where
  "armed_server = on_connect True served"

definition accepting_server :: "inet4_address stream_impl" where
  "accepting_server = (run_task serving serving_kernel Linux True True 0 Accept_start (armed_server\<lparr>si_posted := []\<rparr>))\<lparr>si_pc := Si_accepting\<rparr>"

definition busy_server :: "inet4_address stream_impl" where
  "busy_server = accept_turn serving serving_kernel Linux True True accepting_server"

lemma step_user: "user_step serving_kernel Linux S T \<Longrightarrow> serve_step S T"
  by (simp add: si_step_def)

lemma step_thread: "thread_step serving serving_kernel Linux S T \<Longrightarrow> serve_step S T"
  by (simp add: si_step_def)

lemma is_open_3: "is_open (socket_of 3)" "is_open (socket_of 7)"
  by (simp_all add: is_open_def socket_of_def invalid_socket_def)

lemma has_readable: "has_event ev_readable ev_readable"
  by (simp add: has_event_def io_and_def ev_readable_def ev_none_def)

lemma accepting_reached: "serve_step\<^sup>*\<^sup>* served accepting_server"
proof -
  have 1: "serve_step served armed_server" unfolding armed_server_def by (intro step_user user_step.us_on_connect)
  have p: "si_posted armed_server = [Accept_start]" "loop_idle armed_server"
    by (simp_all add: armed_server_def on_connect_def arm_def served_fields loop_idle_def)
  let ?S = "run_task serving serving_kernel Linux True True 0 Accept_start (armed_server\<lparr>si_posted := []\<rparr>)"
  have 2: "serve_step armed_server ?S" by (intro step_thread thread_step.ts_task p)
  have "loop_idle ?S" "si_listen_io ?S = Some ev_readable"
    by (simp_all add: run_task_def accept_start_def armed_server_def on_connect_def arm_def served_fields loop_idle_def is_open_3)
  then have 3: "serve_step ?S accepting_server" unfolding accepting_server_def
    by (intro step_thread thread_step.ts_listen_event [where ev = ev_readable]) (simp_all add: has_readable)
  show ?thesis using 1 2 3 by (meson rtranclp.rtrancl_into_rtrancl rtranclp.rtrancl_refl)
qed

lemma accepting_fields:
  "si_world accepting_server = si_world served" "si_listener accepting_server = tcp_listener_default\<lparr>l_socket := socket_of 3\<rparr>"
  "si_max_conn accepting_server = 2" "si_connections accepting_server = []" "si_on_connect accepting_server" "si_objs accepting_server = []"
  "si_pc accepting_server = Si_accepting" "si_pool accepting_server = []"
  by (simp_all add: accepting_server_def run_task_def accept_start_def armed_server_def on_connect_def arm_def served_fields)

lemma serving_accept:
  "\<exists>a w. run_state (fm_accept serving (tcp_listener_default\<lparr>l_socket := socket_of 3\<rparr>)) (si_world served) = (Inr (socket_of 7, a), w)"
  using served_world(1)
  by (auto simp: stream4_def tcp4_accept_def accept_raw_peer_def accept_conn_def is_open_3 io_simps serving_kernel_def sys_ok_def
      tcp_listener_default_def)

lemma busy_fields:
  "length (si_objs busy_server) = 1" "o_phase (si_objs busy_server ! 0) = Fresh" "si_connections busy_server = [(7, 0)]"
  "connects (si_pool busy_server) = [0]"
proof -
  obtain a w where r: "run_state (fm_accept serving (tcp_listener_default\<lparr>l_socket := socket_of 3\<rparr>)) (si_world served) = (Inr (socket_of 7, a), w)"
    using serving_accept by blast
  have b: "busy_server = on_accepted serving serving_kernel Linux True (socket_of 7) a (accepting_server\<lparr>si_world := w, si_backoff := 100\<rparr>)"
    using r by (simp add: busy_server_def accept_turn_def accepting_fields)
  show "length (si_objs busy_server) = 1" "o_phase (si_objs busy_server ! 0) = Fresh" "si_connections busy_server = [(7, 0)]"
    "connects (si_pool busy_server) = [0]"
    by (simp_all add: b on_accepted_def accepting_fields Let_def new_object_def socket_of_def case_prod_unfold)
qed

lemma busy_reached: "serve_step\<^sup>*\<^sup>* served busy_server"
  by (rule rtranclp.rtrancl_into_rtrancl [OF accepting_reached])
    (unfold busy_server_def, intro step_thread thread_step.ts_accept, simp add: accepting_fields)

lemma serving_reachable:
  "serve_step\<^sup>*\<^sup>* served S \<Longrightarrow> reachable (\<lambda>S. listening serving S \<or> connecting serving S) serve_step S"
  "serve_step\<^sup>*\<^sup>* served S \<Longrightarrow> reachable (listening serving) serve_step S"
  by (erule reachable_steps, rule reachable.reach_init, simp add: served_listening)+

section \<open>Properties\<close>

text \<open>
  C5: a stream accounts for its descriptors under every interleaving of the loop, the pool and the
  user: the open descriptors are exactly those of the listener, of the connection objects and of a
  connect in progress, and none was ever closed twice.
\<close>

theorem stream_accounts:
  assumes "reachable (\<lambda>S. listening (stream4 K p) S \<or> connecting (stream4 K p) S) (si_step (stream4 K p) K p) S"
  shows "live (si_world S) = listener_owned (si_listener S) + conns_owned (si_objs S) + attempt_owned S
    \<and> clean (trace (si_world S))"
  using tcp4.streams.reachable_inv [OF assms] by (simp add: si_inv_def sound_def accounts_def)


theorem stream_accounts_witness:
  "live (si_world busy_server) = listener_owned (si_listener busy_server) + conns_owned (si_objs busy_server) + attempt_owned busy_server
    \<and> length (si_objs busy_server) = 1"
  using stream_accounts [OF serving_reachable(1) [OF busy_reached]] busy_fields(1) by blast

text \<open>
  C8: no data reaches the user before \<open>on_connect\<close> has returned. Under every interleaving, as long as
  the connect callback of a connection is queued or running, its socket is not registered with the
  dispatcher, no byte has been read and no \<open>on_data\<close> is in its serial queue; and the callback of a
  connection is queued at most once.
\<close>

theorem stream_connect_first:
  assumes "reachable (\<lambda>S. listening (stream4 K p) S \<or> connecting (stream4 K p) S) (si_step (stream4 K p) K p) S"
    and "i < length (si_objs S)" and "o_phase (si_objs S ! i) \<noteq> Running"
  shows "c_interest (o_conn (si_objs S ! i)) = None \<and> c_received (o_conn (si_objs S ! i)) = []
    \<and> (\<forall>d. On_data d \<notin> set (c_callbacks (o_conn (si_objs S ! i)))) \<and> distinct (connects (si_pool S))"
  using tcp4.order.reachable_inv [OF assms(1)] assms(2,3) by (simp add: ordered_def unread_def)


theorem stream_connect_first_witness:
  "c_interest (o_conn (si_objs busy_server ! 0)) = None \<and> c_received (o_conn (si_objs busy_server ! 0)) = []
    \<and> connects (si_pool busy_server) = [0]"
  using stream_connect_first [OF serving_reachable(1) [OF busy_reached], of 0] busy_fields by simp




text \<open>
  C7: as long as no connection is accepted on a descriptor that still has a table entry, the table
  follows the connections: every connection that is not closed has its entry, \<open>connection_count\<close> is the
  number of entries, and once the stream is destroyed no descriptor of it is open.
\<close>

theorem stream_destroy_releases:
  assumes "reachable (listening (stream4 K p)) (fresh_step (stream4 K p) K p) S"
  shows "(si_running S \<longrightarrow> si_count S = of_nat (length (si_connections S))
      \<and> (\<forall>i < length (si_objs S). \<not> c_closed (o_conn (si_objs S ! i)) \<longrightarrow> (o_fd (si_objs S ! i), i) \<in> set (si_connections S)))
    \<and> (\<not> si_running S \<longrightarrow> live (si_world S) = {#})"
proof -
  have inv: "si_inv S" "table S" "tracked S" using tcp4.fresh.reachable_inv [OF assms] by auto
  have "live (si_world S) = {#}" if "\<not> si_running S"
  proof -
    have "shut S" using inv(3) that by (simp add: tracked_def)
    then have "conns_owned (si_objs S) = {#}" "listener_owned (si_listener S) = {#}"
      by (simp_all add: shut_def conns_owned_closed owned_def is_open_def)
    moreover have "attempt_owned S = {#}" using inv(2) by (simp add: table_def attempt_owned_def)
    ultimately show ?thesis using inv(1) by (simp add: si_inv_def sound_def accounts_def)
  qed
  then show ?thesis using inv erased_closed [OF inv(2,1)] by (auto simp: tracked_def entries_def)
qed

definition gone_server :: "inet4_address stream_impl" where
  "gone_server = destroy_end serving_kernel Linux ((destroy_begin serving_kernel Linux served)\<lparr>si_running := False\<rparr>)"

theorem stream_destroy_releases_witness:
  "live (si_world served) = {#3#} \<and> live (si_world gone_server) = {#}"
proof -
  let ?S = "destroy_begin serving_kernel Linux served" and ?f = "fresh_step serving serving_kernel Linux"
  note st = listener_stopped [of serving_kernel Linux served]
  have f: "si_objs ?S = []" "si_running ?S" "si_stopping ?S" "si_mode ?S = Listen_mode" "si_connections ?S = []"
    using st by (simp_all add: destroy_begin_def Let_def served_fields)
  have "si_pc ?S = Si_idle"
    by (simp add: destroy_begin_def stop_listener_def served_fields Let_def case_prod_unfold)
  then have "thread_step serving serving_kernel Linux ?S gone_server"
    unfolding gone_server_def using f by (intro thread_step.ts_exit) (simp_all add: loop_idle_def)
  moreover have "user_step serving_kernel Linux served ?S" by (rule user_step.us_destroy)
  moreover have "si_objs gone_server = []" "\<not> si_running gone_server" using f by (simp_all add: gone_server_def destroy_end_def)
  ultimately have "?f served ?S" "?f ?S gone_server" using f by (simp_all add: fresh_step_def si_step_def served_fields)
  then have "reachable (listening serving) ?f gone_server"
    by (intro reachable.reach_step [OF reachable.reach_step [OF reachable.reach_init [of "listening serving"]]]) (rule served_listening)
  from stream_destroy_releases [OF this] show ?thesis
    using \<open>\<not> si_running gone_server\<close> served_world by simp
qed

text \<open>
  C6: every connection of a stream keeps the guarantees of the connection engine, however the loop
  interleaves the connections, the accept loop and the posts: the bytes handed to the system are a
  prefix of the bytes accepted from the user, on an open connection the rest is in the drain loop and
  the write queue, the size of the queue is exact and at most twice the limit, and a closed connection
  has no socket, no registration, and one \<open>on_close\<close> at most, as its last callback.
\<close>

theorem stream_connections_engine:
  assumes "reachable (\<lambda>S. listening (stream4 K p) S \<or> connecting (stream4 K p) S) (si_step (stream4 K p) K p) S"
    and "ob \<in> set (si_objs S)" and "c = o_conn ob"
  shows "(\<exists>rest. c_accepted c = c_sent c @ rest)
    \<and> (\<not> c_closed c \<longrightarrow> c_accepted c = c_sent c @ inflight (c_pc c) @ concat (c_queue c))
    \<and> unat (c_queue_bytes c) = sum_list (map length (c_queue c)) \<and> unat (c_queue_bytes c) \<le> 2 * unat (c_max c)
    \<and> (c_closed c \<longrightarrow> c_interest c = None \<and> \<not> is_open (c_socket c))
    \<and> (\<exists>ds. c_callbacks c = map On_data ds \<or> c_closed c \<and> c_callbacks c = map On_data ds @ [On_close])"
proof -
  have "engine_inv c" using tcp4.streams.reachable_inv [OF assms(1)] assms(2,3) by (simp add: si_inv_def sound_def)
  then have "stream_inv c" "acct_inv c" "closing c" by (simp_all add: engine_inv_def)
  moreover from \<open>stream_inv c\<close> have "\<exists>rest. c_accepted c = c_sent c @ rest" by (auto simp: stream_inv_def split: if_splits)
  moreover from \<open>acct_inv c\<close> have "unat (c_queue_bytes c) = sum_list (map length (c_queue c))" "unat (c_queue_bytes c) \<le> 2 * unat (c_max c)"
    by (simp add: acct_inv_def, rule acct_bound)
  ultimately show ?thesis by (simp add: stream_inv_def closing_def)
qed

theorem stream_connections_engine_witness:
  "\<exists>c. c = o_conn (si_objs busy_server ! 0) \<and> unat (c_queue_bytes c) = sum_list (map length (c_queue c))
     \<and> (\<exists>rest. c_accepted c = c_sent c @ rest)"
  using stream_connections_engine [OF serving_reachable(1) [OF busy_reached], of "si_objs busy_server ! 0", OF _ refl] busy_fields(1)
  by simp

section \<open>Pausing a server\<close>

lemma user_step_dead:
  assumes "user_step K p S T" and "\<not> is_open (l_socket (si_listener S))"
  shows "\<not> is_open (l_socket (si_listener T)) \<and> length (si_objs T) = length (si_objs S)"
  using assms
  by (induction rule: user_step.induct)
    (auto simp: on_connect_def arm_def on_error_def do_pause_def do_resume_def do_post_def do_defer_def do_repeat_def
      destroy_begin_def Let_def listener_stopped connect_begin_def connection_on_data_def connection_on_close_def set_hook_def
      connect_end_def run_callback_def run_hook_def drop_wrapper_def free_object_def split: callback.splits close_hook.splits)

context stream_family
begin

lemma run_task_dead:
  assumes "\<not> is_open (l_socket (si_listener S))" and "t \<noteq> Connect_start"
  shows "\<not> is_open (l_socket (si_listener (run_task F K p ok pool_ok tid t S)))
    \<and> length (si_objs (run_task F K p ok pool_ok tid t S)) = length (si_objs S)"
  using assms by (cases t) (simp_all add: run_task_def accept_start_def listener_stopped erase_connection_def timer_start_def)

lemma thread_step_dead:
  assumes "thread_step F K p S T" and "table S" and "\<not> is_open (l_socket (si_listener S))"
  shows "\<not> is_open (l_socket (si_listener T)) \<and> length (si_objs T) = length (si_objs S)"
  using assms
proof (induction rule: thread_step.induct)
  case (ts_task S t ts ok pool_ok tid)
  then show ?case using run_task_dead [of "S\<lparr>si_posted := ts\<rparr>" t] by (auto simp: table_def)
next
  case (ts_accept S ok pool_ok)
  obtain r w where a: "run_state (fm_accept F (si_listener S)) (si_world S) = (r, w)" by (metis surj_pair)
  with accept_open [OF ts_accept(3), of "si_world S"] obtain ec where "r = Inl ec" by auto
  with a ts_accept show ?case by (simp add: accept_turn_def Let_def)
next
  case (ts_exit S)
  then have m: "si_mode S = Listen_mode" by (simp add: table_def)
  show ?case using m ts_exit(4) by (simp add: destroy_end_def close_entries_def [symmetric])
qed (simp_all add: accept_rearm_def stream_timer_fire_def table_def split: prod.splits)

lemma steps_dead:
  assumes "(si_step F K p)\<^sup>*\<^sup>* S T" and "si_inv S \<and> table S" and "\<not> is_open (l_socket (si_listener S))"
  shows "\<not> is_open (l_socket (si_listener T)) \<and> length (si_objs T) = length (si_objs S)"
  using assms(1)
proof (induction rule: rtranclp_induct)
  case (step T U)
  have "si_inv T \<and> table T" using step(1) assms(2) by (rule tables.steps_inv)
  then show ?case using step(2,3) user_step_dead [of K p T U] thread_step_dead [of K p T U] by (auto simp: si_step_def)
qed (use assms(3) in simp)

end

text \<open>
  Pausing a server is final. Once the task that \<open>pause\<close> posts has closed the listener, no run from
  there, with any number of calls of \<open>resume\<close>, ever accepts another connection.
\<close>

theorem stream_pause_is_final:
  assumes "reachable (listening (stream4 K p)) (si_step (stream4 K p) K p) S"
    and "\<not> is_open (l_socket (si_listener S))" and "(si_step (stream4 K p) K p)\<^sup>*\<^sup>* S T"
  shows "length (si_objs T) = length (si_objs S) \<and> \<not> is_open (l_socket (si_listener T))"
  using tcp4.steps_dead [OF assms(3) tcp4.tables.reachable_inv [OF assms(1)] assms(2)] by simp

definition paused_server :: "inet4_address stream_impl" where
  "paused_server = stop_listener serving_kernel Linux
     ((accept_start True ((do_pause armed_server)\<lparr>si_posted := [Listener_stop]\<rparr>))\<lparr>si_posted := []\<rparr>)"

lemma paused_reached: "serve_step\<^sup>*\<^sup>* served paused_server"
proof -
  let ?P = "do_pause armed_server"
  let ?Q = "run_task serving serving_kernel Linux True True 0 Accept_start (?P\<lparr>si_posted := [Listener_stop]\<rparr>)"
  have 1: "serve_step served armed_server" unfolding armed_server_def by (intro step_user user_step.us_on_connect)
  have 2: "serve_step armed_server ?P" by (intro step_user user_step.us_pause)
  have "si_posted ?P = [Accept_start, Listener_stop]" "loop_idle ?P"
    by (simp_all add: do_pause_def armed_server_def on_connect_def arm_def served_fields loop_idle_def)
  then have 3: "serve_step ?P ?Q" by (intro step_thread thread_step.ts_task)
  have q: "si_posted ?Q = [Listener_stop]" "loop_idle ?Q"
    by (simp_all add: run_task_def accept_start_def do_pause_def armed_server_def on_connect_def arm_def served_fields loop_idle_def)
  have "serve_step ?Q (run_task serving serving_kernel Linux True True 0 Listener_stop (?Q\<lparr>si_posted := []\<rparr>))"
    by (intro step_thread thread_step.ts_task q)
  then have 4: "serve_step ?Q paused_server" by (simp add: run_task_def paused_server_def)
  show ?thesis using 1 2 3 4 by (meson rtranclp.rtrancl_into_rtrancl rtranclp.rtrancl_refl)
qed

theorem stream_pause_is_final_witness:
  "is_open (l_socket (si_listener served)) \<and> length (si_objs (do_resume paused_server)) = 0
    \<and> \<not> is_open (l_socket (si_listener (do_resume paused_server)))"
proof -
  have "serve_step\<^sup>*\<^sup>* paused_server (do_resume paused_server)"
    by (intro r_into_rtranclp step_user user_step.us_resume)
  moreover have c: "\<not> is_open (l_socket (si_listener paused_server))"
    unfolding paused_server_def by (rule listener_stopped)
  moreover have "si_objs paused_server = []"
    by (simp add: paused_server_def listener_stopped accept_start_def do_pause_def armed_server_def on_connect_def arm_def served_fields)
  ultimately show ?thesis
    using stream_pause_is_final [OF serving_reachable(2) [OF paused_reached] c] by (simp add: served_fields is_open_3)
qed

end
