(* ===== verification/Dgram_Impl.thy ===== *)
theory Dgram_Impl
  imports Udp_Peer Loop
begin

text \<open>
  Datagram sockets and claimed peers: \<open>src/high/dgram.cpp\<close>, \<open>dgram_peer_impl.hpp\<close> and
  \<open>dgram_peer.cpp\<close>.

  A datagram object has a bound socket, a loop thread and a table \<open>claimed_peers\<close>. The peer objects,
  held in shared pointers by the table and by the user's handles, are the list \<open>di_objs\<close>; a shared
  pointer is an index into it. \<open>di_posted\<close> is the queue of the loop, \<open>di_io\<close> the table of the
  dispatcher, and \<open>di_calls\<close> and \<open>dp_calls\<close> are the callbacks submitted to the serial queues of the
  object and of a peer. Where the code reads the flag \<open>open_\<close> of a peer while another thread may
  clear it, the value read is an argument (\<open>reads\<close>). A memory access outside of a buffer has the
  result \<open>None\<close>.
\<close>

section \<open>State\<close>

text \<open>The template parameters of \<open>dgram_impl\<close>: what the address family provides.\<close>

record 'a dgram_family =
  df_default :: 'a
  df_eq :: "'a \<Rightarrow> 'a \<Rightarrow> bool"
  df_to_sock :: "'a \<Rightarrow> sock_address"
  df_of_sock :: "sock_address \<Rightarrow> 'a"
  df_open :: "socket \<Rightarrow> 'a \<Rightarrow> socket_options \<Rightarrow> (rvoid \<times> socket) io"
  df_send_to :: "socket \<Rightarrow> byte list \<Rightarrow> 'a \<Rightarrow> int \<Rightarrow> nat result io"
  df_local :: "socket \<Rightarrow> 'a result io"
  df_create :: "'a \<Rightarrow> 'a \<Rightarrow> socket_options \<Rightarrow> 'a udp_peer_socket result io"

definition dgram4 :: "kernel \<Rightarrow> platform \<Rightarrow> inet4_address dgram_family" where
  "dgram4 K p = \<lparr>df_default = inet4_default p, df_eq = inet4_eq, df_to_sock = inet4_to_sock, df_of_sock = inet4_of_sock,
     df_open = udp4_open K p, df_send_to = udp4_send_to K p, df_local = udp4_local_addr K p,
     df_create = udp4_peer_create K p\<rparr>"

definition dgram6 :: "kernel \<Rightarrow> platform \<Rightarrow> inet6_address dgram_family" where
  "dgram6 K p = \<lparr>df_default = inet6_default p, df_eq = inet6_eq, df_to_sock = inet6_to_sock, df_of_sock = inet6_of_sock,
     df_open = udp6_open K p, df_send_to = udp6_send_to K p, df_local = udp6_local_addr K p,
     df_create = udp6_peer_create K p\<rparr>"

text \<open>Whose serial queue or registration: the datagram object's or that of a peer.\<close>

datatype owner = Parent | Claimed nat

datatype 'a main_call = Data_call "byte list" 'a | Batch_call "(byte list \<times> 'a) list" | Fault_call error_code | User_call nat
datatype peer_call = Peer_data "byte list" | Peer_fault error_code | Peer_user nat

text \<open>The thread that claims holds the pointer until the loop has answered, then the user's handle does.\<close>

datatype hold = Claiming | Held | Dropped

text \<open>
  \<open>dp_promise\<close> is the answer to the claim; \<open>dp_closing\<close> says that \<open>do_relinquish\<close> has cleared the flag
  and has not finished; \<open>dp_ran\<close> counts the callbacks of the peer's serial queue that have run.
\<close>

record 'a peer_object =
  dp_addr :: 'a
  dp_open :: bool
  dp_on_data :: bool
  dp_on_error :: bool
  dp_sock :: "'a udp_peer_socket"
  dp_buf :: nat
  dp_calls :: "peer_call list"
  dp_ran :: nat
  dp_promise :: "rvoid option"
  dp_hold :: hold
  dp_closing :: bool
  dp_freed :: bool

datatype 'a dg_task =
    Watch owner int
  | Set_interest int io_event
  | Unwatch int
  | Claim nat
  | Relinquish_peer 'a
  | Relinquish_all
  | Submit owner nat
  | Start_timer owner int bool nat
  | Stop_loop

datatype dg_point = Dg_idle | Dg_reading nat

record dgram_config =
  dc_sock_opts :: socket_options
  dc_read_buffer_size :: nat
  dc_recv_batch_size :: nat

record 'a dgram_impl =
  di_world :: world
  di_socket :: socket
  di_opts :: socket_options
  di_on_data :: bool
  di_on_batch :: bool
  di_on_error :: bool
  di_entries :: "msg_batch_entry list"
  di_batch_size :: nat
  di_buf_size :: nat
  di_armed :: bool
  di_paused :: bool
  di_peers :: "('a \<times> nat) list"
  di_objs :: "'a peer_object list"
  di_posted :: "'a dg_task list"
  di_io :: "int \<rightharpoonup> owner \<times> io_event"
  di_calls :: "'a main_call list"
  di_ran :: nat
  di_timers :: "(timer_id \<times> bool \<times> owner \<times> nat) list"
  di_pc :: dg_point
  di_running :: bool
  di_stopping :: bool
  di_gone :: bool
  di_received :: "(byte list \<times> 'a) list"

definition dgram_new :: "world \<Rightarrow> 'a dgram_impl" where
  "dgram_new w = \<lparr>di_world = w, di_socket = socket_default, di_opts = socket_options_default, di_on_data = False,
     di_on_batch = False, di_on_error = False, di_entries = [], di_batch_size = 0, di_buf_size = 0, di_armed = False,
     di_paused = False, di_peers = [], di_objs = [], di_posted = [], di_io = Map.empty, di_calls = [], di_ran = 0,
     di_timers = [], di_pc = Dg_idle, di_running = False, di_stopping = False, di_gone = False, di_received = []\<rparr>"

section \<open>Creation\<close>

definition dgram_config_default :: "platform \<Rightarrow> dgram_config option" where
  "dgram_config_default p = map_option (\<lambda>opts. \<lparr>dc_sock_opts = opts, dc_read_buffer_size = 65536, dc_recv_batch_size = 32\<rparr>)
     (builder p (Reuse_addr True) socket_options_default)"

definition effective_opts :: "platform \<Rightarrow> socket_options \<Rightarrow> socket_options option" where
  "effective_opts p opts =
     (if p = Windows then (if so_has_reuse_addr opts then Some opts else builder p (Exclusive_addr True) opts)
      else configure p ((if so_has_reuse_addr opts then [] else [Reuse_addr True]) @ [Reuse_port True]) opts)"

definition dg_create :: "'a dgram_family \<Rightarrow> kernel \<Rightarrow> platform \<Rightarrow> 'a \<Rightarrow> dgram_config \<Rightarrow> 'a dgram_impl \<Rightarrow> (rvoid \<times> 'a dgram_impl) option" where
  "dg_create F K p addr config S = do {
     opts \<leftarrow> effective_opts p (dc_sock_opts config);
     (case run_state (df_open F (di_socket S) addr opts) (di_world S) of ((r, s), w) \<Rightarrow>
        if \<not> is_ok r then Some (r, S\<lparr>di_socket := s, di_world := w\<rparr>)
        else Some (void_ok, S\<lparr>di_socket := s, di_opts := opts, di_world := final_world (set_non_blocking K p s True) w,
          di_buf_size := dc_read_buffer_size config, di_batch_size := dc_recv_batch_size config,
          di_entries := replicate (dc_recv_batch_size config)
            \<lparr>mb_buf = replicate (dc_read_buffer_size config) 0, mb_addr = sock_address_default, mb_transferred = 0\<rparr>,
          di_running := True\<rparr>))
   }"

section \<open>Claimed peers\<close>

definition claimed_find :: "'a dgram_family \<Rightarrow> 'a \<Rightarrow> 'a dgram_impl \<Rightarrow> nat option" where
  "claimed_find F a S = map_option snd (find (\<lambda>e. df_eq F (fst e) a) (di_peers S))"

definition claimed_erase :: "'a dgram_family \<Rightarrow> 'a \<Rightarrow> 'a dgram_impl \<Rightarrow> 'a dgram_impl" where
  "claimed_erase F a S = S\<lparr>di_peers := filter (\<lambda>e. \<not> df_eq F (fst e) a) (di_peers S)\<rparr>"

definition set_peer :: "nat \<Rightarrow> ('a peer_object \<Rightarrow> 'a peer_object) \<Rightarrow> 'a dgram_impl \<Rightarrow> 'a dgram_impl" where
  "set_peer i f S = S\<lparr>di_objs := (di_objs S)[i := f (di_objs S ! i)]\<rparr>"

definition peer_submit :: "nat \<Rightarrow> peer_call \<Rightarrow> 'a dgram_impl \<Rightarrow> 'a dgram_impl" where
  "peer_submit i c S = set_peer i (\<lambda>ob. ob\<lparr>dp_calls := dp_calls ob @ [c]\<rparr>) S"

text \<open>\<open>open\<close> is what the load of \<open>open_\<close> returned.\<close>

definition deliver_data :: "bool \<Rightarrow> nat \<Rightarrow> byte list \<Rightarrow> 'a dgram_impl \<Rightarrow> 'a dgram_impl" where
  "deliver_data open i d S =
     (if \<not> open \<or> \<not> dp_on_data (di_objs S ! i) then S else peer_submit i (Peer_data d) S)"

definition new_peer :: "'a dgram_family \<Rightarrow> 'a \<Rightarrow> 'a peer_object" where
  "new_peer F a = \<lparr>dp_addr = a, dp_open = True, dp_on_data = False, dp_on_error = False,
     dp_sock = peer_default (df_default F), dp_buf = 0, dp_calls = [], dp_ran = 0, dp_promise = None, dp_hold = Claiming,
     dp_closing = False, dp_freed = False\<rparr>"

section \<open>Receiving\<close>

text \<open>
  The loads of \<open>open_\<close> in the handling of one batch: by the check of a datagram, by \<open>deliver_data\<close>, and
  by the second pass, for the datagram's position and the peer.
\<close>

record reads =
  rd_check :: "nat \<Rightarrow> nat \<Rightarrow> bool"
  rd_deliver :: "nat \<Rightarrow> nat \<Rightarrow> bool"
  rd_second :: "nat \<Rightarrow> nat \<Rightarrow> bool"

definition forward :: "platform \<Rightarrow> reads \<Rightarrow> nat \<Rightarrow> nat \<Rightarrow> byte list \<Rightarrow> 'a dgram_impl \<Rightarrow> 'a dgram_impl" where
  "forward p rd k i d S = (if has_kernel_udp_demux p then S else deliver_data (rd_deliver rd k i) i d S)"

text \<open>The first pass of the batch handler: the bytes and the number of the datagrams it keeps.\<close>

fun first_pass ::
    "'a dgram_family \<Rightarrow> platform \<Rightarrow> reads \<Rightarrow> nat \<Rightarrow> (byte list \<times> 'a) list \<Rightarrow> 'a dgram_impl \<Rightarrow> (nat \<times> nat) \<times> 'a dgram_impl" where
  "first_pass F p rd k [] S = ((0, 0), S)"
| "first_pass F p rd k ((d, a) # ds) S =
     (case claimed_find F a S of
        Some i \<Rightarrow>
          if \<not> rd_check rd k i
          then (case first_pass F p rd (Suc k) ds (claimed_erase F a S) of ((t, n), T) \<Rightarrow> ((length d + t, Suc n), T))
          else first_pass F p rd (Suc k) ds (forward p rd k i d S)
      | None \<Rightarrow> (case first_pass F p rd (Suc k) ds S of ((t, n), T) \<Rightarrow> ((length d + t, Suc n), T)))"

text \<open>
  The second pass copies the datagrams into the shared buffer from \<open>off\<close> on and fills the messages, an
  offset, a length and a sender each, from \<open>idx\<close> on.
\<close>

fun second_pass ::
    "'a dgram_family \<Rightarrow> reads \<Rightarrow> 'a dgram_impl \<Rightarrow> nat \<Rightarrow> (byte list \<times> 'a) list \<Rightarrow> byte list \<Rightarrow> nat
     \<Rightarrow> (nat \<times> nat \<times> 'a) list \<Rightarrow> nat \<Rightarrow> (byte list \<times> (nat \<times> nat \<times> 'a) list) option" where
  "second_pass F rd S k [] buf off msgs idx = Some (buf, msgs)"
| "second_pass F rd S k ((d, a) # ds) buf off msgs idx =
     (if (case claimed_find F a S of Some i \<Rightarrow> rd_second rd k i | None \<Rightarrow> False)
      then second_pass F rd S (Suc k) ds buf off msgs idx
      else (case mem_write buf off d of
              None \<Rightarrow> None
            | Some buf' \<Rightarrow>
                if idx < length msgs
                then second_pass F rd S (Suc k) ds buf' (off + length d) (msgs[idx := (off, length d, a)]) (Suc idx)
                else None))"

definition main_submit :: "'a main_call \<Rightarrow> 'a dgram_impl \<Rightarrow> 'a dgram_impl" where
  "main_submit c S = S\<lparr>di_calls := di_calls S @ [c]\<rparr>"

definition batch_handler ::
    "'a dgram_family \<Rightarrow> platform \<Rightarrow> reads \<Rightarrow> (byte list \<times> 'a) list \<Rightarrow> 'a dgram_impl \<Rightarrow> 'a dgram_impl option" where
  "batch_handler F p rd ds S =
     (case first_pass F p rd 0 ds S of ((bytes, n), T) \<Rightarrow>
        if n > 0
        then map_option (\<lambda>(buf, msgs). main_submit (Batch_call (map (\<lambda>(off, len, a). (mem_get buf off len, a)) msgs)) T)
               (second_pass F rd T 0 ds (replicate bytes 0) 0 (replicate n (0, 0, df_default F)) 0)
        else Some T)"

text \<open>The handler of single datagrams.\<close>

fun single_handler ::
    "'a dgram_family \<Rightarrow> platform \<Rightarrow> reads \<Rightarrow> nat \<Rightarrow> (byte list \<times> 'a) list \<Rightarrow> 'a dgram_impl \<Rightarrow> 'a dgram_impl" where
  "single_handler F p rd k [] S = S"
| "single_handler F p rd k ((d, a) # ds) S =
     (case claimed_find F a S of
        Some i \<Rightarrow>
          if \<not> rd_check rd k i
          then single_handler F p rd (Suc k) ds (main_submit (Data_call d a) (claimed_erase F a S))
          else single_handler F p rd (Suc k) ds (forward p rd k i d S)
      | None \<Rightarrow> single_handler F p rd (Suc k) ds (main_submit (Data_call d a) S))"

definition handle_batch ::
    "'a dgram_family \<Rightarrow> platform \<Rightarrow> reads \<Rightarrow> (byte list \<times> 'a) list \<Rightarrow> 'a dgram_impl \<Rightarrow> 'a dgram_impl option" where
  "handle_batch F p rd ds S =
     (if di_on_batch S then batch_handler F p rd ds S
      else if di_on_data S then Some (single_handler F p rd 0 ds S) else Some S)"

definition reset_entry :: "msg_batch_entry \<Rightarrow> msg_batch_entry" where
  "reset_entry m = m\<lparr>mb_transferred := 0\<rparr>"

definition datagram_of :: "'a dgram_family \<Rightarrow> msg_batch_entry \<Rightarrow> byte list \<times> 'a" where
  "datagram_of F m = (take (mb_transferred m) (mb_buf m), df_of_sock F (mb_addr m))"

definition main_fault :: "error_code \<Rightarrow> 'a dgram_impl \<Rightarrow> 'a dgram_impl" where
  "main_fault ec S =
     (if ec = make_error_code would_block \<or> \<not> di_on_error S then S else main_submit (Fault_call ec) S)"

text \<open>The loop of \<open>handle_readable\<close> with \<open>n\<close> iterations left; \<open>rds\<close> are the loads of each iteration.\<close>

fun readable_loop ::
    "'a dgram_family \<Rightarrow> kernel \<Rightarrow> dgram_source \<Rightarrow> platform \<Rightarrow> (nat \<Rightarrow> reads) \<Rightarrow> nat \<Rightarrow> 'a dgram_impl \<Rightarrow> 'a dgram_impl option" where
  "readable_loop F K retrieve p rds 0 S = Some S"
| "readable_loop F K retrieve p rds (Suc n) S =
     (case run_state (recv_batch K retrieve p (di_socket S) (map reset_entry (di_entries S))) (di_world S) of ((r, es), w) \<Rightarrow>
        let S1 = S\<lparr>di_world := w, di_entries := es\<rparr>
        in case r of
             Inl ec \<Rightarrow> Some (main_fault ec S1)
           | Inr got \<Rightarrow>
               if got = 0 then Some S1
               else
                 let ds = map (datagram_of F) (take got es)
                 in case handle_batch F p (rds n) ds (S1\<lparr>di_received := di_received S1 @ ds\<rparr>) of
                      None \<Rightarrow> None
                    | Some S2 \<Rightarrow>
                        if got < di_batch_size S2 then Some S2 else readable_loop F K retrieve p rds n S2)"

definition max_iterations :: nat where
  "max_iterations = 8"

definition handle_readable ::
    "'a dgram_family \<Rightarrow> kernel \<Rightarrow> dgram_source \<Rightarrow> platform \<Rightarrow> (nat \<Rightarrow> reads) \<Rightarrow> 'a dgram_impl \<Rightarrow> 'a dgram_impl option" where
  "handle_readable F K retrieve p rds S = readable_loop F K retrieve p rds max_iterations S"

text \<open>\<open>retrieve_dgram\<close> of the dispatchers that only report readiness.\<close>

definition no_retrieve :: dgram_source where
  "no_retrieve d fd len = State_Monad.return (Inl (make_error_code would_block))"

text \<open>One turn of the receive loop of a connected peer socket.\<close>

definition peer_turn :: "kernel \<Rightarrow> platform \<Rightarrow> nat \<Rightarrow> 'a dgram_impl \<Rightarrow> 'a dgram_impl" where
  "peer_turn K p i S =
     (let ob = di_objs S ! i
      in case run_state (peer_recv K p (dp_sock ob) (dp_buf ob) 0) (di_world S) of (r, w) \<Rightarrow>
           case r of
             Inl ec \<Rightarrow>
               let S1 = S\<lparr>di_world := w, di_pc := Dg_idle\<rparr>
               in if ec = make_error_code would_block \<or> \<not> dp_on_error ob then S1 else peer_submit i (Peer_fault ec) S1
           | Inr (n, d) \<Rightarrow>
               if n = 0 then S\<lparr>di_world := w, di_pc := Dg_idle\<rparr>
               else deliver_data (dp_open ob) i (take n d) (S\<lparr>di_world := w\<rparr>))"

section \<open>Flow control and handlers\<close>

definition dg_post :: "'a dg_task \<Rightarrow> 'a dgram_impl \<Rightarrow> 'a dgram_impl" where
  "dg_post t S = S\<lparr>di_posted := di_posted S @ [t]\<rparr>"

definition dg_arm :: "'a dgram_impl \<Rightarrow> 'a dgram_impl" where
  "dg_arm S = (if di_armed S then S else dg_post (Watch Parent (s_handle (di_socket S))) (S\<lparr>di_armed := True\<rparr>))"

definition dg_pause :: "platform \<Rightarrow> 'a dgram_impl \<Rightarrow> 'a dgram_impl" where
  "dg_pause p S =
     (if \<not> di_armed S then S
      else dg_post (if p = Windows then Set_interest (s_handle (di_socket S)) ev_none else Unwatch (s_handle (di_socket S)))
             (S\<lparr>di_paused := True\<rparr>))"

definition dg_resume :: "platform \<Rightarrow> 'a dgram_impl \<Rightarrow> 'a dgram_impl" where
  "dg_resume p S =
     (if \<not> di_armed S then S
      else dg_post (if p = Windows then Set_interest (s_handle (di_socket S)) ev_readable else Watch Parent (s_handle (di_socket S)))
             (S\<lparr>di_paused := False\<rparr>))"

definition dg_on_data :: "bool \<Rightarrow> 'a dgram_impl \<Rightarrow> 'a dgram_impl" where
  "dg_on_data handler S = dg_arm (S\<lparr>di_on_data := handler, di_on_batch := False\<rparr>)"

definition dg_on_data_batch :: "bool \<Rightarrow> 'a dgram_impl \<Rightarrow> 'a dgram_impl" where
  "dg_on_data_batch handler S = dg_arm (S\<lparr>di_on_batch := handler, di_on_data := False\<rparr>)"

definition dg_on_error :: "bool \<Rightarrow> 'a dgram_impl \<Rightarrow> 'a dgram_impl" where
  "dg_on_error handler S = S\<lparr>di_on_error := handler\<rparr>"

section \<open>Sending\<close>

definition dg_send_to :: "'a dgram_family \<Rightarrow> byte list \<Rightarrow> 'a \<Rightarrow> 'a dgram_impl \<Rightarrow> bool \<times> 'a dgram_impl" where
  "dg_send_to F data dest S =
     (case run_state (df_send_to F (di_socket S) data dest 0) (di_world S) of (r, w) \<Rightarrow> (\<not> isl r, S\<lparr>di_world := w\<rparr>))"

definition batch_entry :: "sock_address \<Rightarrow> byte list \<Rightarrow> msg_batch_entry" where
  "batch_entry sa data = \<lparr>mb_buf = data, mb_addr = sa, mb_transferred = 0\<rparr>"

definition dg_send_batch ::
    "'a dgram_family \<Rightarrow> kernel \<Rightarrow> platform \<Rightarrow> (byte list \<times> 'a) list \<Rightarrow> 'a dgram_impl \<Rightarrow> nat result \<times> 'a dgram_impl" where
  "dg_send_batch F K p msgs S =
     (case run_state (send_batch K p (di_socket S) (map (\<lambda>(d, a). batch_entry (df_to_sock F a) d) msgs)) (di_world S) of
        ((r, _), w) \<Rightarrow> (r, S\<lparr>di_world := w\<rparr>))"

definition peer_do_send :: "'a dgram_family \<Rightarrow> kernel \<Rightarrow> platform \<Rightarrow> nat \<Rightarrow> byte list \<Rightarrow> 'a dgram_impl \<Rightarrow> bool \<times> 'a dgram_impl" where
  "peer_do_send F K p i data S =
     (let ob = di_objs S ! i
      in if \<not> dp_open ob then (False, S)
         else if has_kernel_udp_demux p
         then (case run_state (peer_send K p (dp_sock ob) data 0) (di_world S) of (r, w) \<Rightarrow> (\<not> isl r, S\<lparr>di_world := w\<rparr>))
         else (case run_state (df_send_to F (di_socket S) data (dp_addr ob) 0) (di_world S) of
                 (r, w) \<Rightarrow> (\<not> isl r, S\<lparr>di_world := w\<rparr>)))"

definition peer_send_batch ::
    "'a dgram_family \<Rightarrow> kernel \<Rightarrow> platform \<Rightarrow> nat \<Rightarrow> byte list list \<Rightarrow> 'a dgram_impl \<Rightarrow> nat result \<times> 'a dgram_impl" where
  "peer_send_batch F K p i msgs S =
     (let ob = di_objs S ! i
      in if \<not> dp_open ob then (Inl (make_error_code not_connected), S)
         else (case run_state (send_batch K p (di_socket S) (map (batch_entry (df_to_sock F (dp_addr ob))) msgs)) (di_world S) of
                 ((r, _), w) \<Rightarrow> (r, S\<lparr>di_world := w\<rparr>)))"

definition dg_local_addr :: "'a dgram_family \<Rightarrow> 'a dgram_impl \<Rightarrow> 'a \<times> 'a dgram_impl" where
  "dg_local_addr F S =
     (case run_state (df_local F (di_socket S)) (di_world S) of (r, w) \<Rightarrow>
        (case r of Inl _ \<Rightarrow> df_default F | Inr a \<Rightarrow> a, S\<lparr>di_world := w\<rparr>))"

section \<open>Claiming and relinquishing\<close>

definition execute_claim :: "'a dgram_family \<Rightarrow> kernel \<Rightarrow> platform \<Rightarrow> nat \<Rightarrow> 'a dgram_impl \<Rightarrow> rvoid \<times> 'a dgram_impl" where
  "execute_claim F K p i S =
     (let a = dp_addr (di_objs S ! i)
      in if claimed_find F a S \<noteq> None then (make_error_code address_in_use, S)
         else if has_kernel_udp_demux p
         then (case dg_local_addr F S of (loc, S1) \<Rightarrow>
                 case run_state (df_create F loc a socket_options_default) (di_world S1) of (r, w) \<Rightarrow>
                   case r of
                     Inl ec \<Rightarrow> (ec, S1\<lparr>di_world := w\<rparr>)
                   | Inr ps \<Rightarrow>
                       case run_state (peer_move_assign K p False (dp_sock (di_objs S1 ! i)) ps) w of ((ps', _), w') \<Rightarrow>
                         (void_ok, (set_peer i (\<lambda>ob. ob\<lparr>dp_sock := ps'\<rparr>) S1)
                            \<lparr>di_world := w', di_peers := di_peers S1 @ [(a, i)]\<rparr>))
         else (void_ok, S\<lparr>di_peers := di_peers S @ [(a, i)]\<rparr>))"

text \<open>\<open>arm\<close> of a peer.\<close>

definition peer_arm :: "platform \<Rightarrow> nat \<Rightarrow> nat \<Rightarrow> 'a dgram_impl \<Rightarrow> 'a dgram_impl" where
  "peer_arm p i buf_size S =
     (if \<not> has_kernel_udp_demux p \<or> \<not> peer_is_open (dp_sock (di_objs S ! i)) then S
      else dg_post (Watch (Claimed i) (peer_handle (dp_sock (di_objs S ! i)))) (set_peer i (\<lambda>ob. ob\<lparr>dp_buf := buf_size\<rparr>) S))"

text \<open>
  \<open>claim\<close> from a thread other than the loop's posts \<open>execute_claim\<close>, waits for its answer, and arms the
  peer. On the loop thread all of it is done at once.
\<close>

definition claim_begin :: "'a dgram_family \<Rightarrow> 'a \<Rightarrow> 'a dgram_impl \<Rightarrow> 'a dgram_impl" where
  "claim_begin F a S = dg_post (Claim (length (di_objs S))) (S\<lparr>di_objs := di_objs S @ [new_peer F a]\<rparr>)"

definition claim_run :: "'a dgram_family \<Rightarrow> kernel \<Rightarrow> platform \<Rightarrow> nat \<Rightarrow> 'a dgram_impl \<Rightarrow> 'a dgram_impl" where
  "claim_run F K p i S = (case execute_claim F K p i S of (r, T) \<Rightarrow> set_peer i (\<lambda>ob. ob\<lparr>dp_promise := Some r\<rparr>) T)"

definition claim_answer :: "platform \<Rightarrow> nat \<Rightarrow> rvoid \<Rightarrow> 'a dgram_impl \<Rightarrow> 'a dgram_impl" where
  "claim_answer p i r S =
     (if is_ok r then set_peer i (\<lambda>ob. ob\<lparr>dp_hold := Held\<rparr>) (peer_arm p i (di_buf_size S) S)
      else set_peer i (\<lambda>ob. ob\<lparr>dp_hold := Dropped\<rparr>) S)"

definition claim_inline :: "'a dgram_family \<Rightarrow> kernel \<Rightarrow> platform \<Rightarrow> 'a \<Rightarrow> 'a dgram_impl \<Rightarrow> rvoid \<times> 'a dgram_impl" where
  "claim_inline F K p a S =
     (let i = length (di_objs S)
      in case execute_claim F K p i (S\<lparr>di_objs := di_objs S @ [new_peer F a]\<rparr>) of (r, T) \<Rightarrow> (r, claim_answer p i r T))"

text \<open>\<open>do_relinquish\<close> of a peer: the exchange of the flag, and what follows it.\<close>

definition relinquish_flag :: "nat \<Rightarrow> 'a dgram_impl \<Rightarrow> 'a dgram_impl" where
  "relinquish_flag i S =
     (if dp_open (di_objs S ! i) then set_peer i (\<lambda>ob. ob\<lparr>dp_open := False, dp_closing := True\<rparr>) S else S)"

definition io_drop :: "bool \<Rightarrow> int \<Rightarrow> 'a dgram_impl \<Rightarrow> 'a dgram_impl" where
  "io_drop ok fd S = (if ok then S\<lparr>di_io := (di_io S)(fd := None)\<rparr> else S)"

definition relinquish_finish :: "'a dgram_family \<Rightarrow> kernel \<Rightarrow> platform \<Rightarrow> bool \<Rightarrow> nat \<Rightarrow> 'a dgram_impl \<Rightarrow> 'a dgram_impl" where
  "relinquish_finish F K p ok i S =
     (let ps = dp_sock (di_objs S ! i)
      in set_peer i (\<lambda>ob. ob\<lparr>dp_closing := False\<rparr>)
           (if has_kernel_udp_demux p \<and> peer_is_open ps
            then (case run_state (peer_move_assign K p False ps (peer_default (df_default F))) (di_world S) of ((ps', _), w) \<Rightarrow>
                    (set_peer i (\<lambda>ob. ob\<lparr>dp_sock := ps'\<rparr>) (io_drop ok (peer_handle ps) S))\<lparr>di_world := w\<rparr>)
            else S))"

definition peer_relinquish :: "'a dgram_family \<Rightarrow> kernel \<Rightarrow> platform \<Rightarrow> bool \<Rightarrow> nat \<Rightarrow> 'a dgram_impl \<Rightarrow> 'a dgram_impl" where
  "peer_relinquish F K p ok i S =
     (if dp_open (di_objs S ! i) then relinquish_finish F K p ok i (relinquish_flag i S) else S)"

text \<open>\<open>dgram_impl::do_relinquish\<close>, which no public function calls.\<close>

definition relinquish_addr :: "'a dgram_family \<Rightarrow> kernel \<Rightarrow> platform \<Rightarrow> bool \<Rightarrow> 'a \<Rightarrow> 'a dgram_impl \<Rightarrow> 'a dgram_impl" where
  "relinquish_addr F K p ok a S =
     (case claimed_find F a S of None \<Rightarrow> S | Some i \<Rightarrow> claimed_erase F a (peer_relinquish F K p ok i S))"

definition relinquish_all :: "'a dgram_family \<Rightarrow> kernel \<Rightarrow> platform \<Rightarrow> bool \<Rightarrow> 'a dgram_impl \<Rightarrow> 'a dgram_impl" where
  "relinquish_all F K p ok S =
     (foldl (\<lambda>T e. peer_relinquish F K p ok (snd e) T) S (di_peers S))\<lparr>di_peers := []\<rparr>"

text \<open>The accessors of a handle; a handle that was moved from has no peer.\<close>

definition handle_is_open :: "nat option \<Rightarrow> 'a dgram_impl \<Rightarrow> bool" where
  "handle_is_open h S = (case h of None \<Rightarrow> False | Some i \<Rightarrow> dp_open (di_objs S ! i))"

definition handle_peer_addr :: "'a dgram_family \<Rightarrow> nat option \<Rightarrow> 'a dgram_impl \<Rightarrow> 'a" where
  "handle_peer_addr F h S = (case h of None \<Rightarrow> df_default F | Some i \<Rightarrow> dp_addr (di_objs S ! i))"

text \<open>
  The operations of a handle, a pointer to a peer object. A destroyed handle, and one that another is
  moved to, relinquishes its peer when that is still open, and gives up the pointer.
\<close>

definition handle_relinquish :: "'a dgram_family \<Rightarrow> kernel \<Rightarrow> platform \<Rightarrow> bool \<Rightarrow> nat option \<Rightarrow> 'a dgram_impl \<Rightarrow> 'a dgram_impl" where
  "handle_relinquish F K p ok h S = (case h of None \<Rightarrow> S | Some i \<Rightarrow> peer_relinquish F K p ok i S)"

definition handle_destroy :: "'a dgram_family \<Rightarrow> kernel \<Rightarrow> platform \<Rightarrow> bool \<Rightarrow> nat option \<Rightarrow> 'a dgram_impl \<Rightarrow> 'a dgram_impl" where
  "handle_destroy F K p ok h S =
     (let S1 = (if handle_is_open h S then handle_relinquish F K p ok h S else S)
      in case h of None \<Rightarrow> S1 | Some i \<Rightarrow> set_peer i (\<lambda>ob. ob\<lparr>dp_hold := Dropped\<rparr>) S1)"

definition handle_assign ::
    "'a dgram_family \<Rightarrow> kernel \<Rightarrow> platform \<Rightarrow> bool \<Rightarrow> bool \<Rightarrow> nat option \<Rightarrow> nat option \<Rightarrow> 'a dgram_impl
     \<Rightarrow> nat option \<times> nat option \<times> 'a dgram_impl" where
  "handle_assign F K p ok aliased this other S =
     (if aliased then (this, other, S) else (other, None, handle_destroy F K p ok this S))"

definition peer_on_data :: "nat \<Rightarrow> bool \<Rightarrow> 'a dgram_impl \<Rightarrow> 'a dgram_impl" where
  "peer_on_data i handler S = set_peer i (\<lambda>ob. ob\<lparr>dp_on_data := handler\<rparr>) S"

definition peer_on_error :: "nat \<Rightarrow> bool \<Rightarrow> 'a dgram_impl \<Rightarrow> 'a dgram_impl" where
  "peer_on_error i handler S = set_peer i (\<lambda>ob. ob\<lparr>dp_on_error := handler\<rparr>) S"

text \<open>The last owner of a peer object goes.\<close>

definition peer_held :: "nat \<Rightarrow> 'a dgram_impl \<Rightarrow> bool" where
  "peer_held i S \<longleftrightarrow> dp_hold (di_objs S ! i) \<noteq> Dropped \<or> i \<in> snd ` set (di_peers S)"

definition free_peer :: "'a dgram_family \<Rightarrow> kernel \<Rightarrow> platform \<Rightarrow> nat \<Rightarrow> 'a dgram_impl \<Rightarrow> 'a dgram_impl" where
  "free_peer F K p i S =
     set_peer i (\<lambda>ob. ob\<lparr>dp_sock := peer_default (df_default F), dp_freed := True\<rparr>)
       (S\<lparr>di_world := final_world (peer_drop K p (dp_sock (di_objs S ! i))) (di_world S)\<rparr>)"

section \<open>Timers and posts\<close>

text \<open>Of the datagram object and of a peer, whose serial queue gets the callback.\<close>

definition dg_submit :: "owner \<Rightarrow> nat \<Rightarrow> 'a dgram_impl \<Rightarrow> 'a dgram_impl" where
  "dg_submit ow cb S = dg_post (Submit ow cb) S"

definition dg_defer :: "owner \<Rightarrow> int \<Rightarrow> nat \<Rightarrow> 'a dgram_impl \<Rightarrow> 'a dgram_impl" where
  "dg_defer ow delay cb S = dg_post (Start_timer ow delay False cb) S"

definition dg_repeat :: "owner \<Rightarrow> int \<Rightarrow> nat \<Rightarrow> 'a dgram_impl \<Rightarrow> 'a dgram_impl" where
  "dg_repeat ow interval cb S = dg_post (Start_timer ow interval True cb) S"

section \<open>Loop tasks\<close>

definition io_watch :: "bool \<Rightarrow> owner \<Rightarrow> int \<Rightarrow> 'a dgram_impl \<Rightarrow> 'a dgram_impl" where
  "io_watch ok ow fd S = (if ok then S\<lparr>di_io := (di_io S)(fd \<mapsto> (ow, ev_readable))\<rparr> else S)"

text \<open>On Windows the socket learns about the dispatcher when the object is armed.\<close>

definition run_watch :: "platform \<Rightarrow> bool \<Rightarrow> owner \<Rightarrow> int \<Rightarrow> 'a dgram_impl \<Rightarrow> 'a dgram_impl" where
  "run_watch p ok ow fd S =
     io_watch ok ow fd (if p = Windows \<and> ow = Parent then S\<lparr>di_socket := set_dispatcher (Some 0) (di_socket S)\<rparr> else S)"

definition io_interest :: "bool \<Rightarrow> int \<Rightarrow> io_event \<Rightarrow> 'a dgram_impl \<Rightarrow> 'a dgram_impl" where
  "io_interest ok fd ev S =
     (case di_io S fd of
        Some (ow, _) \<Rightarrow> if ok then S\<lparr>di_io := (di_io S)(fd \<mapsto> (ow, ev))\<rparr> else S
      | None \<Rightarrow> S)"

definition submit_to :: "owner \<Rightarrow> nat \<Rightarrow> 'a dgram_impl \<Rightarrow> 'a dgram_impl" where
  "submit_to ow cb S = (case ow of Parent \<Rightarrow> main_submit (User_call cb) S | Claimed i \<Rightarrow> peer_submit i (Peer_user cb) S)"

definition dg_run_task ::
    "'a dgram_family \<Rightarrow> kernel \<Rightarrow> platform \<Rightarrow> bool \<Rightarrow> timer_id \<Rightarrow> 'a dg_task \<Rightarrow> 'a dgram_impl \<Rightarrow> 'a dgram_impl" where
  "dg_run_task F K p ok tid t S = (case t of
       Watch ow fd \<Rightarrow> run_watch p ok ow fd S
     | Set_interest fd ev \<Rightarrow> io_interest ok fd ev S
     | Unwatch fd \<Rightarrow> io_drop ok fd S
     | Claim i \<Rightarrow> claim_run F K p i S
     | Relinquish_peer a \<Rightarrow> relinquish_addr F K p ok a S
     | Relinquish_all \<Rightarrow> relinquish_all F K p ok S
     | Submit ow cb \<Rightarrow> submit_to ow cb S
     | Start_timer ow _ rep cb \<Rightarrow> S\<lparr>di_timers := di_timers S @ [(tid, rep, ow, cb)]\<rparr>
     | Stop_loop \<Rightarrow> S\<lparr>di_stopping := True\<rparr>)"

definition dg_timer_fire :: "timer_id \<times> bool \<times> owner \<times> nat \<Rightarrow> 'a dgram_impl \<Rightarrow> 'a dgram_impl" where
  "dg_timer_fire t S =
     (case t of (tid, rep, ow, cb) \<Rightarrow>
        (submit_to ow cb S)\<lparr>di_timers := (if rep then di_timers S else remove1 t (di_timers S))\<rparr>)"

section \<open>Destruction\<close>

definition dg_destroy_begin :: "kernel \<Rightarrow> platform \<Rightarrow> 'a dgram_impl \<Rightarrow> 'a dgram_impl" where
  "dg_destroy_begin K p S =
     (let w1 = (if is_open (di_socket S)
                then final_world (leave_all_multicast K p (s_handle (di_socket S)) (di_opts S)) (di_world S) else di_world S);
          w2 = (if is_open (di_socket S) then final_world (socket_shutdown K p (di_socket S) shutdown_both) w1 else w1)
      in (dg_post Stop_loop (dg_post Relinquish_all (S\<lparr>di_world := w2\<rparr>)))\<lparr>di_stopping := True\<rparr>)"

text \<open>After the thread was joined.\<close>

definition dg_destroy_end :: "kernel \<Rightarrow> platform \<Rightarrow> bool \<Rightarrow> 'a dgram_impl \<Rightarrow> 'a dgram_impl" where
  "dg_destroy_end K p ok S =
     (if is_open (di_socket S)
      then let fd = s_handle (di_socket S);
               S1 = (if di_armed S \<and> (p = Windows \<or> \<not> di_paused S) then io_drop ok fd S else S);
               s = (if p = Windows then set_dispatcher None (di_socket S1) else di_socket S1)
           in case run_state (socket_close K p s) (di_world S1) of ((_, s'), w) \<Rightarrow> S1\<lparr>di_socket := s', di_world := w\<rparr>
      else S)"

text \<open>The pool has finished all tasks, and the members, the table among them, are destroyed.\<close>

definition all_called :: "'a dgram_impl \<Rightarrow> bool" where
  "all_called S \<longleftrightarrow> di_ran S = length (di_calls S) \<and> (\<forall>ob \<in> set (di_objs S). dp_freed ob \<or> dp_ran ob = length (dp_calls ob))"

definition dg_drop :: "'a dgram_impl \<Rightarrow> 'a dgram_impl" where
  "dg_drop S = S\<lparr>di_peers := [], di_gone := True\<rparr>"

section \<open>Interleavings\<close>

definition peer_ok :: "nat \<Rightarrow> 'a dgram_impl \<Rightarrow> bool" where
  "peer_ok i S \<longleftrightarrow> i < length (di_objs S) \<and> \<not> dp_freed (di_objs S ! i)"

definition held :: "nat \<Rightarrow> 'a dgram_impl \<Rightarrow> bool" where
  "held i S \<longleftrightarrow> peer_ok i S \<and> dp_hold (di_objs S ! i) = Held"

fun owner_ok :: "owner \<Rightarrow> 'a dgram_impl \<Rightarrow> bool" where
  "owner_ok Parent S \<longleftrightarrow> True"
| "owner_ok (Claimed i) S \<longleftrightarrow> peer_ok i S"

fun owner_held :: "owner \<Rightarrow> 'a dgram_impl \<Rightarrow> bool" where
  "owner_held Parent S \<longleftrightarrow> True"
| "owner_held (Claimed i) S \<longleftrightarrow> held i S"

text \<open>
  The loads of \<open>open_\<close> that are possible while the peers of \<open>C\<close> are being relinquished by other threads:
  a load returns true only from an open peer, and false only when the flag was or is being cleared.
\<close>

definition reads_ok :: "nat set \<Rightarrow> (nat \<Rightarrow> reads) \<Rightarrow> 'a dgram_impl \<Rightarrow> bool" where
  "reads_ok C rds S \<longleftrightarrow> (\<forall>n k i. \<forall>b \<in> {rd_check (rds n) k i, rd_deliver (rds n) k i, rd_second (rds n) k i}.
     (b \<longrightarrow> dp_open (di_objs S ! i)) \<and> (\<not> b \<longrightarrow> \<not> dp_open (di_objs S ! i) \<or> i \<in> C))"

text \<open>
  What the user's threads and the pool do. A peer's handle may outlive the datagram object; as the peer
  points into it, only operations that do not follow the pointers are steps after that.
\<close>

inductive dg_user_step :: "'a dgram_family \<Rightarrow> kernel \<Rightarrow> platform \<Rightarrow> 'a dgram_impl \<Rightarrow> 'a dgram_impl \<Rightarrow> bool" for F K p where
  du_on_data: "\<not> di_gone S \<Longrightarrow> dg_user_step F K p S (dg_on_data h S)"
| du_on_batch: "\<not> di_gone S \<Longrightarrow> dg_user_step F K p S (dg_on_data_batch h S)"
| du_on_error: "\<not> di_gone S \<Longrightarrow> dg_user_step F K p S (dg_on_error h S)"
| du_pause: "\<not> di_gone S \<Longrightarrow> dg_user_step F K p S (dg_pause p S)"
| du_resume: "\<not> di_gone S \<Longrightarrow> dg_user_step F K p S (dg_resume p S)"
| du_send: "\<not> di_gone S \<Longrightarrow> dg_user_step F K p S (snd (dg_send_to F data dest S))"
| du_send_batch: "\<not> di_gone S \<Longrightarrow> dg_user_step F K p S (snd (dg_send_batch F K p msgs S))"
| du_local: "\<not> di_gone S \<Longrightarrow> dg_user_step F K p S (snd (dg_local_addr F S))"
| du_claim: "\<not> di_gone S \<Longrightarrow> dg_user_step F K p S (claim_begin F a S)"
| du_claimed: "\<not> di_gone S \<Longrightarrow> peer_ok i S \<Longrightarrow> dp_hold (di_objs S ! i) = Claiming \<Longrightarrow> dp_promise (di_objs S ! i) = Some r \<Longrightarrow>
    dg_user_step F K p S (claim_answer p i r S)"
| du_relinquish_addr: "\<not> di_gone S \<Longrightarrow> dg_user_step F K p S (dg_post (Relinquish_peer a) S)"
| du_post: "\<not> di_gone S \<Longrightarrow> owner_held ow S \<Longrightarrow> dg_user_step F K p S (dg_submit ow cb S)"
| du_defer: "\<not> di_gone S \<Longrightarrow> owner_held ow S \<Longrightarrow> dg_user_step F K p S (dg_defer ow delay cb S)"
| du_repeat: "\<not> di_gone S \<Longrightarrow> owner_held ow S \<Longrightarrow> dg_user_step F K p S (dg_repeat ow delay cb S)"
| du_cancel: "\<not> di_gone S \<Longrightarrow> dg_user_step F K p S (S\<lparr>di_timers := filter (\<lambda>t. fst t \<noteq> tid) (di_timers S)\<rparr>)"
| du_destroy: "\<not> di_gone S \<Longrightarrow> dg_user_step F K p S (dg_destroy_begin K p S)"
| du_destroyed: "\<not> di_gone S \<Longrightarrow> di_stopping S \<Longrightarrow> \<not> di_running S \<Longrightarrow> dg_user_step F K p S (dg_destroy_end K p ok S)"
| du_gone: "\<not> di_gone S \<Longrightarrow> di_stopping S \<Longrightarrow> \<not> di_running S \<Longrightarrow> \<not> is_open (di_socket S) \<Longrightarrow> all_called S \<Longrightarrow>
    dg_user_step F K p S (dg_drop S)"
| du_peer_on_data: "held i S \<Longrightarrow> dg_user_step F K p S (peer_on_data i h S)"
| du_peer_on_error: "held i S \<Longrightarrow> dg_user_step F K p S (peer_on_error i h S)"
| du_peer_send: "\<not> di_gone S \<Longrightarrow> held i S \<Longrightarrow> dg_user_step F K p S (snd (peer_do_send F K p i data S))"
| du_peer_batch: "\<not> di_gone S \<Longrightarrow> held i S \<Longrightarrow> dg_user_step F K p S (snd (peer_send_batch F K p i datas S))"
| du_flag: "\<not> di_gone S \<Longrightarrow> held i S \<Longrightarrow> dg_user_step F K p S (relinquish_flag i S)"
| du_finish: "\<not> di_gone S \<Longrightarrow> held i S \<Longrightarrow> dp_closing (di_objs S ! i) \<Longrightarrow>
    dg_user_step F K p S (relinquish_finish F K p ok i S)"
| du_destroy_handle: "\<not> di_gone S \<Longrightarrow> held i S \<Longrightarrow> \<not> dp_closing (di_objs S ! i) \<Longrightarrow>
    dg_user_step F K p S (handle_destroy F K p ok (Some i) S)"
| du_drop: "held i S \<Longrightarrow> \<not> dp_open (di_objs S ! i) \<Longrightarrow> \<not> dp_closing (di_objs S ! i) \<Longrightarrow>
    dg_user_step F K p S (set_peer i (\<lambda>ob. ob\<lparr>dp_hold := Dropped\<rparr>) S)"
| du_free: "peer_ok i S \<Longrightarrow> \<not> peer_held i S \<Longrightarrow> dg_user_step F K p S (free_peer F K p i S)"
| du_callback: "di_ran S < length (di_calls S) \<Longrightarrow> dg_user_step F K p S (S\<lparr>di_ran := Suc (di_ran S)\<rparr>)"
| du_peer_callback: "peer_ok i S \<Longrightarrow> dp_ran (di_objs S ! i) < length (dp_calls (di_objs S ! i)) \<Longrightarrow>
    dg_user_step F K p S (set_peer i (\<lambda>ob. ob\<lparr>dp_ran := Suc (dp_ran ob)\<rparr>) S)"

definition dg_idle :: "'a dgram_impl \<Rightarrow> bool" where
  "dg_idle S \<longleftrightarrow> di_running S \<and> di_pc S = Dg_idle"

text \<open>The peer a task works on.\<close>

fun task_ok :: "'a dg_task \<Rightarrow> 'a dgram_impl \<Rightarrow> bool" where
  "task_ok (Watch ow fd) S \<longleftrightarrow> owner_ok ow S"
| "task_ok (Claim i) S \<longleftrightarrow> peer_ok i S"
| "task_ok (Submit ow cb) S \<longleftrightarrow> owner_ok ow S"
| "task_ok (Start_timer ow delay rep cb) S \<longleftrightarrow> owner_ok ow S"
| "task_ok _ S \<longleftrightarrow> True"

text \<open>
  What the loop thread does. The peers of \<open>C\<close> are relinquished by their users while the datagrams are
  handled. A task, event or timer of a peer that is already freed has no defined effect and is no step.
\<close>

inductive dg_thread_step :: "'a dgram_family \<Rightarrow> kernel \<Rightarrow> dgram_source \<Rightarrow> platform \<Rightarrow> 'a dgram_impl \<Rightarrow> 'a dgram_impl \<Rightarrow> bool"
  for F K retrieve p where
  dt_task: "dg_idle S \<Longrightarrow> di_posted S = t # ts \<Longrightarrow> task_ok t S \<Longrightarrow>
    dg_thread_step F K retrieve p S (dg_run_task F K p ok tid t (S\<lparr>di_posted := ts\<rparr>))"
| dt_claim: "dg_idle S \<Longrightarrow> \<not> di_gone S \<Longrightarrow> dg_thread_step F K retrieve p S (snd (claim_inline F K p a S))"
| dt_readable: "dg_idle S \<Longrightarrow> di_io S fd = Some (Parent, ev) \<Longrightarrow> \<forall>i \<in> C. held i S \<and> dp_open (di_objs S ! i) \<Longrightarrow>
    finite C \<Longrightarrow> reads_ok C rds S \<Longrightarrow> handle_readable F K retrieve p rds S = Some T \<Longrightarrow>
    dg_thread_step F K retrieve p S (fold relinquish_flag (sorted_list_of_set C) T)"
| dt_peer_event: "dg_idle S \<Longrightarrow> di_io S fd = Some (Claimed i, ev) \<Longrightarrow> peer_ok i S \<Longrightarrow> has_kernel_udp_demux p \<Longrightarrow>
    dg_thread_step F K retrieve p S (S\<lparr>di_pc := Dg_reading i\<rparr>)"
| dt_peer_turn: "di_pc S = Dg_reading i \<Longrightarrow> peer_ok i S \<Longrightarrow> has_kernel_udp_demux p \<Longrightarrow>
    dg_thread_step F K retrieve p S (peer_turn K p i S)"
| dt_timer: "dg_idle S \<Longrightarrow> t \<in> set (di_timers S) \<Longrightarrow> owner_ok (fst (snd (snd t))) S \<Longrightarrow>
    dg_thread_step F K retrieve p S (dg_timer_fire t S)"
| dt_exit: "dg_idle S \<Longrightarrow> di_stopping S \<Longrightarrow> dg_thread_step F K retrieve p S (S\<lparr>di_running := False\<rparr>)"

definition dg_step :: "'a dgram_family \<Rightarrow> kernel \<Rightarrow> dgram_source \<Rightarrow> platform \<Rightarrow> 'a dgram_impl \<Rightarrow> 'a dgram_impl \<Rightarrow> bool" where
  "dg_step F K retrieve p S T \<longleftrightarrow> dg_user_step F K p S T \<or> dg_thread_step F K retrieve p S T"

text \<open>A datagram object that \<open>create\<close> returned.\<close>

definition dg_ready :: "'a dgram_family \<Rightarrow> kernel \<Rightarrow> platform \<Rightarrow> 'a dgram_impl \<Rightarrow> bool" where
  "dg_ready F K p S \<longleftrightarrow> (\<exists>addr config w. clean (trace w) \<and> live w = {#}
     \<and> dg_create F K p addr config (dgram_new w) = Some (void_ok, S))"

end
