(* ===== verification/Dgrams.thy ===== *)
theory Dgrams
  imports Dgram_Impl "HOL-Library.Sublist"
begin

text \<open>
  How the datagrams of a batch are routed. The two handlers of \<open>handle_readable\<close> are compared with one
  specification: a datagram belongs to the open peer that has claimed its sender, and to the datagram
  object when there is none. The lemmas hold for every value the loads of the peers' flags may return,
  where they can; \<open>dgram_routes\<close> is the case in which no flag changes, \<open>batch_handler_overflow\<close> shows
  what the batch handler does when one is cleared between its passes.
\<close>

section \<open>Addresses\<close>

text \<open>On the addresses of \<open>A\<close>, \<open>operator==\<close> compares keys.\<close>

definition keyed :: "'a dgram_family \<Rightarrow> 'a set \<Rightarrow> bool" where
  "keyed F A \<longleftrightarrow> (\<forall>x \<in> A. \<forall>y \<in> A. \<forall>z \<in> A. df_eq F x x \<and> (df_eq F x y \<longrightarrow> df_eq F y x) \<and>
     (df_eq F x y \<longrightarrow> df_eq F y z \<longrightarrow> df_eq F x z))"

lemma keyedI: "(\<And>x y. x \<in> A \<Longrightarrow> y \<in> A \<Longrightarrow> df_eq F x y \<longleftrightarrow> key x = key y) \<Longrightarrow> keyed F A"
  by (auto simp: keyed_def)

lemma keyed_mono: "keyed F B \<Longrightarrow> A \<subseteq> B \<Longrightarrow> keyed F A"
  unfolding keyed_def by blast

lemma keyed_dgram4: "keyed (dgram4 K p) A"
  by (rule keyedI [where key = inet4_key]) (auto simp: dgram4_def inet4_eq_def inet4_key_def)

lemma keyed_dgram6: "A \<subseteq> Collect inet6_wf \<Longrightarrow> keyed (dgram6 K p) A"
  by (rule keyedI [where key = inet6_key]) (auto simp: dgram6_def inet6_eq_key subset_iff)

section \<open>What the datagram object keeps\<close>

text \<open>The datagrams that the single handler gives to the main callback, whatever the loads return.\<close>

fun kept ::
    "'a dgram_family \<Rightarrow> platform \<Rightarrow> reads \<Rightarrow> nat \<Rightarrow> (byte list \<times> 'a) list \<Rightarrow> 'a dgram_impl \<Rightarrow> (byte list \<times> 'a) list" where
  "kept F p rd k [] S = []"
| "kept F p rd k ((d, a) # ds) S =
     (case claimed_find F a S of
        Some i \<Rightarrow>
          if \<not> rd_check rd k i then (d, a) # kept F p rd (Suc k) ds (claimed_erase F a S)
          else kept F p rd (Suc k) ds (forward p rd k i d S)
      | None \<Rightarrow> (d, a) # kept F p rd (Suc k) ds S)"

lemma subseq_kept: "subseq (kept F p rd k ds S) ds"
  by (induction F p rd k ds S rule: kept.induct) (auto split: option.splits)

lemma claimed_find_submit [simp]:
  "claimed_find F a (main_submit c S) = claimed_find F a S" "claimed_find F a (peer_submit i pc S) = claimed_find F a S"
  by (simp_all add: claimed_find_def main_submit_def peer_submit_def set_peer_def)

lemma claimed_find_forward [simp]: "claimed_find F a (forward p rd k i d S) = claimed_find F a S"
  by (simp add: forward_def deliver_data_def)

lemma submit_commute:
  "claimed_erase F a (main_submit c S) = main_submit c (claimed_erase F a S)"
  "forward p rd k i d (main_submit c S) = main_submit c (forward p rd k i d S)"
  by (simp_all add: claimed_erase_def main_submit_def forward_def deliver_data_def peer_submit_def set_peer_def)

lemma calls_frame [simp]:
  "di_calls (claimed_erase F a S) = di_calls S" "di_calls (peer_submit i pc S) = di_calls S"
  "di_calls (main_submit c S) = di_calls S @ [c]" "di_objs (main_submit c S) = di_objs S"
  "di_objs (claimed_erase F a S) = di_objs S" "di_peers (main_submit c S) = di_peers S"
  "di_peers (peer_submit i pc S) = di_peers S"
  by (simp_all add: claimed_erase_def peer_submit_def set_peer_def main_submit_def)

lemma forward_frame [simp]:
  "di_calls (forward p rd k i d S) = di_calls S" "di_peers (forward p rd k i d S) = di_peers S"
  "length (di_objs (forward p rd k i d S)) = length (di_objs S)"
  by (simp_all add: forward_def deliver_data_def peer_submit_def set_peer_def)

lemma kept_submit [simp]: "kept F p rd k ds (main_submit c S) = kept F p rd k ds S"
  by (induction F p rd k ds S rule: kept.induct) (auto simp: submit_commute split: option.splits)

definition main_data :: "byte list \<times> 'a \<Rightarrow> 'a main_call" where
  "main_data x = Data_call (fst x) (snd x)"

lemma first_pass_submit:
  "first_pass F p rd k ds (main_submit c S) = map_prod id (main_submit c) (first_pass F p rd k ds S)"
  by (induction F p rd k ds S rule: first_pass.induct) (auto simp: submit_commute split: option.splits prod.splits)

lemma first_pass_calls [simp]: "di_calls (snd (first_pass F p rd k ds S)) = di_calls S"
  by (induction F p rd k ds S rule: first_pass.induct) (auto split: option.splits prod.splits)

lemma first_pass_counts:
  "fst (first_pass F p rd k ds S) = (length (concat (map fst (kept F p rd k ds S))), length (kept F p rd k ds S))"
  by (induction F p rd k ds S rule: first_pass.induct) (auto split: option.splits prod.splits)

lemma first_pass_next:
  "snd (first_pass F p rd k ((d, a) # ds) S) = snd (first_pass F p rd (Suc k) ds
     (case claimed_find F a S of Some i \<Rightarrow> if rd_check rd k i then forward p rd k i d S else claimed_erase F a S | None \<Rightarrow> S))"
  by (cases "claimed_find F a S"; cases "first_pass F p rd (Suc k) ds (claimed_erase F a S)";
      cases "first_pass F p rd (Suc k) ds S") auto

lemma claimed_find_in: "claimed_find F a S = Some i \<Longrightarrow> i \<in> snd ` set (di_peers S)"
proof -
  assume "claimed_find F a S = Some i"
  then obtain e where "find (\<lambda>e. df_eq F (fst e) a) (di_peers S) = Some e" "i = snd e"
    by (auto simp: claimed_find_def)
  then show ?thesis by (auto simp: find_Some_iff)
qed

text \<open>Both handlers do the same to the peers and the table, and the single handler submits what is kept.\<close>

lemma single_first_pass:
  "single_handler F p rd k ds S
   = (snd (first_pass F p rd k ds S))\<lparr>di_calls := di_calls S @ map main_data (kept F p rd k ds S)\<rparr>"
proof (induction F p rd k ds S rule: single_handler.induct)
  case (2 F p rd k d a ds S)
  have "(main_submit c T)\<lparr>di_calls := cs\<rparr> = T\<lparr>di_calls := cs\<rparr>" for c cs and T :: "'a dgram_impl"
    by (simp add: main_submit_def)
  with 2 show ?case
    by (auto simp: first_pass_submit main_data_def split: option.splits prod.splits)
qed simp

section \<open>The second pass\<close>

text \<open>The datagrams that the second pass does not skip.\<close>

fun copied :: "'a dgram_family \<Rightarrow> reads \<Rightarrow> 'a dgram_impl \<Rightarrow> nat \<Rightarrow> (byte list \<times> 'a) list \<Rightarrow> (byte list \<times> 'a) list" where
  "copied F rd S k [] = []"
| "copied F rd S k ((d, a) # ds) =
     (if (case claimed_find F a S of Some i \<Rightarrow> rd_second rd k i | None \<Rightarrow> False)
      then copied F rd S (Suc k) ds else (d, a) # copied F rd S (Suc k) ds)"

text \<open>The messages for datagrams that lie one after the other.\<close>

fun placed :: "nat \<Rightarrow> (byte list \<times> 'a) list \<Rightarrow> (nat \<times> nat \<times> 'a) list" where
  "placed off [] = []"
| "placed off ((d, a) # ds) = (off, length d, a) # placed (off + length d) ds"

definition payload :: "(byte list \<times> 'a) list \<Rightarrow> byte list" where
  "payload ds = concat (map fst ds)"

lemma payload_simps [simp]: "payload [] = []" "payload (x # ds) = fst x @ payload ds"
  by (simp_all add: payload_def)

lemma length_placed [simp]: "length (placed off ds) = length ds"
  by (induction off ds rule: placed.induct) simp_all

lemma placed_view:
  "map (\<lambda>(off, len, a). (mem_get (pre @ payload ds @ post) off len, a)) (placed (length pre) ds) = ds"
proof (induction ds arbitrary: pre)
  case (Cons x ds)
  obtain d a where x: "x = (d, a)" by (cases x)
  from Cons [of "pre @ d"] show ?case by (simp add: x mem_get_def)
qed simp

lemma mem_put_put: "off + length d + length e \<le> length buf \<Longrightarrow>
  mem_put (mem_put buf off d) (off + length d) e = mem_put buf off (d @ e)"
  by (cases d) (auto simp: mem_put_def min_def drop_append take_append ac_simps)

text \<open>The copies fit exactly when there is room for all of them.\<close>

lemma second_pass_eq:
  "off \<le> length buf \<Longrightarrow> idx \<le> length msgs \<Longrightarrow>
   second_pass F rd S k ds buf off msgs idx =
     (if off + length (payload (copied F rd S k ds)) \<le> length buf \<and> idx + length (copied F rd S k ds) \<le> length msgs
      then Some (mem_put buf off (payload (copied F rd S k ds)),
                 take idx msgs @ placed off (copied F rd S k ds) @ drop (idx + length (copied F rd S k ds)) msgs)
      else None)"
proof (induction F rd S k ds buf off msgs idx rule: second_pass.induct)
  case (1 F rd S k buf off msgs idx)
  then show ?case by (simp add: mem_put_def)
next
  case (2 F rd S k d a ds buf off msgs idx)
  show ?case
  proof (cases "case claimed_find F a S of Some i \<Rightarrow> rd_second rd k i | None \<Rightarrow> False")
    case True
    with 2(1) [OF True] 2(3,4) show ?thesis by simp
  next
    case skip: False
    show ?thesis
    proof (cases "off + length d \<le> length buf \<and> idx < length msgs")
      case True
      let ?cs = "copied F rd S (Suc k) ds"
      have w: "mem_write buf off d = Some (mem_put buf off d)" using True by (simp add: mem_write_def)
      have "take (Suc idx) (msgs[idx := (off, length d, a)]) = take idx msgs @ [(off, length d, a)]"
        using True by (simp add: take_Suc_conv_app_nth)
      then show ?thesis
        using skip w True 2(2) [OF skip w] by (simp add: length_mem_put mem_put_put)
    qed (use skip in \<open>auto simp: mem_write_def\<close>)
  qed
qed

text \<open>What the first pass counted is copied by the second one, perhaps with more in between.\<close>

lemma find_filter_None: "find P xs = None \<Longrightarrow> find P (filter Q xs) = None"
  by (auto simp: find_None_iff)

lemma first_pass_peers: "\<exists>Q. di_peers (snd (first_pass F p rd k ds S)) = filter Q (di_peers S)"
proof (induction F p rd k ds S rule: first_pass.induct)
  case (1 F p rd k S)
  show ?case by (rule exI [of _ "\<lambda>_. True"]) simp
next
  case (2 F p rd k d a ds S)
  show ?case
  proof (cases "claimed_find F a S")
    case (Some i)
    show ?thesis
    proof (cases "rd_check rd k i")
      case False
      with 2(2) [OF Some] obtain Q where
        "di_peers (snd (first_pass F p rd (Suc k) ds (claimed_erase F a S))) = filter Q (di_peers (claimed_erase F a S))"
        by blast
      with Some False show ?thesis by (auto simp: claimed_erase_def split: prod.splits)
    qed (use 2(3) [OF Some] Some in auto)
  qed (use 2 in \<open>auto split: prod.splits\<close>)
qed

lemma first_pass_unfound: "claimed_find F a S = None \<Longrightarrow> claimed_find F a (snd (first_pass F p rd k ds S)) = None"
  using first_pass_peers [of F p rd k ds S] by (auto simp: claimed_find_def intro: find_filter_None)

lemma claimed_find_erase: "claimed_find F a (claimed_erase F a S) = None"
  by (simp add: claimed_find_def claimed_erase_def find_None_iff)

lemma kept_copied: "subseq (kept F p rd k ds S) (copied F rd (snd (first_pass F p rd k ds S)) k ds)"
proof (induction F p rd k ds S rule: kept.induct)
  case (2 F p rd k d a ds S)
  show ?case
  proof (cases "claimed_find F a S")
    case None
    with 2(1) [OF None] first_pass_unfound [OF None, of p rd "Suc k" ds] None show ?thesis
      by (auto split: prod.splits)
  next
    case (Some i)
    with 2(2,3) [OF Some] first_pass_unfound [OF claimed_find_erase [of F a S], of p rd "Suc k" ds] Some show ?thesis
      by (auto split: prod.splits)
  qed
qed simp

text \<open>
  The batch handler for all loads: it submits the datagrams that the single handler would submit, once,
  unless the second pass sees more of them than the first; then it writes beyond its buffers.
\<close>

lemma batch_handler_eq:
  "batch_handler F p rd ds S =
     (let T = snd (first_pass F p rd 0 ds S); ks = kept F p rd 0 ds S
      in if ks = [] then Some T
         else if copied F rd T 0 ds = ks then Some (main_submit (Batch_call ks) T) else None)"
proof -
  obtain t n T where f: "first_pass F p rd 0 ds S = ((t, n), T)" by (metis surj_pair)
  let ?ks = "kept F p rd 0 ds S" and ?cs = "copied F rd T 0 ds"
  have tn: "t = length (payload ?ks)" "n = length ?ks"
    using first_pass_counts [of F p rd 0 ds S] f by (simp_all add: payload_def)
  have sub: "subseq ?ks ?cs" using kept_copied [of F p rd 0 ds S] f by simp
  show ?thesis
  proof (cases "?cs = ?ks")
    case True
    have "mem_put (replicate t 0) 0 (payload ?ks) = [] @ payload ?ks @ []" using tn by (simp add: mem_put_def)
    then show ?thesis
      using placed_view [of "[]" ?ks "[]"] f tn True
      by (simp add: batch_handler_def second_pass_eq Let_def)
  next
    case False
    have "\<not> length ?cs \<le> length ?ks"
      using sub False by (metis subseq_same_length list_emb_length le_antisym)
    then show ?thesis using f tn False by (simp add: batch_handler_def second_pass_eq Let_def)
  qed
qed

section \<open>Routing when no flag changes\<close>

definition steady :: "reads \<Rightarrow> 'a dgram_impl \<Rightarrow> bool" where
  "steady rd S \<longleftrightarrow> (\<forall>k i. rd_check rd k i = dp_open (di_objs S ! i) \<and> rd_deliver rd k i = dp_open (di_objs S ! i)
     \<and> rd_second rd k i = dp_open (di_objs S ! i))"

text \<open>The specification: the open peer that has claimed an address.\<close>

definition routed :: "'a dgram_family \<Rightarrow> 'a dgram_impl \<Rightarrow> 'a \<Rightarrow> nat option" where
  "routed F S a = (case claimed_find F a S of Some i \<Rightarrow> if dp_open (di_objs S ! i) then Some i else None | None \<Rightarrow> None)"

definition unclaimed :: "'a dgram_family \<Rightarrow> 'a dgram_impl \<Rightarrow> (byte list \<times> 'a) list \<Rightarrow> (byte list \<times> 'a) list" where
  "unclaimed F S ds = filter (\<lambda>x. routed F S (snd x) = None) ds"

definition forwarded :: "'a dgram_family \<Rightarrow> platform \<Rightarrow> 'a dgram_impl \<Rightarrow> nat \<Rightarrow> (byte list \<times> 'a) list \<Rightarrow> byte list list" where
  "forwarded F p S i ds =
     (if has_kernel_udp_demux p \<or> \<not> dp_on_data (di_objs S ! i) then []
      else map fst (filter (\<lambda>x. routed F S (snd x) = Some i) ds))"

lemma set_peer_nth:
  "di_objs (set_peer i f S) ! j = (if i = j \<and> i < length (di_objs S) then f (di_objs S ! j) else di_objs S ! j)"
  by (cases "i = j"; cases "i < length (di_objs S)") (simp_all add: set_peer_def list_update_beyond)

lemma submit_obj [simp]:
  "dp_open (di_objs (peer_submit i c S) ! j) = dp_open (di_objs S ! j)"
  "dp_on_data (di_objs (peer_submit i c S) ! j) = dp_on_data (di_objs S ! j)"
  by (simp_all add: peer_submit_def set_peer_nth)

lemma forward_obj [simp]:
  "dp_open (di_objs (forward p rd k i d S) ! j) = dp_open (di_objs S ! j)"
  "dp_on_data (di_objs (forward p rd k i d S) ! j) = dp_on_data (di_objs S ! j)"
  by (simp_all add: forward_def deliver_data_def)

lemma submit_calls:
  "i < length (di_objs S) \<Longrightarrow>
   dp_calls (di_objs (peer_submit i c S) ! j) = dp_calls (di_objs S ! j) @ (if j = i then [c] else [])"
  by (simp add: peer_submit_def set_peer_def)

lemma steady_frame [simp]:
  "steady rd (forward p rd' k i d S) = steady rd S" "steady rd (claimed_erase F a S) = steady rd S"
  by (simp_all add: steady_def)

lemma routed_forward [simp]: "routed F (forward p rd k i d S) a = routed F S a"
  by (simp add: routed_def split: option.split)

lemma find_filter: "(\<And>x. x \<in> set xs \<Longrightarrow> P x \<Longrightarrow> Q x) \<Longrightarrow> find P (filter Q xs) = find P xs"
  by (induction xs) auto

text \<open>Erasing a peer that is closed changes no route.\<close>

lemma routed_erase:
  assumes key: "keyed F A" and A: "fst ` set (di_peers S) \<subseteq> A" "a \<in> A" "b \<in> A" and b: "routed F S b = None"
  shows "routed F (claimed_erase F b S) a = routed F S a"
proof (cases "df_eq F a b")
  case True
  have same: "df_eq F x a \<longleftrightarrow> df_eq F x b" if "x \<in> A" for x
    using key True that A(2,3) unfolding keyed_def by blast
  have "find (\<lambda>e. df_eq F (fst e) a) (di_peers S) = find (\<lambda>e. df_eq F (fst e) b) (di_peers S)"
    using A(1) same by (intro find_cong) auto
  then have "routed F S a = None" using b by (simp add: routed_def claimed_find_def)
  moreover have "claimed_find F a (claimed_erase F b S) = None"
    using A(1) same by (auto simp: claimed_find_def claimed_erase_def find_None_iff)
  ultimately show ?thesis by (simp add: routed_def)
next
  case False
  have "df_eq F x a \<Longrightarrow> \<not> df_eq F x b" if "x \<in> A" for x
    using key False that A(2,3) unfolding keyed_def by blast
  then have "find (\<lambda>e. df_eq F (fst e) a) (filter (\<lambda>e. \<not> df_eq F (fst e) b) (di_peers S))
      = find (\<lambda>e. df_eq F (fst e) a) (di_peers S)"
    using A(1) by (intro find_filter) auto
  then show ?thesis by (simp add: routed_def claimed_find_def claimed_erase_def split: option.split)
qed

text \<open>The first pass when no flag changes: what it keeps, and what it forwards to each peer.\<close>

lemma unclaimed_cong:
  "(\<And>x. x \<in> set ds \<Longrightarrow> routed F T (snd x) = routed F S (snd x)) \<Longrightarrow> unclaimed F T ds = unclaimed F S ds"
  unfolding unclaimed_def by (rule filter_cong) auto

lemma forwarded_cong:
  assumes "\<And>x. x \<in> set ds \<Longrightarrow> routed F T (snd x) = routed F S (snd x)"
    and "dp_on_data (di_objs T ! j) = dp_on_data (di_objs S ! j)"
  shows "forwarded F p T j ds = forwarded F p S j ds"
proof -
  have "filter (\<lambda>x. routed F T (snd x) = Some j) ds = filter (\<lambda>x. routed F S (snd x) = Some j) ds"
    using assms(1) by (intro filter_cong) auto
  then show ?thesis using assms(2) by (simp add: forwarded_def)
qed

lemma forward_calls:
  assumes "steady rd S" and "claimed_find F a S = Some i" and "dp_open (di_objs S ! i)" and "i < length (di_objs S)"
  shows "dp_calls (di_objs (forward p rd k i d S) ! j) = dp_calls (di_objs S ! j) @ map Peer_data (forwarded F p S j [(d, a)])"
  using assms by (auto simp: forward_def deliver_data_def forwarded_def routed_def steady_def submit_calls)

lemma forwarded_Cons: "forwarded F p S j (x # ds) = forwarded F p S j [x] @ forwarded F p S j ds"
  by (simp add: forwarded_def)

lemma first_pass_stable:
  assumes "steady rd S" and "keyed F A" and "fst ` set (di_peers S) \<subseteq> A" and "snd ` set ds \<subseteq> A"
    and "snd ` set (di_peers S) \<subseteq> {..<length (di_objs S)}"
  shows "kept F p rd k ds S = unclaimed F S ds
    \<and> (\<forall>a \<in> A. routed F (snd (first_pass F p rd k ds S)) a = routed F S a)
    \<and> steady rd (snd (first_pass F p rd k ds S))
    \<and> (\<forall>j. dp_calls (di_objs (snd (first_pass F p rd k ds S)) ! j)
         = dp_calls (di_objs S ! j) @ map Peer_data (forwarded F p S j ds))"
  using assms
proof (induction F p rd k ds S rule: kept.induct)
  case (1 F p rd k S)
  then show ?case by (simp add: unclaimed_def forwarded_def)
next
  case (2 F p rd k d a ds S)
  have a: "a \<in> A" and ds: "snd ` set ds \<subseteq> A" using 2(7) by auto
  have inA: "snd x \<in> A" if "x \<in> set ds" for x using ds that by blast
  have split1: "forwarded F p S j ((d, a) # ds) = forwarded F p S j [(d, a)] @ forwarded F p S j ds" for j
    by (rule forwarded_Cons)
  show ?case
  proof (cases "claimed_find F a S")
    case None
    then have r: "routed F S a = None" by (simp add: routed_def)
    have "forwarded F p S j [(d, a)] = []" for j using r by (simp add: forwarded_def)
    with 2(1) [OF None 2(4-6) ds 2(8)] None r show ?thesis
      by (simp only: first_pass_next split1) (simp add: unclaimed_def)
  next
    case (Some i)
    have i: "i < length (di_objs S)"
      using 2(8) claimed_find_in [OF Some] by blast
    show ?thesis
    proof (cases "dp_open (di_objs S ! i)")
      case True
      let ?T = "forward p rd k i d S"
      have c: "rd_check rd k i" using True 2(4) by (simp add: steady_def)
      have r: "routed F S a = Some i" using Some True by (simp add: routed_def)
      have p: "fst ` set (di_peers ?T) \<subseteq> A" "snd ` set (di_peers ?T) \<subseteq> {..<length (di_objs ?T)}" "steady rd ?T"
        using 2(4,6,8) by simp_all
      have u: "unclaimed F ?T ds = unclaimed F S ds" by (rule unclaimed_cong) simp
      have f: "forwarded F p ?T j ds = forwarded F p S j ds" for j by (rule forwarded_cong) simp_all
      from 2(3) [OF Some _ p(3) 2(5) p(1) ds p(2)] c
      have IH: "kept F p rd (Suc k) ds ?T = unclaimed F ?T ds"
        "\<forall>b \<in> A. routed F (snd (first_pass F p rd (Suc k) ds ?T)) b = routed F ?T b"
        "steady rd (snd (first_pass F p rd (Suc k) ds ?T))"
        "\<And>j. dp_calls (di_objs (snd (first_pass F p rd (Suc k) ds ?T)) ! j)
           = dp_calls (di_objs ?T ! j) @ map Peer_data (forwarded F p ?T j ds)" by simp_all
      have n: "snd (first_pass F p rd k ((d, a) # ds) S) = snd (first_pass F p rd (Suc k) ds ?T)"
        using Some c by (simp only: first_pass_next) simp
      show ?thesis unfolding n split1
        using IH Some c r u f forward_calls [OF 2(4) Some True i] by (simp add: unclaimed_def)
    next
      case False
      let ?T = "claimed_erase F a S"
      have c: "\<not> rd_check rd k i" using False 2(4) by (simp add: steady_def)
      have r: "routed F S a = None" using Some False by (simp add: routed_def)
      have e: "routed F ?T b = routed F S b" if "b \<in> A" for b
        by (rule routed_erase [OF 2(5,6) that a r])
      have p: "fst ` set (di_peers ?T) \<subseteq> A" "snd ` set (di_peers ?T) \<subseteq> {..<length (di_objs ?T)}" "steady rd ?T"
        using 2(4,6,8) by (auto simp only: steady_frame calls_frame) (auto simp: claimed_erase_def)
      have u: "unclaimed F ?T ds = unclaimed F S ds" by (rule unclaimed_cong) (simp add: e inA)
      have f: "forwarded F p ?T j ds = forwarded F p S j ds" for j by (rule forwarded_cong) (simp_all add: e inA)
      have "forwarded F p S j [(d, a)] = []" for j using r by (simp add: forwarded_def)
      moreover have n: "snd (first_pass F p rd k ((d, a) # ds) S) = snd (first_pass F p rd (Suc k) ds ?T)"
        using Some c by (simp only: first_pass_next) simp
      ultimately show ?thesis unfolding n split1
        using 2(2) [OF Some c p(3) 2(5) p(1) ds p(2)] Some c r u f e by (simp add: unclaimed_def)
    qed
  qed
qed

lemma copied_stable: "steady rd S \<Longrightarrow> copied F rd S k ds = unclaimed F S ds"
  by (induction F rd S k ds rule: copied.induct) (auto simp: unclaimed_def routed_def steady_def split: option.splits)

section \<open>Properties\<close>

text \<open>The peers of the table are objects.\<close>

definition peers_exist :: "'a dgram_impl \<Rightarrow> bool" where
  "peers_exist S \<longleftrightarrow> snd ` set (di_peers S) \<subseteq> {..<length (di_objs S)}"

lemma handle_batch_steady:
  assumes "keyed F (fst ` set (di_peers S) \<union> snd ` set ds)" and "peers_exist S" and "steady rd S"
  shows "batch_handler F p rd ds S = Some ((snd (first_pass F p rd 0 ds S))
           \<lparr>di_calls := di_calls S @ (if unclaimed F S ds = [] then [] else [Batch_call (unclaimed F S ds)])\<rparr>)"
    and "single_handler F p rd 0 ds S = (snd (first_pass F p rd 0 ds S))
           \<lparr>di_calls := di_calls S @ map main_data (unclaimed F S ds)\<rparr>"
proof -
  let ?T = "snd (first_pass F p rd 0 ds S)"
  from first_pass_stable [OF assms(3,1), where p = p and k = 0 and ds = ds] assms(2)
  have k: "kept F p rd 0 ds S = unclaimed F S ds" "steady rd ?T"
    and r: "\<And>x. x \<in> set ds \<Longrightarrow> routed F ?T (snd x) = routed F S (snd x)"
    by (auto simp: peers_exist_def)
  have "copied F rd ?T 0 ds = unclaimed F S ds"
    using copied_stable [OF k(2)] unclaimed_cong [OF r] by metis
  then show "batch_handler F p rd ds S = Some (?T
      \<lparr>di_calls := di_calls S @ (if unclaimed F S ds = [] then [] else [Batch_call (unclaimed F S ds)])\<rparr>)"
    using k(1) first_pass_calls [of F p rd 0 ds S] by (simp add: batch_handler_eq Let_def main_submit_def)
  show "single_handler F p rd 0 ds S = ?T\<lparr>di_calls := di_calls S @ map main_data (unclaimed F S ds)\<rparr>"
    by (simp only: single_first_pass k(1))
qed



text \<open>
  C38: the batch handler reads the flag of a peer in both of its passes, and the peer's user may clear it
  in between. Then the second pass copies a datagram for which the first one has reserved no room: it
  writes beyond the end of the shared buffers.
\<close>

theorem dgram_batch_overflow:
  assumes "di_on_batch S" and "claimed_find F b S = None" and "claimed_find F a S = Some i"
    and "rd_check rd 1 i" and "\<not> rd_second rd 1 i"
  shows "handle_batch F p rd [(x, b), (d, a)] S = None"
  using assms by (auto simp: handle_batch_def batch_handler_eq Let_def first_pass_next)

section \<open>Examples\<close>

definition alice :: inet4_address where "alice = inet4_make Windows 1 1000"
definition bob :: inet4_address where "bob = inet4_make Windows 2 1000"

text \<open>A datagram object on Windows whose peer Alice was claimed.\<close>

definition claimed_alice :: "bool \<Rightarrow> inet4_address dgram_impl" where
  "claimed_alice batch = (dgram_new start_world)\<lparr>di_on_batch := batch, di_on_data := \<not> batch,
     di_objs := [(new_peer (dgram4 ok_kernel Windows) alice)\<lparr>dp_on_data := True\<rparr>], di_peers := [(alice, 0)]\<rparr>"

definition flags_now :: "'a dgram_impl \<Rightarrow> reads" where
  "flags_now S = (let now = (\<lambda>k i. dp_open (di_objs S ! i)) in \<lparr>rd_check = now, rd_deliver = now, rd_second = now\<rparr>)"

lemma steady_flags: "steady (flags_now S) S"
  by (simp add: steady_def flags_now_def Let_def)

text \<open>The loads while the user of the peers relinquishes them between the two passes.\<close>

definition flags_cleared :: reads where
  "flags_cleared = \<lparr>rd_check = \<lambda>k i. True, rd_deliver = \<lambda>k i. True, rd_second = \<lambda>k i. False\<rparr>"

lemma alice_bob: "inet4_eq alice alice" "\<not> inet4_eq alice bob"
  by (simp_all add: inet4_eq_def alice_def bob_def)

lemma alice_found:
  "claimed_find (dgram4 ok_kernel Windows) alice (claimed_alice b) = Some 0"
  "claimed_find (dgram4 ok_kernel Windows) bob (claimed_alice b) = None"
  by (simp_all add: claimed_find_def claimed_alice_def dgram4_def alice_bob)



theorem dgram_batch_overflow_witness:
  "handle_batch (dgram4 ok_kernel Windows) Windows flags_cleared [([8], bob), ([7], alice)] (claimed_alice True) = None"
  by (rule dgram_batch_overflow [OF _ alice_found(2,1)]) (simp_all add: claimed_alice_def flags_cleared_def)

end
