(* ===== verification/Dgram_Runs.thy ===== *)
theory Dgram_Runs
  imports Dgrams
begin

text \<open>
  What datagram objects and their peers guarantee under every interleaving of user threads, pool and
  loop thread: descriptors are accounted for, no two peers of the table have the same address, and
  what is delivered comes from the received datagrams in their order.
\<close>

section \<open>The address families\<close>

locale dgram_laws =
  fixes F :: "'a dgram_family"
  assumes open_owns: "fd_wp (df_open F s a opts) (\<lambda>x L'. L' = L + owned (snd x)) (L + owned s)"
    and send_neutral: "neutral (df_send_to F s data a flags)"
    and local_neutral: "neutral (df_local F s)"
    and create_owns: "acquires (df_create F l a opts) peer_owned"

lemma neutral_send_to [neutral_intros]: "neutral (send_to_raw K p s data dest flags)"
  unfolding send_to_raw_def by (intro neutral_intros)

lemma neutral_send_loop [neutral_intros]: "neutral (send_loop K p s ms i)"
  by (induction ms arbitrary: i) (auto intro!: neutral_intros)

lemma neutral_send_batch [neutral_intros]: "neutral (send_batch K p s ms)"
  unfolding send_batch_def by (intro neutral_intros)

lemma neutral_recv_from:
  assumes "\<And>d h n. neutral (retrieve d h n)"
  shows "neutral (recv_from_raw K retrieve p s len flags)"
  unfolding recv_from_raw_def Let_def by (intro neutral_intros assms)

lemma neutral_recv_loop:
  assumes "\<And>d h n. neutral (retrieve d h n)"
  shows "neutral (recv_loop K retrieve p s ms i)"
  by (induction ms arbitrary: i) (auto intro!: neutral_intros neutral_recv_from assms)

lemma neutral_recv_batch:
  assumes "\<And>d h n. neutral (retrieve d h n)"
  shows "neutral (recv_batch K retrieve p s ms)"
  unfolding recv_batch_def by (intro neutral_intros neutral_recv_loop assms)

interpretation udp4: dgram_laws "dgram4 K p"
  by unfold_locales (auto simp: dgram4_def udp4_open_def udp4_send_to_def udp4_local_addr_def
      intro!: wp_udp_open peer_create_acquires neutral_intros)

interpretation udp6: dgram_laws "dgram6 K p"
  by unfold_locales (auto simp: dgram6_def udp6_open_def udp6_send_to_def udp6_local_addr_def
      intro!: wp_udp_open peer_create_acquires neutral_intros)

section \<open>The invariant\<close>

definition objs_owned :: "'a peer_object list \<Rightarrow> int multiset" where
  "objs_owned obs = sum_list (map (\<lambda>ob. peer_owned (dp_sock ob)) obs)"

text \<open>The open descriptors: the socket, those of the peers, and \<open>R\<close>.\<close>

definition holds :: "int multiset \<Rightarrow> 'a dgram_impl \<Rightarrow> bool" where
  "holds R S \<longleftrightarrow> live (di_world S) = owned (di_socket S) + objs_owned (di_objs S) + R \<and> clean (trace (di_world S))"

definition exclusive :: "'a dgram_family \<Rightarrow> 'a dgram_impl \<Rightarrow> bool" where
  "exclusive F S \<longleftrightarrow> sorted_wrt (\<lambda>e e'. \<not> df_eq F (fst e) (fst e')) (di_peers S)
     \<and> (\<forall>(a, i) \<in> set (di_peers S). i < length (di_objs S) \<and> dp_addr (di_objs S ! i) = a)"

text \<open>The claims that the loop has not seen yet.\<close>

definition claims :: "'a dg_task list \<Rightarrow> nat list" where
  "claims ts = concat (map (\<lambda>t. case t of Claim i \<Rightarrow> [i] | _ \<Rightarrow> []) ts)"

definition waiting :: "'a peer_object \<Rightarrow> bool" where
  "waiting ob \<longleftrightarrow> dp_hold ob = Claiming \<and> dp_promise ob = None \<and> dp_open ob \<and> \<not> dp_closing ob"

definition claims_ok :: "'a dgram_impl \<Rightarrow> bool" where
  "claims_ok S \<longleftrightarrow> distinct (claims (di_posted S)) \<and> (\<forall>i \<in> set (claims (di_posted S)).
     i < length (di_objs S) \<and> waiting (di_objs S ! i) \<and> i \<notin> snd ` set (di_peers S))"

text \<open>A peer that was relinquished, and every peer without kernel demultiplexing, has no socket.\<close>

definition peer_settled :: "platform \<Rightarrow> 'a peer_object \<Rightarrow> bool" where
  "peer_settled p ob \<longleftrightarrow> (\<not> dp_open ob \<and> \<not> dp_closing ob \<or> \<not> has_kernel_udp_demux p \<longrightarrow> \<not> peer_is_open (dp_sock ob))
     \<and> (dp_closing ob \<longrightarrow> \<not> dp_open ob)"

fun main_payload :: "'a main_call \<Rightarrow> (byte list \<times> 'a) list" where
  "main_payload (Data_call d a) = [(d, a)]"
| "main_payload (Batch_call ms) = ms"
| "main_payload _ = []"

fun peer_payload :: "peer_call \<Rightarrow> byte list list" where
  "peer_payload (Peer_data d) = [d]"
| "peer_payload _ = []"

definition delivered :: "'a dgram_impl \<Rightarrow> (byte list \<times> 'a) list" where
  "delivered S = concat (map main_payload (di_calls S))"

definition sent_by :: "'a dgram_family \<Rightarrow> 'a \<Rightarrow> (byte list \<times> 'a) list \<Rightarrow> byte list list" where
  "sent_by F a rcv = map fst (filter (\<lambda>x. df_eq F a (snd x)) rcv)"

definition peer_delivered :: "'a peer_object \<Rightarrow> byte list list" where
  "peer_delivered ob = concat (map peer_payload (dp_calls ob))"

definition in_order :: "'a dgram_family \<Rightarrow> platform \<Rightarrow> 'a dgram_impl \<Rightarrow> bool" where
  "in_order F p S \<longleftrightarrow> subseq (delivered S) (di_received S)
     \<and> (\<not> has_kernel_udp_demux p \<longrightarrow> (\<forall>ob \<in> set (di_objs S).
          subseq (peer_delivered ob) (sent_by F (dp_addr ob) (di_received S))))"

definition ended :: "'a dgram_impl \<Rightarrow> bool" where
  "ended S \<longleftrightarrow> (di_gone S \<longrightarrow> owned (di_socket S) = {#} \<and> \<not> di_running S) \<and> (\<not> di_running S \<longrightarrow> di_pc S = Dg_idle)"

definition dg_inv :: "'a dgram_family \<Rightarrow> platform \<Rightarrow> int multiset \<Rightarrow> 'a dgram_impl \<Rightarrow> bool" where
  "dg_inv F p R S \<longleftrightarrow> holds R S \<and> exclusive F S \<and> claims_ok S \<and> (\<forall>ob \<in> set (di_objs S). peer_settled p ob)
     \<and> in_order F p S \<and> ended S"

lemma claims_simps [simp]: "claims [] = []" "claims (ts @ us) = claims ts @ claims us"
  "claims (t # ts) = (case t of Claim i \<Rightarrow> [i] | _ \<Rightarrow> []) @ claims ts"
  by (simp_all add: claims_def)

text \<open>Changes that the invariant does not see.\<close>

lemma dg_inv_cong:
  assumes "dg_inv F p R S" "di_world T = di_world S" "di_socket T = di_socket S" "di_peers T = di_peers S"
    "di_objs T = di_objs S" "delivered T = delivered S" "di_received T = di_received S"
    "claims (di_posted T) = claims (di_posted S)" "ended T"
  shows "dg_inv F p R T"
  using assms by (simp add: dg_inv_def holds_def exclusive_def claims_ok_def in_order_def)

lemma dg_inv_same:
  assumes "dg_inv F p R S" "di_world T = di_world S" "di_socket T = di_socket S" "di_peers T = di_peers S"
    "di_objs T = di_objs S" "delivered T = delivered S" "di_received T = di_received S"
    "claims (di_posted T) = claims (di_posted S)" "di_gone T = di_gone S" "di_running T = di_running S" "di_pc T = di_pc S"
  shows "dg_inv F p R T"
  using assms by (intro dg_inv_cong [OF assms(1-8)]) (simp add: dg_inv_def ended_def)

lemma dg_inv_ended: "dg_inv F p R S \<Longrightarrow> ended S"
  by (simp add: dg_inv_def)

lemma objs_owned_split:
  assumes "i < length obs"
  obtains M where "objs_owned obs = peer_owned (dp_sock (obs ! i)) + M"
    "\<And>ob. objs_owned (obs[i := ob]) = peer_owned (dp_sock ob) + M"
proof
  show "objs_owned obs = peer_owned (dp_sock (obs ! i)) + objs_owned (take i obs @ drop (Suc i) obs)"
    by (subst id_take_nth_drop [OF assms]) (simp add: objs_owned_def)
  show "objs_owned (obs[i := ob]) = peer_owned (dp_sock ob) + objs_owned (take i obs @ drop (Suc i) obs)" for ob
    using assms by (simp add: upd_conv_take_nth_drop objs_owned_def)
qed

lemma set_peer_fields [simp]:
  "di_world (set_peer i f S) = di_world S" "di_socket (set_peer i f S) = di_socket S"
  "di_peers (set_peer i f S) = di_peers S" "di_calls (set_peer i f S) = di_calls S"
  "di_received (set_peer i f S) = di_received S" "di_posted (set_peer i f S) = di_posted S"
  "di_gone (set_peer i f S) = di_gone S" "di_running (set_peer i f S) = di_running S" "di_pc (set_peer i f S) = di_pc S"
  "di_io (set_peer i f S) = di_io S" "di_buf_size (set_peer i f S) = di_buf_size S"
  "di_objs (set_peer i f S) = (di_objs S)[i := f (di_objs S ! i)]"
  by (simp_all add: set_peer_def)

text \<open>A change of one peer that keeps its address, its socket and its callbacks.\<close>

lemma dg_inv_set_peer:
  assumes inv: "dg_inv F p R S" and i: "i < length (di_objs S)"
    and f: "dp_addr (f (di_objs S ! i)) = dp_addr (di_objs S ! i)" "dp_sock (f (di_objs S ! i)) = dp_sock (di_objs S ! i)"
      "dp_calls (f (di_objs S ! i)) = dp_calls (di_objs S ! i)"
    and w: "waiting (di_objs S ! i) \<Longrightarrow> i \<in> set (claims (di_posted S)) \<Longrightarrow> waiting (f (di_objs S ! i))"
    and s: "peer_settled p (di_objs S ! i) \<Longrightarrow> peer_settled p (f (di_objs S ! i))"
  shows "dg_inv F p R (set_peer i f S)"
proof -
  let ?ob = "f (di_objs S ! i)"
  have mem: "di_objs S ! i \<in> set (di_objs S)" using i by simp
  obtain M where M: "objs_owned (di_objs S) = peer_owned (dp_sock (di_objs S ! i)) + M"
    "\<And>ob. objs_owned ((di_objs S)[i := ob]) = peer_owned (dp_sock ob) + M"
    using objs_owned_split [OF i] by metis
  have "holds R (set_peer i f S)" using inv f(2) M by (simp add: dg_inv_def holds_def)
  moreover have "exclusive F (set_peer i f S)"
    using inv f(1) i by (auto simp: dg_inv_def exclusive_def nth_list_update)
  moreover have "claims_ok (set_peer i f S)"
    using inv w i by (auto simp: dg_inv_def claims_ok_def nth_list_update)
  moreover have "\<forall>ob \<in> set ((di_objs S)[i := ?ob]). peer_settled p ob"
    using inv s mem by (intro ball_update) (simp_all add: dg_inv_def)
  moreover have "in_order F p (set_peer i f S)"
  proof -
    have "\<forall>ob \<in> set ((di_objs S)[i := ?ob]). subseq (peer_delivered ob) (sent_by F (dp_addr ob) (di_received S))"
      if "\<not> has_kernel_udp_demux p"
      using inv f(1,3) that mem by (intro ball_update) (simp_all add: dg_inv_def in_order_def peer_delivered_def)
    then show ?thesis using inv by (simp add: dg_inv_def in_order_def delivered_def)
  qed
  ultimately show ?thesis using inv by (simp add: dg_inv_def ended_def)
qed

text \<open>System calls that open and close nothing.\<close>

lemma dg_inv_neutral:
  assumes "dg_inv F p R S" and "neutral m"
  shows "dg_inv F p R (S\<lparr>di_world := final_world m (di_world S)\<rparr>)"
proof -
  obtain x w where r: "run_state m (di_world S) = (x, w)" by (metis surj_pair)
  from assms(1) neutral_run [OF assms(2) r] neutral_clean [OF assms(2) r] r show ?thesis
    by (simp add: dg_inv_def holds_def exclusive_def claims_ok_def in_order_def delivered_def ended_def)
qed

lemma dg_inv_post: "dg_inv F p R S \<Longrightarrow> claims [t] = [] \<Longrightarrow> dg_inv F p R (dg_post t S)"
  by (rule dg_inv_cong) (auto simp: dg_post_def delivered_def dg_inv_def ended_def)

text \<open>Peers that leave the table.\<close>

lemma dg_inv_erase: "dg_inv F p R S \<Longrightarrow> dg_inv F p R (S\<lparr>di_peers := filter Q (di_peers S)\<rparr>)"
  by (auto simp: dg_inv_def holds_def exclusive_def claims_ok_def in_order_def delivered_def ended_def
      sorted_wrt_filter)

section \<open>Relinquishing\<close>

lemma flag_inv:
  assumes "dg_inv F p R S" and "i < length (di_objs S)" and "i \<notin> set (claims (di_posted S))"
  shows "dg_inv F p R (relinquish_flag i S)"
  unfolding relinquish_flag_def
  by (cases "dp_open (di_objs S ! i)") (auto intro!: dg_inv_set_peer assms simp: assms peer_settled_def)

text \<open>A peer takes over another socket, and the socket it had is closed.\<close>

lemma dg_inv_socket:
  assumes inv: "dg_inv F p (R + peer_owned ps) S" and i: "i < length (di_objs S)"
    and r: "run_state (peer_move_assign K p False (dp_sock (di_objs S ! i)) ps) (di_world S) = ((ps', x), w)"
    and s: "peer_settled p (di_objs S ! i) \<Longrightarrow> peer_settled p ((di_objs S ! i)\<lparr>dp_sock := ps\<rparr>)"
  shows "dg_inv F p R ((set_peer i (\<lambda>ob. ob\<lparr>dp_sock := ps'\<rparr>) S)\<lparr>di_world := w\<rparr>)"
proof -
  obtain M where M: "objs_owned (di_objs S) = peer_owned (dp_sock (di_objs S ! i)) + M"
    "\<And>ob. objs_owned ((di_objs S)[i := ob]) = peer_owned (dp_sock ob) + M"
    using objs_owned_split [OF i] by metis
  let ?old = "dp_sock (di_objs S ! i)"
  let ?L = "owned (di_socket S) + M + R + peer_owned ps"
  have 1: "live (di_world S) = ?L + peer_owned ?old" "clean (trace (di_world S))"
    using inv M(1) by (simp_all add: dg_inv_def holds_def ac_simps)
  have "fd_wp (peer_move_assign K p False ?old ps) (\<lambda>y L'. y = peer_move ps \<and> L' = ?L) (?L + peer_owned ?old)"
    by (rule wp_peer_move_assign) simp_all
  from fd_wpD [OF this r 1] have 2: "ps' = fst (peer_move ps)" "live w = ?L" "clean (trace w)"
    by (simp_all) (metis fst_conv)
  have own: "peer_owned ps' = peer_owned ps" "peer_is_open ps' = peer_is_open ps"
    by (simp_all add: 2 peer_move_def peer_owned_def peer_is_open_def)
  let ?T = "(set_peer i (\<lambda>ob. ob\<lparr>dp_sock := ps'\<rparr>) S)\<lparr>di_world := w\<rparr>" and ?ob = "(di_objs S ! i)\<lparr>dp_sock := ps'\<rparr>"
  have mem: "di_objs S ! i \<in> set (di_objs S)" using i by simp
  have "holds R ?T" using 2 M(2) own by (simp add: holds_def ac_simps)
  moreover have "exclusive F ?T" using inv i by (auto simp: dg_inv_def exclusive_def nth_list_update)
  moreover have "claims_ok ?T" using inv i by (auto simp: dg_inv_def claims_ok_def waiting_def nth_list_update)
  moreover have "\<forall>ob \<in> set ((di_objs S)[i := ?ob]). peer_settled p ob"
    using inv s own mem by (intro ball_update) (simp_all add: dg_inv_def peer_settled_def)
  moreover have "\<forall>ob \<in> set ((di_objs S)[i := ?ob]). subseq (peer_delivered ob) (sent_by F (dp_addr ob) (di_received S))"
    if "\<not> has_kernel_udp_demux p"
    using inv that mem by (intro ball_update) (simp_all add: dg_inv_def in_order_def peer_delivered_def)
  ultimately show ?thesis
    using inv by (simp add: dg_inv_def in_order_def delivered_def ended_def)
qed

lemma io_drop_fields [simp]:
  "di_world (io_drop ok fd S) = di_world S" "di_socket (io_drop ok fd S) = di_socket S"
  "di_peers (io_drop ok fd S) = di_peers S" "di_objs (io_drop ok fd S) = di_objs S"
  "di_calls (io_drop ok fd S) = di_calls S" "di_received (io_drop ok fd S) = di_received S"
  "di_posted (io_drop ok fd S) = di_posted S" "di_gone (io_drop ok fd S) = di_gone S"
  "di_running (io_drop ok fd S) = di_running S" "di_pc (io_drop ok fd S) = di_pc S"
  by (simp_all add: io_drop_def)

lemma dg_inv_io:
  assumes "dg_inv F p R S"
  shows "dg_inv F p R (io_drop ok fd S)" "dg_inv F p R (io_watch ok ow fd S)" "dg_inv F p R (io_interest ok fd ev S)"
  by (rule dg_inv_cong [OF assms];
      insert dg_inv_ended [OF assms]; auto simp: delivered_def ended_def io_watch_def io_interest_def split: option.splits)+

lemma finish_inv:
  assumes inv: "dg_inv F p R S" and i: "i < length (di_objs S)" and c: "i \<notin> set (claims (di_posted S))"
    and o: "\<not> dp_open (di_objs S ! i)"
  shows "dg_inv F p R (relinquish_finish F K p ok i S)"
proof (cases "has_kernel_udp_demux p \<and> peer_is_open (dp_sock (di_objs S ! i))")
  case False
  then have "peer_settled p ((di_objs S ! i)\<lparr>dp_closing := False\<rparr>)" if "peer_settled p (di_objs S ! i)"
    using that by (auto simp: peer_settled_def)
  moreover have "relinquish_finish F K p ok i S = set_peer i (\<lambda>ob. ob\<lparr>dp_closing := False\<rparr>) S"
    using False by (auto simp: relinquish_finish_def Let_def)
  ultimately show ?thesis using dg_inv_set_peer [OF inv i] c by simp
next
  case True
  let ?ps = "dp_sock (di_objs S ! i)" and ?d = "peer_default (df_default F)"
  obtain ps' x w where r: "run_state (peer_move_assign K p False ?ps ?d) (di_world S) = ((ps', x), w)"
    by (metis surj_pair)
  let ?B = "io_drop ok (peer_handle ?ps) S"
  let ?A = "(set_peer i (\<lambda>ob. ob\<lparr>dp_sock := ps'\<rparr>) ?B)\<lparr>di_world := w\<rparr>"
  have "dg_inv F p (R + peer_owned ?d) ?B" using inv by (simp add: dg_inv_io)
  then have A: "dg_inv F p R ?A"
    by (rule dg_inv_socket) (use i r in \<open>simp_all add: peer_settled_def\<close>)
  have n: "\<not> peer_is_open ps'"
    using r by (auto simp: peer_move_assign_def peer_move_def peer_default_def peer_is_open_def split: prod.splits)
  have "dg_inv F p R (set_peer i (\<lambda>ob. ob\<lparr>dp_closing := False\<rparr>) ?A)"
    using A i c n by (intro dg_inv_set_peer) (simp_all add: peer_settled_def)
  then show ?thesis using True r by (simp add: relinquish_finish_def Let_def)
qed

lemma relinquish_fields [simp]:
  "di_peers (relinquish_flag i S) = di_peers S" "di_posted (relinquish_flag i S) = di_posted S"
  "di_peers (relinquish_finish F K p ok i S) = di_peers S" "di_posted (relinquish_finish F K p ok i S) = di_posted S"
  "length (di_objs (relinquish_flag i S)) = length (di_objs S)"
  "length (di_objs (relinquish_finish F K p ok i S)) = length (di_objs S)"
  by (simp_all add: relinquish_flag_def relinquish_finish_def Let_def split: prod.split)

lemma relinquish_inv:
  assumes "dg_inv F p R S" and "i < length (di_objs S)" and "i \<notin> set (claims (di_posted S))"
  shows "dg_inv F p R (peer_relinquish F K p ok i S)"
proof (cases "dp_open (di_objs S ! i)")
  case True
  have "\<not> dp_open (di_objs (relinquish_flag i S) ! i)" using assms(2) True by (simp add: relinquish_flag_def)
  with flag_inv [OF assms] have "dg_inv F p R (relinquish_finish F K p ok i (relinquish_flag i S))"
    using assms by (intro finish_inv) simp_all
  then show ?thesis using True by (simp add: peer_relinquish_def)
qed (use assms in \<open>simp add: peer_relinquish_def\<close>)

lemma relinquish_keeps [simp]:
  "di_peers (peer_relinquish F K p ok i S) = di_peers S" "di_posted (peer_relinquish F K p ok i S) = di_posted S"
  "length (di_objs (peer_relinquish F K p ok i S)) = length (di_objs S)"
  by (simp_all add: peer_relinquish_def)

text \<open>A peer of the table exists and waits for no claim.\<close>

lemma in_table:
  assumes "dg_inv F p R S" and "(a, i) \<in> set (di_peers S)"
  shows "i < length (di_objs S)" "i \<notin> set (claims (di_posted S))" "dp_addr (di_objs S ! i) = a"
proof -
  show "i < length (di_objs S)" "dp_addr (di_objs S ! i) = a" using assms by (auto simp: dg_inv_def exclusive_def)
  have "i \<in> snd ` set (di_peers S)" using assms(2) by (metis imageI snd_conv)
  then show "i \<notin> set (claims (di_posted S))" using assms(1) unfolding dg_inv_def claims_ok_def by blast
qed

lemma relinquish_addr_inv: "dg_inv F p R S \<Longrightarrow> dg_inv F p R (relinquish_addr F K p ok a S)"
proof (cases "claimed_find F a S")
  case (Some i)
  assume inv: "dg_inv F p R S"
  from claimed_find_in [OF Some] obtain b where "(b, i) \<in> set (di_peers S)" by auto
  from dg_inv_erase [OF relinquish_inv [OF inv in_table(1,2) [OF inv this]]] show ?thesis
    using Some by (simp add: relinquish_addr_def claimed_erase_def)
qed (simp add: relinquish_addr_def)

lemma relinquish_fold_inv:
  "dg_inv F p R S \<Longrightarrow> set es \<subseteq> set (di_peers S) \<Longrightarrow>
   dg_inv F p R (foldl (\<lambda>T e. peer_relinquish F K p ok (snd e) T) S es)
   \<and> di_peers (foldl (\<lambda>T e. peer_relinquish F K p ok (snd e) T) S es) = di_peers S"
proof (induction es arbitrary: S)
  case (Cons e es)
  have "(fst e, snd e) \<in> set (di_peers S)" using Cons.prems(2) by auto
  then have "dg_inv F p R (peer_relinquish F K p ok (snd e) S)"
    using Cons.prems(1) by (intro relinquish_inv in_table)
  from Cons.IH [OF this] Cons.prems(2) show ?case by simp
qed simp

lemma relinquish_all_inv:
  assumes "dg_inv F p R S"
  shows "dg_inv F p R (relinquish_all F K p ok S)"
proof -
  let ?T = "foldl (\<lambda>T e. peer_relinquish F K p ok (snd e) T) S (di_peers S)"
  have "dg_inv F p R (?T\<lparr>di_peers := filter (\<lambda>_. False) (di_peers ?T)\<rparr>)"
    using relinquish_fold_inv [OF assms order_refl] by (intro dg_inv_erase) simp
  then show ?thesis by (simp add: relinquish_all_def)
qed

section \<open>Claiming\<close>

lemma new_peer_inv:
  assumes inv: "dg_inv F p R S"
  shows "dg_inv F p R (S\<lparr>di_objs := di_objs S @ [new_peer F a]\<rparr>)"
proof -
  have "objs_owned (di_objs S @ [new_peer F a]) = objs_owned (di_objs S)" by (simp add: objs_owned_def new_peer_def)
  moreover have "peer_settled p (new_peer F a)" "peer_delivered (new_peer F a) = []"
    by (simp_all add: peer_settled_def new_peer_def peer_delivered_def)
  ultimately show ?thesis
    using inv by (auto simp: dg_inv_def holds_def exclusive_def claims_ok_def in_order_def delivered_def
        ended_def nth_append)
qed

lemma waiting_new_peer [simp]: "waiting (new_peer F a)" "dp_addr (new_peer F a) = a"
  by (simp_all add: waiting_def new_peer_def)

lemma claim_begin_inv:
  assumes inv: "dg_inv F p R S"
  shows "dg_inv F p R (claim_begin F a S)"
proof -
  have "claims_ok (claim_begin F a S)"
    using inv by (auto simp: dg_inv_def claims_ok_def exclusive_def claim_begin_def dg_post_def nth_append)
  moreover have "dg_inv F p R (S\<lparr>di_objs := di_objs S @ [new_peer F a]\<rparr>)" by (rule new_peer_inv [OF inv])
  ultimately show ?thesis
    by (simp add: dg_inv_def holds_def exclusive_def in_order_def delivered_def ended_def claim_begin_def
        dg_post_def)
qed

text \<open>A claimed peer enters the table.\<close>

lemma dg_inv_insert:
  assumes inv: "dg_inv F p R S" and "i < length (di_objs S)" and "i \<notin> set (claims (di_posted S))"
    and a: "dp_addr (di_objs S ! i) = a" and "claimed_find F a S = None"
  shows "dg_inv F p R (S\<lparr>di_peers := di_peers S @ [(a, i)]\<rparr>)"
proof -
  have "\<not> df_eq F (fst e) a" if "e \<in> set (di_peers S)" for e
    using assms(5) that by (cases e) (auto simp: claimed_find_def find_None_iff)
  with assms show ?thesis
    by (auto simp: dg_inv_def holds_def exclusive_def claims_ok_def in_order_def delivered_def ended_def
        sorted_wrt_append)
qed

context dgram_laws
begin

lemma local_inv:
  assumes "dg_inv F p R S"
  shows "dg_inv F p R (snd (dg_local_addr F S))"
  using dg_inv_neutral [OF assms local_neutral, of "di_socket S"]
  by (cases "run_state (df_local F (di_socket S)) (di_world S)") (simp add: dg_local_addr_def)

lemma local_fields [simp]:
  "di_posted (snd (dg_local_addr F S)) = di_posted S" "di_peers (snd (dg_local_addr F S)) = di_peers S"
  "di_objs (snd (dg_local_addr F S)) = di_objs S"
  by (simp_all add: dg_local_addr_def split: prod.split)

lemma execute_claim_inv:
  assumes inv: "dg_inv F p R S" and i: "i < length (di_objs S)" and w: "waiting (di_objs S ! i)"
    and c: "i \<notin> set (claims (di_posted S))" and e: "execute_claim F K p i S = (r, T)"
  shows "dg_inv F p R T \<and> di_posted T = di_posted S \<and> length (di_objs T) = length (di_objs S) \<and> waiting (di_objs T ! i)"
proof (cases "claimed_find F (dp_addr (di_objs S ! i)) S = None")
  case False
  then show ?thesis using e inv w by (auto simp: execute_claim_def Let_def)
next
  case free: True
  let ?a = "dp_addr (di_objs S ! i)"
  show ?thesis
  proof (cases "has_kernel_udp_demux p")
    case False
    then show ?thesis using e w free dg_inv_insert [OF inv i c _ free] by (auto simp: execute_claim_def Let_def)
  next
    case True
    obtain loc S1 where l: "dg_local_addr F S = (loc, S1)" by (metis surj_pair)
    note S1 = local_inv [OF inv] local_fields [of S]
    obtain q w1 where q: "run_state (df_create F loc ?a socket_options_default) (di_world S1) = (q, w1)" by (metis surj_pair)
    have cl: "clean (trace (di_world S1))" using S1(1) l by (simp add: dg_inv_def holds_def)
    note acq = acquires_run [OF create_owns q cl]
    show ?thesis
    proof (cases q)
      case (Inl ec)
      have "dg_inv F p R (S1\<lparr>di_world := w1\<rparr>)"
        using S1(1) l acq Inl by (simp add: dg_inv_def holds_def exclusive_def claims_ok_def in_order_def delivered_def
            ended_def)
      then show ?thesis using e free True l q Inl S1 w by (auto simp: execute_claim_def Let_def)
    next
      case (Inr ps)
      let ?S2 = "S1\<lparr>di_world := w1\<rparr>"
      have inv2: "dg_inv F p (R + peer_owned ps) ?S2"
        using S1(1) l acq Inr by (simp add: dg_inv_def holds_def exclusive_def claims_ok_def in_order_def delivered_def
            ended_def ac_simps)
      obtain ps' x w2 where m: "run_state (peer_move_assign K p False (dp_sock (di_objs S1 ! i)) ps) w1 = ((ps', x), w2)"
        by (metis surj_pair)
      let ?S3 = "(set_peer i (\<lambda>ob. ob\<lparr>dp_sock := ps'\<rparr>) ?S2)\<lparr>di_world := w2\<rparr>"
      have f: "claimed_find F ?a ?S3 = None" using free S1(3) l by (simp add: claimed_find_def)
      have "dg_inv F p R ?S3"
        using inv2 i m l S1(4) w True by (intro dg_inv_socket) (simp_all add: peer_settled_def waiting_def)
      then have "dg_inv F p R (?S3\<lparr>di_peers := di_peers ?S3 @ [(?a, i)]\<rparr>)"
        using i c l S1 f by (intro dg_inv_insert) simp_all
      moreover have "T = ?S3\<lparr>di_peers := di_peers ?S3 @ [(?a, i)]\<rparr>"
        using e free True l q Inr m S1 by (simp add: execute_claim_def Let_def set_peer_def)
      ultimately show ?thesis using i l S1 w by (simp add: waiting_def)
    qed
  qed
qed

end

lemma peer_arm_inv:
  assumes "dg_inv F p R S" and "i < length (di_objs S)"
  shows "dg_inv F p R (peer_arm p i n S)" "length (di_objs (peer_arm p i n S)) = length (di_objs S)"
    "claims (di_posted (peer_arm p i n S)) = claims (di_posted S)"
proof -
  have "dg_inv F p R (set_peer i (\<lambda>ob. ob\<lparr>dp_buf := n\<rparr>) S)"
    using assms by (intro dg_inv_set_peer) (simp_all add: waiting_def peer_settled_def)
  then show "dg_inv F p R (peer_arm p i n S)" using assms(1) by (simp add: peer_arm_def dg_inv_post)
qed (simp_all add: peer_arm_def dg_post_def)

lemma claim_answer_inv:
  assumes "dg_inv F p R S" and "i < length (di_objs S)" and "i \<notin> set (claims (di_posted S))"
  shows "dg_inv F p R (claim_answer p i r S)"
proof -
  have "dg_inv F p R (set_peer i (\<lambda>ob. ob\<lparr>dp_hold := h\<rparr>) T)"
    if "dg_inv F p R T" "i < length (di_objs T)" "i \<notin> set (claims (di_posted T))" for h T
    using that by (intro dg_inv_set_peer) (auto simp: peer_settled_def)
  with peer_arm_inv [OF assms(1,2)] assms show ?thesis by (simp add: claim_answer_def)
qed

context dgram_laws
begin

lemma claim_run_inv:
  assumes "dg_inv F p R S" and "i < length (di_objs S)" and "waiting (di_objs S ! i)" and "i \<notin> set (claims (di_posted S))"
  shows "dg_inv F p R (claim_run F K p i S)"
proof -
  obtain r T where e: "execute_claim F K p i S = (r, T)" by (metis surj_pair)
  from execute_claim_inv [OF assms e] assms(2,4) have "dg_inv F p R (set_peer i (\<lambda>ob. ob\<lparr>dp_promise := Some r\<rparr>) T)"
    by (intro dg_inv_set_peer) (auto simp: peer_settled_def)
  with e show ?thesis by (simp add: claim_run_def)
qed

lemma claim_inline_inv:
  assumes inv: "dg_inv F p R S"
  shows "dg_inv F p R (snd (claim_inline F K p a S))"
proof -
  let ?i = "length (di_objs S)" and ?S = "S\<lparr>di_objs := di_objs S @ [new_peer F a]\<rparr>"
  obtain r T where e: "execute_claim F K p ?i ?S = (r, T)" by (metis surj_pair)
  have c: "?i \<notin> set (claims (di_posted S))" using inv by (auto simp: dg_inv_def claims_ok_def)
  have "dg_inv F p R T \<and> di_posted T = di_posted ?S \<and> length (di_objs T) = length (di_objs ?S) \<and> waiting (di_objs T ! ?i)"
    by (rule execute_claim_inv [OF new_peer_inv [OF inv] _ _ _ e]) (use c in simp_all)
  then have "dg_inv F p R (claim_answer p ?i r T)" using c by (intro claim_answer_inv) simp_all
  with e show ?thesis by (simp add: claim_inline_def Let_def)
qed

end

section \<open>Receiving\<close>

text \<open>A peer without its callbacks: what submitting to it leaves alone.\<close>

definition quiet :: "'a peer_object \<Rightarrow> 'a peer_object" where
  "quiet ob = ob\<lparr>dp_calls := []\<rparr>"

lemma quiet_simps [simp]:
  "dp_addr (quiet ob) = dp_addr ob" "dp_sock (quiet ob) = dp_sock ob" "waiting (quiet ob) = waiting ob"
  "peer_settled p (quiet ob) = peer_settled p ob" "dp_hold (quiet ob) = dp_hold ob" "dp_freed (quiet ob) = dp_freed ob"
  "dp_open (quiet ob) = dp_open ob"
  by (simp_all add: quiet_def waiting_def peer_settled_def)

lemma quiet_fields:
  assumes "quiet ob = quiet ob'"
  shows "dp_addr ob = dp_addr ob'" "dp_sock ob = dp_sock ob'" "waiting ob = waiting ob'" "peer_settled p ob = peer_settled p ob'"
    "dp_hold ob = dp_hold ob'" "dp_freed ob = dp_freed ob'" "dp_open ob = dp_open ob'"
  using assms by (metis quiet_simps)+

lemma quiet_nth:
  assumes "map quiet obs = map quiet obs'"
  shows "length obs = length obs'" "i < length obs' \<Longrightarrow> quiet (obs ! i) = quiet (obs' ! i)"
  using assms by (metis length_map, metis assms length_map nth_map)

lemma objs_owned_quiet: "map quiet obs = map quiet obs' \<Longrightarrow> objs_owned obs = objs_owned obs'"
proof -
  have "objs_owned xs = sum_list (map (\<lambda>ob. peer_owned (dp_sock ob)) (map quiet xs))" for xs :: "'a peer_object list"
    by (simp add: objs_owned_def quiet_def o_def)
  then show "map quiet obs = map quiet obs' \<Longrightarrow> ?thesis" by metis
qed

text \<open>A step that changes callbacks and at most removes peers from the table.\<close>

definition deals :: "'a dgram_impl \<Rightarrow> 'a dgram_impl \<Rightarrow> bool" where
  "deals S T \<longleftrightarrow> di_world T = di_world S \<and> di_socket T = di_socket S \<and> di_posted T = di_posted S \<and> di_gone T = di_gone S
     \<and> di_running T = di_running S \<and> di_pc T = di_pc S \<and> di_batch_size T = di_batch_size S \<and> di_received T = di_received S
     \<and> map quiet (di_objs T) = map quiet (di_objs S) \<and> (\<exists>Q. di_peers T = filter Q (di_peers S))"

lemma deals_trans: "deals S T \<Longrightarrow> deals T U \<Longrightarrow> deals S U"
  by (auto simp: deals_def)

lemma deals_refl [simp]: "deals S S"
  by (auto simp: deals_def intro: exI [of _ "\<lambda>_. True"])

lemma deals_exclusive:
  assumes "deals S T" and "exclusive F S"
  shows "exclusive F T"
proof -
  have q: "map quiet (di_objs T) = map quiet (di_objs S)" using assms(1) by (simp add: deals_def)
  obtain Q where Q: "di_peers T = filter Q (di_peers S)" using assms(1) by (auto simp: deals_def)
  have "i < length (di_objs T) \<and> dp_addr (di_objs T ! i) = a" if "(a, i) \<in> set (di_peers S)" for a i
    using that assms(2) quiet_nth(1) [OF q] quiet_fields(1) [OF quiet_nth(2) [OF q], of i] by (auto simp: exclusive_def)
  then show ?thesis using assms(2) Q by (auto simp: exclusive_def sorted_wrt_filter)
qed

lemma deals_peers: "deals S T \<Longrightarrow> set (di_peers T) \<subseteq> set (di_peers S)"
  by (auto simp: deals_def)

lemma dg_inv_deals:
  assumes inv: "dg_inv F p R S" and d: "deals S T" and o: "in_order F p T"
  shows "dg_inv F p R T"
proof -
  have q: "map quiet (di_objs T) = map quiet (di_objs S)" using d by (simp add: deals_def)
  note len = quiet_nth(1) [OF q] and nth = quiet_fields [OF quiet_nth(2) [OF q]]
  have "holds R T" using inv objs_owned_quiet [OF q] d by (simp add: dg_inv_def holds_def deals_def)
  moreover have "claims_ok T"
  proof -
    have c: "claims_ok S" "di_posted T = di_posted S" using inv d by (simp_all add: dg_inv_def deals_def)
    have "snd ` set (di_peers T) \<subseteq> snd ` set (di_peers S)" using deals_peers [OF d] by (rule image_mono)
    with c len nth(3) show ?thesis unfolding claims_ok_def by (metis subsetD)
  qed
  moreover have "\<forall>ob \<in> set (di_objs T). peer_settled p ob"
    using inv len nth(4) by (auto simp: dg_inv_def in_set_conv_nth [of _ "di_objs T"])
  moreover have "exclusive F T" using inv d deals_exclusive by (auto simp: dg_inv_def)
  ultimately show ?thesis using inv d o by (simp add: dg_inv_def ended_def deals_def)
qed

lemma quiet_submit: "map quiet (di_objs (peer_submit i c S)) = map quiet (di_objs S)"
proof (cases "i < length (di_objs S)")
  case True
  then have "(map quiet (di_objs S))[i := quiet (di_objs S ! i)] = map quiet (di_objs S)"
    by (metis length_map list_update_id nth_map)
  then show ?thesis by (simp add: peer_submit_def map_update quiet_def)
qed (simp add: peer_submit_def list_update_beyond)

lemma deals_submit: "deals S (peer_submit i c S)"
  using quiet_submit [of i c S] by (auto simp: deals_def intro: exI [of _ "\<lambda>_. True"]) (simp_all add: peer_submit_def set_peer_def)

lemma deals_steps: "deals S (forward p rd k i d S)" "deals S (claimed_erase F a S)" "deals S (S\<lparr>di_calls := cs\<rparr>)"
  "deals S (main_submit c S)"
  using deals_submit [of S i "Peer_data d"]
  by (auto simp: deals_def forward_def deliver_data_def claimed_erase_def main_submit_def intro: exI [of _ "\<lambda>_. True"])

lemma first_pass_deals: "deals S (snd (first_pass F p rd k ds S))"
proof (induction ds arbitrary: k S)
  case (Cons x ds)
  obtain d a where x: "x = (d, a)" by (cases x)
  show ?case
    unfolding x first_pass_next by (rule deals_trans [OF _ Cons]) (simp add: deals_steps split: option.split)
qed simp

text \<open>The order of what a peer gets, when the datagrams of \<open>ds\<close> follow those of \<open>rcv\<close>.\<close>

definition peers_order :: "'a dgram_family \<Rightarrow> (byte list \<times> 'a) list \<Rightarrow> 'a dgram_impl \<Rightarrow> bool" where
  "peers_order F rcv S \<longleftrightarrow> (\<forall>ob \<in> set (di_objs S). subseq (peer_delivered ob) (sent_by F (dp_addr ob) rcv))"

lemma sent_by_append [simp]: "sent_by F a (xs @ ys) = sent_by F a xs @ sent_by F a ys"
  by (simp add: sent_by_def)

lemma peers_order_mono: "peers_order F rcv S \<Longrightarrow> peers_order F (rcv @ ds) S"
  by (auto simp: peers_order_def intro: subseq_order.order_trans list_emb_append2)

lemma forward_order:
  assumes "peers_order F rcv S" and "exclusive F S" and "claimed_find F a S = Some i"
  shows "peers_order F (rcv @ [(d, a)]) (forward p rd k i d S)"
proof -
  from assms(3) obtain b where b: "(b, i) \<in> set (di_peers S)" "df_eq F b a"
    by (auto simp: claimed_find_def find_Some_iff) (metis fst_conv nth_mem surjective_pairing)
  then have i: "i < length (di_objs S)" "dp_addr (di_objs S ! i) = b" using assms(2) by (auto simp: exclusive_def)
  then have "subseq (peer_delivered (di_objs S ! i)) (sent_by F b rcv)" using assms(1) by (auto simp: peers_order_def)
  then have "subseq (peer_delivered (di_objs S ! i) @ [d]) (sent_by F b (rcv @ [(d, a)]))"
    using b(2) by (auto simp: sent_by_def intro: list_emb_append_mono)
  then have "peers_order F (rcv @ [(d, a)]) (peer_submit i (Peer_data d) S)"
    unfolding peers_order_def peer_submit_def set_peer_fields
    using peers_order_mono [OF assms(1)] i(2)
    by (intro ball_update) (simp_all add: peers_order_def peer_delivered_def)
  then show ?thesis using peers_order_mono [OF assms(1)] by (simp add: forward_def deliver_data_def)
qed

lemma first_pass_order:
  "peers_order F rcv S \<Longrightarrow> exclusive F S \<Longrightarrow> peers_order F (rcv @ ds) (snd (first_pass F p rd k ds S))"
proof (induction ds arbitrary: k S rcv)
  case (Cons x ds)
  obtain d a where x: "x = (d, a)" by (cases x)
  let ?S1 = "case claimed_find F a S of Some i \<Rightarrow> if rd_check rd k i then forward p rd k i d S else claimed_erase F a S | None \<Rightarrow> S"
  have n: "peers_order F (rcv @ [(d, a)]) S" using Cons.prems(1) by (rule peers_order_mono)
  have "peers_order F (rcv @ [(d, a)]) ?S1"
    using n forward_order [OF Cons.prems] by (auto simp: peers_order_def split: option.split)
  moreover have "exclusive F ?S1"
    using Cons.prems(2) deals_exclusive [OF deals_steps(1)] deals_exclusive [OF deals_steps(2)] by (auto split: option.split)
  ultimately have "peers_order F ((rcv @ [(d, a)]) @ ds) (snd (first_pass F p rd (Suc k) ds ?S1))" by (rule Cons.IH)
  then show ?case unfolding x first_pass_next by simp
qed simp

lemma deals_calls: "deals S T \<Longrightarrow> deals S (T\<lparr>di_calls := cs\<rparr>)"
  using deals_trans deals_steps(3) by blast

text \<open>The outcome of a batch: all of it comes from the first pass, but for what the main callback gets.\<close>

lemma handle_batch_result:
  assumes "handle_batch F p rd ds S = Some T"
  obtains ks where "deals S T" "subseq ks ds" "delivered T = delivered S @ ks"
    "di_objs T = di_objs S \<or> di_objs T = di_objs (snd (first_pass F p rd 0 ds S))"
proof -
  let ?T = "snd (first_pass F p rd 0 ds S)" and ?ks = "kept F p rd 0 ds S"
  have d: "deals S (?T\<lparr>di_calls := cs\<rparr>)" for cs by (rule deals_calls [OF first_pass_deals])
  consider (batch) cs where "T = ?T\<lparr>di_calls := di_calls S @ cs\<rparr>" "concat (map main_payload cs) = ?ks"
    | (none) "T = S"
  proof (cases "di_on_batch S")
    case True
    with assms have h: "batch_handler F p rd ds S = Some T" by (simp add: handle_batch_def)
    show thesis
    proof (cases "?ks = []")
      case True
      with h have "T = ?T\<lparr>di_calls := di_calls S @ []\<rparr>"
        using first_pass_calls [of F p rd 0 ds S] by (simp add: batch_handler_eq Let_def)
      with True show thesis by (intro that(1) [of "[]"]) simp_all
    next
      case False
      with h have "T = ?T\<lparr>di_calls := di_calls S @ [Batch_call ?ks]\<rparr>"
        by (auto simp: batch_handler_eq Let_def main_submit_def split: if_splits)
      then show thesis by (intro that(1) [of "[Batch_call ?ks]"]) simp_all
    qed
  next
    case False
    have "concat (map main_payload (map main_data ks)) = ks" for ks :: "(byte list \<times> 'a) list"
      by (induction ks) (simp_all add: main_data_def)
    with False assms show thesis
      by (cases "di_on_data S") (auto simp: handle_batch_def single_first_pass intro: that)
  qed
  then show thesis
  proof cases
    case batch
    then show thesis using d [of "di_calls S @ cs"] subseq_kept [of F p rd 0 ds S] by (intro that) (simp_all add: delivered_def)
  next
    case none
    then show thesis by (intro that [of "[]"]) simp_all
  qed
qed

lemma dg_inv_received:
  assumes "dg_inv F p R S"
  shows "dg_inv F p R (S\<lparr>di_received := di_received S @ ds\<rparr>)"
proof -
  have "subseq (delivered S) (di_received S @ ds)"
    using assms by (auto simp: dg_inv_def in_order_def intro: subseq_order.order_trans list_emb_append2)
  moreover have "peers_order F (di_received S @ ds) S" if "\<not> has_kernel_udp_demux p"
    using assms that by (intro peers_order_mono) (simp add: dg_inv_def in_order_def peers_order_def)
  ultimately show ?thesis
    using assms by (simp add: dg_inv_def holds_def exclusive_def claims_ok_def in_order_def peers_order_def ended_def delivered_def)
qed

lemma handle_batch_inv:
  assumes inv: "dg_inv F p R S" and h: "handle_batch F p rd ds (S\<lparr>di_received := di_received S @ ds\<rparr>) = Some T"
  shows "dg_inv F p R T" "deals (S\<lparr>di_received := di_received S @ ds\<rparr>) T"
proof -
  let ?S = "S\<lparr>di_received := di_received S @ ds\<rparr>"
  from handle_batch_result [OF h] obtain ks where d: "deals ?S T" and ks: "subseq ks ds" "delivered T = delivered ?S @ ks"
    and o: "di_objs T = di_objs ?S \<or> di_objs T = di_objs (snd (first_pass F p rd 0 ds ?S))" by blast
  have 1: "subseq (delivered T) (di_received T)"
    using inv ks d by (auto simp: dg_inv_def in_order_def deals_def delivered_def intro: list_emb_append_mono)
  have 2: "peers_order F (di_received S @ ds) T" if "\<not> has_kernel_udp_demux p"
  proof -
    have p: "peers_order F (di_received S) ?S" "exclusive F ?S"
      using inv that by (simp_all add: dg_inv_def in_order_def peers_order_def exclusive_def)
    from first_pass_order [OF p, of ds p rd 0] peers_order_mono [OF p(1), of ds] o show ?thesis
      by (auto simp: peers_order_def)
  qed
  show "deals ?S T" by (rule d)
  show "dg_inv F p R T"
    by (rule dg_inv_deals [OF dg_inv_received [OF inv] d]) (use 1 2 d in \<open>simp add: in_order_def peers_order_def deals_def\<close>)
qed

lemma readable_loop_inv:
  assumes "\<And>d h n. neutral (retrieve d h n)"
  shows "dg_inv F p R S \<Longrightarrow> readable_loop F K retrieve p rds n S = Some T \<Longrightarrow>
    dg_inv F p R T \<and> di_posted T = di_posted S \<and> map quiet (di_objs T) = map quiet (di_objs S)"
proof (induction n arbitrary: S)
  case (Suc n)
  let ?m = "recv_batch K retrieve p (di_socket S) (map reset_entry (di_entries S))"
  obtain r es w where r: "run_state ?m (di_world S) = ((r, es), w)" by (metis surj_pair)
  let ?S1 = "S\<lparr>di_world := w, di_entries := es\<rparr>"
  have "neutral ?m" by (rule neutral_recv_batch) (rule assms)
  from dg_inv_neutral [OF Suc.prems(1) this] r have "dg_inv F p R (S\<lparr>di_world := w\<rparr>)" by simp
  then have inv: "dg_inv F p R ?S1"
    by (rule dg_inv_cong) (use dg_inv_ended [OF Suc.prems(1)] in \<open>simp_all add: delivered_def ended_def\<close>)
  have m: "dg_inv F p R (main_fault ec ?S1)" for ec
    using inv by (rule dg_inv_cong) (use dg_inv_ended [OF inv] in \<open>simp_all add: main_fault_def main_submit_def delivered_def ended_def\<close>)
  show ?case
  proof (cases r)
    case (Inl ec)
    then show ?thesis using Suc.prems(2) r m by (auto simp: Let_def main_fault_def main_submit_def)
  next
    case (Inr got)
    show ?thesis
    proof (cases "got = 0")
      case True
      then show ?thesis using Suc.prems(2) r Inr inv by (auto simp: Let_def)
    next
      case False
      let ?ds = "map (datagram_of F) (take got es)"
      obtain S2 where h: "handle_batch F p (rds n) ?ds (?S1\<lparr>di_received := di_received ?S1 @ ?ds\<rparr>) = Some S2"
        and T: "Some T = (if got < di_batch_size S2 then Some S2 else readable_loop F K retrieve p rds n S2)"
        using Suc.prems(2) r Inr False by (auto simp: Let_def split: option.splits)
      note inv2 = handle_batch_inv [OF inv h]
      have f: "di_posted S2 = di_posted S" "map quiet (di_objs S2) = map quiet (di_objs S)"
        using inv2(2) by (simp_all add: deals_def)
      show ?thesis
      proof (cases "got < di_batch_size S2")
        case False
        then show ?thesis using Suc.IH [OF inv2(1)] T f by simp
      qed (use T inv2(1) f in simp)
    qed
  qed
qed simp

section \<open>Steps\<close>

lemma peer_ok_quiet: "map quiet (di_objs T) = map quiet (di_objs S) \<Longrightarrow> i < length (di_objs S) \<Longrightarrow>
  dp_hold (di_objs T ! i) = dp_hold (di_objs S ! i) \<and> i < length (di_objs T)"
  using quiet_nth [of "di_objs T" "di_objs S"] quiet_fields(5) by metis

lemma held_not_claimed:
  assumes "dg_inv F p R S" and "held i S"
  shows "i < length (di_objs S)" "i \<notin> set (claims (di_posted S))"
  using assms by (auto simp: dg_inv_def claims_ok_def held_def peer_ok_def waiting_def)

lemma flags_inv:
  "dg_inv F p R S \<Longrightarrow> \<forall>i \<in> set is. i < length (di_objs S) \<and> i \<notin> set (claims (di_posted S)) \<Longrightarrow>
   dg_inv F p R (fold relinquish_flag is S)"
  by (induction "is" arbitrary: S) (simp_all add: flag_inv)

lemma submit_inv:
  assumes "dg_inv F p R S" and "peer_payload c = [] \<or> has_kernel_udp_demux p"
  shows "dg_inv F p R (peer_submit i c S)"
proof (rule dg_inv_deals [OF assms(1) deals_submit])
  have "\<forall>ob \<in> set (di_objs (peer_submit i c S)). subseq (peer_delivered ob) (sent_by F (dp_addr ob) (di_received S))"
    if n: "\<not> has_kernel_udp_demux p"
  proof (cases "i < length (di_objs S)")
    case True
    have o: "\<forall>ob \<in> set (di_objs S). subseq (peer_delivered ob) (sent_by F (dp_addr ob) (di_received S))"
      using assms(1) n by (simp add: dg_inv_def in_order_def)
    have "peer_delivered ((di_objs S ! i)\<lparr>dp_calls := dp_calls (di_objs S ! i) @ [c]\<rparr>) = peer_delivered (di_objs S ! i)"
      using assms(2) n by (simp add: peer_delivered_def)
    then show ?thesis unfolding peer_submit_def set_peer_fields using o True by (intro ball_update) simp_all
  qed (use assms(1) n in \<open>simp add: dg_inv_def in_order_def peer_submit_def list_update_beyond\<close>)
  then show "in_order F p (peer_submit i c S)"
    using assms(1) by (simp add: dg_inv_def in_order_def delivered_def peer_submit_def)
qed

lemma main_submit_inv: "dg_inv F p R S \<Longrightarrow> main_payload c = [] \<Longrightarrow> dg_inv F p R (main_submit c S)"
  by (rule dg_inv_cong) (auto simp: main_submit_def delivered_def dg_inv_def ended_def)

lemma submit_to_inv: "dg_inv F p R S \<Longrightarrow> dg_inv F p R (submit_to ow cb S)"
  by (cases ow) (simp_all add: submit_to_def submit_inv main_submit_inv)

lemma peer_turn_inv:
  assumes inv: "dg_inv F p R S" and "has_kernel_udp_demux p" and run: "di_pc S = Dg_reading i"
  shows "dg_inv F p R (peer_turn K p i S)"
proof -
  let ?ob = "di_objs S ! i"
  obtain r w where r: "run_state (peer_recv K p (dp_sock ?ob) (dp_buf ?ob) 0) (di_world S) = (r, w)" by (metis surj_pair)
  from dg_inv_neutral [OF inv neutral_peer(2), of K p "dp_sock ?ob" "dp_buf ?ob" 0] r
  have 1: "dg_inv F p R (S\<lparr>di_world := w\<rparr>)" by simp
  then have 2: "dg_inv F p R (S\<lparr>di_world := w, di_pc := Dg_idle\<rparr>)"
    by (rule dg_inv_cong) (use dg_inv_ended [OF inv] run in \<open>auto simp: delivered_def ended_def\<close>)
  show ?thesis
    using 1 2 r assms(2) by (auto simp: peer_turn_def Let_def deliver_data_def submit_inv split: sum.splits)
qed

lemma free_inv:
  assumes inv: "dg_inv F p R S" and i: "i < length (di_objs S)" and c: "i \<notin> set (claims (di_posted S))"
  shows "dg_inv F p R (free_peer F K p i S)"
proof -
  obtain ps' x w where m: "run_state (peer_move_assign K p False (dp_sock (di_objs S ! i)) (peer_default (df_default F)))
      (di_world S) = ((ps', x), w)" by (metis surj_pair)
  have ps': "ps' = peer_default (df_default F)" and w: "w = final_world (peer_drop K p (dp_sock (di_objs S ! i))) (di_world S)"
    using m by (auto simp: peer_move_assign_def peer_move_def peer_default_def split: prod.splits)
  have "dg_inv F p R ((set_peer i (\<lambda>ob. ob\<lparr>dp_sock := ps'\<rparr>) S)\<lparr>di_world := w\<rparr>)"
    by (rule dg_inv_socket [OF _ i m]) (use inv in \<open>simp_all add: peer_settled_def\<close>)
  then have "dg_inv F p R (set_peer i (\<lambda>ob. ob\<lparr>dp_freed := True\<rparr>) ((set_peer i (\<lambda>ob. ob\<lparr>dp_sock := ps'\<rparr>) S)\<lparr>di_world := w\<rparr>))"
    using i by (intro dg_inv_set_peer) (auto simp: waiting_def peer_settled_def)
  then show ?thesis
    by (rule dg_inv_cong) (use dg_inv_ended [OF inv] i ps' w in
        \<open>simp_all add: free_peer_def delivered_def ended_def\<close>)
qed

lemma destroy_begin_inv:
  assumes "dg_inv F p R S"
  shows "dg_inv F p R (dg_destroy_begin K p S)"
proof -
  let ?s = "di_socket S"
  let ?w1 = "if is_open ?s then final_world (leave_all_multicast K p (s_handle ?s) (di_opts S)) (di_world S) else di_world S"
  let ?w2 = "if is_open ?s then final_world (socket_shutdown K p ?s shutdown_both) ?w1 else ?w1"
  have "dg_inv F p R (S\<lparr>di_world := ?w1\<rparr>)"
    using assms dg_inv_neutral [OF assms neutral_leave_all] by simp
  from this dg_inv_neutral [OF this neutral_socket_shutdown, of K p ?s shutdown_both]
  have "dg_inv F p R (S\<lparr>di_world := ?w2\<rparr>)" by (cases "is_open ?s") simp_all
  then have "dg_inv F p R (dg_post Stop_loop (dg_post Relinquish_all (S\<lparr>di_world := ?w2\<rparr>)))"
    by (intro dg_inv_post) simp_all
  then show ?thesis
    unfolding dg_destroy_begin_def Let_def
    by (rule dg_inv_cong) (use dg_inv_ended [OF assms] in \<open>simp_all add: dg_post_def delivered_def ended_def\<close>)
qed

lemma dg_destroy_end_inv:
  assumes inv: "dg_inv F p R S"
  shows "dg_inv F p R (dg_destroy_end K p ok S)"
proof (cases "is_open (di_socket S)")
  case False
  then show ?thesis using inv by (simp add: dg_destroy_end_def)
next
  case True
  define S1 where "S1 = (if di_armed S \<and> (p = Windows \<or> \<not> di_paused S) then io_drop ok (s_handle (di_socket S)) S else S)"
  define s where "s = (if p = Windows then set_dispatcher None (di_socket S1) else di_socket S1)"
  have inv1: "dg_inv F p R S1" and f: "di_socket S1 = di_socket S" using inv by (simp_all add: S1_def dg_inv_io)
  have o: "owned s = owned (di_socket S)" by (simp add: s_def f set_dispatcher_def owned_def)
  obtain ec s' w where c: "run_state (socket_close K p s) (di_world S1) = ((ec, s'), w)" by (metis surj_pair)
  have "owned s \<subseteq># live (di_world S1)" "clean (trace (di_world S1))"
    using inv1 o f by (simp_all add: dg_inv_def holds_def)
  from socket_close_run [OF c this] have w: "live w = live (di_world S1) - owned s" "clean (trace w)" "owned s' = {#}" by simp_all
  have "dg_inv F p R (S1\<lparr>di_socket := s', di_world := w\<rparr>)"
    using inv1 w o f by (simp add: dg_inv_def holds_def exclusive_def claims_ok_def in_order_def delivered_def ended_def)
  moreover have "dg_destroy_end K p ok S = S1\<lparr>di_socket := s', di_world := w\<rparr>"
    unfolding dg_destroy_end_def Let_def S1_def [symmetric] s_def [symmetric] using True c by simp
  ultimately show ?thesis by simp
qed

lemma drop_inv:
  assumes inv: "dg_inv F p R S" and "\<not> di_running S" and "\<not> is_open (di_socket S)"
  shows "dg_inv F p R (dg_drop S)"
proof -
  have "owned (di_socket S) = {#}" using assms(3) by (simp add: is_open_def owned_def)
  then show ?thesis
    using inv assms(2) dg_inv_erase [OF inv, of "\<lambda>_. False"]
    by (simp add: dg_drop_def dg_inv_def holds_def exclusive_def claims_ok_def in_order_def delivered_def ended_def)
qed

lemma arm_inv: "dg_inv F p R S \<Longrightarrow> dg_inv F p R (dg_arm (S\<lparr>di_on_data := a, di_on_batch := b\<rparr>))"
proof -
  assume "dg_inv F p R S"
  then have "dg_inv F p R (S\<lparr>di_on_data := a, di_on_batch := b, di_armed := c\<rparr>)" for c
    by (rule dg_inv_same) (simp_all add: delivered_def)
  from this [of True] this [of "di_armed S"] show ?thesis by (simp add: dg_arm_def dg_inv_post)
qed

lemma flow_inv: "dg_inv F p R S \<Longrightarrow> dg_inv F p R (dg_pause p S) \<and> dg_inv F p R (dg_resume p S)"
proof -
  assume inv: "dg_inv F p R S"
  then have "dg_inv F p R (S\<lparr>di_paused := b\<rparr>)" for b
    by (rule dg_inv_same) (simp_all add: delivered_def)
  with inv show ?thesis by (auto simp: dg_pause_def dg_resume_def intro!: dg_inv_post)
qed

context dgram_laws
begin

lemma send_inv:
  assumes inv: "dg_inv F p R S"
  shows "dg_inv F p R (snd (dg_send_to F data dest S))" "dg_inv F p R (snd (dg_send_batch F K p msgs S))"
    "dg_inv F p R (snd (peer_do_send F K p i d S))" "dg_inv F p R (snd (peer_send_batch F K p i ds S))"
proof -
  have n: "dg_inv F p R (S\<lparr>di_world := w\<rparr>)" if "run_state m (di_world S) = (x, w)" "neutral m" for m :: "'b io" and x w
    using dg_inv_neutral [OF inv that(2)] that(1) by simp
  show "dg_inv F p R (snd (dg_send_to F data dest S))"
    by (simp add: dg_send_to_def split: prod.split) (blast intro: n send_neutral)
  show "dg_inv F p R (snd (dg_send_batch F K p msgs S))"
    by (simp add: dg_send_batch_def split: prod.split) (blast intro: n neutral_send_batch)
  show "dg_inv F p R (snd (peer_do_send F K p i d S))"
    by (simp add: peer_do_send_def Let_def inv split: prod.split) (blast intro: n send_neutral neutral_peer)
  show "dg_inv F p R (snd (peer_send_batch F K p i ds S))"
    by (simp add: peer_send_batch_def Let_def inv split: prod.split) (blast intro: n neutral_send_batch)
qed

lemma dg_user_step_inv: "dg_user_step F K p S T \<Longrightarrow> dg_inv F p R S \<Longrightarrow> dg_inv F p R T"
proof (induction rule: dg_user_step.induct)
  case (du_on_data S h)
  then show ?case by (simp add: dg_on_data_def arm_inv)
next
  case (du_on_batch S h)
  have "S\<lparr>di_on_batch := h, di_on_data := False\<rparr> = S\<lparr>di_on_data := False, di_on_batch := h\<rparr>" by simp
  with du_on_batch show ?case unfolding dg_on_data_batch_def by (simp only: arm_inv)
next
  case (du_on_error S h)
  then show ?case unfolding dg_on_error_def by (elim dg_inv_same) (simp_all add: delivered_def)
next
  case (du_claimed S i r)
  then show ?case by (intro claim_answer_inv) (auto simp: peer_ok_def dg_inv_def claims_ok_def waiting_def)
next
  case (du_cancel S tid)
  then show ?case by (elim dg_inv_same) (simp_all add: delivered_def)
next
  case (du_callback S)
  then show ?case by (elim dg_inv_same) (simp_all add: delivered_def)
next
  case (du_peer_on_data i S h)
  note h = held_not_claimed [OF du_peer_on_data(2,1)]
  show ?case unfolding peer_on_data_def by (rule dg_inv_set_peer [OF du_peer_on_data(2) h(1)]) (use h in \<open>simp_all add: peer_settled_def\<close>)
next
  case (du_peer_on_error i S h)
  note h = held_not_claimed [OF du_peer_on_error(2,1)]
  show ?case unfolding peer_on_error_def by (rule dg_inv_set_peer [OF du_peer_on_error(2) h(1)]) (use h in \<open>simp_all add: peer_settled_def\<close>)
next
  case (du_flag S i)
  then show ?case by (intro flag_inv held_not_claimed)
next
  case (du_finish S i ok)
  note h = held_not_claimed [OF du_finish(4,2)]
  have "peer_settled p (di_objs S ! i)" using du_finish(4) h(1) by (simp add: dg_inv_def)
  with du_finish(3) have "\<not> dp_open (di_objs S ! i)" by (simp add: peer_settled_def)
  then show ?case by (rule finish_inv [OF du_finish(4) h])
next
  case (du_destroy_handle S i ok)
  note h = held_not_claimed [OF du_destroy_handle(4,2)]
  let ?T = "if dp_open (di_objs S ! i) then peer_relinquish F K p ok i S else S"
  have T: "dg_inv F p R ?T" "length (di_objs ?T) = length (di_objs S)" "di_posted ?T = di_posted S"
    using relinquish_inv [OF du_destroy_handle(4) h] du_destroy_handle(4) by simp_all
  have "dg_inv F p R (set_peer i (\<lambda>ob. ob\<lparr>dp_hold := Dropped\<rparr>) ?T)"
    using T(1) by (rule dg_inv_set_peer) (use h T(2,3) in \<open>simp_all add: peer_settled_def\<close>)
  then show ?case unfolding handle_destroy_def handle_is_open_def handle_relinquish_def Let_def option.case .
next
  case (du_drop i S)
  note h = held_not_claimed [OF du_drop(4,1)]
  show ?case by (rule dg_inv_set_peer [OF du_drop(4) h(1)]) (use h in \<open>simp_all add: peer_settled_def\<close>)
next
  case (du_free i S)
  then show ?case by (intro free_inv) (auto simp: peer_ok_def peer_held_def dg_inv_def claims_ok_def waiting_def)
next
  case (du_peer_callback i S)
  then show ?case by (intro dg_inv_set_peer) (auto simp: peer_ok_def peer_settled_def waiting_def)
qed (simp_all add: dg_submit_def dg_defer_def dg_repeat_def flow_inv send_inv local_inv claim_begin_inv dg_inv_post destroy_begin_inv dg_destroy_end_inv drop_inv)

lemma run_task_inv:
  assumes inv: "dg_inv F p R S" and t: "di_posted S = t # ts" "task_ok t S"
  shows "dg_inv F p R (dg_run_task F K p ok tid t (S\<lparr>di_posted := ts\<rparr>))"
proof -
  let ?S = "S\<lparr>di_posted := ts\<rparr>"
  have c: "claims_ok ?S" using inv t(1) by (auto simp: dg_inv_def claims_ok_def)
  then have inv': "dg_inv F p R ?S"
    using inv by (simp add: dg_inv_def holds_def exclusive_def in_order_def delivered_def ended_def)
  have w: "dg_inv F p R (run_watch p ok ow fd ?S)" for ow fd
  proof -
    have "owned (set_dispatcher d s) = owned s" for d s by (simp add: set_dispatcher_def owned_def)
    then have "dg_inv F p R (?S\<lparr>di_socket := set_dispatcher d (di_socket ?S)\<rparr>)" for d
      using inv' by (simp add: dg_inv_def holds_def exclusive_def claims_ok_def in_order_def delivered_def ended_def)
    then show ?thesis using inv' by (auto simp: run_watch_def intro: dg_inv_io)
  qed
  have cl: "dg_inv F p R (claim_run F K p i ?S)" if "t = Claim i" for i
  proof (rule claim_run_inv [OF inv'])
    show "i < length (di_objs ?S)" "waiting (di_objs ?S ! i)" "i \<notin> set (claims (di_posted ?S))"
      using inv t(1) that by (auto simp: dg_inv_def claims_ok_def)
  qed
  show ?thesis
    using w cl dg_inv_io [OF inv'] relinquish_addr_inv [OF inv'] relinquish_all_inv [OF inv'] submit_to_inv [OF inv']
      dg_inv_same [OF inv'] by (cases t) (simp_all add: dg_run_task_def delivered_def)
qed

lemma thread_step_inv:
  assumes "\<And>d h n. neutral (retrieve d h n)"
  shows "dg_thread_step F K retrieve p S T \<Longrightarrow> dg_inv F p R S \<Longrightarrow> dg_inv F p R T"
proof (induction rule: dg_thread_step.induct)
  case (dt_task S t ts ok tid)
  then show ?case by (intro run_task_inv)
next
  case (dt_claim S a)
  then show ?case by (intro claim_inline_inv)
next
  case (dt_readable S fd ev C rds T)
  from dt_readable(6) have "readable_loop F K retrieve p rds max_iterations S = Some T" by (simp add: handle_readable_def)
  from readable_loop_inv [OF assms dt_readable(7) this]
  have T: "dg_inv F p R T" "di_posted T = di_posted S" "map quiet (di_objs T) = map quiet (di_objs S)" by simp_all
  have "i < length (di_objs T) \<and> i \<notin> set (claims (di_posted T))" if "i \<in> C" for i
    using that dt_readable(3,7) T(2) peer_ok_quiet [OF T(3)] held_not_claimed [of F p R S i] by auto
  then show ?case using dt_readable(4) by (intro flags_inv T(1)) simp
next
  case (dt_peer_event S fd i ev)
  then show ?case by (intro dg_inv_cong [OF dt_peer_event(5)]) (auto simp: delivered_def dg_idle_def ended_def dg_inv_def)
next
  case (dt_peer_turn S i)
  then show ?case by (intro peer_turn_inv)
next
  case (dt_timer S t)
  obtain tid rep ow cb where t: "t = (tid, rep, ow, cb)" by (metis surj_pair)
  have "dg_timer_fire t S = (submit_to ow cb S)\<lparr>di_timers := (if rep then di_timers S else remove1 t (di_timers S))\<rparr>"
    by (simp add: dg_timer_fire_def t)
  with submit_to_inv [OF dt_timer(4), of ow cb] show ?case
    by (elim dg_inv_same) (simp_all add: delivered_def)
next
  case (dt_exit S)
  then show ?case by (intro dg_inv_cong [OF dt_exit(3)]) (auto simp: delivered_def dg_idle_def ended_def dg_inv_def)
qed

lemma dg_ready_inv:
  assumes "dg_ready F K p S"
  shows "dg_inv F p {#} S"
proof -
  from assms obtain addr config w opts where w: "clean (trace w)" "live w = {#}"
    and c: "dg_create F K p addr config (dgram_new w) = Some (void_ok, S)" and o: "effective_opts p (dc_sock_opts config) = Some opts"
    by (auto simp: dg_ready_def dg_create_def bind_eq_Some_conv)
  obtain r s w1 where r: "run_state (df_open F socket_default addr opts) w = ((r, s), w1)" by (metis surj_pair)
  from fd_wpD [OF open_owns [of socket_default _ _ "{#}"] r] w have w1: "live w1 = owned s" "clean (trace w1)" by simp_all
  obtain x w2 where nb: "run_state (set_non_blocking K p s True) w1 = (x, w2)" by (metis surj_pair)
  have w2: "live w2 = owned s" "clean (trace w2)"
    using neutral_run [OF neutral_set_non_blocking nb] neutral_clean [OF neutral_set_non_blocking nb] w1 by simp_all
  have "dg_inv F p {#} T" if "di_world T = w2 \<or> di_world T = w1" "di_socket T = s" "di_peers T = []" "di_objs T = []"
      "di_calls T = []" "di_received T = []" "di_posted T = []" "di_pc T = Dg_idle" "\<not> di_gone T" for T
    using that w1 w2 by (auto simp: dg_inv_def holds_def exclusive_def claims_ok_def in_order_def delivered_def ended_def objs_owned_def)
  then show ?thesis
    using c o r nb by (auto simp: dg_create_def dgram_new_def split: if_splits)
qed

lemma reachable_dg_inv:
  assumes "\<And>d h n. neutral (retrieve d h n)"
  shows "reachable (dg_ready F K p) (dg_step F K retrieve p) S \<Longrightarrow> dg_inv F p {#} S"
  by (induction rule: reachable.induct)
    (auto simp: dg_step_def intro: dg_ready_inv dg_user_step_inv thread_step_inv [OF assms])

end

end
