(* ===== verification/Dgram_Props.thy ===== *)
theory Dgram_Props
  imports Dgram_Runs
begin

text \<open>
  The guarantees of datagram objects over all runs, for the IPv4 instance, flow control, and what
  becomes of claimed peers after they were relinquished and after the object was destroyed.
\<close>

section \<open>Flow control\<close>

datatype flow_call = Listen bool | Listen_batch bool | Pause | Resume

fun flow :: "platform \<Rightarrow> flow_call \<Rightarrow> 'a dgram_impl \<Rightarrow> 'a dgram_impl" where
  "flow p (Listen h) S = dg_on_data h S"
| "flow p (Listen_batch h) S = dg_on_data_batch h S"
| "flow p Pause S = dg_pause p S"
| "flow p Resume S = dg_resume p S"

text \<open>One user thread calls, the loop thread runs what was posted, and the dispatcher refuses nothing.\<close>

inductive flow_step :: "'a dgram_family \<Rightarrow> kernel \<Rightarrow> platform \<Rightarrow> 'a dgram_impl \<Rightarrow> 'a dgram_impl \<Rightarrow> bool" for F K p where
  fl_call: "flow_step F K p S (flow p c S)"
| fl_task: "di_posted S = t # ts \<Longrightarrow> flow_step F K p S (dg_run_task F K p True tid t (S\<lparr>di_posted := ts\<rparr>))"

text \<open>What the dispatcher is to know about the socket, and what the posted tasks will make of it.\<close>

definition wanted :: "platform \<Rightarrow> 'a dgram_impl \<Rightarrow> (owner \<times> io_event) option" where
  "wanted p S =
     (if \<not> di_armed S then None
      else if \<not> di_paused S then Some (Parent, ev_readable)
      else if p = Windows then Some (Parent, ev_none) else None)"

fun task_effect :: "'a dg_task \<Rightarrow> (owner \<times> io_event) option \<Rightarrow> (owner \<times> io_event) option" where
  "task_effect (Watch ow fd) m = Some (ow, ev_readable)"
| "task_effect (Set_interest fd ev) m = map_option (\<lambda>x. (fst x, ev)) m"
| "task_effect _ m = None"

definition flow_task :: "platform \<Rightarrow> int \<Rightarrow> 'a dg_task \<Rightarrow> bool" where
  "flow_task p fd t \<longleftrightarrow> t = Watch Parent fd \<or> (\<exists>ev. t = Set_interest fd ev) \<or> t = Unwatch fd"

definition dgflow_inv :: "platform \<Rightarrow> 'a dgram_impl \<Rightarrow> bool" where
  "dgflow_inv p S \<longleftrightarrow> (\<forall>t \<in> set (di_posted S). flow_task p (s_handle (di_socket S)) t)
     \<and> fold task_effect (di_posted S) (di_io S (s_handle (di_socket S))) = wanted p S \<and> (di_paused S \<longrightarrow> di_armed S)"

lemma flow_call_inv: "dgflow_inv p S \<Longrightarrow> dgflow_inv p (flow p c S)"
  by (cases c) (auto simp: dgflow_inv_def wanted_def flow_task_def dg_on_data_def dg_on_data_batch_def dg_arm_def dg_pause_def
      dg_resume_def dg_post_def)

lemma flow_task_inv:
  assumes "dgflow_inv p S" and "di_posted S = t # ts"
  shows "dgflow_inv p (dg_run_task F K p True tid t (S\<lparr>di_posted := ts\<rparr>))"
proof -
  let ?fd = "s_handle (di_socket S)"
  have ft: "flow_task p ?fd t" "\<forall>u \<in> set ts. flow_task p ?fd u"
    and w: "fold task_effect ts (task_effect t (di_io S ?fd)) = wanted p S" "di_paused S \<longrightarrow> di_armed S"
    using assms by (simp_all add: dgflow_inv_def)
  from ft(1) show ?thesis
    unfolding flow_task_def
  proof (elim disjE exE)
    assume "t = Watch Parent ?fd"
    then show ?thesis using ft(2) w
      by (auto simp: dgflow_inv_def dg_run_task_def run_watch_def io_watch_def wanted_def set_dispatcher_def)
  next
    fix ev assume "t = Set_interest ?fd ev"
    then show ?thesis using ft(2) w
      by (cases "di_io S ?fd") (auto simp: dgflow_inv_def dg_run_task_def io_interest_def wanted_def)
  next
    assume "t = Unwatch ?fd"
    then show ?thesis using ft(2) w by (simp add: dgflow_inv_def dg_run_task_def io_drop_def wanted_def)
  qed
qed

lemma ready_fields:
  assumes "dg_ready F K p S"
  shows "di_posted S = []" "di_io S = Map.empty" "\<not> di_armed S" "\<not> di_paused S"
proof -
  from assms obtain addr config w opts where c: "dg_create F K p addr config (dgram_new w) = Some (void_ok, S)"
    and o: "effective_opts p (dc_sock_opts config) = Some opts" by (auto simp: dg_ready_def dg_create_def bind_eq_Some_conv)
  obtain r s w1 where "run_state (df_open F socket_default addr opts) w = ((r, s), w1)" by (metis surj_pair)
  with c o show "di_posted S = []" "di_io S = Map.empty" "\<not> di_armed S" "\<not> di_paused S"
    by (auto simp: dg_create_def dgram_new_def split: if_splits)
qed

lemma flow_ready: "dg_ready F K p S \<Longrightarrow> dgflow_inv p S"
  using ready_fields [of F K p S] by (simp add: dgflow_inv_def wanted_def)

interpretation flows: invariant_system "dg_ready F K p" "flow_step F K p" "dgflow_inv p"
  by unfold_locales (auto elim!: flow_step.cases intro: flow_ready flow_call_inv flow_task_inv)

section \<open>Concrete runs\<close>

definition win_kernel :: kernel where
  "win_kernel tr c = (case c of Sys_ctl d \<Rightarrow> (case d of Set_handle_information _ \<Rightarrow> sys_ok\<lparr>sr_rc := 1\<rparr> | _ \<Rightarrow> sys_ok) | _ \<Rightarrow> sys_ok)"

definition plain_config :: dgram_config where
  "plain_config = \<lparr>dc_sock_opts = socket_options_default\<lparr>so_has_reuse_addr := True\<rparr>, dc_read_buffer_size = 4, dc_recv_batch_size = 2\<rparr>"

abbreviation win_family :: "inet4_address dgram_family" where
  "win_family \<equiv> dgram4 win_kernel Windows"

abbreviation win_step :: "inet4_address dgram_impl \<Rightarrow> inet4_address dgram_impl \<Rightarrow> bool" where
  "win_step \<equiv> dg_step win_family win_kernel no_retrieve Windows"

lemma win_open:
  "\<exists>w. run_state (df_open win_family socket_default (inet4_default Windows) (socket_options_default\<lparr>so_has_reuse_addr := True\<rparr>)) start_world
    = ((void_ok, socket_of 0), w)"
  by (auto simp: dgram4_def udp4_open_def udp_open_def udp_configure_def socket_create_def apply_pre_bind_def apply_post_bind_def
        apply_entries_def query_buf_def socket_options_default_def io_simps win_kernel_def sys_ok_def set_non_blocking_def
        invalid_socket_def socket_move_assign_def socket_move_def socket_close_def socket_of_def
        socket_bind_def socket_default_def Let_def is_ok_def void_ok_def no_error_def split: prod.splits)

definition opened :: "inet4_address dgram_impl" where
  "opened = snd (the (dg_create win_family win_kernel Windows (inet4_default Windows) plain_config (dgram_new start_world)))"

lemma opened_ready:
  "dg_ready win_family win_kernel Windows opened"
  "di_running opened" "di_objs opened = []" "di_peers opened = []" "di_pc opened = Dg_idle" "\<not> di_gone opened"
  "di_calls opened = []" "di_ran opened = 0" "di_socket opened = socket_of 0"
proof -
  obtain w where w: "run_state (df_open win_family socket_default (inet4_default Windows)
      (socket_options_default\<lparr>so_has_reuse_addr := True\<rparr>)) start_world = ((void_ok, socket_of 0), w)" using win_open by blast
  have o: "is_ok void_ok" by (simp add: is_ok_def void_ok_def no_error_def)
  have c: "dg_create win_family win_kernel Windows (inet4_default Windows) plain_config (dgram_new start_world) = Some (void_ok, opened)"
    using w o by (simp add: opened_def dg_create_def effective_opts_def plain_config_def dgram_new_def)
  show "dg_ready win_family win_kernel Windows opened"
    unfolding dg_ready_def using c
    by (intro exI [of _ "inet4_default Windows"] exI [of _ plain_config] exI [of _ start_world]) (simp add: start_world_def)
  show "di_running opened" "di_objs opened = []" "di_peers opened = []" "di_pc opened = Dg_idle" "\<not> di_gone opened"
    "di_calls opened = []" "di_ran opened = 0" "di_socket opened = socket_of 0"
    using w o by (simp_all add: opened_def dg_create_def effective_opts_def plain_config_def dgram_new_def)
qed

text \<open>The user claims Alice and holds the handle.\<close>

definition holding :: "inet4_address dgram_impl" where
  "holding = opened\<lparr>di_objs := [(new_peer win_family alice)\<lparr>dp_promise := Some void_ok, dp_hold := Held\<rparr>], di_peers := [(alice, 0)]\<rparr>"

lemma holding_reached: "win_step\<^sup>*\<^sup>* opened holding"
proof -
  note f = opened_ready ready_fields(1) [OF opened_ready(1)]
  let ?S1 = "claim_begin win_family alice opened"
  have 1: "win_step opened ?S1" by (simp add: dg_step_def dg_user_step.du_claim f)
  have p: "dg_idle ?S1" "di_posted ?S1 = [Claim 0]" "task_ok (Claim 0) ?S1"
    by (simp_all add: claim_begin_def dg_post_def f dg_idle_def peer_ok_def new_peer_def)
  let ?S2 = "opened\<lparr>di_objs := [(new_peer win_family alice)\<lparr>dp_promise := Some void_ok\<rparr>], di_peers := [(alice, 0)]\<rparr>"
  have "dg_run_task win_family win_kernel Windows True 0 (Claim 0) (?S1\<lparr>di_posted := []\<rparr>) = ?S2"
    by (simp add: dg_run_task_def claim_run_def execute_claim_def claim_begin_def dg_post_def f Let_def claimed_find_def
        has_kernel_udp_demux_def new_peer_def set_peer_def)
  then have 2: "win_step ?S1 ?S2"
    using dg_thread_step.dt_task [OF p, of win_family win_kernel no_retrieve Windows True 0] by (simp add: dg_step_def)
  have "claim_answer Windows 0 void_ok ?S2 = holding"
    by (simp add: claim_answer_def peer_arm_def has_kernel_udp_demux_def is_ok_def void_ok_def no_error_def holding_def set_peer_def)
  moreover have "dg_user_step win_family win_kernel Windows ?S2 (claim_answer Windows 0 void_ok ?S2)"
    by (rule dg_user_step.du_claimed) (simp_all add: f peer_ok_def new_peer_def)
  ultimately have 3: "win_step ?S2 holding" by (simp add: dg_step_def)
  show ?thesis using 1 2 3 by (meson rtranclp.rtrancl_into_rtrancl rtranclp.rtrancl_refl)
qed

lemma holding_reachable: "reachable (dg_ready win_family win_kernel Windows) win_step holding"
  by (rule reachable_steps [OF holding_reached]) (rule reach_init, rule opened_ready(1))

text \<open>The object is destroyed while the user holds the handle; the loop ends before it runs its posts.\<close>

lemma abandoned_reachable:
  "\<exists>S. reachable (dg_ready win_family win_kernel Windows) win_step S \<and> di_gone S
     \<and> di_objs S = [(new_peer win_family alice)\<lparr>dp_promise := Some void_ok, dp_hold := Held\<rparr>]"
proof -
  let ?S1 = "dg_destroy_begin win_kernel Windows holding" and ?obs = "di_objs holding"
  let ?S2 = "?S1\<lparr>di_running := False\<rparr>"
  let ?S3 = "dg_destroy_end win_kernel Windows True ?S2"
  note f = opened_ready ready_fields [OF opened_ready(1)]
  have f1: "di_objs ?S1 = ?obs" "dg_idle ?S1" "di_stopping ?S1" "\<not> di_gone ?S1" "di_calls ?S1 = []" "di_ran ?S1 = 0"
    "di_socket ?S1 = socket_of 0"
    by (simp_all add: dg_destroy_begin_def dg_post_def holding_def f dg_idle_def Let_def)
  have f3: "di_objs ?S3 = ?obs" "\<not> di_running ?S3" "di_stopping ?S3" "\<not> di_gone ?S3" "di_calls ?S3 = []" "di_ran ?S3 = 0"
    "\<not> is_open (di_socket ?S3)"
    using f1 by (simp_all add: dg_destroy_end_def Let_def io_drop_def dg_idle_def socket_close_def io_simps set_dispatcher_def
        is_open_def socket_of_def invalid_socket_def win_kernel_def sys_ok_def close_call_def socket_default_def split: prod.split)
  have "win_step holding ?S1" by (simp add: dg_step_def dg_user_step.du_destroy holding_def f)
  moreover have "win_step ?S1 ?S2" using f1 by (simp add: dg_step_def dg_thread_step.dt_exit)
  moreover have "win_step ?S2 ?S3" using f1 by (simp add: dg_step_def dg_user_step.du_destroyed)
  moreover have "win_step ?S3 (dg_drop ?S3)"
    using f3 by (simp add: dg_step_def dg_user_step.du_gone all_called_def holding_def new_peer_def)
  ultimately have "win_step\<^sup>*\<^sup>* holding (dg_drop ?S3)" by (meson rtranclp.rtrancl_into_rtrancl rtranclp.rtrancl_refl)
  from reachable_steps [OF this holding_reachable] show ?thesis
    by (intro exI [of _ "dg_drop ?S3"]) (simp add: dg_drop_def f3(1), simp add: holding_def)
qed

section \<open>Properties\<close>

text \<open>
  C10: under every interleaving of user threads, pool and loop thread and whatever the system answers,
  the open descriptors are the socket of the datagram object and the connected sockets of its peers,
  and none is closed twice. A relinquished peer has no socket, and once the object is destroyed and its
  peers are relinquished nothing is left open.
\<close>

theorem dgram_accounts:
  assumes "\<And>d h n. neutral (retrieve d h n)"
    and "reachable (dg_ready (dgram4 K p) K p) (dg_step (dgram4 K p) K retrieve p) S"
  shows "live (di_world S) = owned (di_socket S) + objs_owned (di_objs S) \<and> clean (trace (di_world S))
    \<and> (\<forall>ob \<in> set (di_objs S). \<not> dp_open ob \<and> \<not> dp_closing ob \<longrightarrow> peer_owned (dp_sock ob) = {#})
    \<and> (di_gone S \<and> (\<forall>ob \<in> set (di_objs S). \<not> dp_open ob \<and> \<not> dp_closing ob) \<longrightarrow> live (di_world S) = {#})"
proof -
  have inv: "dg_inv (dgram4 K p) p {#} S" by (rule udp4.reachable_dg_inv [OF assms])
  have c: "peer_owned (dp_sock ob) = {#}" if "ob \<in> set (di_objs S)" "\<not> dp_open ob \<and> \<not> dp_closing ob" for ob
    using inv that by (intro peer_closed_owns) (auto simp: dg_inv_def peer_settled_def)
  have "objs_owned obs = {#}" if "\<forall>ob \<in> set obs. peer_owned (dp_sock ob) = {#}" for obs :: "inet4_address peer_object list"
    using that by (induction obs) (simp_all add: objs_owned_def)
  with c inv show ?thesis by (auto simp: dg_inv_def holds_def ended_def)
qed

text \<open>
  C13: no two claimed peers of a datagram object have the same address, and every entry of the table
  leads to the peer that claimed its address, in every reachable state.
\<close>

theorem dgram_claims_exclusive:
  assumes "\<And>d h n. neutral (retrieve d h n)"
    and "reachable (dg_ready (dgram4 K p) K p) (dg_step (dgram4 K p) K retrieve p) S"
  shows "(\<forall>i j. i < j \<longrightarrow> j < length (di_peers S) \<longrightarrow> \<not> inet4_eq (fst (di_peers S ! i)) (fst (di_peers S ! j)))
    \<and> (\<forall>(a, i) \<in> set (di_peers S). i < length (di_objs S) \<and> dp_addr (di_objs S ! i) = a)"
  using udp4.reachable_dg_inv [OF assms]
  by (auto simp: dg_inv_def exclusive_def sorted_wrt_iff_nth_less dgram4_def)



text \<open>
  A peer that its user has relinquished stays in the table: until a datagram from its address
  arrives, claiming that address again is refused with \<open>address_in_use\<close>.
\<close>

theorem dgram_reclaim_refused:
  assumes "claimed_find F a S = Some i" and "T = relinquish_finish F K p ok i (relinquish_flag i S)"
    and "dp_addr (di_objs T ! j) = a"
  shows "execute_claim F K p j T = (make_error_code address_in_use, T)"
proof -
  have "claimed_find F a T = Some i" using assms(1,2) by (simp add: claimed_find_def)
  with assms(3) show ?thesis by (simp add: execute_claim_def Let_def)
qed

text \<open>
  Destroying a datagram object does not always relinquish its peers: the task that would do so is
  posted, but the loop is told to stop right after and may end before it runs the task. A user's handle
  is then still open and points to a loop, a pool and a socket that no longer exist.
\<close>

theorem dgram_destroy_leaves_peers:
  "\<exists>S. reachable (dg_ready win_family win_kernel Windows) win_step S \<and> di_gone S
     \<and> (\<exists>ob \<in> set (di_objs S). dp_open ob \<and> dp_hold ob = Held)"
  using abandoned_reachable by (auto simp: new_peer_def)

section \<open>Witnesses\<close>

lemma neutral_no_retrieve: "neutral (no_retrieve d h n)"
  unfolding no_retrieve_def by (rule neutral_return)

theorem dgram_accounts_witness:
  "live (di_world holding) = owned (di_socket holding) + objs_owned (di_objs holding) \<and> owned (di_socket holding) = {#0#}"
  using dgram_accounts [OF neutral_no_retrieve holding_reachable]
  by (simp add: holding_def opened_ready owned_def socket_of_def invalid_socket_def)

theorem dgram_claims_exclusive_witness:
  "di_peers holding = [(alice, 0)] \<and> 0 < length (di_objs holding) \<and> dp_addr (di_objs holding ! 0) = alice"
proof -
  have "di_peers holding = [(alice, 0)]" by (simp add: holding_def)
  with dgram_claims_exclusive [OF neutral_no_retrieve holding_reachable] show ?thesis by auto
qed



theorem dgram_reclaim_refused_witness:
  "fst (execute_claim win_family win_kernel Windows 0
     (relinquish_finish win_family win_kernel Windows True 0 (relinquish_flag 0 holding))) = make_error_code address_in_use"
proof -
  have "claimed_find win_family alice holding = Some 0"
    by (simp add: claimed_find_def holding_def dgram4_def alice_bob)
  moreover have "dp_addr (di_objs (relinquish_finish win_family win_kernel Windows True 0 (relinquish_flag 0 holding)) ! 0) = alice"
    by (simp add: holding_def relinquish_flag_def relinquish_finish_def new_peer_def set_peer_def has_kernel_udp_demux_def Let_def)
  ultimately show ?thesis using dgram_reclaim_refused [OF _ refl] by (metis fst_conv)
qed

end
