(* ===== verification/Spec2Isabelle.thy ===== *)
theory Spec2Isabelle
  imports Errors Address Small_Vector Options Socket Tcp Udp Udp_Peer Io_Event Thread_Pool Serial_Queue Connection
    Waker Dispatcher Epoll Kqueue Iocp Iocp_Runs Iocp_Marks Iocp_Props Udp_Mux Udp_Mux_Runs Udp_Mux_Props Loop Spinlock Async
    Stream_Impl Streams Stream_Order Stream_Table Stream_Props
    Dgram_Impl Dgrams Dgram_Runs Dgram_Props
begin

text \<open>
  socketpp: a verification development of the C++ networking library under \<open>src/\<close>.

  \<^bold>\<open>The program.\<close> socketpp is a portable (Linux, macOS, Windows) socket library in three layers.
  The lowest layer has error codes and \<open>result<T>\<close> (\<open>platform/\<close>), socket addresses (\<open>net/\<close>), socket
  options and the sockets themselves (\<open>socket/\<close>). The middle layer has the event dispatchers
  (\<open>event/epoll.cpp\<close>, \<open>event/kqueue.cpp\<close>, \<open>event/iocp.cpp\<close>), the event loop and timers. The upper
  layer (\<open>high/\<close>) has TCP streams and UDP datagram endpoints whose callbacks run on a thread pool,
  serialised per connection by a serial queue.

  \<^bold>\<open>The model of the outside.\<close> \<open>Prelude\<close> has the operating system as a parameter: a \<open>kernel\<close> answers
  each \<open>syscall\<close> as it likes, given the trace of everything asked before; a \<open>world\<close> is that trace and
  \<open>errno\<close>; an operation of the library is a state transformer on the world. \<open>live\<close> reads the multiset
  of open descriptors and handles off a trace, \<open>fd_wp\<close> is a weakest-precondition calculus for it, and
  \<open>yields\<close> one for the values that operations return. A platform
  branch of the source (\<open>#if\<close>) is a case distinction on \<open>platform\<close>, so a theorem about an operation
  holds for the three platforms unless it names one. The locale \<open>invariant_system\<close> has the rule
  induction over reachable states that the concurrent components share.

  \<^bold>\<open>The components.\<close>
  \<^item> \<open>Errors\<close>: \<open>platform/error.hpp\<close>, \<open>error.cpp\<close>. \<open>errc\<close>, \<open>normalize_error\<close>, and \<open>result<T>\<close> with the
    liveness of its two slots; it refines the sum type.
  \<^item> \<open>Address\<close>: \<open>net/\<close>. Addresses as the bytes of their \<open>sockaddr\<close> on each platform; round trips,
    parsing and printing over any \<open>inet_pton\<close>/\<open>inet_ntop\<close>, and the laws a key of a hash map or a
    sorted map needs (locale \<open>address_key\<close>).
  \<^item> \<open>Small_Vector\<close>: the inline vector of \<open>socket/options.hpp\<close> with its slots and object lifetimes;
    it refines the list (locale \<open>seq_container\<close>).
  \<^item> \<open>Options\<close>: the option builder and the apply loops of \<open>socket/options.hpp\<close> and \<open>options.cpp\<close>; the
    calls they make, in order, against a reference table.
  \<^item> \<open>Socket\<close>: \<open>socket/socket.hpp\<close>, \<open>socket.cpp\<close>. The move-only owner of a descriptor; no program over
    socket objects leaks or closes twice. The locale \<open>owning_factory\<close> is the contract of everything
    that returns a socket, and is interpreted by \<open>create\<close>, \<open>accept\<close>, \<open>connect\<close> and the UDP factories.
  \<^item> \<open>Tcp\<close>, \<open>Udp\<close>: \<open>socket/tcp*.cpp\<close>, \<open>socket/udp.cpp\<close>. Data transfer, listeners, connect, batches.
    \<open>Udp_Peer\<close>: the connected peer sockets of \<open>socket/udp_peer.cpp\<close> on POSIX systems, which interpret
    \<open>owning_factory\<close> too.
  \<^item> \<open>Io_Event\<close>, \<open>Dispatcher\<close>: the event flags and the abstract class of \<open>event/dispatcher.hpp\<close>. The
    locale \<open>dispatcher_table\<close> is its contract: a table of callbacks and a table of timers.
  \<^item> \<open>Waker\<close>, \<open>Epoll\<close>, \<open>Kqueue\<close>: \<open>event/waker.hpp\<close>, \<open>epoll.cpp\<close>, \<open>kqueue.cpp\<close>. Both backends
    interpret \<open>dispatcher_table\<close>; their descriptors are accounted for under every callback; the kqueue
    filters in the system follow the recorded interest.
  \<^item> \<open>Iocp\<close>: \<open>event/iocp.cpp\<close>, the dispatcher over a completion port, with a heap object per socket whose
    addresses come from the allocator; it interprets \<open>dispatcher_table\<close> too. \<open>Iocp_Runs\<close> shows, for all
    callbacks, that its handles are accounted for and that every interest has an overlapped operation
    under way, \<open>Iocp_Marks\<close> that between polls no socket is marked as to be notified, and \<open>Iocp_Props\<close>
    what a poll does to the datagrams of a socket, and states the properties.
  \<^item> \<open>Udp_Mux\<close>: \<open>socket/udp_mux.hpp\<close> and the Windows half of \<open>udp_peer.cpp\<close>, peer sockets that share one
    socket through a demultiplexer with a thread. \<open>Udp_Mux_Runs\<close> has the invariant of all interleavings,
    for an address type that satisfies the locale \<open>mux_keys\<close>; \<open>Udp_Mux_Props\<close> states what a peer socket
    receives, what is open, and what goes wrong with the life times.
  \<^item> \<open>Loop\<close>: \<open>event/loop.hpp\<close>, \<open>timer.hpp\<close>. The double buffer of posted callbacks refines one queue,
    no post or stop is lost to a blocking poll, and timer handles account for every timer.
  \<^item> \<open>Spinlock\<close>: \<open>platform/spinlock.hpp\<close>, mutual exclusion.
  \<^item> \<open>Async\<close>: \<open>socket/tcp_accept_loop.cpp\<close>, \<open>tcp_connect_async.cpp\<close>, \<open>udp_recv_async.cpp\<close>, as callbacks
    that return their requests to the loop; every socket is handed out or closed, handlers run once.
  \<^item> \<open>Thread_Pool\<close>: \<open>high/thread_pool.cpp\<close>. A step per critical section; FIFO start order, drained
    shutdown. The locale \<open>task_executor\<close> is what its clients rely on.
  \<^item> \<open>Serial_Queue\<close>: \<open>high/serial_queue.hpp\<close>, over \<open>task_executor\<close>; one callback at a time, in order.
  \<^item> \<open>Connection\<close>: \<open>high/connection_engine.hpp\<close>, \<open>stream_connection_impl.hpp\<close>. The loop thread and the
    user threads on one connection; byte-stream conservation in both directions, exact accounting of
    the write queue, no lost writable wake-up, one close.
  \<^item> \<open>Stream_Impl\<close>: \<open>high/stream.cpp\<close>, the server and client over \<open>Connection\<close> and \<open>Async\<close>. \<open>Streams\<close>
    shows the accounting of descriptors and that every connection keeps the engine's guarantees,
    \<open>Stream_Order\<close> that no data comes before \<open>on_connect\<close> has returned, \<open>Stream_Table\<close> the limit, the
    count and what a destroyed server leaves; \<open>Stream_Props\<close> states them. The locale \<open>stream_family\<close> is
    what the two address families provide.
  \<^item> \<open>Dgram_Impl\<close>: \<open>high/dgram.cpp\<close>, \<open>dgram_peer_impl.hpp\<close>, \<open>dgram_peer.cpp\<close>, the datagram object with
    its table of claimed peers, over \<open>Udp\<close> and \<open>Udp_Peer\<close>. \<open>Dgrams\<close> shows how received datagrams are
    routed, and that the batch handler and the single handler agree; \<open>Dgram_Runs\<close> has the invariant of
    all interleavings, for any address family that satisfies the locale \<open>dgram_laws\<close>; \<open>Dgram_Props\<close>
    states the accounting of descriptors, the exclusive claims, the order of delivery, the flow control,
    and two ways in which the peers do not follow their documentation.

  \<^bold>\<open>Bounds and fuel.\<close> No definition has fuel: loops are structural recursions or step relations;
  the accept loop and the drain of the wake-up pipe, which only the system ends, are partial functions
  into \<open>option\<close>, as is \<open>on_readable\<close> of the demultiplexer, with a theorem that they return. The receive loop of a datagram object counts down from
  the code's own \<open>max_iterations\<close>; there \<open>None\<close> is a memory access outside of a buffer. A
  \<open>size_t\<close> that can wrap is a 64-bit word; the theorems about the write queue assume buffers and the
  configured limit below \<open>2^62\<close> bytes, which every object of a real address space satisfies. Word
  widths are those of the supported 64-bit targets.

  \<^bold>\<open>Concurrency.\<close> A step of a relation is one critical section of a mutex, one posted task, one event
  or one system call of a loop that holds no lock. Relaxed loads of an atomic flag may be out of date
  and are a free choice of the step where the code tolerates them. Spin locks around single socket
  calls have no effect on those calls and are left out; \<open>Spinlock\<close> justifies treating their critical
  sections as atomic.

  \<^bold>\<open>Not modelled.\<close> Platform detection, Winsock start-up and
  umbrella headers have no logic.
\<close>

end
